(* ===== verification/Lume_Prelude.thy ===== *)
theory Lume_Prelude
  imports Main "HOL-Library.Finite_Map" "HOL-Library.Word" "HOL-Library.List_Lexorder"
    "HOL-Library.Char_ord" "HOL-Library.Multiset"
begin

text \<open>
  The vocabulary the component theories share: Go's integer types at their width, Go maps
  (with nil), Go errors and panics as values, the range loop over a map, the binary search of
  the standard library, and the generic lemmas on them.
\<close>

unbundle bit_operations_syntax

section \<open>Lemma collections\<close>

named_theorems gomap_simps "lookups after writes to a Go map"
named_theorems ts_simps "comparisons of hybrid logical timestamps as the linear order"
named_theorems eng_simps "effect of the engine operations on the abstract key-value map"
named_theorems vm_simps "effect of the version manager operations on the node state"

section \<open>Machine integers\<close>

text \<open>
  \<open>u64\<close>, \<open>u32\<close>, \<open>u8\<close> are Go's unsigned types; \<open>i64\<close> is Go's \<open>int64\<close>, the same bits read in two's
  complement (comparisons use \<open>sint\<close> through \<open><s\<close>). Addition wraps, as in Go. Slice lengths and
  indices, Go's \<open>int\<close>, are \<open>nat\<close> where they cannot be negative and \<open>int\<close> where they can.
\<close>

type_synonym u64 = "64 word"
type_synonym i64 = "64 word"
type_synonym u32 = "32 word"
type_synonym u16 = "16 word"
type_synonym u8 = "8 word"
type_synonym bytes = "8 word list"

text \<open>Go's built-in \<open>max\<close> on \<open>int64\<close>.\<close>

definition max_i64 :: "i64 \<Rightarrow> i64 \<Rightarrow> i64" where
  "max_i64 a b = (if a <s b then b else a)"

lemma sint_eqI: "sint a = sint b \<Longrightarrow> a = (b :: 'a::len word)"
  by (rule signed_word_eqI)

lemma sint_add_nonneg:
  fixes a b :: i64
  assumes "0 \<le> sint a" "0 \<le> sint b" "sint a + sint b < 2 ^ 63"
  shows "sint (a + b) = sint a + sint b"
  using assms by (simp add: sint_word_ariths signed_take_bit_int_eq_self)

lemma sint_max_i64: "sint (max_i64 a b) = max (sint a) (sint b)"
  by (simp add: max_i64_def word_sless_alt)

lemma max_i64_commute: "max_i64 a b = max_i64 b a"
  by (rule sint_eqI) (simp add: sint_max_i64 max.commute)

lemma max_i64_assoc: "max_i64 (max_i64 a b) c = max_i64 a (max_i64 b c)"
  by (rule sint_eqI) (simp add: sint_max_i64 max.assoc)

lemma max_i64_left_commute: "max_i64 a (max_i64 b c) = max_i64 b (max_i64 a c)"
  by (rule sint_eqI) (simp add: sint_max_i64 max.left_commute)

lemma max_i64_idem [simp]: "max_i64 a a = a"
  by (simp add: max_i64_def)

lemma max_i64_left_idem [simp]: "max_i64 a (max_i64 a b) = max_i64 a b"
  by (rule sint_eqI) (simp add: sint_max_i64)

lemmas max_i64_ac = max_i64_commute max_i64_assoc max_i64_left_commute

text \<open>A \<open>uint64\<close> that is not the largest one increments without wrapping.\<close>

lemma unat_Suc_word: "x \<noteq> - 1 \<Longrightarrow> unat (x + 1) = Suc (unat (x :: 'a::len word))"
  by (metis unatSuc add.commute add.right_inverse add_left_cancel)

lemma less_Suc_word: "x \<noteq> - 1 \<Longrightarrow> (x :: 'a::len word) < x + 1"
  by (simp add: word_less_nat_alt unat_Suc_word)

section \<open>Errors and panics\<close>

text \<open>
  Go's error returns and run-time panics as values: a function that can fail returns
  \<open>go_error + 'a\<close>, with \<open>Inl\<close> for the failure. The constructors name the error variables of the
  source; \<open>Panic\<close> stands for a run-time panic with its cause.
\<close>

datatype go_panic = NilMapWrite | NilDereference | IndexOutOfRange | MakeNegativeLen
  | ExplicitPanic string

datatype go_error =
    ErrInvalidDeltaType | ErrCRDTTypeMismatch | ErrDeltaTypeMismatch
  | ErrCRDTNotFound | ErrInvalidCRDTType | ErrInvalidUpdateType
  | ErrCannotUnmarshal | ErrCannotMerge | ErrCannotMarshal | ErrCannotMergeRanges
  | ErrTypeMismatch | ErrApplyDelta go_error | ErrCreateCRDT go_error | ErrUnknownUpdateType
  | ErrKeyNotFound | ErrUnexpectedType | ErrInternal | ErrUnsupportedType
  | ErrUnknownOperation | ErrNotFound | ErrNoPeers | ErrTooFewPeers | ErrTransport
  | ErrNotSupported | ErrContextDone | ErrWal | ErrJson | ErrCannotConvert
  | Panic go_panic

abbreviation nil_map_write :: "go_error + 'a" where
  "nil_map_write \<equiv> Inl (Panic NilMapWrite)"

fun is_panic :: "go_error + 'a \<Rightarrow> bool" where
  "is_panic (Inl (Panic p)) = True"
| "is_panic _ = False"

fun bind_res :: "'e + 'a \<Rightarrow> ('a \<Rightarrow> 'e + 'b) \<Rightarrow> 'e + 'b" where
  "bind_res (Inl e) f = Inl e"
| "bind_res (Inr x) f = f x"

lemma bind_res_Inr_iff: "bind_res r f = Inr y \<longleftrightarrow> (\<exists>x. r = Inr x \<and> f x = Inr y)"
  by (cases r) auto

section \<open>Go maps\<close>

text \<open>
  A Go map value is nil (\<open>None\<close>) or a reference to a finite table. Reading a nil map behaves as
  reading an empty one; writing to it panics. Components whose maps are never nil use the \<open>fmap\<close>
  directly.
\<close>

type_synonym ('k, 'v) gomap = "('k, 'v) fmap option"

fun gm :: "('k, 'v) gomap \<Rightarrow> ('k, 'v) fmap" where
  "gm None = fmempty"
| "gm (Some m) = m"

text \<open>\<open>m[k]\<close> with the zero value of the element type for a missing key.\<close>

definition fm_get :: "('k, 'v::zero) fmap \<Rightarrow> 'k \<Rightarrow> 'v" where
  "fm_get m k = (case fmlookup m k of None \<Rightarrow> 0 | Some v \<Rightarrow> v)"

text \<open>\<open>m[k] = v\<close>.\<close>

fun gm_set :: "'k \<Rightarrow> 'v \<Rightarrow> ('k, 'v) gomap \<Rightarrow> go_error + ('k, 'v) gomap" where
  "gm_set k v None = nil_map_write"
| "gm_set k v (Some m) = Inr (Some (fmupd k v m))"

text \<open>
  The entries a \<open>range\<close> loop visits. Go leaves the order unspecified; the model fixes the sorted
  order, and the lemmas about loops over a map are proved for every list of entries with distinct
  keys, so that they do not depend on this choice.
\<close>

definition fm_entries :: "('k::linorder, 'v) fmap \<Rightarrow> ('k \<times> 'v) list" where
  "fm_entries m = map (\<lambda>k. (k, the (fmlookup m k))) (sorted_list_of_fset (fmdom m))"

abbreviation gm_entries :: "('k::linorder, 'v) gomap \<Rightarrow> ('k \<times> 'v) list" where
  "gm_entries m \<equiv> fm_entries (gm m)"

text \<open>\<open>es\<close> is one of the orders in which a range loop over \<open>m\<close> may run.\<close>

definition range_order :: "('k \<times> 'v) list \<Rightarrow> ('k, 'v) fmap \<Rightarrow> bool" where
  "range_order es m \<longleftrightarrow> distinct (map fst es) \<and> map_of es = fmlookup m"

lemma map_of_notin: "k \<notin> fst ` set es \<Longrightarrow> map_of es k = None"
  by (simp add: map_of_eq_None_iff)

lemma fst_fm_entries [simp]: "map fst (fm_entries m) = sorted_list_of_fset (fmdom m)"
  by (simp add: fm_entries_def o_def)

lemma distinct_fm_entries [simp]: "distinct (map fst (fm_entries m))"
  by (simp add: sorted_list_of_fset.rep_eq del: distinct_map)

lemma set_fm_entries: "set (fm_entries m) = {(k, v). fmlookup m k = Some v}"
  by (auto simp: fm_entries_def fmlookup_dom_iff image_iff)

lemma range_order_fm_entries [simp]: "range_order (fm_entries m) m"
proof -
  have "map_of (fm_entries m) k = fmlookup m k" for k
  proof (cases "fmlookup m k")
    case None
    then show ?thesis by (auto simp: map_of_eq_None_iff set_fm_entries)
  next
    case (Some v)
    then have "(k, v) \<in> set (fm_entries m)" by (simp add: set_fm_entries)
    then have "map_of (fm_entries m) k = Some v" by (rule map_of_is_SomeI [OF distinct_fm_entries])
    with Some show ?thesis by simp
  qed
  then show ?thesis unfolding range_order_def using distinct_fm_entries by blast
qed

lemma range_order_set:
  assumes "range_order es m"
  shows "set es = {(k, v). fmlookup m k = Some v}"
proof -
  have "(k, v) \<in> set es \<longleftrightarrow> fmlookup m k = Some v" for k v
    using assms map_of_eq_Some_iff [of es k v] by (auto simp: range_order_def)
  then show ?thesis by auto
qed

lemma range_order_perm:
  assumes "range_order es m"
  shows "mset es = mset (fm_entries m)"
proof (rule set_eq_iff_mset_eq_distinct [THEN iffD1])
  from assms show "distinct es" by (auto simp: range_order_def distinct_map)
  show "distinct (fm_entries m)" using distinct_map [of fst "fm_entries m"] distinct_fm_entries [of m] by blast
  from assms show "set es = set (fm_entries m)" by (simp add: range_order_set set_fm_entries)
qed

lemma fm_get_fmupd [gomap_simps]: "fm_get (fmupd k v m) k' = (if k = k' then v else fm_get m k')"
  by (simp add: fm_get_def)

lemma fm_get_fmempty [simp, gomap_simps]: "fm_get fmempty k = 0"
  by (simp add: fm_get_def)

lemma gm_set_Inr_iff [simp]: "gm_set k v m = Inr m' \<longleftrightarrow> m \<noteq> None \<and> m' = Some (fmupd k v (gm m))"
  by (cases m) auto

section \<open>sort.Search\<close>

text \<open>
  The standard library's binary search: the least index in \<open>[0, n)\<close> at which the predicate holds,
  or \<open>n\<close>, provided the predicate is monotone.
\<close>

function sort_search_loop :: "(nat \<Rightarrow> bool) \<Rightarrow> nat \<Rightarrow> nat \<Rightarrow> nat" where
  "sort_search_loop f i j =
     (if i < j
      then (let h = (i + j) div 2
            in if \<not> f h then sort_search_loop f (h + 1) j else sort_search_loop f i h)
      else i)"
  by pat_completeness auto
termination
  by (relation "measure (\<lambda>(f, i, j). j - i)") auto

declare sort_search_loop.simps [simp del]

definition sort_search :: "nat \<Rightarrow> (nat \<Rightarrow> bool) \<Rightarrow> nat" where
  "sort_search n f = sort_search_loop f 0 n"

definition mono_below :: "nat \<Rightarrow> (nat \<Rightarrow> bool) \<Rightarrow> bool" where
  "mono_below n f \<longleftrightarrow> (\<forall>a b. a \<le> b \<longrightarrow> b < n \<longrightarrow> f a \<longrightarrow> f b)"

lemma sort_search_loop_correct:
  assumes "mono_below n f" and "i \<le> j" and "j \<le> n"
    and "\<forall>k<i. \<not> f k" and "\<forall>k. j \<le> k \<longrightarrow> k < n \<longrightarrow> f k"
  shows "sort_search_loop f i j \<le> n
    \<and> (\<forall>k < sort_search_loop f i j. \<not> f k)
    \<and> (\<forall>k. sort_search_loop f i j \<le> k \<longrightarrow> k < n \<longrightarrow> f k)"
  using assms
proof (induction f i j rule: sort_search_loop.induct)
  case (1 f i j)
  let ?h = "(i + j) div 2"
  show ?case
  proof (cases "i < j")
    case False
    then have "sort_search_loop f i j = i" by (simp add: sort_search_loop.simps [of f i j])
    with False "1.prems" show ?thesis by simp
  next
    case True
    then have h: "i \<le> ?h" "?h < j" by auto
    show ?thesis
    proof (cases "f ?h")
      case True
      from "1.prems" h True have "\<forall>k. ?h \<le> k \<longrightarrow> k < n \<longrightarrow> f k"
        by (auto simp: mono_below_def)
      with "1.IH"(2) [OF \<open>i < j\<close> refl] "1.prems" h True \<open>i < j\<close> show ?thesis
        by (simp add: sort_search_loop.simps [of f i j] Let_def)
    next
      case False
      have "\<forall>k<?h + 1. \<not> f k"
      proof (intro allI impI)
        fix k assume "k < ?h + 1"
        with h "1.prems"(3) have "k \<le> ?h" "?h < n" by auto
        with False "1.prems"(1) show "\<not> f k" unfolding mono_below_def by blast
      qed
      with "1.IH"(1) [OF \<open>i < j\<close> refl] "1.prems" h False \<open>i < j\<close> show ?thesis
        by (simp add: sort_search_loop.simps [of f i j] Let_def)
    qed
  qed
qed

lemma sort_search_correct:
  assumes "mono_below n f"
  shows "sort_search n f \<le> n"
    and "k < sort_search n f \<Longrightarrow> \<not> f k"
    and "sort_search n f \<le> k \<Longrightarrow> k < n \<Longrightarrow> f k"
  using sort_search_loop_correct [OF assms, of 0 n] by (auto simp: sort_search_def)

lemma sort_search_unique:
  assumes "mono_below n f" and "r \<le> n" and "\<forall>k<r. \<not> f k" and "\<forall>k. r \<le> k \<longrightarrow> k < n \<longrightarrow> f k"
  shows "sort_search n f = r"
proof (rule ccontr)
  assume "sort_search n f \<noteq> r"
  then consider "sort_search n f < r" | "r < sort_search n f" by linarith
  then show False
    using sort_search_correct [OF assms(1)] assms(2-4) by cases (auto dest: less_le_trans)
qed

section \<open>Lists of goroutines\<close>

text \<open>Sums over a list of which one element changes or is taken out.\<close>

lemma sum_list_change:
  fixes f :: "'a \<Rightarrow> 'b::comm_monoid_add"
  assumes "i < length ws"
  shows "sum_list (map f (ws[i := w])) + f (ws ! i) = sum_list (map f ws) + f w"
  by (subst (3) id_take_nth_drop [OF assms]) (simp add: upd_conv_take_nth_drop [OF assms] ac_simps)

lemma sum_list_take_out:
  fixes f :: "'a \<Rightarrow> 'b::comm_monoid_add"
  assumes "i < length ws"
  shows "sum_list (map f (take i ws @ drop (Suc i) ws)) + f (ws ! i) = sum_list (map f ws)"
  by (subst (3) id_take_nth_drop [OF assms]) (simp add: ac_simps)

end
