(* ===== verification/Crdt_Laws.thy ===== *)
theory Crdt_Laws
  imports Lume_Prelude
begin

text \<open>
  What a replicated data type promises to the layers that deliver its deltas: applying a delta keeps
  the invariant, deltas commute, and applying one twice is applying it once. Proved once from
  these laws: the outcome of a delivery depends only on the set of deltas delivered, not on their
  order or on duplicates. The counter and the register interpret the locale on their own
  operations.
\<close>

locale delta_crdt =
  fixes absorb :: "'d \<Rightarrow> 's \<Rightarrow> 's"
    and valid :: "'d \<Rightarrow> bool"
    and invar :: "'s \<Rightarrow> bool"
  assumes invar_absorb: "invar s \<Longrightarrow> valid d \<Longrightarrow> invar (absorb d s)"
    and absorb_commute: "invar s \<Longrightarrow> valid d \<Longrightarrow> valid e \<Longrightarrow> absorb d (absorb e s) = absorb e (absorb d s)"
    and absorb_idem: "invar s \<Longrightarrow> valid d \<Longrightarrow> absorb d (absorb d s) = absorb d s"
begin

lemma invar_deliver: "invar s \<Longrightarrow> \<forall>d \<in> set ds. valid d \<Longrightarrow> invar (fold absorb ds s)"
  by (induction ds arbitrary: s) (auto intro: invar_absorb)

lemma deliver_commute:
  "invar s \<Longrightarrow> valid d \<Longrightarrow> \<forall>e \<in> set ds. valid e \<Longrightarrow>
   fold absorb ds (absorb d s) = absorb d (fold absorb ds s)"
proof (induction ds arbitrary: s)
  case (Cons e ds)
  then have "fold absorb ds (absorb d (absorb e s)) = absorb d (fold absorb ds (absorb e s))"
    by (simp add: invar_absorb)
  with Cons.prems show ?case by (simp add: absorb_commute)
qed simp

lemma deliver_seen:
  "invar s \<Longrightarrow> \<forall>e \<in> set ds. valid e \<Longrightarrow> d \<in> set ds \<Longrightarrow>
   absorb d (fold absorb ds s) = fold absorb ds s"
proof (induction ds arbitrary: s)
  case (Cons e ds)
  show ?case
  proof (cases "d = e")
    case True
    with Cons.prems have "absorb d (fold absorb ds (absorb d s)) = fold absorb ds (absorb d (absorb d s))"
      by (subst (2) deliver_commute) (auto intro: invar_absorb)
    with True Cons.prems show ?thesis by (simp add: absorb_idem)
  next
    case False
    with Cons show ?thesis by (simp add: invar_absorb)
  qed
qed simp

lemma deliver_remdups:
  "invar s \<Longrightarrow> \<forall>e \<in> set ds. valid e \<Longrightarrow> fold absorb (remdups ds) s = fold absorb ds s"
proof (induction ds arbitrary: s)
  case (Cons d ds)
  show ?case
  proof (cases "d \<in> set ds")
    case True
    with Cons show ?thesis by (simp add: deliver_commute deliver_seen)
  next
    case False
    with Cons show ?thesis by (simp add: invar_absorb)
  qed
qed simp

lemma deliver_distinct_cong:
  "invar s \<Longrightarrow> \<forall>e \<in> set ds. valid e \<Longrightarrow> distinct ds \<Longrightarrow> distinct es \<Longrightarrow> set ds = set es \<Longrightarrow>
   fold absorb ds s = fold absorb es s"
proof (induction ds arbitrary: s es)
  case (Cons d ds)
  then have "d \<in> set es" by auto
  then obtain us vs where es: "es = us @ d # vs" by (meson split_list)
  with Cons.prems have set: "set ds = set (us @ vs)" by auto
  with es Cons.prems have "fold absorb es s = fold absorb vs (fold absorb us (absorb d s))"
    by (simp add: deliver_commute)
  with Cons.IH [of "absorb d s" "us @ vs"] Cons.prems es set show ?case
    by (simp add: invar_absorb)
qed simp

lemma deliver_converge:
  assumes "invar s" and "\<forall>d \<in> set ds. valid d" and "set ds = set es"
  shows "fold absorb ds s = fold absorb es s"
proof -
  have "fold absorb (remdups ds) s = fold absorb (remdups es) s"
    using assms by (intro deliver_distinct_cong) auto
  with assms show ?thesis by (simp add: deliver_remdups)
qed

end

text \<open>
  Generations: updates carry a generation from a linear order, a later generation replaces the state
  by its fresh one, and updates of the current generation contribute to it. If the contributions
  within every generation commute and are idempotent, the whole is a CRDT of this kind.
\<close>

locale generations =
  fixes gen :: "'u \<Rightarrow> 'g::linorder"
    and fresh :: "'u \<Rightarrow> 's"
    and contrib :: "'u \<Rightarrow> 's \<Rightarrow> 's"
    and valid :: "'u \<Rightarrow> bool"
    and ok :: "'g \<Rightarrow> 's \<Rightarrow> bool"
  assumes ok_fresh: "valid u \<Longrightarrow> ok (gen u) (fresh u)"
    and ok_contrib: "valid u \<Longrightarrow> ok (gen u) s \<Longrightarrow> ok (gen u) (contrib u s)"
    and fresh_same: "valid u \<Longrightarrow> valid w \<Longrightarrow> gen u = gen w \<Longrightarrow> fresh u = fresh w"
    and contrib_commute: "valid u \<Longrightarrow> valid w \<Longrightarrow> gen u = gen w \<Longrightarrow> ok (gen u) s \<Longrightarrow>
      contrib u (contrib w s) = contrib w (contrib u s)"
    and contrib_idem: "valid u \<Longrightarrow> ok (gen u) s \<Longrightarrow> contrib u (contrib u s) = contrib u s"
begin

definition gen_absorb :: "'u \<Rightarrow> 'g \<times> 's \<Rightarrow> 'g \<times> 's" where
  "gen_absorb u gs =
     (if gen u < fst gs then gs
      else if gen u = fst gs then (fst gs, contrib u (snd gs))
      else (gen u, contrib u (fresh u)))"

definition gen_ok :: "'g \<times> 's \<Rightarrow> bool" where
  "gen_ok gs \<longleftrightarrow> ok (fst gs) (snd gs)"

lemma gen_absorb_ok: "valid u \<Longrightarrow> gen_ok gs \<Longrightarrow> gen_ok (gen_absorb u gs)"
  using ok_contrib [of u "snd gs"] ok_contrib [of u "fresh u"] ok_fresh [of u]
  by (auto simp: gen_absorb_def gen_ok_def)

lemma gen_absorb_commute:
  assumes "valid u" "valid w" "gen_ok gs"
  shows "gen_absorb u (gen_absorb w gs) = gen_absorb w (gen_absorb u gs)"
proof (cases "gen u" "gen w" rule: linorder_cases)
  case equal
  then show ?thesis using assms fresh_same [of u w] ok_fresh [of u] contrib_commute [of u w]
    by (auto simp: gen_absorb_def gen_ok_def)
qed (auto simp: gen_absorb_def)

end

sublocale generations \<subseteq> gen: delta_crdt gen_absorb valid gen_ok
proof unfold_locales
  fix u w gs
  assume u: "valid u" and gs: "gen_ok gs"
  show "gen_ok (gen_absorb u gs)" using gen_absorb_ok u gs .
  show "gen_absorb u (gen_absorb u gs) = gen_absorb u gs"
    using u gs contrib_idem [of u] ok_fresh [of u] by (auto simp: gen_absorb_def gen_ok_def)
  assume w: "valid w"
  show "gen_absorb u (gen_absorb w gs) = gen_absorb w (gen_absorb u gs)" using gen_absorb_commute u w gs .
qed

text \<open>The same with a state that may not exist yet: the first update creates it.\<close>

context generations
begin

fun opt_absorb :: "'u \<Rightarrow> ('g \<times> 's) option \<Rightarrow> ('g \<times> 's) option" where
  "opt_absorb u None = Some (gen u, contrib u (fresh u))"
| "opt_absorb u (Some gs) = Some (gen_absorb u gs)"

fun opt_ok :: "('g \<times> 's) option \<Rightarrow> bool" where
  "opt_ok None \<longleftrightarrow> True"
| "opt_ok (Some gs) \<longleftrightarrow> gen_ok gs"

lemma created_ok: "valid u \<Longrightarrow> gen_ok (gen u, contrib u (fresh u))"
  by (simp add: gen_ok_def ok_contrib ok_fresh)

lemma created_commute:
  assumes "valid u" "valid w"
  shows "gen_absorb u (gen w, contrib w (fresh w)) = gen_absorb w (gen u, contrib u (fresh u))"
proof (cases "gen u" "gen w" rule: linorder_cases)
  case equal
  then show ?thesis using assms fresh_same [of u w] contrib_commute [of u w "fresh u"] ok_fresh [of u]
    by (simp add: gen_absorb_def)
qed (auto simp: gen_absorb_def)

end

sublocale generations \<subseteq> opt: delta_crdt opt_absorb valid opt_ok
proof unfold_locales
  fix u w gs
  assume u: "valid u" and gs: "opt_ok gs"
  show "opt_ok (opt_absorb u gs)" using u gs by (cases gs) (auto simp: created_ok gen_absorb_ok)
  show "opt_absorb u (opt_absorb u gs) = opt_absorb u gs"
    using u gs gen.absorb_idem [of _ u] contrib_idem [OF u] ok_fresh [OF u]
    by (cases gs) (auto simp: gen_absorb_def)
  assume w: "valid w"
  show "opt_absorb u (opt_absorb w gs) = opt_absorb w (opt_absorb u gs)"
    using u w gs by (cases gs) (auto simp: created_commute gen_absorb_commute)
qed

end
