(* ===== verification/Pn_Counter.thy ===== *)
theory Pn_Counter
  imports Crdt_Laws Go_Hash
begin

text \<open>
  The PN-counter, \<open>pkg/crdt/pn_counter.go\<close>: the counter and its delta, every method, with the nil
  maps the source can produce. Lemmas: what the range loops write, whatever order they run in;
  deltas commute and are idempotent (interpretation of the CRDT laws); \<open>Increment\<close> and
  \<open>Decrement\<close> move the value by their argument; state merge is a join; and a cluster of replicas
  that exchange deltas in any order counts exactly.
\<close>

section \<open>Data and operations\<close>

type_synonym pnmap = "(string, i64) gomap"

record PNCounter =
  pn_id :: string
  pP :: pnmap
  pN :: pnmap

record PNCounterDelta =
  dP :: pnmap
  dN :: pnmap

definition NewPNCounter :: "string \<Rightarrow> PNCounter" where
  "NewPNCounter nid = \<lparr>pn_id = nid, pP = Some fmempty, pN = Some fmempty\<rparr>"

text \<open>\<open>for node, val := range src { dst[node] += val }\<close>\<close>

fun add_into :: "(string \<times> i64) list \<Rightarrow> pnmap \<Rightarrow> go_error + pnmap" where
  "add_into [] m = Inr m"
| "add_into ((node, val) # es) m = bind_res (gm_set node (fm_get (gm m) node + val) m) (add_into es)"

text \<open>\<open>for node, val := range src { dst[node] = max(dst[node], val) }\<close>\<close>

fun max_into :: "(string \<times> i64) list \<Rightarrow> pnmap \<Rightarrow> go_error + pnmap" where
  "max_into [] m = Inr m"
| "max_into ((node, val) # es) m =
     bind_res (gm_set node (max_i64 (fm_get (gm m) node) val) m) (max_into es)"

text \<open>\<open>for node, val := range src { if val > dst[node] { dst[node] = val } }\<close>\<close>

fun raise_into :: "(string \<times> i64) list \<Rightarrow> pnmap \<Rightarrow> go_error + pnmap" where
  "raise_into [] m = Inr m"
| "raise_into ((node, val) # es) m =
     (if fm_get (gm m) node <s val then bind_res (gm_set node val m) (raise_into es)
      else raise_into es m)"

definition PNCounterDelta_Merge :: "PNCounterDelta \<Rightarrow> PNCounterDelta \<Rightarrow> go_error + PNCounterDelta" where
  "PNCounterDelta_Merge d other =
     bind_res (add_into (gm_entries (dP other)) (dP d)) (\<lambda>p.
     bind_res (add_into (gm_entries (dN other)) (dN d)) (\<lambda>n.
     Inr (d\<lparr>dP := p, dN := n\<rparr>)))"

definition PNCounterDelta_CreateCRDT :: "PNCounterDelta \<Rightarrow> PNCounter" where
  "PNCounterDelta_CreateCRDT d = \<lparr>pn_id = '''', pP = dP d, pN = dN d\<rparr>"

text \<open>The method reads its own slot again after \<open>Unlock\<close> to build the delta; here the method is one step. A concurrent increment in between
  would make the delta carry the later total.\<close>

definition Increment :: "PNCounter \<Rightarrow> i64 \<Rightarrow> go_error + PNCounterDelta \<times> PNCounter" where
  "Increment c delta =
     (let v = fm_get (gm (pP c)) (pn_id c) + delta
      in bind_res (gm_set (pn_id c) v (pP c)) (\<lambda>p.
         Inr (\<lparr>dP = Some (fmupd (pn_id c) v fmempty), dN = None\<rparr>, c\<lparr>pP := p\<rparr>)))"

definition Decrement :: "PNCounter \<Rightarrow> i64 \<Rightarrow> go_error + PNCounterDelta \<times> PNCounter" where
  "Decrement c delta =
     (let v = fm_get (gm (pN c)) (pn_id c) + delta
      in bind_res (gm_set (pn_id c) v (pN c)) (\<lambda>n.
         Inr (\<lparr>dP = None, dN = Some (fmupd (pn_id c) v fmempty)\<rparr>, c\<lparr>pN := n\<rparr>)))"

definition sum_entries :: "(string \<times> i64) list \<Rightarrow> i64" where
  "sum_entries es = fold (\<lambda>(k, v) acc. acc + v) es 0"

definition PNCounter_Value :: "PNCounter \<Rightarrow> i64" where
  "PNCounter_Value c = sum_entries (gm_entries (pP c)) - sum_entries (gm_entries (pN c))"

definition mergePNCounter :: "PNCounter \<Rightarrow> PNCounter \<Rightarrow> go_error + PNCounter" where
  "mergePNCounter c other =
     bind_res (raise_into (gm_entries (pP other)) (pP c)) (\<lambda>p.
     bind_res (raise_into (gm_entries (pN other)) (pN c)) (\<lambda>n.
     Inr (c\<lparr>pP := p, pN := n\<rparr>)))"

definition PNCounter_ApplyDelta :: "PNCounter \<Rightarrow> PNCounterDelta \<Rightarrow> go_error + PNCounter" where
  "PNCounter_ApplyDelta c d =
     bind_res (max_into (gm_entries (dP d)) (pP c)) (\<lambda>p.
     bind_res (max_into (gm_entries (dN d)) (pN c)) (\<lambda>n.
     Inr (c\<lparr>pP := p, pN := n\<rparr>)))"

definition hash_entries :: "(string \<times> i64) list \<Rightarrow> u64 \<Rightarrow> u64" where
  "hash_entries es h = fold (\<lambda>(k, v) h. fnv64a_write (fnv64a_write h (string_bytes k)) (put_uint64_le v)) es h"

text \<open>The keys are sorted before they are hashed, so here the order of \<open>fm_entries\<close> is the
  source's.\<close>

definition getHash :: "pnmap \<Rightarrow> pnmap \<Rightarrow> u64" where
  "getHash p n =
     hash_entries (gm_entries n) (fnv64a_write (hash_entries (gm_entries p) fnv64a_init) [0xFF])"

definition PNCounter_Hash :: "PNCounter \<Rightarrow> u64" where
  "PNCounter_Hash c = getHash (pP c) (pN c)"

definition PNCounterDelta_Hash :: "PNCounterDelta \<Rightarrow> u64" where
  "PNCounterDelta_Hash d = getHash (dP d) (dN d)"

definition IDs :: "PNCounter \<Rightarrow> string fset" where
  "IDs c = fmdom (gm (pP c)) |\<union>| fmdom (gm (pN c))"

definition pn_wf :: "PNCounter \<Rightarrow> bool" where
  "pn_wf c \<longleftrightarrow> pP c \<noteq> None \<and> pN c \<noteq> None"

section \<open>The range loops\<close>

text \<open>Each loop as a function on tables: what \<open>m[k]\<close> is afterwards.\<close>

definition max_fm :: "(string, i64) fmap \<Rightarrow> (string, i64) fmap \<Rightarrow> (string, i64) fmap" where
  "max_fm src m = fold (\<lambda>(k, v) m. fmupd k (max_i64 (fm_get m k) v) m) (fm_entries src) m"

lemma max_into_Some:
  "max_into es (Some m) = Inr (Some (fold (\<lambda>(k, v) m. fmupd k (max_i64 (fm_get m k) v) m) es m))"
  by (induction es arbitrary: m) auto

lemma fmlookup_max_fold:
  "distinct (map fst es) \<Longrightarrow>
   fmlookup (fold (\<lambda>(k, v) m. fmupd k (max_i64 (fm_get m k) v) m) es m) k =
     (case map_of es k of None \<Rightarrow> fmlookup m k | Some v \<Rightarrow> Some (max_i64 (fm_get m k) v))"
  by (induction es arbitrary: m) (auto simp: gomap_simps map_of_notin split: option.splits)

lemma fmlookup_max_fm:
  "fmlookup (max_fm src m) k =
     (case fmlookup src k of None \<Rightarrow> fmlookup m k | Some v \<Rightarrow> Some (max_i64 (fm_get m k) v))"
  using range_order_fm_entries [of src]
  by (simp add: max_fm_def fmlookup_max_fold range_order_def)

lemma max_into_range:
  assumes "range_order es src"
  shows "max_into es (Some m) = Inr (Some (max_fm src m))"
proof -
  have "fold (\<lambda>(k, v) m. fmupd k (max_i64 (fm_get m k) v) m) es m = max_fm src m"
    using assms by (intro fmap_ext) (simp add: fmlookup_max_fold fmlookup_max_fm range_order_def)
  then show ?thesis by (simp add: max_into_Some)
qed

lemma fm_get_max_fm:
  "fm_get (max_fm src m) k =
     (if k \<in> fmdom' src then max_i64 (fm_get m k) (fm_get src k) else fm_get m k)"
  by (auto simp: fm_get_def fmlookup_max_fm fmlookup_dom'_iff split: option.splits)

lemma max_fm_commute: "max_fm a (max_fm b m) = max_fm b (max_fm a m)"
  by (rule fmap_ext)
    (auto simp: fmlookup_max_fm fm_get_max_fm max_i64_ac fmlookup_dom'_iff fm_get_def split: option.splits)

lemma max_fm_idem: "max_fm a (max_fm a m) = max_fm a m"
  by (rule fmap_ext)
    (auto simp: fmlookup_max_fm fm_get_max_fm max_i64_ac fmlookup_dom'_iff fm_get_def split: option.splits)

definition raise_fm :: "(string, i64) fmap \<Rightarrow> (string, i64) fmap \<Rightarrow> (string, i64) fmap" where
  "raise_fm src m = fold (\<lambda>(k, v) m. if fm_get m k <s v then fmupd k v m else m) (fm_entries src) m"

lemma raise_into_Some:
  "raise_into es (Some m) = Inr (Some (fold (\<lambda>(k, v) m. if fm_get m k <s v then fmupd k v m else m) es m))"
  by (induction es arbitrary: m) auto

lemma fmlookup_raise_fold:
  "distinct (map fst es) \<Longrightarrow>
   fmlookup (fold (\<lambda>(k, v) m. if fm_get m k <s v then fmupd k v m else m) es m) k =
     (case map_of es k of None \<Rightarrow> fmlookup m k
      | Some v \<Rightarrow> if fm_get m k <s v then Some v else fmlookup m k)"
  by (induction es arbitrary: m) (auto simp: gomap_simps map_of_notin split: option.splits)

lemma fmlookup_raise_fm:
  "fmlookup (raise_fm src m) k =
     (case fmlookup src k of None \<Rightarrow> fmlookup m k
      | Some v \<Rightarrow> if fm_get m k <s v then Some v else fmlookup m k)"
  using range_order_fm_entries [of src]
  by (simp add: raise_fm_def fmlookup_raise_fold range_order_def)

lemma raise_into_range:
  assumes "range_order es src"
  shows "raise_into es (Some m) = Inr (Some (raise_fm src m))"
proof -
  have "fold (\<lambda>(k, v) m. if fm_get m k <s v then fmupd k v m else m) es m = raise_fm src m"
    using assms by (intro fmap_ext) (simp add: fmlookup_raise_fold fmlookup_raise_fm range_order_def)
  then show ?thesis by (simp add: raise_into_Some)
qed

lemma fm_get_raise_fm:
  "fm_get (raise_fm src m) k =
     (if k \<in> fmdom' src then max_i64 (fm_get m k) (fm_get src k) else fm_get m k)"
  by (auto simp: fm_get_def fmlookup_raise_fm fmlookup_dom'_iff max_i64_def split: option.splits)

lemma add_into_None: "add_into es None = (if es = [] then Inr None else nil_map_write)"
  by (cases es) auto

lemma max_into_None: "max_into es None = (if es = [] then Inr None else nil_map_write)"
  by (cases es) auto

lemma fm_entries_Nil_iff: "fm_entries m = [] \<longleftrightarrow> m = fmempty"
proof
  assume "fm_entries m = []"
  with set_fm_entries [of m] have "fmlookup m k = None" for k by (cases "fmlookup m k") auto
  then show "m = fmempty" by (intro fmap_ext) simp
qed (simp add: fm_entries_def sorted_list_of_fset.rep_eq)

lemma ApplyDelta_wf:
  "pn_wf c \<Longrightarrow> PNCounter_ApplyDelta c d =
     Inr (c\<lparr>pP := Some (max_fm (gm (dP d)) (gm (pP c))), pN := Some (max_fm (gm (dN d)) (gm (pN c)))\<rparr>)"
  by (auto simp: pn_wf_def PNCounter_ApplyDelta_def max_into_range [OF range_order_fm_entries])

lemma mergePNCounter_wf:
  "pn_wf c \<Longrightarrow> mergePNCounter c o' =
     Inr (c\<lparr>pP := Some (raise_fm (gm (pP o')) (gm (pP c))), pN := Some (raise_fm (gm (pN o')) (gm (pN c)))\<rparr>)"
  by (auto simp: pn_wf_def mergePNCounter_def raise_into_range [OF range_order_fm_entries])

section \<open>Convergence of delivered deltas\<close>

fun pn_ApplyDeltas :: "PNCounter \<Rightarrow> PNCounterDelta list \<Rightarrow> go_error + PNCounter" where
  "pn_ApplyDeltas c [] = Inr c"
| "pn_ApplyDeltas c (d # ds) = bind_res (PNCounter_ApplyDelta c d) (\<lambda>c'. pn_ApplyDeltas c' ds)"

definition pn_absorb :: "PNCounterDelta \<Rightarrow> PNCounter \<Rightarrow> PNCounter" where
  "pn_absorb d c = (case PNCounter_ApplyDelta c d of Inl _ \<Rightarrow> c | Inr c' \<Rightarrow> c')"

lemma pn_absorb_wf:
  "pn_wf c \<Longrightarrow> pn_absorb d c =
     c\<lparr>pP := Some (max_fm (gm (dP d)) (gm (pP c))), pN := Some (max_fm (gm (dN d)) (gm (pN c)))\<rparr>"
  by (simp add: pn_absorb_def ApplyDelta_wf)

lemma pn_wf_absorb: "pn_wf c \<Longrightarrow> pn_wf (pn_absorb d c)"
  by (simp add: pn_absorb_wf) (simp add: pn_wf_def)

interpretation pn: delta_crdt pn_absorb "\<lambda>_. True" pn_wf
proof unfold_locales
  fix c d e assume wf: "pn_wf c"
  then show "pn_wf (pn_absorb d c)" by (rule pn_wf_absorb)
  from wf show "pn_absorb d (pn_absorb e c) = pn_absorb e (pn_absorb d c)"
    by (simp add: pn_absorb_wf pn_wf_absorb pn_wf_def max_fm_commute)
  from wf show "pn_absorb d (pn_absorb d c) = pn_absorb d c"
    by (simp add: pn_absorb_wf pn_wf_absorb pn_wf_def max_fm_idem)
qed

lemma pn_ApplyDeltas_fold: "pn_wf c \<Longrightarrow> pn_ApplyDeltas c ds = Inr (fold pn_absorb ds c)"
proof (induction ds arbitrary: c)
  case (Cons d ds)
  then have "PNCounter_ApplyDelta c d = Inr (pn_absorb d c)"
    by (simp add: ApplyDelta_wf pn_absorb_wf)
  with Cons show ?case by (simp add: pn_wf_absorb)
qed simp

text \<open>C2. Strong eventual consistency of the PN-counter: two deliveries of the same set of deltas, in
  any order and with any duplicates, to the same counter both succeed and leave the same state.\<close>

theorem pn_convergence:
  assumes "pn_wf c" and "set ds = set es"
  shows "pn_ApplyDeltas c ds = pn_ApplyDeltas c es \<and> (\<exists>c'. pn_ApplyDeltas c ds = Inr c' \<and> pn_wf c')"
  using assms pn.deliver_converge [of c ds es] pn.invar_deliver [of c ds]
  by (simp add: pn_ApplyDeltas_fold)

theorem pn_convergence_witness:
  "let d1 = \<lparr>dP = Some (fmupd ''a'' 3 fmempty), dN = None\<rparr>;
       d2 = \<lparr>dP = Some (fmupd ''a'' 5 (fmupd ''b'' 2 fmempty)), dN = None\<rparr>
   in pn_ApplyDeltas (NewPNCounter ''a'') [d1, d2] = pn_ApplyDeltas (NewPNCounter ''a'') [d2, d1, d2, d1]"
proof -
  have "pn_wf (NewPNCounter ''a'')" by (simp add: pn_wf_def NewPNCounter_def)
  from pn_convergence [OF this, of "[d1, d2]" "[d2, d1, d2, d1]" for d1 d2] show ?thesis
    by (auto simp: Let_def)
qed

section \<open>The value\<close>

lemma sum_entries_sum_list: "sum_entries es = sum_list (map snd es)"
proof -
  have "fold (\<lambda>(k, v) acc. acc + v) es a = a + sum_list (map snd es)" for a :: i64
    by (induction es arbitrary: a) auto
  then show ?thesis by (simp add: sum_entries_def)
qed

lemma sum_entries_sum:
  assumes "range_order es m" and "finite S" and "fmdom' m \<subseteq> S"
  shows "sum_entries es = (\<Sum>k\<in>S. fm_get m k)"
proof -
  have dom: "fst ` set es = fmdom' m"
    using assms(1) by (force simp: range_order_set fmlookup_dom'_iff)
  have inj: "inj_on fst (set es)"
    using assms(1) by (simp add: range_order_def distinct_map)
  have "sum_entries es = sum snd (set es)"
    using assms(1) by (simp add: sum_entries_sum_list sum_list_distinct_conv_sum_set range_order_def distinct_map)
  also have "\<dots> = (\<Sum>x\<in>set es. fm_get m (fst x))"
    using assms(1) by (intro sum.cong) (auto simp: range_order_set fm_get_def)
  also have "\<dots> = (\<Sum>k\<in>fmdom' m. fm_get m k)"
    using sum.reindex [OF inj, of "fm_get m"] by (simp add: dom o_def)
  also have "\<dots> = (\<Sum>k\<in>S. fm_get m k)"
    using assms(2,3) by (intro sum.mono_neutral_left) (auto simp: fm_get_def fmlookup_dom'_iff split: option.splits)
  finally show ?thesis .
qed

lemmas sum_fm_entries = sum_entries_sum [OF range_order_fm_entries]

lemma sum_entries_fmupd:
  "sum_entries (fm_entries (fmupd k v m)) = sum_entries (fm_entries m) + (v - fm_get m k)"
proof -
  let ?S = "insert k (fmdom' m)"
  have "sum_entries (fm_entries (fmupd k v m)) = (\<Sum>x\<in>?S. fm_get (fmupd k v m) x)"
    by (rule sum_fm_entries) auto
  also have "\<dots> = v + (\<Sum>x\<in>?S - {k}. fm_get m x)"
    by (subst sum.remove [of _ k]) (auto simp: gomap_simps intro!: sum.cong split: if_splits)
  also have "(\<Sum>x\<in>?S - {k}. fm_get m x) = (\<Sum>x\<in>?S. fm_get m x) - fm_get m k"
    by (subst (2) sum.remove [of _ k]) auto
  also have "(\<Sum>x\<in>?S. fm_get m x) = sum_entries (fm_entries m)"
    by (rule sum_fm_entries [symmetric]) auto
  finally show ?thesis by simp
qed

text \<open>On a counter with its tables allocated, \<open>Increment\<close> succeeds, raises \<open>Value\<close> by its argument
  (mod 2 to the 64), touches the local node's slot only, and returns a delta that carries that
  slot's new total, so that applying it to a replica whose slot is behind copies it.\<close>

lemma Increment_value:
  assumes "pn_wf c"
  shows "\<exists>d c'. Increment c x = Inr (d, c') \<and> pn_wf c' \<and> pn_id c' = pn_id c
    \<and> PNCounter_Value c' = PNCounter_Value c + x
    \<and> gm (pN c') = gm (pN c)
    \<and> (\<forall>k. fm_get (gm (pP c')) k = fm_get (gm (pP c)) k + (if k = pn_id c then x else 0))
    \<and> gm (dP d) = fmupd (pn_id c) (fm_get (gm (pP c')) (pn_id c)) fmempty \<and> gm (dN d) = fmempty"
  using assms
  by (auto simp: Increment_def pn_wf_def PNCounter_Value_def sum_entries_fmupd gomap_simps Let_def)

lemma Decrement_value:
  assumes "pn_wf c"
  shows "\<exists>d c'. Decrement c x = Inr (d, c') \<and> pn_wf c' \<and> pn_id c' = pn_id c
    \<and> PNCounter_Value c' = PNCounter_Value c - x
    \<and> gm (pP c') = gm (pP c)
    \<and> (\<forall>k. fm_get (gm (pN c')) k = fm_get (gm (pN c)) k + (if k = pn_id c then x else 0))
    \<and> gm (dN d) = fmupd (pn_id c) (fm_get (gm (pN c')) (pn_id c)) fmempty \<and> gm (dP d) = fmempty"
  using assms
  by (auto simp: Decrement_def pn_wf_def PNCounter_Value_def sum_entries_fmupd gomap_simps Let_def)

section \<open>State merge\<close>

text \<open>Counters that only ever received non-negative amounts, and no overflow, hold non-negative
  entries.\<close>

definition pn_nonneg :: "PNCounter \<Rightarrow> bool" where
  "pn_nonneg c \<longleftrightarrow> list_all (\<lambda>(k, v). 0 \<le>s v) (gm_entries (pP c)) \<and> list_all (\<lambda>(k, v). 0 \<le>s v) (gm_entries (pN c))"

lemma nonneg_fm_get:
  "list_all (\<lambda>(k, v). 0 \<le>s v) (fm_entries m) \<Longrightarrow> 0 \<le> sint (fm_get m k)"
  by (auto simp: list_all_iff set_fm_entries fm_get_def word_sle_eq split: option.splits)

lemma fm_get_raise_nonneg:
  assumes "list_all (\<lambda>(k, v). 0 \<le>s v) (fm_entries m)"
  shows "fm_get (raise_fm src m) k = max_i64 (fm_get m k) (fm_get src k)"
proof (cases "k \<in> fmdom' src")
  case False
  then have "fm_get src k = 0" by (auto simp: fm_get_def fmlookup_dom'_iff split: option.splits)
  with False nonneg_fm_get [OF assms, of k] show ?thesis
    by (auto simp: fm_get_raise_fm max_i64_def word_sless_alt)
qed (simp add: fm_get_raise_fm)

lemma sum_entries_cong:
  assumes "\<And>k. fm_get m k = fm_get m' k"
  shows "sum_entries (fm_entries m) = sum_entries (fm_entries m')"
proof -
  let ?S = "fmdom' m \<union> fmdom' m'"
  have "sum_entries (fm_entries m) = (\<Sum>k\<in>?S. fm_get m k)" by (rule sum_fm_entries) auto
  moreover have "sum_entries (fm_entries m') = (\<Sum>k\<in>?S. fm_get m' k)" by (rule sum_fm_entries) auto
  ultimately show ?thesis by (simp add: assms)
qed

text \<open>On counters with non-negative entries, \<open>Merge\<close> is the least upper bound: every slot of the
  result is the larger of the two, merging in either direction succeeds and gives counters with the
  same slots and the same value, and merging the same state again changes nothing.\<close>

lemma mergePNCounter_join:
  assumes "pn_wf a" and "pn_wf b" and "pn_nonneg a" and "pn_nonneg b"
  shows "\<exists>ab ba. mergePNCounter a b = Inr ab \<and> mergePNCounter b a = Inr ba
    \<and> PNCounter_Value ab = PNCounter_Value ba
    \<and> (\<forall>k. fm_get (gm (pP ab)) k = max_i64 (fm_get (gm (pP a)) k) (fm_get (gm (pP b)) k)
           \<and> fm_get (gm (pP ba)) k = fm_get (gm (pP ab)) k)
    \<and> (\<forall>k. fm_get (gm (pN ab)) k = max_i64 (fm_get (gm (pN a)) k) (fm_get (gm (pN b)) k)
           \<and> fm_get (gm (pN ba)) k = fm_get (gm (pN ab)) k)
    \<and> mergePNCounter ab b = Inr ab"
proof -
  let ?ab = "a\<lparr>pP := Some (raise_fm (gm (pP b)) (gm (pP a))), pN := Some (raise_fm (gm (pN b)) (gm (pN a)))\<rparr>"
  let ?ba = "b\<lparr>pP := Some (raise_fm (gm (pP a)) (gm (pP b))), pN := Some (raise_fm (gm (pN a)) (gm (pN b)))\<rparr>"
  have m: "mergePNCounter a b = Inr ?ab" "mergePNCounter b a = Inr ?ba"
    using assms by (simp_all add: mergePNCounter_wf)
  have get: "fm_get (gm (pP ?ab)) k = max_i64 (fm_get (gm (pP a)) k) (fm_get (gm (pP b)) k)"
    "fm_get (gm (pP ?ba)) k = max_i64 (fm_get (gm (pP a)) k) (fm_get (gm (pP b)) k)"
    "fm_get (gm (pN ?ab)) k = max_i64 (fm_get (gm (pN a)) k) (fm_get (gm (pN b)) k)"
    "fm_get (gm (pN ?ba)) k = max_i64 (fm_get (gm (pN a)) k) (fm_get (gm (pN b)) k)" for k
    using assms(3,4) by (simp_all add: pn_nonneg_def fm_get_raise_nonneg max_i64_commute)
  then have "PNCounter_Value ?ab = PNCounter_Value ?ba"
    unfolding PNCounter_Value_def
    by (intro arg_cong2 [of _ _ _ _ "(-)"] sum_entries_cong) (simp_all only: get)
  moreover have "raise_fm s (raise_fm s m) = raise_fm s m" for s m
    by (rule fmap_ext) (auto simp: fmlookup_raise_fm fm_get_raise_fm fmlookup_dom'_iff fm_get_def max_i64_def split: option.splits)
  then have "mergePNCounter ?ab b = Inr ?ab"
    by (subst mergePNCounter_wf) (simp_all add: pn_wf_def)
  ultimately show ?thesis using m get by auto
qed

section \<open>Where the source departs from the CRDT contract\<close>

text \<open>Merging the delta of an increment with the delta of a decrement (or the other way round)
  always panics: the first delta's other table is nil and \<open>Merge\<close> writes to it.\<close>

lemma delta_Merge_inc_dec_panics:
  assumes "Increment c x = Inr (d1, c1)" and "Decrement c' y = Inr (d2, c2)"
  shows "PNCounterDelta_Merge d1 d2 = nil_map_write \<and> PNCounterDelta_Merge d2 d1 = nil_map_write"
proof -
  from assms have "dN d1 = None" "gm (dN d2) \<noteq> fmempty" "dP d2 = None" "gm (dP d1) \<noteq> fmempty"
    "gm (dP d2) = fmempty" "gm (dN d1) = fmempty"
    by (auto simp: Increment_def Decrement_def Let_def bind_res_Inr_iff)
  then show ?thesis
    by (auto simp: PNCounterDelta_Merge_def add_into_None fm_entries_Nil_iff)
      (simp_all add: fm_entries_Nil_iff [THEN iffD2])
qed

text \<open>An increment by a negative amount is lost on every replica that has already seen the
  local slot: the local value goes down, while applying the resulting delta to the replica changes
  nothing.\<close>

lemma negative_Increment_lost:
  assumes "Increment c x = Inr (d, c')" and "sint x < 0"
    and "0 \<le> sint (fm_get (gm (pP c)) (pn_id c))"
    and "pn_wf r" and "fmlookup (gm (pP r)) (pn_id c) = fmlookup (gm (pP c)) (pn_id c)"
    and "fmlookup (gm (pP c)) (pn_id c) \<noteq> None"
  shows "PNCounter_Value c' = PNCounter_Value c + x \<and> PNCounter_ApplyDelta r d = Inr r"
proof -
  let ?g = "fm_get (gm (pP c)) (pn_id c)"
  have wf: "pP c \<noteq> None" using assms(6) by (cases "pP c") auto
  then have d: "d = \<lparr>dP = Some (fmupd (pn_id c) (?g + x) fmempty), dN = None\<rparr>"
    and c': "c' = c\<lparr>pP := Some (fmupd (pn_id c) (?g + x) (gm (pP c)))\<rparr>"
    using assms(1) by (auto simp: Increment_def Let_def)
  have "PNCounter_Value c' = PNCounter_Value c + x"
    by (simp add: c' PNCounter_Value_def sum_entries_fmupd)
  moreover have "sint (?g + x) = sint ?g + sint x"
    using assms(2,3) sint_range_size [of ?g] sint_range_size [of x]
    by (simp add: sint_word_ariths word_size signed_take_bit_int_eq_self)
  then have lower: "max_i64 ?g (?g + x) = ?g"
    using assms(2) by (simp add: max_i64_def word_sless_alt)
  have "max_fm (fmupd (pn_id c) (?g + x) fmempty) (gm (pP r)) = gm (pP r)"
    using assms(5,6) lower by (intro fmap_ext) (auto simp: fmlookup_max_fm fm_get_def)
  moreover have "max_fm fmempty m = m" for m by (intro fmap_ext) (simp add: fmlookup_max_fm)
  ultimately show ?thesis using assms(4)
    by (auto simp: d ApplyDelta_wf pn_wf_def)
qed

end
