(* ===== verification/Pn_Cluster.thy ===== *)
theory Pn_Cluster
  imports Pn_Counter
begin

text \<open>
  A cluster of PN-counter replicas as a step relation: any replica may increment or decrement by a
  non-negative amount, which publishes the delta the code returns, and any published delta may be
  delivered to any replica, in any order, any number of times. The ghost fields record what was
  really counted. The invariant is stated once for one table and used for both.
\<close>

record pn_sys =
  reps :: "nat \<Rightarrow> PNCounter"
  sent :: "PNCounterDelta set"
  seen :: "nat \<Rightarrow> PNCounterDelta set"
  inc_tot :: "string \<Rightarrow> int"
  dec_tot :: "string \<Rightarrow> int"

definition pn_sys_init :: "(nat \<Rightarrow> string) \<Rightarrow> pn_sys" where
  "pn_sys_init nm = \<lparr>reps = (\<lambda>i. NewPNCounter (nm i)), sent = {}, seen = (\<lambda>_. {}),
     inc_tot = (\<lambda>_. 0), dec_tot = (\<lambda>_. 0)\<rparr>"

inductive pn_sys_step :: "nat \<Rightarrow> pn_sys \<Rightarrow> pn_sys \<Rightarrow> bool" for n where
  inc: "i < n \<Longrightarrow> 0 \<le> sint x \<Longrightarrow> inc_tot s (pn_id (reps s i)) + sint x < 2 ^ 63 \<Longrightarrow>
     Increment (reps s i) x = Inr (d, c) \<Longrightarrow>
     pn_sys_step n s (s\<lparr>reps := (reps s)(i := c), sent := insert d (sent s),
       seen := (seen s)(i := insert d (seen s i)),
       inc_tot := (inc_tot s)(pn_id (reps s i) := inc_tot s (pn_id (reps s i)) + sint x)\<rparr>)"
| dec: "i < n \<Longrightarrow> 0 \<le> sint x \<Longrightarrow> dec_tot s (pn_id (reps s i)) + sint x < 2 ^ 63 \<Longrightarrow>
     Decrement (reps s i) x = Inr (d, c) \<Longrightarrow>
     pn_sys_step n s (s\<lparr>reps := (reps s)(i := c), sent := insert d (sent s),
       seen := (seen s)(i := insert d (seen s i)),
       dec_tot := (dec_tot s)(pn_id (reps s i) := dec_tot s (pn_id (reps s i)) + sint x)\<rparr>)"
| deliver: "i < n \<Longrightarrow> d \<in> sent s \<Longrightarrow> PNCounter_ApplyDelta (reps s i) d = Inr c \<Longrightarrow>
     pn_sys_step n s (s\<lparr>reps := (reps s)(i := c), seen := (seen s)(i := insert d (seen s i))\<rparr>)"

inductive pn_reach :: "nat \<Rightarrow> (nat \<Rightarrow> string) \<Rightarrow> pn_sys \<Rightarrow> bool" for n nm where
  start: "pn_reach n nm (pn_sys_init nm)"
| step: "pn_reach n nm s \<Longrightarrow> pn_sys_step n s s' \<Longrightarrow> pn_reach n nm s'"

section \<open>The invariant of one table\<close>

type_synonym pntab = "(string, i64) fmap"

definition side_inv :: "nat \<Rightarrow> (nat \<Rightarrow> string) \<Rightarrow> (nat \<Rightarrow> pntab) \<Rightarrow> pntab set \<Rightarrow> (nat \<Rightarrow> pntab set) \<Rightarrow>
    (string \<Rightarrow> int) \<Rightarrow> bool" where
  "side_inv n nm tab snt sn tot \<longleftrightarrow>
     (\<forall>i<n. \<forall>k. 0 \<le> sint (fm_get (tab i) k) \<and> sint (fm_get (tab i) k) \<le> tot k)
   \<and> (\<forall>i<n. sint (fm_get (tab i) (nm i)) = tot (nm i))
   \<and> (\<forall>k. k \<notin> nm ` {..<n} \<longrightarrow> tot k = 0)
   \<and> (\<forall>m\<in>snt. \<forall>k v. fmlookup m k = Some v \<longrightarrow> sint v \<le> tot k)
   \<and> (\<forall>i<n. \<forall>m\<in>sn i. \<forall>k v. fmlookup m k = Some v \<longrightarrow> sint v \<le> sint (fm_get (tab i) k))
   \<and> (\<forall>k. 0 < tot k \<longrightarrow> (\<exists>m\<in>snt. \<exists>v. fmlookup m k = Some v \<and> sint v = tot k))"

lemma side_inv_init: "side_inv n nm (\<lambda>_. fmempty) {} (\<lambda>_. {}) (\<lambda>_. 0)"
  by (simp add: side_inv_def)

lemma side_inv_bump:
  assumes inv: "side_inv n nm tab snt sn tot" and i: "i < n" and inj: "inj_on nm {..<n}"
    and x: "0 \<le> sint x" "tot (nm i) + sint x < 2 ^ 63"
    and v: "v = fm_get (tab i) (nm i) + x"
    and m: "m = fmupd (nm i) v fmempty"
  shows "side_inv n nm (tab(i := fmupd (nm i) v (tab i))) (insert m snt)
    (sn(i := insert m (sn i))) (tot(nm i := tot (nm i) + sint x))"
proof -
  have own: "sint (fm_get (tab i) (nm i)) = tot (nm i)" "0 \<le> tot (nm i)"
    using inv i unfolding side_inv_def by (metis, metis)
  with x have sv: "sint v = tot (nm i) + sint x"
    unfolding v by (subst sint_add_nonneg) auto
  have ne: "nm j \<noteq> nm i" if "j < n" "j \<noteq> i" for j
    using inj that i by (auto simp: inj_on_def)
  let ?tab = "tab(i := fmupd (nm i) v (tab i))" and ?tot = "tot(nm i := tot (nm i) + sint x)"
  have get: "fm_get (?tab j) k = (if j = i \<and> k = nm i then v else fm_get (tab j) k)" for j k
    by (simp add: gomap_simps)
  have tot: "tot k \<le> ?tot k" for k using x by simp
  have grow: "sint (fm_get (tab j) k) \<le> sint (fm_get (?tab j) k)" if "j < n" for j k
    unfolding get using own sv x by auto
  have old: "0 \<le> sint (fm_get (tab j) k) \<and> sint (fm_get (tab j) k) \<le> tot k" if "j < n" for j k
    using inv that by (simp add: side_inv_def)
  have c1: "\<forall>j<n. \<forall>k. 0 \<le> sint (fm_get (?tab j) k) \<and> sint (fm_get (?tab j) k) \<le> ?tot k"
    unfolding get using old tot sv own x by (fastforce intro: order_trans)
  have c2: "\<forall>j<n. sint (fm_get (?tab j) (nm j)) = ?tot (nm j)"
    unfolding get using inv ne sv by (auto simp: side_inv_def)
  have c3: "\<forall>k. k \<notin> nm ` {..<n} \<longrightarrow> ?tot k = 0"
    using inv i by (simp add: side_inv_def)
  have c4: "\<forall>m'\<in>insert m snt. \<forall>k u. fmlookup m' k = Some u \<longrightarrow> sint u \<le> ?tot k"
    using inv tot sv unfolding side_inv_def m by (fastforce split: if_splits intro: order_trans)
  have c5: "\<forall>j<n. \<forall>m'\<in>(sn(i := insert m (sn i))) j. \<forall>k u. fmlookup m' k = Some u \<longrightarrow> sint u \<le> sint (fm_get (?tab j) k)"
  proof (intro allI impI ballI)
    fix j m' k u assume j: "j < n" and m': "m' \<in> (sn(i := insert m (sn i))) j" and u: "fmlookup m' k = Some u"
    show "sint u \<le> sint (fm_get (?tab j) k)"
    proof (cases "m' \<in> sn j")
      case True
      with inv j u have "sint u \<le> sint (fm_get (tab j) k)" by (simp add: side_inv_def)
      with grow [OF j, of k] show ?thesis by simp
    next
      case False
      with m' have "j = i" "m' = m" by (auto split: if_splits)
      with u show ?thesis by (auto simp: m gomap_simps split: if_splits)
    qed
  qed
  have c6: "\<forall>k. 0 < ?tot k \<longrightarrow> (\<exists>m'\<in>insert m snt. \<exists>u. fmlookup m' k = Some u \<and> sint u = ?tot k)"
    using inv sv unfolding side_inv_def m by auto
  show ?thesis unfolding side_inv_def using c1 c2 c3 c4 c5 c6 by blast
qed

lemma side_inv_skip:
  assumes "side_inv n nm tab snt sn tot"
  shows "side_inv n nm tab (insert fmempty snt) (sn(i := insert fmempty (sn i))) tot"
  using assms unfolding side_inv_def by (intro conjI; simp; blast)

lemma side_inv_deliver:
  assumes "side_inv n nm tab snt sn tot" and "m \<in> snt" and "i < n"
  shows "side_inv n nm (tab(i := max_fm m (tab i))) snt (sn(i := insert m (sn i))) tot"
proof -
  have le: "sint (fm_get m k) \<le> tot k" if "k \<in> fmdom' m" for k
    using assms that unfolding side_inv_def by (auto simp: fmlookup_dom'_iff fm_get_def)
  have bound: "0 \<le> sint (fm_get (tab i) k)" "sint (fm_get (tab i) k) \<le> tot k"
    "sint (fm_get (tab i) (nm i)) = tot (nm i)" for k
    using assms(1,3) unfolding side_inv_def by auto
  have get: "sint (fm_get (max_fm m (tab i)) k) =
      (if k \<in> fmdom' m then max (sint (fm_get (tab i) k)) (sint (fm_get m k)) else sint (fm_get (tab i) k))" for k
    by (simp add: fm_get_max_fm sint_max_i64)
  have "fmlookup m k = Some v \<Longrightarrow> sint v \<le> sint (fm_get (max_fm m (tab i)) k)" for k v
    unfolding get by (auto simp: fmlookup_dom'_iff fm_get_def [where m = m])
  moreover have "sint (fm_get (tab i) k) \<le> sint (fm_get (max_fm m (tab i)) k)" for k
    by (simp add: get)
  moreover have "0 \<le> sint (fm_get (max_fm m (tab i)) k)" "sint (fm_get (max_fm m (tab i)) k) \<le> tot k"
    "sint (fm_get (max_fm m (tab i)) (nm i)) = tot (nm i)" for k
    using bound(1,2) [of k] bound(2) [of "nm i"] bound(3) le [of k] le [of "nm i"] by (auto simp: get)
  ultimately show ?thesis
    using assms(1) unfolding side_inv_def
    by (intro conjI; clarsimp; meson order_trans)
qed

lemma side_inv_complete:
  assumes "side_inv n nm tab snt sn tot" and "i < n" and "snt \<subseteq> sn i"
  shows "fm_get (tab i) k = word_of_int (tot k)"
proof -
  have b: "0 \<le> sint (fm_get (tab i) k)" "sint (fm_get (tab i) k) \<le> tot k"
    using assms(1,2) unfolding side_inv_def by auto
  have "tot k \<le> sint (fm_get (tab i) k)"
  proof (cases "0 < tot k")
    case True
    then obtain m v where "m \<in> snt" "fmlookup m k = Some v" "sint v = tot k"
      using assms(1) unfolding side_inv_def by blast
    moreover have "m \<in> sn i" using assms(3) \<open>m \<in> snt\<close> by blast
    ultimately show ?thesis using assms(1,2) unfolding side_inv_def by metis
  qed (use b in simp)
  with b have "sint (fm_get (tab i) k) = tot k" by simp
  then show ?thesis by (metis of_int_sint scast_id)
qed

section \<open>The cluster\<close>

definition pn_sys_inv :: "nat \<Rightarrow> (nat \<Rightarrow> string) \<Rightarrow> pn_sys \<Rightarrow> bool" where
  "pn_sys_inv n nm s \<longleftrightarrow>
     (\<forall>i<n. pn_wf (reps s i) \<and> pn_id (reps s i) = nm i)
   \<and> side_inv n nm (\<lambda>i. gm (pP (reps s i))) ((\<lambda>d. gm (dP d)) ` sent s) (\<lambda>i. (\<lambda>d. gm (dP d)) ` seen s i) (inc_tot s)
   \<and> side_inv n nm (\<lambda>i. gm (pN (reps s i))) ((\<lambda>d. gm (dN d)) ` sent s) (\<lambda>i. (\<lambda>d. gm (dN d)) ` seen s i) (dec_tot s)"

lemmas upd_fields = fun_upd_def if_distrib [of "\<lambda>c. gm (pP c)"] if_distrib [of "\<lambda>c. gm (pN c)"]
  if_distrib [of "image (\<lambda>d. gm (dP d))"] if_distrib [of "image (\<lambda>d. gm (dN d))"]

lemma pn_sys_inv_sides:
  assumes "pn_sys_inv n nm s"
  shows "side_inv n nm (\<lambda>i. gm (pP (reps s i))) ((\<lambda>d. gm (dP d)) ` sent s) (\<lambda>i. (\<lambda>d. gm (dP d)) ` seen s i) (inc_tot s)"
    and "side_inv n nm (\<lambda>i. gm (pN (reps s i))) ((\<lambda>d. gm (dN d)) ` sent s) (\<lambda>i. (\<lambda>d. gm (dN d)) ` seen s i) (dec_tot s)"
  using assms by (simp_all add: pn_sys_inv_def)

lemma pn_sys_inv_step:
  assumes "pn_sys_step n s s'" and "pn_sys_inv n nm s" and "inj_on nm {..<n}"
  shows "pn_sys_inv n nm s'"
  using assms(1)
proof (cases rule: pn_sys_step.cases)
  case (inc i x d c)
  from assms(2) inc(2) have id: "pn_wf (reps s i)" "pn_id (reps s i) = nm i" by (auto simp: pn_sys_inv_def)
  let ?v = "fm_get (gm (pP (reps s i))) (nm i) + x"
  have dc: "gm (dP d) = fmupd (nm i) ?v fmempty" "gm (dN d) = fmempty" "gm (pN c) = gm (pN (reps s i))"
    "gm (pP c) = fmupd (nm i) ?v (gm (pP (reps s i)))" "pn_wf c" "pn_id c = nm i"
    using inc(5) id by (auto simp: Increment_def Let_def pn_wf_def bind_res_Inr_iff)
  have x: "inc_tot s (nm i) + sint x < 2 ^ 63" using inc(4) id(2) by simp
  have same: "(\<lambda>j. gm (pN (if j = i then c else reps s j))) = (\<lambda>j. gm (pN (reps s j)))"
    using dc(3) by auto
  from assms(2) dc(5,6) side_inv_bump [OF pn_sys_inv_sides(1) [OF assms(2)] inc(2) assms(3) inc(3) x refl refl]
    side_inv_skip [OF pn_sys_inv_sides(2) [OF assms(2)], of i]
  show ?thesis
    by (simp add: pn_sys_inv_def inc(1) dc id(2) same fun_upd_def)
       (simp add: upd_fields dc cong: if_cong)
next
  case (dec i x d c)
  from assms(2) dec(2) have id: "pn_wf (reps s i)" "pn_id (reps s i) = nm i" by (auto simp: pn_sys_inv_def)
  let ?v = "fm_get (gm (pN (reps s i))) (nm i) + x"
  have dc: "gm (dN d) = fmupd (nm i) ?v fmempty" "gm (dP d) = fmempty" "gm (pP c) = gm (pP (reps s i))"
    "gm (pN c) = fmupd (nm i) ?v (gm (pN (reps s i)))" "pn_wf c" "pn_id c = nm i"
    using dec(5) id by (auto simp: Decrement_def Let_def pn_wf_def bind_res_Inr_iff)
  have x: "dec_tot s (nm i) + sint x < 2 ^ 63" using dec(4) id(2) by simp
  have same: "(\<lambda>j. gm (pP (if j = i then c else reps s j))) = (\<lambda>j. gm (pP (reps s j)))"
    using dc(3) by auto
  from assms(2) dc(5,6) side_inv_bump [OF pn_sys_inv_sides(2) [OF assms(2)] dec(2) assms(3) dec(3) x refl refl]
    side_inv_skip [OF pn_sys_inv_sides(1) [OF assms(2)], of i]
  show ?thesis
    by (simp add: pn_sys_inv_def dec(1) dc id(2) same fun_upd_def)
       (simp add: upd_fields dc cong: if_cong)
next
  case (deliver i d c)
  from assms(2) deliver(2) have id: "pn_wf (reps s i)" "pn_id (reps s i) = nm i" by (auto simp: pn_sys_inv_def)
  have dc: "gm (pP c) = max_fm (gm (dP d)) (gm (pP (reps s i)))"
    "gm (pN c) = max_fm (gm (dN d)) (gm (pN (reps s i)))" "pn_wf c" "pn_id c = nm i"
    using deliver(4) id by (auto simp: ApplyDelta_wf pn_wf_def)
  from assms(2) dc(3,4)
    side_inv_deliver [OF pn_sys_inv_sides(1) [OF assms(2)] imageI [OF deliver(3)] deliver(2)]
    side_inv_deliver [OF pn_sys_inv_sides(2) [OF assms(2)] imageI [OF deliver(3)] deliver(2)]
  show ?thesis
    by (simp add: pn_sys_inv_def deliver(1) upd_fields dc cong: if_cong)
qed

lemma pn_reach_inv: "pn_reach n nm s \<Longrightarrow> inj_on nm {..<n} \<Longrightarrow> pn_sys_inv n nm s"
proof (induction rule: pn_reach.induct)
  case start
  show ?case
    using side_inv_init
    by (auto simp: pn_sys_inv_def pn_sys_init_def NewPNCounter_def pn_wf_def)
qed (blast intro: pn_sys_inv_step)

lemma sum_entries_nodes:
  assumes "side_inv n nm tab snt sn tot" and "i < n" and "snt \<subseteq> sn i" and "inj_on nm {..<n}"
  shows "sum_entries (fm_entries (tab i)) = word_of_int (\<Sum>j<n. tot (nm j))"
proof -
  let ?S = "fmdom' (tab i) \<union> nm ` {..<n}"
  have "sum_entries (fm_entries (tab i)) = (\<Sum>k\<in>?S. word_of_int (tot k))"
    using side_inv_complete [OF assms(1-3)] by (subst sum_fm_entries [of ?S]) auto
  also have "\<dots> = (\<Sum>k\<in>nm ` {..<n}. word_of_int (tot k))"
    using assms(1) by (intro sum.mono_neutral_right) (auto simp: side_inv_def)
  also have "\<dots> = (\<Sum>j<n. word_of_int (tot (nm j)))"
    using assms(4) by (simp add: sum.reindex)
  finally show ?thesis by simp
qed

text \<open>C1. Whatever the interleaving of increments, decrements and deliveries among \<open>n\<close> replicas with
  distinct node ids, where the amounts are not negative and the total of the increments, and that of the decrements, of each replica
  stays below \<open>2\<^sup>6\<^sup>3\<close>: a replica to which every published delta has been delivered, in any order and
  with any repetition, reads exactly the sum of all increments minus the sum of all decrements made
  anywhere in the cluster (modulo 2 to the 64).\<close>

theorem pn_cluster_exact:
  assumes "pn_reach n nm s" and "inj_on nm {..<n}" and "i < n" and "sent s \<subseteq> seen s i"
  shows "PNCounter_Value (reps s i) =
    word_of_int ((\<Sum>j<n. inc_tot s (nm j)) - (\<Sum>j<n. dec_tot s (nm j)))"
proof -
  have inv: "pn_sys_inv n nm s" using assms(1,2) by (rule pn_reach_inv)
  have "sum_entries (gm_entries (pP (reps s i))) = word_of_int (\<Sum>j<n. inc_tot s (nm j))"
    using assms(4) by (intro sum_entries_nodes [OF pn_sys_inv_sides(1) [OF inv] assms(3) _ assms(2)]) auto
  moreover have "sum_entries (gm_entries (pN (reps s i))) = word_of_int (\<Sum>j<n. dec_tot s (nm j))"
    using assms(4) by (intro sum_entries_nodes [OF pn_sys_inv_sides(2) [OF inv] assms(3) _ assms(2)]) auto
  ultimately show ?thesis by (simp add: PNCounter_Value_def)
qed

theorem pn_cluster_exact_witness:
  "\<exists>s. pn_reach 2 (\<lambda>i. if i = 0 then ''a'' else ''b'') s \<and> sent s \<noteq> {}
     \<and> PNCounter_Value (reps s 1) = word_of_int 5"
proof -
  let ?nm = "\<lambda>i::nat. if i = 0 then ''a'' else ''b''"
  let ?d = "\<lparr>dP = Some (fmupd ''a'' 5 fmempty), dN = None\<rparr> :: PNCounterDelta"
  let ?c = "\<lparr>pn_id = ''a'', pP = Some (fmupd ''a'' 5 fmempty), pN = Some fmempty\<rparr> :: PNCounter"
  let ?s0 = "pn_sys_init ?nm"
  let ?s1 = "?s0\<lparr>reps := (reps ?s0)(0 := ?c), sent := insert ?d (sent ?s0),
       seen := (seen ?s0)(0 := insert ?d (seen ?s0 0)),
       inc_tot := (inc_tot ?s0)(pn_id (reps ?s0 0) := inc_tot ?s0 (pn_id (reps ?s0 0)) + sint (5::i64))\<rparr>"
  have r1: "pn_reach 2 ?nm ?s1"
    by (rule pn_reach.step [OF pn_reach.start pn_sys_step.inc])
       (simp_all add: pn_sys_init_def NewPNCounter_def Increment_def)
  have "pn_wf (reps ?s1 1)" by (simp add: pn_sys_init_def NewPNCounter_def pn_wf_def)
  then obtain c where c: "PNCounter_ApplyDelta (reps ?s1 1) ?d = Inr c" by (auto simp: ApplyDelta_wf)
  let ?s2 = "?s1\<lparr>reps := (reps ?s1)(1 := c), seen := (seen ?s1)(1 := insert ?d (seen ?s1 1))\<rparr>"
  have r2: "pn_reach 2 ?nm ?s2"
    by (rule pn_reach.step [OF r1 pn_sys_step.deliver]) (simp_all only: c, simp_all)
  have "PNCounter_Value (reps ?s2 1) = word_of_int ((\<Sum>j<2. inc_tot ?s2 (?nm j)) - (\<Sum>j<2. dec_tot ?s2 (?nm j)))"
    by (rule pn_cluster_exact [OF r2]) (auto simp: pn_sys_init_def inj_on_def)
  then have "PNCounter_Value (reps ?s2 1) = word_of_int 5"
    by (simp add: pn_sys_init_def NewPNCounter_def numeral_2_eq_2)
  with r2 show ?thesis by (intro exI [of _ ?s2]) simp
qed

end
