(* ===== verification/Structs_Range.thy ===== *)
theory Structs_Range
  imports Lume_Prelude
begin

text \<open>
  \<open>pkg/structs/range.go\<close>: closed ranges of sequence numbers. Lemmas: membership, when a merge is the
  union, and what a split covers.
\<close>

record Range =
  Start :: u64
  End :: u64

definition range_Len :: "Range \<Rightarrow> u64" where
  "range_Len r = End r - Start r + 1"

definition ContainsValue :: "Range \<Rightarrow> u64 \<Rightarrow> bool" where
  "ContainsValue r v \<longleftrightarrow> v \<ge> Start r \<and> v \<le> End r"

definition ContainsOther :: "Range \<Rightarrow> Range \<Rightarrow> bool" where
  "ContainsOther r o' \<longleftrightarrow> ContainsValue r (Start o') \<and> ContainsValue r (End o')"

definition range_Equals :: "Range \<Rightarrow> Range \<Rightarrow> bool" where
  "range_Equals r o' \<longleftrightarrow> Start r = Start o' \<and> End r = End o'"

definition range_Merge :: "Range \<Rightarrow> Range \<Rightarrow> go_error + Range" where
  "range_Merge r other =
     (if Start other > End r + 1 \<or> Start r > End other + 1 then Inl ErrCannotMergeRanges
      else Inr (r\<lparr>Start := min (Start other) (Start r), End := max (End other) (End r)\<rparr>))"

definition range_Split :: "Range \<Rightarrow> u64 \<Rightarrow> Range \<times> Range" where
  "range_Split r pivot =
     (if pivot < Start r \<or> pivot > End r then (r, r)
      else (\<lparr>Start = Start r, End = pivot\<rparr>, \<lparr>Start = pivot, End = End r\<rparr>))"

text \<open>The numbers a list of ranges stands for.\<close>

definition ranges_set :: "Range list \<Rightarrow> u64 set" where
  "ranges_set rs = {v. \<exists>r \<in> set rs. ContainsValue r v}"

lemma ranges_set_Nil [simp]: "ranges_set [] = {}"
  by (simp add: ranges_set_def)

lemma ranges_set_Cons [simp]: "ranges_set (r # rs) = {Start r..End r} \<union> ranges_set rs"
  by (auto simp: ranges_set_def ContainsValue_def)

lemma ranges_set_append [simp]: "ranges_set (rs @ ss) = ranges_set rs \<union> ranges_set ss"
  by (auto simp: ranges_set_def)

lemma ranges_set_rev [simp]: "ranges_set (rev rs) = ranges_set rs"
  by (simp add: ranges_set_def)

lemma ContainsValue_iff: "ContainsValue r v \<longleftrightarrow> v \<in> {Start r..End r}"
  by (auto simp: ContainsValue_def)

lemma ContainsOther_iff:
  "Start s \<le> End s \<Longrightarrow> ContainsOther r s \<longleftrightarrow> {Start s..End s} \<subseteq> {Start r..End r}"
  by (auto simp: ContainsOther_def ContainsValue_def)

text \<open>Adjacency, where the increment does not wrap.\<close>

lemma succ_ge_iff: "e \<noteq> - 1 \<Longrightarrow> s \<le> e + 1 \<longleftrightarrow> unat s \<le> Suc (unat (e :: u64))"
  by (simp add: word_le_nat_alt unat_Suc_word)

lemma succ_less_iff: "e \<noteq> - 1 \<Longrightarrow> e + 1 < s \<longleftrightarrow> Suc (unat e) < unat (s :: u64)"
  by (simp add: word_less_nat_alt unat_Suc_word)

lemma succ_le_iff: "e \<noteq> - 1 \<Longrightarrow> e + 1 \<le> s \<longleftrightarrow> Suc (unat e) \<le> unat (s :: u64)"
  by (simp add: word_le_nat_alt unat_Suc_word)

lemma less_succ_iff: "e \<noteq> - 1 \<Longrightarrow> s < e + 1 \<longleftrightarrow> unat s < Suc (unat (e :: u64))"
  by (simp add: word_less_nat_alt unat_Suc_word)

lemmas succ_iffs = succ_ge_iff succ_less_iff succ_le_iff less_succ_iff

text \<open>A merge that succeeds is the union of the two ranges.\<close>

lemma range_Merge_union:
  assumes "Start r \<le> End r" "Start s \<le> End s" "End r \<noteq> - 1" "End s \<noteq> - 1" "range_Merge r s = Inr m"
  shows "{Start m..End m} = {Start r..End r} \<union> {Start s..End s} \<and> Start m \<le> End m"
  using assms
  by (auto simp: range_Merge_def not_less succ_iffs word_le_nat_alt min_def max_def split: if_splits)

lemma range_Split_covers:
  assumes "ContainsValue r p"
  shows "{Start r..End r} = {Start (fst (range_Split r p))..End (fst (range_Split r p))}
    \<union> {Start (snd (range_Split r p))..End (snd (range_Split r p))}"
  using assms by (auto simp: range_Split_def ContainsValue_def)

end
