(* ===== verification/History_Ranges.thy ===== *)
theory History_Ranges
  imports Structs_Range
begin

text \<open>
  The helper functions of \<open>pkg/storage/version_manager/v2/history/sharded_history.go\<close> on the slice of
  ranges kept per node (the same functions are in \<open>v1/history/history.go\<close>): insertion with merging,
  membership by binary search, the contiguous prefix and the missing ranges. Lemmas: insertion
  keeps the slice sorted and separated and adds exactly the range, as long as the range does not
  reach the second range to its right; the other three functions compute what their comments say.
\<close>

section \<open>The functions\<close>

definition containsRange :: "Range list \<Rightarrow> Range \<Rightarrow> bool" where
  "containsRange ranges r = list_ex (\<lambda>present. ContainsOther present r) ranges"

definition hasInRanges :: "Range list \<Rightarrow> u64 \<Rightarrow> bool" where
  "hasInRanges ranges seq =
     (let i = sort_search (length ranges) (\<lambda>i. Start (ranges ! i) > seq)
      in if i = 0 then False
         else let r = ranges ! (i - 1) in Start r \<le> seq \<and> seq \<le> End r)"

fun contiguous_loop :: "Range list \<Rightarrow> u64 \<Rightarrow> u64" where
  "contiguous_loop [] contig = contig"
| "contiguous_loop (r # rs) contig =
     (if Start r \<le> contig + 1 then contiguous_loop rs (if End r > contig then End r else contig)
      else contig)"

definition calculateContiguous :: "Range list \<Rightarrow> u64" where
  "calculateContiguous ranges = (if ranges = [] then 0 else contiguous_loop ranges 0)"

text \<open>The loop of \<open>calculateMissing\<close>, with the slice built so far; it ends in the trailing part.\<close>

definition missing_tail :: "u64 \<Rightarrow> u64 \<Rightarrow> Range list \<Rightarrow> Range list" where
  "missing_tail remoteLast cursor missing =
     (if cursor \<le> remoteLast then missing @ [\<lparr>Start = cursor, End = remoteLast\<rparr>] else missing)"

fun missing_loop :: "Range list \<Rightarrow> u64 \<Rightarrow> u64 \<Rightarrow> Range list \<Rightarrow> Range list" where
  "missing_loop [] remoteLast cursor missing = missing_tail remoteLast cursor missing"
| "missing_loop (r # rs) remoteLast cursor missing =
     (if cursor > remoteLast then missing_tail remoteLast cursor missing
      else if End r < cursor then missing_loop rs remoteLast cursor missing
      else if Start r > remoteLast then
        missing_tail remoteLast (remoteLast + 1)
          (if cursor \<le> remoteLast then missing @ [\<lparr>Start = cursor, End = remoteLast\<rparr>] else missing)
      else
        let end = (if Start r - 1 > remoteLast then remoteLast else Start r - 1);
            missing' = (if Start r > cursor \<and> cursor \<le> end
                        then missing @ [\<lparr>Start = cursor, End = end\<rparr>] else missing);
            cursor' = (if End r + 1 > cursor then End r + 1 else cursor)
        in missing_loop rs remoteLast cursor' missing')"

definition calculateMissing :: "Range list \<Rightarrow> u64 \<Rightarrow> Range list" where
  "calculateMissing ranges remoteLast =
     (if ranges = [] then [\<lparr>Start = 1, End = remoteLast\<rparr>] else missing_loop ranges remoteLast 1 [])"

text \<open>The two loops of \<open>insertAndMerge\<close> that find the zone to merge, on the slice with the new range
  already inserted.\<close>

fun left_zone :: "Range list \<Rightarrow> nat \<Rightarrow> nat" where
  "left_zone rs 0 = 0"
| "left_zone rs (Suc i) = (if End (rs ! i) + 1 \<ge> Start (rs ! Suc i) then left_zone rs i else Suc i)"

function right_zone :: "Range list \<Rightarrow> nat \<Rightarrow> nat" where
  "right_zone rs e =
     (if e + 1 < length rs \<and> End (rs ! e) + 1 \<ge> Start (rs ! (e + 1)) then right_zone rs (e + 1) else e)"
  by pat_completeness auto
termination by (relation "measure (\<lambda>(rs, e). length rs - e)") auto

declare right_zone.simps [simp del]

definition merge_zone :: "Range list \<Rightarrow> nat \<Rightarrow> nat \<Rightarrow> Range" where
  "merge_zone rs s e =
     fold (\<lambda>i m. m\<lparr>Start := min (Start m) (Start (rs ! i)), End := max (End m) (End (rs ! i))\<rparr>)
       [s + 1..<e + 1] (rs ! s)"

definition insertAndMerge :: "Range list \<Rightarrow> Range \<Rightarrow> Range list" where
  "insertAndMerge rs r =
     (if rs = [] then [r]
      else let idx = sort_search (length rs) (\<lambda>i. Start (rs ! i) \<ge> Start r);
               rs1 = take idx rs @ [r] @ drop idx rs;
               startIdx = left_zone rs1 idx;
               endIdx = right_zone rs1 idx
           in if startIdx = endIdx then rs1
              else take startIdx rs1 @ [merge_zone rs1 startIdx endIdx] @ drop (endIdx + 1) rs1)"

section \<open>Well-formed slices\<close>

text \<open>Sorted, with a gap of at least one number between neighbours, and below the largest uint64.\<close>

definition apart :: "Range \<Rightarrow> Range \<Rightarrow> bool" where
  "apart r s \<longleftrightarrow> Suc (unat (End r)) < unat (Start s)"

definition range_ok :: "Range \<Rightarrow> bool" where
  "range_ok r \<longleftrightarrow> Start r \<le> End r \<and> End r \<noteq> - 1"

definition ranges_wf :: "Range list \<Rightarrow> bool" where
  "ranges_wf rs \<longleftrightarrow> list_all range_ok rs \<and> sorted_wrt apart rs"

lemma ranges_wf_Nil [simp]: "ranges_wf []"
  by (simp add: ranges_wf_def)

lemma ranges_wf_Cons:
  "ranges_wf (r # rs) \<longleftrightarrow> range_ok r \<and> (\<forall>s \<in> set rs. apart r s) \<and> ranges_wf rs"
  by (auto simp: ranges_wf_def)

lemma ranges_wf_append:
  "ranges_wf (rs @ ss) \<longleftrightarrow> ranges_wf rs \<and> ranges_wf ss \<and> (\<forall>r \<in> set rs. \<forall>s \<in> set ss. apart r s)"
  by (auto simp: ranges_wf_def sorted_wrt_append)

lemma ranges_wf_ok: "ranges_wf rs \<Longrightarrow> r \<in> set rs \<Longrightarrow> range_ok r"
  by (auto simp: ranges_wf_def list_all_iff)

lemma apart_lessI:
  "i < j \<Longrightarrow> j < length rs \<Longrightarrow> ranges_wf rs \<Longrightarrow> apart (rs ! i) (rs ! j)"
  by (auto simp: ranges_wf_def sorted_wrt_iff_nth_less)

lemma apart_Start: "apart r s \<Longrightarrow> range_ok r \<Longrightarrow> Start r < Start s"
  by (auto simp: apart_def range_ok_def word_le_nat_alt word_less_nat_alt)

lemma Start_strict:
  "ranges_wf rs \<Longrightarrow> i < j \<Longrightarrow> j < length rs \<Longrightarrow> Start (rs ! i) < Start (rs ! j)"
  by (meson apart_Start apart_lessI nth_mem order.strict_trans ranges_wf_ok)

lemma Start_mono: "ranges_wf rs \<Longrightarrow> i \<le> j \<Longrightarrow> j < length rs \<Longrightarrow> Start (rs ! i) \<le> Start (rs ! j)"
  by (cases "i = j") (simp, rule less_imp_le, rule Start_strict, simp_all)

section \<open>Membership\<close>

lemma mono_below_Start:
  "ranges_wf rs \<Longrightarrow> mono_below (length rs) (\<lambda>i. Start (rs ! i) > v)"
  "ranges_wf rs \<Longrightarrow> mono_below (length rs) (\<lambda>i. Start (rs ! i) \<ge> v)"
  using Start_mono by (fastforce simp: mono_below_def)+

lemma hasInRanges_correct:
  assumes "ranges_wf rs"
  shows "hasInRanges rs v \<longleftrightarrow> v \<in> ranges_set rs"
proof -
  let ?i = "sort_search (length rs) (\<lambda>i. Start (rs ! i) > v)"
  note ss = sort_search_correct [OF mono_below_Start(1) [OF assms, of v]]
  have at: "k = ?i - 1 \<and> ?i \<noteq> 0" if k: "k < length rs" "ContainsValue (rs ! k) v" for k
  proof -
    have "k < ?i" using ss(3) [of k] k by (force simp: ContainsValue_def)
    moreover have "\<not> k < ?i - 1"
    proof
      assume "k < ?i - 1"
      with ss(1) have "apart (rs ! k) (rs ! (?i - 1))" by (intro apart_lessI assms) auto
      moreover have "\<not> Start (rs ! (?i - 1)) > v" using ss(2) [of "?i - 1"] \<open>k < ?i\<close> by simp
      ultimately show False using k(2) by (auto simp: apart_def ContainsValue_def word_le_nat_alt word_less_nat_alt)
    qed
    ultimately show ?thesis by linarith
  qed
  have "v \<in> ranges_set rs \<longleftrightarrow> ?i \<noteq> 0 \<and> ContainsValue (rs ! (?i - 1)) v"
  proof
    assume "v \<in> ranges_set rs"
    then obtain k where "k < length rs" "ContainsValue (rs ! k) v" by (auto simp: ranges_set_def in_set_conv_nth)
    with at [of k] show "?i \<noteq> 0 \<and> ContainsValue (rs ! (?i - 1)) v" by metis
  next
    assume a: "?i \<noteq> 0 \<and> ContainsValue (rs ! (?i - 1)) v"
    with ss(1) have "?i - 1 < length rs" by linarith
    then have "rs ! (?i - 1) \<in> set rs" by (rule nth_mem)
    with a show "v \<in> ranges_set rs" unfolding ranges_set_def by blast
  qed
  then show ?thesis unfolding hasInRanges_def Let_def ContainsValue_def by simp
qed

lemma apart_disjoint: "apart r s \<Longrightarrow> ContainsValue r v \<Longrightarrow> ContainsValue s w \<Longrightarrow> Suc (unat v) < unat w"
  by (auto simp: apart_def ContainsValue_def word_le_nat_alt)

lemma ranges_wf_pair:
  "ranges_wf rs \<Longrightarrow> r \<in> set rs \<Longrightarrow> s \<in> set rs \<Longrightarrow> r = s \<or> apart r s \<or> apart s r"
  by (induction rs) (auto simp: ranges_wf_Cons)

text \<open>A range is contained in one of the slice exactly when every number of it is in the slice.\<close>

lemma containsRange_correct:
  assumes "ranges_wf rs" "Start r \<le> End r"
  shows "containsRange rs r \<longleftrightarrow> {Start r..End r} \<subseteq> ranges_set rs"
proof
  assume "containsRange rs r"
  with assms show "{Start r..End r} \<subseteq> ranges_set rs"
    by (auto simp: containsRange_def list_ex_iff ContainsOther_def ContainsValue_def ranges_set_def)
      (meson order_trans)
next
  assume sub: "{Start r..End r} \<subseteq> ranges_set rs"
  then obtain p where p: "p \<in> set rs" "ContainsValue p (Start r)"
    using assms(2) by (force simp: ranges_set_def)
  have "End r \<le> End p"
  proof (rule ccontr)
    assume "\<not> End r \<le> End p"
    then have less: "End p < End r" by simp
    then have "End p \<noteq> - 1" by (metis word_order.extremum_strict)
    moreover from this less have "End p + 1 \<in> {Start r..End r}"
      using p(2) by (auto simp: succ_iffs ContainsValue_def word_le_nat_alt word_less_nat_alt unat_Suc_word)
    then have "End p + 1 \<in> ranges_set rs" using sub by auto
    then obtain q where q: "q \<in> set rs" "ContainsValue q (End p + 1)" by (auto simp: ranges_set_def)
    moreover have "ContainsValue p (End p)" using p(2) by (auto simp: ContainsValue_def)
    ultimately show False
      using ranges_wf_pair [OF assms(1) p(1) q(1)] apart_disjoint [of p q "End p" "End p + 1"]
        apart_disjoint [of q p "End p + 1" "End p"]
      by (auto simp: unat_Suc_word ContainsValue_def word_le_nat_alt)
  qed
  with p assms(2) show "containsRange rs r"
    by (auto simp: containsRange_def list_ex_iff ContainsOther_def ContainsValue_def intro!: bexI [of _ p])
qed

section \<open>Insertion\<close>

definition join :: "Range \<Rightarrow> Range \<Rightarrow> Range" where
  "join m s = m\<lparr>Start := min (Start m) (Start s), End := max (End m) (End s)\<rparr>"

lemma left_zone_stop:
  assumes "ranges_wf (xs @ [p])"
  shows "left_zone (xs @ p # zs) (length xs) = length xs"
proof (cases xs rule: rev_cases)
  case (snoc ys q)
  with assms have "apart q p" "range_ok q" by (auto simp: ranges_wf_append ranges_wf_Cons)
  then have "\<not> End q + 1 \<ge> Start p" by (auto simp: apart_def range_ok_def succ_iffs not_le word_less_nat_alt unat_Suc_word)
  with snoc show ?thesis by (simp add: nth_append)
qed simp

lemma left_zone_insert:
  assumes "ranges_wf xs"
  shows "left_zone (xs @ r # zs) (length xs) =
    (if xs \<noteq> [] \<and> Start r \<le> End (last xs) + 1 then length xs - 1 else length xs)"
proof (cases xs rule: rev_cases)
  case (snoc ys p)
  with assms left_zone_stop [of ys p "r # zs"] show ?thesis by (simp add: nth_append)
qed simp

lemma right_zone_stop:
  assumes "ranges_wf (y # ys)"
  shows "right_zone (xs @ y # ys) (length xs) = length xs"
proof (cases ys)
  case (Cons z zs)
  with assms have "apart y z" "range_ok y" by (auto simp: ranges_wf_Cons)
  then have "\<not> End y + 1 \<ge> Start z" by (auto simp: apart_def range_ok_def succ_iffs not_le word_less_nat_alt unat_Suc_word)
  with Cons show ?thesis by (subst right_zone.simps) (simp add: nth_append)
qed (subst right_zone.simps, simp)

lemma right_zone_insert:
  assumes "ranges_wf ys"
  shows "right_zone (xs @ r # ys) (length xs) =
    (if ys \<noteq> [] \<and> Start (hd ys) \<le> End r + 1 then length xs + 1 else length xs)"
proof (cases ys)
  case (Cons y zs)
  with assms right_zone_stop [of y zs "xs @ [r]"] show ?thesis
    by (subst right_zone.simps) (simp add: nth_append)
qed (subst right_zone.simps, simp)

lemma merge_zone_simps:
  "length xs = s \<Longrightarrow> merge_zone (xs @ p # q # zs) s (Suc s) = join p q"
  "length xs = s \<Longrightarrow> merge_zone (xs @ p # q # u # zs) s (Suc (Suc s)) = join (join p q) u"
  by (auto simp: merge_zone_def join_def nth_append)

text \<open>The slice around the insertion point: what is merged on each side is at most one range.\<close>

definition insert_between :: "Range list \<Rightarrow> Range \<Rightarrow> Range list \<Rightarrow> Range list" where
  "insert_between xs r ys =
     (let left = (xs \<noteq> [] \<and> Start r \<le> End (last xs) + 1);
          right = (ys \<noteq> [] \<and> Start (hd ys) \<le> End r + 1);
          m = (if left then join (last xs) r else r)
      in (if left then butlast xs else xs) @ [if right then join m (hd ys) else m]
         @ (if right then tl ys else ys))"

lemma insert_between_zones:
  assumes "length xs = i"
    and "s = (if xs \<noteq> [] \<and> Start r \<le> End (last xs) + 1 then i - 1 else i)"
    and "e = (if ys \<noteq> [] \<and> Start (hd ys) \<le> End r + 1 then i + 1 else i)"
    and "v = (if s = e then xs @ r # ys
              else take s (xs @ r # ys) @ [merge_zone (xs @ r # ys) s e] @ drop (e + 1) (xs @ r # ys))"
  shows "v = insert_between xs r ys"
proof -
  consider (none) "\<not> (xs \<noteq> [] \<and> Start r \<le> End (last xs) + 1)" "\<not> (ys \<noteq> [] \<and> Start (hd ys) \<le> End r + 1)"
    | (left) ls p where "xs = ls @ [p]" "Start r \<le> End p + 1" "\<not> (ys \<noteq> [] \<and> Start (hd ys) \<le> End r + 1)"
    | (right) y zs where "\<not> (xs \<noteq> [] \<and> Start r \<le> End (last xs) + 1)" "ys = y # zs" "Start y \<le> End r + 1"
    | (both) ls p y zs where "xs = ls @ [p]" "Start r \<le> End p + 1" "ys = y # zs" "Start y \<le> End r + 1"
    by (metis append_butlast_last_id list.exhaust_sel)
  then show ?thesis
  proof cases
    case none
    with assms show ?thesis by (auto simp: insert_between_def)
  next
    case left
    with assms have "s = length ls" "e = Suc (length ls)" by auto
    with left assms(4) merge_zone_simps(1) [of ls _ p r ys] show ?thesis
      by (auto simp: insert_between_def)
  next
    case right
    with assms have "s = length xs" "e = Suc (length xs)" by auto
    with right assms(4) merge_zone_simps(1) [of xs _ r y zs] show ?thesis
      by (auto simp: insert_between_def)
  next
    case both
    with assms have "s = length ls" "e = Suc (Suc (length ls))" by auto
    with both assms(4) merge_zone_simps(2) [of ls _ p r y zs] show ?thesis
      by (auto simp: insert_between_def)
  qed
qed

lemma insertAndMerge_between:
  assumes "ranges_wf rs"
  obtains xs ys where "rs = xs @ ys" "\<forall>x \<in> set xs. Start x < Start r" "\<forall>y \<in> set ys. Start r \<le> Start y"
    "insertAndMerge rs r = insert_between xs r ys"
proof (cases "rs = []")
  case True
  then show ?thesis by (intro that [of "[]" "[]"]) (auto simp: insertAndMerge_def insert_between_def)
next
  case False
  let ?idx = "sort_search (length rs) (\<lambda>i. Start (rs ! i) \<ge> Start r)"
  let ?xs = "take ?idx rs" and ?ys = "drop ?idx rs"
  note ss = sort_search_correct [OF mono_below_Start(2) [OF assms, of "Start r"]]
  have len: "length ?xs = ?idx" using ss(1) by simp
  have "ranges_wf (?xs @ ?ys)" using assms by simp
  then have wf: "ranges_wf ?xs" "ranges_wf ?ys" by (simp_all only: ranges_wf_append)
  have "\<forall>x \<in> set ?xs. Start x < Start r"
    using ss(1,2) by (force simp: in_set_conv_nth not_le)
  moreover have "\<forall>y \<in> set ?ys. Start r \<le> Start y"
    using ss(3) by (force simp: in_set_conv_nth)
  moreover have "insertAndMerge rs r = insert_between ?xs r ?ys"
  proof -
    have z: "left_zone (?xs @ r # ?ys) ?idx = (if ?xs \<noteq> [] \<and> Start r \<le> End (last ?xs) + 1 then ?idx - 1 else ?idx)"
      "right_zone (?xs @ r # ?ys) ?idx = (if ?ys \<noteq> [] \<and> Start (hd ?ys) \<le> End r + 1 then ?idx + 1 else ?idx)"
      using left_zone_insert [OF wf(1), of r ?ys] right_zone_insert [OF wf(2), of ?xs r] unfolding len .
    have *: "insertAndMerge rs r =
       (let s = left_zone (?xs @ r # ?ys) ?idx; e = right_zone (?xs @ r # ?ys) ?idx
        in if s = e then ?xs @ r # ?ys
           else take s (?xs @ r # ?ys) @ [merge_zone (?xs @ r # ?ys) s e] @ drop (e + 1) (?xs @ r # ?ys))"
      using False by (simp add: insertAndMerge_def Let_def)
    show ?thesis
      by (rule insert_between_zones [OF len z]) (simp only: * Let_def)
  qed
  ultimately show ?thesis by (intro that [of ?xs ?ys]) (simp_all only: append_take_drop_id)
qed

lemma join_adjacent:
  assumes "range_ok p" "range_ok r" "Start p \<le> Start r" "Start r \<le> End p + 1"
  shows "range_ok (join p r)" "Start (join p r) = Start p"
    "{Start (join p r)..End (join p r)} = {Start p..End p} \<union> {Start r..End r}"
  using assms by (auto simp: range_ok_def join_def word_le_nat_alt unat_Suc_word min_def max_def)

lemma apart_Start_le: "apart q p \<Longrightarrow> Start p \<le> Start r \<Longrightarrow> apart q r"
  by (auto simp: apart_def word_le_nat_alt)

lemma apart_End_le: "apart y z \<Longrightarrow> End m \<le> End y \<Longrightarrow> apart m z"
  by (auto simp: apart_def word_le_nat_alt)

lemma not_adjacent_apart: "range_ok p \<Longrightarrow> \<not> Start r \<le> End p + 1 \<Longrightarrow> apart p r"
  by (auto simp: apart_def range_ok_def succ_iffs)

lemma End_join: "End (join p r) = max (End p) (End r)"
  by (simp add: join_def)

text \<open>How many ranges to the right of its start a new range touches.\<close>

definition touches_ahead :: "Range list \<Rightarrow> Range \<Rightarrow> nat" where
  "touches_ahead rs r = length (filter (\<lambda>s. Start r \<le> Start s \<and> Start s \<le> End r + 1) rs)"

lemma insert_right_correct:
  assumes "ranges_wf (m # ys)  \<or> ranges_wf ys \<and> range_ok m \<and> (\<forall>y \<in> set ys. Start m \<le> Start y)"
    and "ys \<noteq> [] \<Longrightarrow> Start (hd ys) \<le> End m + 1 \<longleftrightarrow> b" "\<not> (ys = [] \<and> b)"
    and "\<forall>y \<in> set (tl ys). \<not> Start y \<le> End m + 1"
  shows "ranges_wf ((if b then join m (hd ys) else m) # (if b then tl ys else ys))
    \<and> ranges_set ((if b then join m (hd ys) else m) # (if b then tl ys else ys)) = {Start m..End m} \<union> ranges_set ys
    \<and> Start (if b then join m (hd ys) else m) = Start m"
proof -
  have wf: "ranges_wf ys" "range_ok m" "\<forall>y \<in> set ys. Start m \<le> Start y"
    using assms(1) by (auto simp: ranges_wf_Cons intro: less_imp_le apart_Start)
  show ?thesis
  proof (cases b)
    case True
    with assms(3) obtain y zs where ys: "ys = y # zs" by (cases ys) auto
    with True assms(2) have adj: "Start y \<le> End m + 1" by simp
    have y: "range_ok y" "Start m \<le> Start y" "\<forall>z \<in> set zs. apart y z" "ranges_wf zs"
      using wf ys by (auto simp: ranges_wf_Cons)
    have "apart (join m y) z" if "z \<in> set zs" for z
    proof -
      have "apart m z" using assms(4) wf(2) that ys by (auto intro: not_adjacent_apart)
      then show ?thesis using y(3) that by (auto simp: apart_def End_join max_def)
    qed
    then show ?thesis using True ys y join_adjacent [OF wf(2) y(1,2) adj]
      by (auto simp: ranges_wf_Cons)
  next
    case False
    have "apart m z" if "z \<in> set ys" for z
      using assms(2,4) False that wf(2) by (cases ys) (auto intro: not_adjacent_apart)
    with False wf show ?thesis by (auto simp: ranges_wf_Cons)
  qed
qed

lemma touches_ahead_tl:
  assumes "touches_ahead (xs @ ys) r \<le> 1" "\<forall>y \<in> set ys. Start r \<le> Start y" "ranges_wf ys" "range_ok r"
  shows "\<forall>y \<in> set (tl ys). \<not> Start y \<le> End r + 1"
proof (cases ys)
  case (Cons y zs)
  show ?thesis
  proof (intro ballI notI)
    fix z assume z: "z \<in> set (tl ys)" "Start z \<le> End r + 1"
    with Cons assms(3) have "apart y z" "range_ok y" by (auto simp: ranges_wf_Cons)
    then have "Start y \<le> End r + 1" using z(2) apart_Start by (meson less_imp_le order_trans)
    moreover have "filter (\<lambda>s. Start r \<le> Start s \<and> Start s \<le> End r + 1) zs \<noteq> []"
      using z Cons assms(2) by (auto simp: filter_empty_conv)
    ultimately show False using assms(1,2) Cons by (auto simp: touches_ahead_def)
  qed
qed simp

lemma insert_between_correct:
  assumes wf: "ranges_wf (xs @ ys)" and r: "range_ok r"
    and lt: "\<forall>x \<in> set xs. Start x < Start r" and ge: "\<forall>y \<in> set ys. Start r \<le> Start y"
    and touch: "\<forall>y \<in> set (tl ys). \<not> Start y \<le> End r + 1"
  shows "ranges_wf (insert_between xs r ys)
    \<and> ranges_set (insert_between xs r ys) = ranges_set (xs @ ys) \<union> {Start r..End r}"
proof (cases "xs \<noteq> [] \<and> Start r \<le> End (last xs) + 1")
  case False
  let ?b = "ys \<noteq> [] \<and> Start (hd ys) \<le> End r + 1"
  let ?m = "if ?b then join r (hd ys) else r" and ?zs = "if ?b then tl ys else ys"
  have "ranges_wf (?m # ?zs) \<and> ranges_set (?m # ?zs) = {Start r..End r} \<union> ranges_set ys \<and> Start ?m = Start r"
    by (rule insert_right_correct) (use assms in \<open>auto simp: ranges_wf_append\<close>)
  moreover have "apart x r" if "x \<in> set xs" for x
  proof (cases xs rule: rev_cases)
    case (snoc ls p)
    with wf have p: "range_ok p" "\<forall>l \<in> set ls. apart l p" by (auto simp: ranges_wf_append ranges_wf_Cons)
    with False snoc have "apart p r" by (auto intro: not_adjacent_apart)
    with p snoc that show ?thesis using lt by (auto intro: apart_Start_le less_imp_le)
  qed (use that in simp)
  moreover have "insert_between xs r ys = xs @ ?m # ?zs" using False by (auto simp: insert_between_def Let_def)
  moreover have "apart x z" if "x \<in> set xs" "z \<in> set (?m # ?zs)" for x z
    using that wf calculation(1,2) by (auto simp: ranges_wf_append apart_def list.set_sel split: if_splits)
  ultimately show ?thesis using wf by (auto simp: ranges_wf_append)
next
  case True
  then obtain ls p where xs: "xs = ls @ [p]" by (metis append_butlast_last_id)
  with True have adj: "Start r \<le> End p + 1" by simp
  have p: "range_ok p" "\<forall>l \<in> set ls. apart l p" "\<forall>y \<in> set ys. apart p y" "ranges_wf ys" "ranges_wf ls"
    using wf xs by (auto simp: ranges_wf_append ranges_wf_Cons)
  have pr: "Start p \<le> Start r" using lt xs by (auto intro: less_imp_le)
  note j = join_adjacent [OF p(1) r pr adj]
  let ?q = "join p r"
  let ?b = "ys \<noteq> [] \<and> Start (hd ys) \<le> End r + 1"
  have reach: "Start y \<le> End ?q + 1 \<longleftrightarrow> Start y \<le> End r + 1" if "y \<in> set ys" for y
    using p(1,3) r that
    by (auto simp: End_join max_def apart_def range_ok_def succ_iffs not_le word_less_nat_alt)
  let ?m = "if ?b then join ?q (hd ys) else ?q" and ?zs = "if ?b then tl ys else ys"
  have "ranges_wf (?m # ?zs) \<and> ranges_set (?m # ?zs) = {Start ?q..End ?q} \<union> ranges_set ys \<and> Start ?m = Start ?q"
  proof (rule insert_right_correct)
    show "ranges_wf (?q # ys) \<or> ranges_wf ys \<and> range_ok ?q \<and> (\<forall>y \<in> set ys. Start ?q \<le> Start y)"
      using p j ge pr by (auto intro: order_trans)
    show "\<forall>y \<in> set (tl ys). \<not> Start y \<le> End ?q + 1"
      using touch reach by (cases ys) auto
  qed (use reach in auto)
  moreover have "insert_between xs r ys = ls @ ?m # ?zs" using True xs by (auto simp: insert_between_def Let_def)
  moreover have "apart l z" if "l \<in> set ls" "z \<in> set (?m # ?zs)" for l z
    using that p wf xs j(2) calculation(1) by (auto simp: ranges_wf_append apart_def list.set_sel split: if_splits)
  ultimately show ?thesis using p j xs by (auto simp: ranges_wf_append)
qed

text \<open>The correctness of insertion.\<close>

lemma insertAndMerge_correct:
  assumes "ranges_wf rs" "range_ok r" "touches_ahead rs r \<le> 1"
  shows "ranges_wf (insertAndMerge rs r) \<and> ranges_set (insertAndMerge rs r) = ranges_set rs \<union> {Start r..End r}"
proof -
  obtain xs ys where s: "rs = xs @ ys" "\<forall>x \<in> set xs. Start x < Start r" "\<forall>y \<in> set ys. Start r \<le> Start y"
    "insertAndMerge rs r = insert_between xs r ys" by (rule insertAndMerge_between [OF assms(1)])
  then have "\<forall>y \<in> set (tl ys). \<not> Start y \<le> End r + 1"
    using assms touches_ahead_tl [of xs ys r] by (simp add: ranges_wf_append)
  then show ?thesis using insert_between_correct [of xs ys r] s assms by simp
qed

text \<open>A single sequence number never touches two ranges ahead of it.\<close>

lemma touches_ahead_singleton:
  assumes "ranges_wf rs" "v \<noteq> - 1"
  shows "touches_ahead rs \<lparr>Start = v, End = v\<rparr> \<le> 1"
  using assms(1)
proof (induction rs)
  case (Cons r rs)
  show ?case
  proof (cases "v \<le> Start r \<and> Start r \<le> v + 1")
    case True
    have "\<not> Start s \<le> v + 1" if "s \<in> set rs" for s
    proof -
      have "apart r s" "range_ok r" using Cons.prems that by (auto simp: ranges_wf_Cons)
      with True show ?thesis using assms(2) by (auto simp: apart_def range_ok_def word_le_nat_alt unat_Suc_word)
    qed
    then have "filter (\<lambda>s. v \<le> Start s \<and> Start s \<le> v + 1) rs = []" by (auto simp: filter_empty_conv)
    then show ?thesis by (simp add: touches_ahead_def)
  qed (use Cons in \<open>auto simp: touches_ahead_def ranges_wf_Cons\<close>)
qed (simp add: touches_ahead_def)

lemma insertAndMerge_singleton:
  assumes "ranges_wf rs" "v \<noteq> - 1"
  shows "ranges_wf (insertAndMerge rs \<lparr>Start = v, End = v\<rparr>)"
    and "ranges_set (insertAndMerge rs \<lparr>Start = v, End = v\<rparr>) = insert v (ranges_set rs)"
  using insertAndMerge_correct [OF assms(1) _ touches_ahead_singleton [OF assms]] assms(2)
  by (auto simp: range_ok_def)

section \<open>The contiguous prefix\<close>

lemma contiguous_loop_correct:
  assumes "ranges_wf rs" "c \<noteq> - 1" "\<forall>r \<in> set rs. c \<noteq> 0 \<longrightarrow> Suc (unat c) < unat (Start r)"
  shows "c \<le> contiguous_loop rs c \<and> contiguous_loop rs c \<noteq> - 1
    \<and> {c + 1..contiguous_loop rs c} \<subseteq> ranges_set rs
    \<and> contiguous_loop rs c + 1 \<notin> ranges_set rs"
proof (cases rs)
  case Nil
  with assms show ?thesis by (auto simp: word_le_nat_alt unat_Suc_word)
next
  case (Cons r rs')
  have r: "range_ok r" "\<forall>s \<in> set rs'. apart r s" using assms(1) Cons by (auto simp: ranges_wf_Cons)
  show ?thesis
  proof (cases "Start r \<le> c + 1")
    case True
    with assms(2,3) Cons have c: "c = 0" by (auto simp: succ_iffs)
    have stop: "contiguous_loop rs' d = d" if "d = End r \<or> d = 0 \<and> End r = 0" for d
    proof (cases rs')
      case (Cons s ss)
      with r have "apart r s" "End r \<noteq> - 1" by (auto simp: range_ok_def)
      with that have "\<not> Start s \<le> d + 1" by (auto simp: apart_def word_le_nat_alt unat_Suc_word)
      with Cons show ?thesis by simp
    qed simp
    have val: "contiguous_loop rs c = End r"
      using True Cons c stop [of "End r"] stop [of 0] by (auto simp: word_gt_0)
    have "End r + 1 \<notin> ranges_set rs'"
    proof
      assume "End r + 1 \<in> ranges_set rs'"
      then obtain s where "s \<in> set rs'" "ContainsValue s (End r + 1)" by (auto simp: ranges_set_def)
      moreover from this r have "apart r s" by auto
      ultimately show False using r(1)
        by (auto simp: apart_def range_ok_def ContainsValue_def word_le_nat_alt unat_Suc_word)
    qed
    moreover have "End r + 1 \<notin> {Start r..End r}" using r(1) by (auto simp: range_ok_def word_le_nat_alt unat_Suc_word)
    moreover have "ranges_set rs = {Start r..End r} \<union> ranges_set rs'" using Cons by simp
    ultimately have "End r + 1 \<notin> ranges_set rs" "{Start r..End r} \<subseteq> ranges_set rs" by auto
    moreover have "{c + 1..End r} \<subseteq> {Start r..End r}" using True by auto
    moreover have "c \<le> End r" using c by simp
    ultimately show ?thesis using r(1) unfolding val range_ok_def by blast
  next
    case False
    have "c + 1 \<notin> ranges_set rs"
    proof
      assume "c + 1 \<in> ranges_set rs"
      then obtain s where s: "s \<in> set rs" "Start s \<le> c + 1" by (auto simp: ranges_set_def ContainsValue_def)
      then have "s \<in> set rs'" using Cons False by auto
      then have "Start r < Start s" using r apart_Start by auto
      with s(2) False show False by auto
    qed
    moreover have "\<not> c + 1 \<le> c" using assms(2) by (simp add: word_le_nat_alt unat_Suc_word)
    ultimately show ?thesis using False Cons assms(2) by auto
  qed
qed

text \<open>The contiguous prefix of a history is the largest \<open>T\<close> with every number from 1 to \<open>T\<close> seen:
  all of them are in the history and \<open>T + 1\<close> is not.\<close>

lemma calculateContiguous_greatest:
  assumes "ranges_wf rs"
  shows "{1..calculateContiguous rs} \<subseteq> ranges_set rs
    \<and> calculateContiguous rs + 1 \<notin> ranges_set rs \<and> calculateContiguous rs < calculateContiguous rs + 1"
  using contiguous_loop_correct [OF assms, of 0]
  by (auto simp: calculateContiguous_def word_less_nat_alt unat_Suc_word)

section \<open>Missing ranges\<close>

lemma missing_tail_set: "ranges_set (missing_tail l c m) = ranges_set m \<union> {c..l}"
  by (auto simp: missing_tail_def)

lemma missing_loop_correct:
  assumes "ranges_wf rs" "l \<noteq> - 1" "c \<noteq> 0"
  shows "ranges_set (missing_loop rs l c m) = ranges_set m \<union> ({c..l} - ranges_set rs)"
  using assms(1,3)
proof (induction rs arbitrary: c m)
  case Nil
  then show ?case by (simp add: missing_tail_set)
next
  case (Cons r rs)
  then have r: "range_ok r" "ranges_wf rs" "\<forall>s \<in> set rs. apart r s" by (auto simp: ranges_wf_Cons)
  have above: "End r < v" if "v \<in> ranges_set rs" for v
    using r that apart_disjoint [of r _ "End r" v]
    by (fastforce simp: ranges_set_def ContainsValue_def range_ok_def word_less_nat_alt)
  have l: "\<not> l + 1 \<le> l" using assms(2) by (simp add: word_le_nat_alt unat_Suc_word)
  consider (past) "c > l" | (skip) "\<not> c > l" "End r < c" | (beyond) "\<not> c > l" "\<not> End r < c" "Start r > l"
    | (inside) "\<not> c > l" "\<not> End r < c" "\<not> Start r > l" by blast
  then show ?case
  proof cases
    case past
    then show ?thesis by (auto simp: missing_tail_set)
  next
    case skip
    then show ?thesis using Cons.IH [OF r(2) Cons.prems(2)] by auto
  next
    case beyond
    have "x \<notin> ranges_set (r # rs)" if "x \<le> l" for x
      using that beyond r(1) above [of x] by (auto simp: range_ok_def)
    with beyond l show ?thesis by (auto simp: missing_tail_set)
  next
    case inside
    let ?e = "if Start r - 1 > l then l else Start r - 1"
    let ?m = "if Start r > c \<and> c \<le> ?e then m @ [\<lparr>Start = c, End = ?e\<rparr>] else m"
    have pred: "unat (Start r - 1) = unat (Start r) - 1" if "Start r > c"
      using that by (intro unat_minus_one) auto
    have m: "ranges_set ?m = ranges_set m \<union> ({c..l} \<inter> {v. v < Start r})"
      using pred inside by (auto simp: word_le_nat_alt word_less_nat_alt)
    have e: "End r + 1 > c" using inside(2) r(1) less_Suc_word [of "End r"] by (auto simp: range_ok_def)
    then have "End r + 1 \<noteq> 0" by (metis word_coorder.extremum_strict)
    note e = e this
    have "missing_loop (r # rs) l c m = missing_loop rs l (End r + 1) ?m"
      using inside e by (simp add: Let_def)
    then have "ranges_set (missing_loop (r # rs) l c m) = ranges_set ?m \<union> ({End r + 1..l} - ranges_set rs)"
      using Cons.IH [OF r(2) e(2)] by simp
    moreover have "x \<in> {c..l} \<inter> {v. v < Start r} \<union> ({End r + 1..l} - ranges_set rs)
        \<longleftrightarrow> x \<in> {c..l} - ranges_set (r # rs)" for x
      using inside r(1) above [of x] unat_Suc_word [of "End r"]
      by (auto simp: range_ok_def word_le_nat_alt word_less_nat_alt)
    ultimately show ?thesis unfolding m by blast
  qed
qed

lemma calculateMissing_set:
  assumes "ranges_wf rs" "l \<noteq> - 1"
  shows "ranges_set (calculateMissing rs l) = {1..l} - ranges_set rs"
  using missing_loop_correct [OF assms, of 1 "[]"] by (simp add: calculateMissing_def)

text \<open>The missing ranges computed for a peer's last number are exactly the numbers from 1 to it
  that the history does not hold.\<close>

lemma calculateMissing_exact:
  assumes "ranges_wf rs" "remoteLast \<noteq> - 1"
  shows "ranges_set (calculateMissing rs remoteLast) = {1..remoteLast} - ranges_set rs"
  using assms by (rule calculateMissing_set)

text \<open>C21. Inserting a range into a well-formed slice keeps it sorted and separated and adds exactly the
  numbers of the range, as long as the range touches at most one range that starts after it.\<close>

theorem insertAndMerge_ok:
  assumes "ranges_wf rs" "range_ok r" "touches_ahead rs r \<le> 1"
  shows "ranges_wf (insertAndMerge rs r)
    \<and> ranges_set (insertAndMerge rs r) = ranges_set rs \<union> {Start r..End r}"
  using assms by (rule insertAndMerge_correct)

theorem insertAndMerge_ok_witness:
  "ranges_wf (insertAndMerge [\<lparr>Start = 1, End = 3\<rparr>, \<lparr>Start = 5, End = 9\<rparr>] \<lparr>Start = 4, End = 4\<rparr>)
   \<and> insertAndMerge [\<lparr>Start = 1, End = 3\<rparr>, \<lparr>Start = 5, End = 9\<rparr>] \<lparr>Start = 4, End = 4\<rparr> = [\<lparr>Start = 1, End = 9\<rparr>]"
proof
  have "ranges_wf [\<lparr>Start = 1, End = 3\<rparr>, \<lparr>Start = 5, End = 9\<rparr>]" by (simp add: ranges_wf_def range_ok_def apart_def)
  moreover have "range_ok \<lparr>Start = 4, End = 4\<rparr>" by (simp add: range_ok_def)
  moreover have "touches_ahead [\<lparr>Start = 1, End = 3\<rparr>, \<lparr>Start = 5, End = 9\<rparr>] \<lparr>Start = 4, End = 4\<rparr> \<le> 1"
    by code_simp
  ultimately show "ranges_wf (insertAndMerge [\<lparr>Start = 1, End = 3\<rparr>, \<lparr>Start = 5, End = 9\<rparr>] \<lparr>Start = 4, End = 4\<rparr>)"
    using insertAndMerge_ok by blast
qed code_simp

text \<open>A range that spans two ranges ahead of it is not merged with the second: the slice is left
  with overlapping ranges, and the binary search then denies a number that was just inserted.\<close>

lemma insertAndMerge_overlap:
  "insertAndMerge [\<lparr>Start = 3, End = 4\<rparr>, \<lparr>Start = 7, End = 8\<rparr>] \<lparr>Start = 1, End = 9\<rparr>
     = [\<lparr>Start = 1, End = 9\<rparr>, \<lparr>Start = 7, End = 8\<rparr>]
   \<and> ranges_wf [\<lparr>Start = 3, End = 4\<rparr>, \<lparr>Start = 7, End = 8\<rparr>]
   \<and> \<not> ranges_wf [\<lparr>Start = 1, End = 9\<rparr>, \<lparr>Start = 7, End = 8\<rparr>]
   \<and> \<not> hasInRanges [\<lparr>Start = 1, End = 9\<rparr>, \<lparr>Start = 7, End = 8\<rparr>] 9"
proof (intro conjI)
  show "insertAndMerge [\<lparr>Start = 3, End = 4\<rparr>, \<lparr>Start = 7, End = 8\<rparr>] \<lparr>Start = 1, End = 9\<rparr>
     = [\<lparr>Start = 1, End = 9\<rparr>, \<lparr>Start = 7, End = 8\<rparr>]" by code_simp
  show "\<not> hasInRanges [\<lparr>Start = 1, End = 9\<rparr>, \<lparr>Start = 7, End = 8\<rparr>] 9" by code_simp
qed (simp_all add: ranges_wf_def range_ok_def apart_def)

end
