(* ===== verification/History.thy ===== *)
theory History
  imports History_Ranges
begin

text \<open>
  The histories of sequence numbers per node: \<open>v2/history/sharded_history.go\<close>, which the version
  manager uses, and its predecessor \<open>v1/history/history.go\<close>. Both are interpretations of one interface,
  a set of numbers per node with insertion, membership and an atomic test-and-add; the lemmas on
  sequences of operations are proved once for the interface. The operations below run under the
  locks of the source, which make each of them atomic.
\<close>

section \<open>The interface\<close>

locale seq_history =
  fixes invar :: "'h \<Rightarrow> bool"
    and seqs :: "'h \<Rightarrow> string \<Rightarrow> u64 set"
    and add :: "'h \<Rightarrow> string \<Rightarrow> u64 \<Rightarrow> 'h"
    and has :: "'h \<Rightarrow> string \<Rightarrow> u64 \<Rightarrow> bool"
  assumes invar_add: "invar h \<Longrightarrow> v \<noteq> - 1 \<Longrightarrow> invar (add h n v)"
    and seqs_add: "invar h \<Longrightarrow> v \<noteq> - 1 \<Longrightarrow> seqs (add h n v) m = (if m = n then insert v (seqs h m) else seqs h m)"
    and has_iff: "invar h \<Longrightarrow> has h n v \<longleftrightarrow> v \<in> seqs h n"
begin

definition add_all :: "(string \<times> u64) list \<Rightarrow> 'h \<Rightarrow> 'h" where
  "add_all nvs h = fold (\<lambda>(n, v) h. add h n v) nvs h"

lemma add_all_correct:
  "invar h \<Longrightarrow> \<forall>(n, v) \<in> set nvs. v \<noteq> - 1 \<Longrightarrow>
   invar (add_all nvs h) \<and> seqs (add_all nvs h) m = seqs h m \<union> {v. (m, v) \<in> set nvs}"
proof (induction nvs arbitrary: h)
  case (Cons nv nvs)
  obtain n v where "nv = (n, v)" by (cases nv)
  with Cons show ?case by (auto simp: add_all_def invar_add seqs_add)
qed (simp add: add_all_def)

lemma has_add_all:
  "invar h \<Longrightarrow> \<forall>(n, v) \<in> set nvs. v \<noteq> - 1 \<Longrightarrow> has (add_all nvs h) m w \<longleftrightarrow> has h m w \<or> (m, w) \<in> set nvs"
  by (simp add: add_all_correct has_iff)

lemma add_all_order:
  assumes "invar h" "\<forall>(n, v) \<in> set nvs. v \<noteq> - 1" "set nvs = set mws"
  shows "has (add_all nvs h) n v = has (add_all mws h) n v"
  using assms has_add_all [OF assms(1), of nvs] has_add_all [OF assms(1), of mws] by simp

end

text \<open>With an atomic test-and-add, which tells whether the number was new.\<close>

locale seq_acceptor = seq_history +
  fixes try_add :: "'a \<Rightarrow> string \<Rightarrow> u64 \<Rightarrow> bool \<times> 'a"
  assumes try_new: "invar h \<Longrightarrow> v \<noteq> - 1 \<Longrightarrow> fst (try_add h n v) \<longleftrightarrow> v \<notin> seqs h n"
    and try_invar: "invar h \<Longrightarrow> v \<noteq> - 1 \<Longrightarrow> invar (snd (try_add h n v))"
    and try_seqs: "invar h \<Longrightarrow> v \<noteq> - 1 \<Longrightarrow>
      seqs (snd (try_add h n v)) m = (if m = n then insert v (seqs h m) else seqs h m)"
begin

fun offer_all :: "(string \<times> u64) list \<Rightarrow> 'a \<Rightarrow> (string \<times> u64) list \<times> 'a" where
  "offer_all [] h = ([], h)"
| "offer_all ((n, v) # nvs) h =
     (let (new, h1) = try_add h n v; (acc, h2) = offer_all nvs h1
      in (if new then (n, v) # acc else acc, h2))"

lemma offer_all_correct:
  "invar h \<Longrightarrow> \<forall>(n, v) \<in> set nvs. v \<noteq> - 1 \<Longrightarrow> offer_all nvs h = (acc, h') \<Longrightarrow>
   distinct acc \<and> set acc = {(n, v) \<in> set nvs. v \<notin> seqs h n} \<and> invar h'
   \<and> seqs h' m = seqs h m \<union> {v. (m, v) \<in> set nvs}"
proof (induction nvs arbitrary: h acc m)
  case (Cons nv nvs)
  obtain n v where nv: "nv = (n, v)" by (cases nv)
  obtain new h1 where t: "try_add h n v = (new, h1)" by (cases "try_add h n v")
  obtain acc1 where o: "offer_all nvs h1 = (acc1, h')" "acc = (if new then (n, v) # acc1 else acc1)"
    using Cons.prems(3) nv t by (auto split: prod.splits)
  have v: "v \<noteq> - 1" using Cons.prems(2) nv by auto
  have h1: "invar h1" "new \<longleftrightarrow> v \<notin> seqs h n" "seqs h1 k = (if k = n then insert v (seqs h k) else seqs h k)" for k
    using t try_new [OF Cons.prems(1) v, of n] try_invar [OF Cons.prems(1) v, of n]
      try_seqs [OF Cons.prems(1) v, of n] by simp_all
  have "\<forall>(n, v) \<in> set nvs. v \<noteq> - 1" using Cons.prems(2) by simp
  from Cons.IH [OF h1(1) this o(1)] show ?case using nv o(2) h1(2,3) by (auto split: if_splits)
qed simp

end

section \<open>The sharded history\<close>

text \<open>A node history is its slice of ranges; the sharded history maps node ids to node histories.\<close>

type_synonym NodeHistory = "Range list"
type_synonym ShardedHistory = "(string, NodeHistory) fmap"

definition NewShardedHistory :: ShardedHistory where
  "NewShardedHistory = fmempty"

definition getOrCreate :: "ShardedHistory \<Rightarrow> string \<Rightarrow> NodeHistory \<times> ShardedHistory" where
  "getOrCreate h nid = (case fmlookup h nid of Some nh \<Rightarrow> (nh, h) | None \<Rightarrow> ([], fmupd nid [] h))"

definition AddRange :: "ShardedHistory \<Rightarrow> string \<Rightarrow> Range \<Rightarrow> ShardedHistory" where
  "AddRange h nid r =
     (if Start r > End r then h
      else let (nh, h') = getOrCreate h nid in fmupd nid (insertAndMerge nh r) h')"

definition sh_Add :: "ShardedHistory \<Rightarrow> string \<Rightarrow> u64 \<Rightarrow> ShardedHistory" where
  "sh_Add h nid seq = AddRange h nid \<lparr>Start = seq, End = seq\<rparr>"

definition TryAddRange :: "ShardedHistory \<Rightarrow> string \<Rightarrow> Range \<Rightarrow> bool \<times> ShardedHistory" where
  "TryAddRange h nid r =
     (if Start r > End r then (False, h)
      else let (nh, h') = getOrCreate h nid
           in if containsRange nh r then (False, h')
              else (True, fmupd nid (insertAndMerge nh r) h'))"

definition HasRange :: "ShardedHistory \<Rightarrow> string \<Rightarrow> Range \<Rightarrow> bool" where
  "HasRange h nid r = (case fmlookup h nid of None \<Rightarrow> False | Some nh \<Rightarrow> containsRange nh r)"

definition sh_Has :: "ShardedHistory \<Rightarrow> string \<Rightarrow> u64 \<Rightarrow> bool" where
  "sh_Has h nid seq = (case fmlookup h nid of None \<Rightarrow> False | Some nh \<Rightarrow> hasInRanges nh seq)"

definition ContiguousSeq :: "ShardedHistory \<Rightarrow> string \<Rightarrow> u64" where
  "ContiguousSeq h nid = (case fmlookup h nid of None \<Rightarrow> 0 | Some nh \<Rightarrow> calculateContiguous nh)"

definition MaxSeq :: "ShardedHistory \<Rightarrow> string \<Rightarrow> u64" where
  "MaxSeq h nid = (case fmlookup h nid of None \<Rightarrow> 0 | Some nh \<Rightarrow> if nh = [] then 0 else End (last nh))"

definition AllContiguousSeq :: "ShardedHistory \<Rightarrow> (string, u64) fmap" where
  "AllContiguousSeq h = fmmap calculateContiguous h"

definition AllMaxSeq :: "ShardedHistory \<Rightarrow> (string, u64) fmap" where
  "AllMaxSeq h = fold (\<lambda>(nid, nh) res. if nh \<noteq> [] then fmupd nid (End (last nh)) res else res) (fm_entries h) fmempty"

definition diff_ranges :: "Range list \<Rightarrow> u64 \<Rightarrow> Range list" where
  "diff_ranges rs remoteLast =
     List.map_filter (\<lambda>r. if End r \<le> remoteLast then None
        else Some \<lparr>Start = max (Start r) (remoteLast + 1), End = End r\<rparr>) rs"

definition sh_Diff :: "ShardedHistory \<Rightarrow> string \<Rightarrow> u64 \<Rightarrow> Range list" where
  "sh_Diff h nid remoteLast = (case fmlookup h nid of None \<Rightarrow> [] | Some nh \<Rightarrow> diff_ranges nh remoteLast)"

definition diff_entry :: "ShardedHistory \<Rightarrow> string \<Rightarrow> u64 \<Rightarrow> Range list option" where
  "diff_entry h nid remoteLast =
     (if remoteLast = 0 then None
      else case fmlookup h nid of None \<Rightarrow> Some [\<lparr>Start = 1, End = remoteLast\<rparr>]
        | Some nh \<Rightarrow> let missing = calculateMissing nh remoteLast
                    in if length missing > 0 then Some missing else None)"

definition DiffAll :: "ShardedHistory \<Rightarrow> (string, u64) fmap \<Rightarrow> (string, Range list) fmap" where
  "DiffAll h remote =
     fold (\<lambda>(nid, remoteLast) result.
             case diff_entry h nid remoteLast of None \<Rightarrow> result | Some rs \<Rightarrow> fmupd nid rs result)
       (fm_entries remote) fmempty"

definition sh_Clear :: "ShardedHistory \<Rightarrow> string \<Rightarrow> ShardedHistory" where
  "sh_Clear h nid = fmdrop nid h"

section \<open>The history is a set of numbers per node\<close>

definition history_wf :: "ShardedHistory \<Rightarrow> bool" where
  "history_wf h \<longleftrightarrow> (\<forall>nid nh. fmlookup h nid = Some nh \<longrightarrow> ranges_wf nh)"

definition history_seqs :: "ShardedHistory \<Rightarrow> string \<Rightarrow> u64 set" where
  "history_seqs h nid = (case fmlookup h nid of None \<Rightarrow> {} | Some nh \<Rightarrow> ranges_set nh)"

lemma history_wf_New [simp]: "history_wf NewShardedHistory"
  by (simp add: history_wf_def NewShardedHistory_def)

lemma history_wf_upd: "history_wf h \<Longrightarrow> ranges_wf nh \<Longrightarrow> history_wf (fmupd nid nh h)"
  by (auto simp: history_wf_def)

lemma getOrCreate_correct:
  assumes "history_wf h" "getOrCreate h nid = (nh, h')"
  shows "ranges_wf nh \<and> history_wf h' \<and> ranges_set nh = history_seqs h nid \<and> history_seqs h' m = history_seqs h m"
  using assms by (auto simp: getOrCreate_def history_wf_def history_seqs_def split: option.splits if_splits)

lemma seqs_upd: "history_seqs (fmupd nid nh h) m = (if m = nid then ranges_set nh else history_seqs h m)"
  by (simp add: history_seqs_def)

lemma AddRange_correct:
  assumes "history_wf h" "range_ok r" "\<And>nh. fmlookup h nid = Some nh \<Longrightarrow> touches_ahead nh r \<le> 1"
  shows "history_wf (AddRange h nid r)
    \<and> history_seqs (AddRange h nid r) m = (if m = nid then history_seqs h m \<union> {Start r..End r} else history_seqs h m)"
proof -
  obtain nh h' where g: "getOrCreate h nid = (nh, h')" by (cases "getOrCreate h nid")
  have t: "touches_ahead nh r \<le> 1"
    using g assms(3) by (auto simp: getOrCreate_def touches_ahead_def split: option.splits)
  note gc = getOrCreate_correct [OF assms(1) g]
  have "ranges_wf (insertAndMerge nh r)" "ranges_set (insertAndMerge nh r) = ranges_set nh \<union> {Start r..End r}"
    using insertAndMerge_correct [OF _ assms(2) t] gc by auto
  then show ?thesis using g gc assms(2)
    by (auto simp: AddRange_def range_ok_def seqs_upd history_wf_upd)
qed

lemma TryAddRange_correct:
  assumes "history_wf h" "range_ok r" "\<And>nh. fmlookup h nid = Some nh \<Longrightarrow> touches_ahead nh r \<le> 1"
    and "TryAddRange h nid r = (new, h')"
  shows "(new \<longleftrightarrow> \<not> {Start r..End r} \<subseteq> history_seqs h nid) \<and> history_wf h'
    \<and> history_seqs h' m = (if m = nid then history_seqs h m \<union> {Start r..End r} else history_seqs h m)"
proof -
  obtain nh h1 where g: "getOrCreate h nid = (nh, h1)" by (cases "getOrCreate h nid")
  note gc = getOrCreate_correct [OF assms(1) g]
  have new: "new \<longleftrightarrow> \<not> containsRange nh r"
    and "h' = (if containsRange nh r then h1 else AddRange h nid r)"
    using assms(2,4) g by (auto simp: TryAddRange_def AddRange_def range_ok_def split: if_splits)
  moreover have "containsRange nh r \<longleftrightarrow> {Start r..End r} \<subseteq> history_seqs h nid"
    using containsRange_correct [of nh r] gc assms(2) by (simp add: range_ok_def)
  ultimately show ?thesis using gc AddRange_correct [OF assms(1-3)] by auto
qed

lemma range_ok_single [simp]: "range_ok \<lparr>Start = v, End = v\<rparr> \<longleftrightarrow> v \<noteq> - 1"
  by (simp add: range_ok_def)

lemma sh_Has_iff: "history_wf h \<Longrightarrow> sh_Has h nid v \<longleftrightarrow> v \<in> history_seqs h nid"
  by (auto simp: sh_Has_def history_seqs_def history_wf_def hasInRanges_correct split: option.splits)

lemma single_touches:
  "history_wf h \<Longrightarrow> v \<noteq> - 1 \<Longrightarrow> fmlookup h nid = Some nh \<Longrightarrow> touches_ahead nh \<lparr>Start = v, End = v\<rparr> \<le> 1"
  by (rule touches_ahead_singleton) (auto simp: history_wf_def)

interpretation sharded: seq_acceptor history_wf history_seqs sh_Add sh_Has
  "\<lambda>h nid v. TryAddRange h nid \<lparr>Start = v, End = v\<rparr>"
proof unfold_locales
  fix h :: ShardedHistory and v :: u64 and n m :: string
  assume h: "history_wf h"
  show "sh_Has h n v = (v \<in> history_seqs h n)" using h by (rule sh_Has_iff)
  assume v: "v \<noteq> - 1"
  note touch = single_touches [OF h v, of n]
  note a = AddRange_correct [OF h _ touch, of n, simplified, OF v]
  show "history_wf (sh_Add h n v)"
    and "history_seqs (sh_Add h n v) m = (if m = n then insert v (history_seqs h m) else history_seqs h m)"
    using a by (auto simp: sh_Add_def)
  obtain new h' where t: "TryAddRange h n \<lparr>Start = v, End = v\<rparr> = (new, h')" by fastforce
  note c = TryAddRange_correct [OF h _ touch t, simplified, OF v]
  show "fst (TryAddRange h n \<lparr>Start = v, End = v\<rparr>) = (v \<notin> history_seqs h n)"
    and "history_wf (snd (TryAddRange h n \<lparr>Start = v, End = v\<rparr>))"
    and "history_seqs (snd (TryAddRange h n \<lparr>Start = v, End = v\<rparr>)) m
      = (if m = n then insert v (history_seqs h m) else history_seqs h m)"
    using c t by auto
qed

text \<open>Offering updates one after the other, as the version manager does with \<open>TryAddRange\<close>: the
  offers that were new, in order.\<close>

fun offer_updates :: "(string \<times> u64) list \<Rightarrow> ShardedHistory \<Rightarrow> (string \<times> u64) list \<times> ShardedHistory" where
  "offer_updates [] h = ([], h)"
| "offer_updates ((nid, v) # nvs) h =
     (let (new, h1) = TryAddRange h nid \<lparr>Start = v, End = v\<rparr>; (acc, h2) = offer_updates nvs h1
      in (if new then (nid, v) # acc else acc, h2))"

lemma offer_updates_offer_all: "offer_updates nvs h = sharded.offer_all nvs h"
  by (induction nvs h rule: offer_updates.induct) (auto simp: Let_def split: prod.splits)

text \<open>C20. Exactly-once acceptance: of any sequence of offers of updates, with repetitions and in any order,
  the history accepts each (node, number) it had not seen exactly once and nothing else; afterwards
  it holds what it held and everything offered.\<close>

theorem accepted_exactly_once:
  assumes "history_wf h" "\<forall>(nid, v) \<in> set nvs. v \<noteq> - 1" "offer_updates nvs h = (acc, h')"
  shows "distinct acc \<and> set acc = {(nid, v) \<in> set nvs. \<not> sh_Has h nid v} \<and> history_wf h'
    \<and> (\<forall>nid v. sh_Has h' nid v \<longleftrightarrow> sh_Has h nid v \<or> (nid, v) \<in> set nvs)"
proof -
  note c = sharded.offer_all_correct [OF assms(1,2), of acc h']
  have "offer_updates nvs h = (acc, h') \<longleftrightarrow> sharded.offer_all nvs h = (acc, h')"
    by (simp add: offer_updates_offer_all)
  with c assms(3) show ?thesis by (simp add: sh_Has_iff assms(1))
qed

theorem accepted_exactly_once_witness:
  "\<exists>h'. offer_updates [(''a'', 1), (''b'', 1), (''a'', 1), (''a'', 3), (''a'', 2), (''b'', 1)] NewShardedHistory
      = ([(''a'', 1), (''b'', 1), (''a'', 3), (''a'', 2)], h')
    \<and> sh_Has h' ''a'' 3 \<and> \<not> sh_Has h' ''b'' 2"
proof -
  let ?nvs = "[(''a'', 1), (''b'', 1), (''a'', 1), (''a'', 3), (''a'', 2), (''b'', 1)] :: (string \<times> u64) list"
  let ?acc = "[(''a'', 1), (''b'', 1), (''a'', 3), (''a'', 2)] :: (string \<times> u64) list"
  let ?h' = "fmap_of_list [(''a'', [\<lparr>Start = 1, End = 3\<rparr>]), (''b'', [\<lparr>Start = 1, End = 1\<rparr>])]"
  have run: "offer_updates ?nvs NewShardedHistory = (?acc, ?h')" by code_simp
  have "\<forall>(nid, v) \<in> set ?nvs. v \<noteq> - 1" by simp
  from accepted_exactly_once [OF history_wf_New this run]
  have "sh_Has ?h' ''a'' 3 \<longleftrightarrow> sh_Has NewShardedHistory ''a'' 3 \<or> (''a'', 3) \<in> set ?nvs"
    and "sh_Has ?h' ''b'' 2 \<longleftrightarrow> sh_Has NewShardedHistory ''b'' 2 \<or> (''b'', 2) \<in> set ?nvs" by blast+
  with run show ?thesis
    by (intro exI [of _ ?h'] conjI) (simp_all add: sh_Has_def NewShardedHistory_def del: offer_updates.simps)
qed

section \<open>Vector clocks and differences\<close>

lemma fold_upd_lookup:
  assumes "range_order es m"
  shows "fmlookup (fold (\<lambda>(k, x) acc. case f k x of None \<Rightarrow> acc | Some y \<Rightarrow> fmupd k y acc) es fmempty) k
    = Option.bind (fmlookup m k) (f k)"
proof -
  have gen: "distinct (map fst es) \<Longrightarrow>
    fmlookup (fold (\<lambda>(k, x) acc. case f k x of None \<Rightarrow> acc | Some y \<Rightarrow> fmupd k y acc) es acc) k
    = (case Option.bind (map_of es k) (f k) of None \<Rightarrow> fmlookup acc k | Some y \<Rightarrow> Some y)" for es acc
  proof (induction es arbitrary: acc)
    case (Cons kx es)
    obtain k' x where kx: "kx = (k', x)" by (cases kx)
    show ?case
    proof (cases "k' = k")
      case True
      with Cons.prems kx have "map_of es k = None" by (simp add: map_of_notin)
      with Cons kx True show ?thesis by (cases "f k x") auto
    next
      case False
      with Cons kx show ?thesis by (cases "f k' x"; cases "Option.bind (map_of es k) (f k)") auto
    qed
  qed simp
  from assms show ?thesis by (simp add: gen range_order_def split: option.split)
qed

lemma fmlookup_DiffAll:
  "fmlookup (DiffAll h remote) nid = Option.bind (fmlookup remote nid) (diff_entry h nid)"
  unfolding DiffAll_def by (rule fold_upd_lookup) simp

lemma fmlookup_AllMaxSeq:
  "fmlookup (AllMaxSeq h) nid = Option.bind (fmlookup h nid) (\<lambda>nh. if nh \<noteq> [] then Some (End (last nh)) else None)"
proof -
  have eq: "(\<lambda>(nid :: string, nh :: Range list) res. if nh \<noteq> [] then fmupd nid (End (last nh)) res else res)
    = (\<lambda>(nid, nh) res. case (if nh \<noteq> [] then Some (End (last nh)) else None) of None \<Rightarrow> res | Some y \<Rightarrow> fmupd nid y res)"
    by (auto intro!: ext)
  show ?thesis unfolding AllMaxSeq_def eq by (rule fold_upd_lookup) simp
qed

lemma diff_entry_correct:
  assumes "history_wf h" "l \<noteq> - 1"
  shows "(case diff_entry h nid l of None \<Rightarrow> {} | Some rs \<Rightarrow> ranges_set rs) = {1..l} - history_seqs h nid"
proof -
  have zero: "{1..0 :: u64} = {}" by auto
  show ?thesis
  proof (cases "fmlookup h nid")
    case (Some nh)
    with assms have m: "ranges_set (calculateMissing nh l) = {1..l} - ranges_set nh"
      using calculateMissing_set by (auto simp: history_wf_def)
    show ?thesis
    proof (cases "calculateMissing nh l")
      case Nil
      then have "calculateMissing nh l = []" .
      moreover from this m have "{1..l} - ranges_set nh = {}" by simp
      ultimately show ?thesis using Some zero by (simp add: diff_entry_def history_seqs_def)
    next
      case (Cons r rs)
      with Some m zero show ?thesis by (cases "l = 0") (simp_all add: diff_entry_def history_seqs_def)
    qed
  qed (use zero in \<open>simp add: diff_entry_def history_seqs_def\<close>)
qed

lemma ContiguousSeq_ge:
  assumes "history_wf h" "{1..l} \<subseteq> history_seqs h nid"
  shows "l \<le> ContiguousSeq h nid"
proof (cases "fmlookup h nid")
  case None
  with assms(2) have "{1..l} = {}" by (simp add: history_seqs_def)
  then have "l < 1" by (metis atLeastatMost_empty_iff2 not_le)
  then have "unat l = 0" by (simp add: word_less_nat_alt)
  then show ?thesis by (simp add: word_le_nat_alt)
next
  case (Some nh)
  have c: "calculateContiguous nh + 1 \<notin> ranges_set nh" "calculateContiguous nh \<noteq> - 1"
    using contiguous_loop_correct [of nh 0] Some assms(1) by (auto simp: calculateContiguous_def history_wf_def)
  show ?thesis
  proof (rule ccontr)
    assume "\<not> l \<le> ContiguousSeq h nid"
    then have "calculateContiguous nh + 1 \<in> {1..l}"
      using Some c(2) by (auto simp: ContiguousSeq_def word_le_nat_alt unat_Suc_word)
    with assms(2) c(1) Some show False by (auto simp: history_seqs_def)
  qed
qed

text \<open>Anti-entropy is complete: the difference against a peer's vector clock consists, per node, of
  exactly the numbers up to the peer's that are not held; once they have all been added, the
  contiguous sequence number of every node reaches the peer's.\<close>

lemma DiffAll_closes_gap:
  assumes "history_wf h" "fmlookup remote nid = Some l" "l \<noteq> - 1"
    and "\<forall>(nid, v) \<in> set adds. v \<noteq> - 1"
    and "\<forall>v. (\<exists>rs. fmlookup (DiffAll h remote) nid = Some rs \<and> v \<in> ranges_set rs) \<longrightarrow> (nid, v) \<in> set adds"
  shows "(case fmlookup (DiffAll h remote) nid of None \<Rightarrow> {} | Some rs \<Rightarrow> ranges_set rs)
      = {v. 1 \<le> v \<and> v \<le> l \<and> \<not> sh_Has h nid v}
    \<and> l \<le> ContiguousSeq (fold (\<lambda>(nid, v) h. sh_Add h nid v) adds h) nid"
proof -
  have d: "(case fmlookup (DiffAll h remote) nid of None \<Rightarrow> {} | Some rs \<Rightarrow> ranges_set rs) = {1..l} - history_seqs h nid"
    using diff_entry_correct [OF assms(1,3), of nid] assms(2) by (simp add: fmlookup_DiffAll)
  let ?h = "fold (\<lambda>(nid, v) h. sh_Add h nid v) adds h"
  have "history_wf ?h" "history_seqs ?h nid = history_seqs h nid \<union> {v. (nid, v) \<in> set adds}"
    using sharded.add_all_correct [OF assms(1,4), of nid] by (simp_all add: sharded.add_all_def)
  moreover have "{1..l} - history_seqs h nid \<subseteq> {v. (nid, v) \<in> set adds}"
    using assms(5) unfolding d [symmetric] by (auto split: option.splits)
  ultimately have "l \<le> ContiguousSeq ?h nid" by (intro ContiguousSeq_ge) auto
  with d show ?thesis by (auto simp: sh_Has_iff assms(1))
qed

end
