(* ===== verification/History_V1.thy ===== *)
theory History_V1
  imports History
begin

text \<open>
  The first version of the history, \<open>pkg/storage/version_manager/v1/history/history.go\<close>. It keeps the
  same slices of ranges without locks; the loops of its helpers are those of the sharded history. Lemmas: it provides the
  interface of a set of numbers per node, and its difference and vector clocks are those of the
  sharded history.
\<close>

type_synonym History = "(string, NodeHistory) fmap"

definition NewHistory :: History where
  "NewHistory = fmempty"

definition v1_getOrCreate :: "History \<Rightarrow> string \<Rightarrow> NodeHistory \<times> History" where
  "v1_getOrCreate h node = (case fmlookup h node of Some nh \<Rightarrow> (nh, h) | None \<Rightarrow> ([], fmupd node [] h))"

definition v1_Clear :: "History \<Rightarrow> string \<Rightarrow> History" where
  "v1_Clear h node = fmdrop node h"

definition v1_insertAndMerge :: "Range list \<Rightarrow> Range \<Rightarrow> Range list" where
  "v1_insertAndMerge rs r =
     (if length rs = 0 then [r]
      else
        let idx = sort_search (length rs) (\<lambda>i. Start (rs ! i) \<ge> Start r);
            rs1 = take idx rs @ r # drop idx rs;
            startIdx = left_zone rs1 idx;
            endIdx = right_zone rs1 idx
        in if startIdx = endIdx then rs1
           else take startIdx rs1 @ merge_zone rs1 startIdx endIdx # drop (endIdx + 1) rs1)"

definition v1_hasInRanges :: "Range list \<Rightarrow> u64 \<Rightarrow> bool" where
  "v1_hasInRanges rs seq =
     (let i = sort_search (length rs) (\<lambda>i. Start (rs ! i) > seq)
      in i \<noteq> 0 \<and> Start (rs ! (i - 1)) \<le> seq \<and> seq \<le> End (rs ! (i - 1)))"

definition v1_AddRange :: "History \<Rightarrow> string \<Rightarrow> Range \<Rightarrow> History" where
  "v1_AddRange h node r =
     (if Start r > End r then h
      else let (nh, h') = v1_getOrCreate h node in fmupd node (v1_insertAndMerge nh r) h')"

definition v1_Add :: "History \<Rightarrow> string \<Rightarrow> u64 \<Rightarrow> History" where
  "v1_Add h node seq = v1_AddRange h node \<lparr>Start = seq, End = seq\<rparr>"

definition v1_Has :: "History \<Rightarrow> string \<Rightarrow> u64 \<Rightarrow> bool" where
  "v1_Has h node seq = (case fmlookup h node of None \<Rightarrow> False | Some nh \<Rightarrow> v1_hasInRanges nh seq)"

definition v1_HasRange :: "History \<Rightarrow> string \<Rightarrow> Range \<Rightarrow> bool" where
  "v1_HasRange h node r =
     (case fmlookup h node of None \<Rightarrow> False | Some nh \<Rightarrow> list_ex (\<lambda>present. ContainsOther present r) nh)"

definition v1_Diff :: "History \<Rightarrow> string \<Rightarrow> u64 \<Rightarrow> Range list" where
  "v1_Diff h node remoteLast = (case fmlookup h node of None \<Rightarrow> [] | Some nh \<Rightarrow> diff_ranges nh remoteLast)"

definition VectorClockMax :: "History \<Rightarrow> (string, u64) fmap" where
  "VectorClockMax h = fold (\<lambda>(node, nh) out. if nh = [] then out else fmupd node (End (last nh)) out) (fm_entries h) fmempty"

definition VectorClockContiguous :: "History \<Rightarrow> (string, u64) fmap" where
  "VectorClockContiguous h =
     fold (\<lambda>(node, nh) out. if nh = [] then out else fmupd node (contiguous_loop nh 0) out) (fm_entries h) fmempty"

definition v1_diff_entry :: "History \<Rightarrow> string \<Rightarrow> u64 \<Rightarrow> Range list option" where
  "v1_diff_entry h node remoteLast =
     (if remoteLast = 0 then None
      else case fmlookup h node of None \<Rightarrow> Some [\<lparr>Start = 1, End = remoteLast\<rparr>]
        | Some nh \<Rightarrow>
            if nh = [] then Some [\<lparr>Start = 1, End = remoteLast\<rparr>]
            else let missing = missing_loop nh remoteLast 1 []
                 in if length missing > 0 then Some missing else None)"

definition v1_DiffAll :: "History \<Rightarrow> (string, u64) fmap \<Rightarrow> (string, Range list) fmap" where
  "v1_DiffAll h remote =
     fold (\<lambda>(node, remoteLast) out.
             case v1_diff_entry h node remoteLast of None \<Rightarrow> out | Some rs \<Rightarrow> fmupd node rs out)
       (fm_entries remote) fmempty"

lemma v1_helpers_eq: "v1_insertAndMerge = insertAndMerge" "v1_hasInRanges = hasInRanges"
  by (intro ext; simp add: v1_insertAndMerge_def insertAndMerge_def v1_hasInRanges_def hasInRanges_def Let_def)+

lemma v1_ops_eq: "v1_AddRange = AddRange" "v1_Add = sh_Add" "v1_Has = sh_Has"
  by (intro ext; simp add: v1_AddRange_def AddRange_def v1_getOrCreate_def getOrCreate_def v1_Add_def
      sh_Add_def v1_Has_def sh_Has_def v1_helpers_eq cong: if_cong option.case_cong)+

interpretation v1: seq_history history_wf history_seqs v1_Add v1_Has
  unfolding v1_ops_eq by unfold_locales

lemma v1_diff_entry_eq: "v1_diff_entry h node l = diff_entry h node l"
  by (simp add: v1_diff_entry_def diff_entry_def calculateMissing_def split: option.split)

lemma fmlookup_VectorClockContiguous:
  "fmlookup (VectorClockContiguous h) node
   = Option.bind (fmlookup h node) (\<lambda>nh. if nh = [] then None else Some (calculateContiguous nh))"
proof -
  have eq: "(\<lambda>(node :: string, nh) out. if nh = [] then out else fmupd node (contiguous_loop nh 0) out)
    = (\<lambda>(node, nh) out. case (if nh = [] then None else Some (calculateContiguous nh)) of None \<Rightarrow> out | Some y \<Rightarrow> fmupd node y out)"
    by (auto intro!: ext simp: calculateContiguous_def)
  show ?thesis unfolding VectorClockContiguous_def eq by (rule fold_upd_lookup) simp
qed

text \<open>The rewrite of the history kept its answers: on every state of a history the difference
  against a vector clock and the maxima are the same in both versions, and the contiguous vector
  clocks differ only on nodes without ranges, which the first version leaves out and the second
  reports as 0.\<close>

lemma history_versions_agree:
  "v1_DiffAll h remote = DiffAll h remote \<and> VectorClockMax h = AllMaxSeq h
   \<and> (\<forall>node. fmlookup (VectorClockContiguous h) node =
        (case fmlookup h node of Some (r # rs) \<Rightarrow> fmlookup (AllContiguousSeq h) node | _ \<Rightarrow> None))"
proof (intro conjI allI)
  show "v1_DiffAll h remote = DiffAll h remote"
    by (simp add: v1_DiffAll_def DiffAll_def v1_diff_entry_eq)
  have "(\<lambda>(node :: string, nh :: NodeHistory) out. if nh = [] then out else fmupd node (End (last nh)) out)
    = (\<lambda>(nid, nh) res. if nh \<noteq> [] then fmupd nid (End (last nh)) res else res)" by (auto intro!: ext)
  then show "VectorClockMax h = AllMaxSeq h" by (simp add: VectorClockMax_def AllMaxSeq_def)
  show "fmlookup (VectorClockContiguous h) node =
      (case fmlookup h node of Some (r # rs) \<Rightarrow> fmlookup (AllContiguousSeq h) node | _ \<Rightarrow> None)" for node
    by (cases "fmlookup h node") (auto simp: fmlookup_VectorClockContiguous AllContiguousSeq_def split: list.split)
qed

end
