(* ===== verification/Hlc.thy ===== *)
theory Hlc
  imports Lume_Prelude
begin

text \<open>
  The hybrid logical clock, \<open>pkg/crdt/hlc/hlc.go\<close>: timestamps and their order, the clock's
  \<open>Now\<close> and \<open>SyncWithRemote\<close>, and the compare-and-swap loop both run, as a step relation over any
  number of goroutines. Lemmas: \<open>Compare\<close> is the comparison of a linear order, a reading is later
  than the clock's last state and than the remote timestamp, and the timestamps a node issues
  under any interleaving strictly increase.
\<close>

section \<open>Timestamps\<close>

datatype Timestamp = Timestamp (WallTime: u64) (Lamport: u64) (TsID: string)

definition zero_ts :: Timestamp where
  "zero_ts = Timestamp 0 0 ''''"

definition IsZero :: "Timestamp \<Rightarrow> bool" where
  "IsZero t \<longleftrightarrow> WallTime t = 0 \<and> Lamport t = 0 \<and> TsID t = ''''"

definition Lower :: int where "Lower = -1"
definition Same :: int where "Same = 0"
definition Greater :: int where "Greater = 1"

definition Compare :: "Timestamp \<Rightarrow> Timestamp \<Rightarrow> int" where
  "Compare a b =
     (if WallTime a < WallTime b then Lower
      else if WallTime a > WallTime b then Greater
      else if Lamport a < Lamport b then Lower
      else if Lamport a > Lamport b then Greater
      else if TsID a < TsID b then Lower
      else if TsID a > TsID b then Greater
      else Same)"

definition Before :: "Timestamp \<Rightarrow> Timestamp \<Rightarrow> bool" where
  "Before t other \<longleftrightarrow> Compare t other = Lower"

definition After :: "Timestamp \<Rightarrow> Timestamp \<Rightarrow> bool" where
  "After t other \<longleftrightarrow> Compare t other = Greater"

definition ts_Equal :: "Timestamp \<Rightarrow> Timestamp \<Rightarrow> bool" where
  "ts_Equal t another \<longleftrightarrow> WallTime t = WallTime another \<and> Lamport t = Lamport another"

definition ts_Time :: "Timestamp \<Rightarrow> int" where
  "ts_Time t = sint (WallTime t)"

definition LamportTime :: "Timestamp \<Rightarrow> u64" where
  "LamportTime t = Lamport t"

text \<open>The linear order that \<open>Compare\<close> decides.\<close>

instantiation Timestamp :: linorder
begin

definition less_eq_Timestamp :: "Timestamp \<Rightarrow> Timestamp \<Rightarrow> bool" where
  "less_eq_Timestamp a b \<longleftrightarrow> WallTime a < WallTime b
     \<or> WallTime a = WallTime b \<and> (Lamport a < Lamport b
       \<or> Lamport a = Lamport b \<and> TsID a \<le> TsID b)"

definition less_Timestamp :: "Timestamp \<Rightarrow> Timestamp \<Rightarrow> bool" where
  "less_Timestamp a b \<longleftrightarrow> WallTime a < WallTime b
     \<or> WallTime a = WallTime b \<and> (Lamport a < Lamport b
       \<or> Lamport a = Lamport b \<and> TsID a < TsID b)"

instance
proof
  fix x y z :: Timestamp
  show "(x < y) = (x \<le> y \<and> \<not> y \<le> x)"
    by (auto simp: less_eq_Timestamp_def less_Timestamp_def)
  show "x \<le> x"
    by (simp add: less_eq_Timestamp_def)
  show "x \<le> y \<Longrightarrow> y \<le> z \<Longrightarrow> x \<le> z"
    by (auto simp: less_eq_Timestamp_def)
  show "x \<le> y \<Longrightarrow> y \<le> x \<Longrightarrow> x = y"
    by (cases x; cases y) (auto simp: less_eq_Timestamp_def)
  show "x \<le> y \<or> y \<le> x"
    by (auto simp: less_eq_Timestamp_def)
qed

end

lemma Before_iff [ts_simps]: "Before a b \<longleftrightarrow> a < b"
  by (auto simp: Before_def Compare_def less_Timestamp_def Lower_def Greater_def Same_def)

lemma After_iff [ts_simps]: "After a b \<longleftrightarrow> b < a"
  by (auto simp: After_def Compare_def less_Timestamp_def Lower_def Greater_def Same_def)

lemma IsZero_iff [ts_simps]: "IsZero t \<longleftrightarrow> t = zero_ts"
  by (cases t) (auto simp: IsZero_def zero_ts_def)

lemma zero_ts_least [simp]: "zero_ts \<le> t"
  by (cases t) (auto simp: zero_ts_def less_eq_Timestamp_def word_gt_0)

lemma not_less_zero_ts [simp]: "\<not> t < zero_ts"
  using zero_ts_least [of t] by (simp add: not_less)

lemma zero_ts_less_iff [simp]: "zero_ts < t \<longleftrightarrow> t \<noteq> zero_ts"
  using zero_ts_least [of t] by (auto simp: less_le)

text \<open>\<open>Compare\<close> is a three-way comparison of a linear order on (wall time, Lamport, node id):
  it answers lower, equal or greater exactly when the first timestamp is less than, identical to
  or greater than the second.\<close>

lemma Compare_linear:
  "Compare a b = (if a < b then -1 else if a = b then 0 else 1)"
  by (cases a; cases b)
    (auto simp: Compare_def less_Timestamp_def Lower_def Greater_def Same_def)

section \<open>The clock\<close>

record Time =
  nodeID :: string
  st_wall :: u64
  st_logical :: u64
  offset :: i64

definition NewHLC :: "string \<Rightarrow> Time" where
  "NewHLC nid = \<lparr>nodeID = nid, st_wall = 0, st_logical = 0, offset = 0\<rparr>"

definition WithOffset :: "Time \<Rightarrow> i64 \<Rightarrow> Time" where
  "WithOffset h off = h\<lparr>offset := off\<rparr>"

text \<open>\<open>t\<close> is what \<open>time.Now().UnixNano()\<close> reads.\<close>

definition nowNano :: "Time \<Rightarrow> i64 \<Rightarrow> u64" where
  "nowNano h t = t + offset h"

text \<open>The bodies of the two loops: the pair each computes from the clock reading and the pair it
  loaded.\<close>

definition now_pair :: "u64 \<Rightarrow> u64 \<times> u64 \<Rightarrow> u64 \<times> u64" where
  "now_pair now p =
     (let lastWall = fst p; logical = snd p
      in if now > lastWall then (now, 0) else (lastWall, logical + 1))"

definition sync_pair :: "u64 \<Rightarrow> Timestamp \<Rightarrow> u64 \<times> u64 \<Rightarrow> u64 \<times> u64" where
  "sync_pair now remote p =
     (let lastWall = fst p; logical = snd p;
          w1 = (if now > lastWall then now else lastWall);
          newWall = (if \<not> IsZero remote \<and> WallTime remote > w1 then WallTime remote else w1);
          bump = (if Lamport remote \<ge> logical then Lamport remote + 1 else logical + 1);
          newLogical =
            (if \<not> IsZero remote \<and> newWall = WallTime remote \<and> newWall = now then bump
             else if \<not> IsZero remote \<and> newWall = WallTime remote
               then (if lastWall = newWall then bump else Lamport remote + 1)
             else if newWall = now \<and> now > lastWall then 0
             else logical + 1)
      in (newWall, newLogical))"

text \<open>One uncontended run of \<open>Now\<close> and of \<open>SyncWithRemote\<close>: the compare-and-swap succeeds at
  once.\<close>

definition hlc_Now :: "Time \<Rightarrow> i64 \<Rightarrow> Timestamp \<times> Time" where
  "hlc_Now h t =
     (let np = now_pair (nowNano h t) (st_wall h, st_logical h)
      in (Timestamp (fst np) (snd np) (nodeID h), h\<lparr>st_wall := fst np, st_logical := snd np\<rparr>))"

definition SyncWithRemote :: "Time \<Rightarrow> i64 \<Rightarrow> Timestamp \<Rightarrow> Timestamp \<times> Time" where
  "SyncWithRemote h t remote =
     (let np = sync_pair (nowNano h t) remote (st_wall h, st_logical h)
      in (Timestamp (fst np) (snd np) (nodeID h), h\<lparr>st_wall := fst np, st_logical := snd np\<rparr>))"

definition hlc_less :: "u64 \<times> u64 \<Rightarrow> u64 \<times> u64 \<Rightarrow> bool" where
  "hlc_less p q \<longleftrightarrow> fst p < fst q \<or> fst p = fst q \<and> snd p < snd q"

lemma hlc_less_trans: "hlc_less p q \<Longrightarrow> hlc_less q r \<Longrightarrow> hlc_less p r"
  by (auto simp: hlc_less_def)

lemma now_hlc_less: "snd p \<noteq> - 1 \<Longrightarrow> hlc_less p (now_pair now p)"
  by (auto simp: now_pair_def hlc_less_def Let_def less_Suc_word)

lemma bump_greater:
  assumes "l \<noteq> - 1" "r \<noteq> - 1"
  shows "l < (if r \<ge> l then r + 1 else l + 1)" "r < (if r \<ge> l then r + 1 else l + (1 :: u64))"
  using assms less_Suc_word [of l] less_Suc_word [of r] by (auto intro: le_less_trans less_trans)

lemma sync_hlc_less:
  assumes "snd p \<noteq> - 1" and "Lamport r \<noteq> - 1"
  shows "hlc_less p (sync_pair now r p)"
  using bump_greater [OF assms] less_Suc_word [OF assms(1)]
  by (auto simp: sync_pair_def hlc_less_def Let_def split: if_splits)

lemma sync_pair_remote:
  assumes "snd p \<noteq> - 1" and "Lamport r \<noteq> - 1" and "\<not> IsZero r"
  shows "hlc_less (WallTime r, Lamport r) (sync_pair now r p)"
  using bump_greater [OF assms(1,2)] less_Suc_word [OF assms(2)] assms(3)
  by (auto simp: sync_pair_def hlc_less_def Let_def not_less split: if_splits)

lemma hlc_Now_simps [simp]:
  "fst (hlc_Now h t) = Timestamp (fst (now_pair (nowNano h t) (st_wall h, st_logical h)))
     (snd (now_pair (nowNano h t) (st_wall h, st_logical h))) (nodeID h)"
  "nodeID (snd (hlc_Now h t)) = nodeID h"
  by (simp_all add: hlc_Now_def Let_def)

lemma hlc_less_Timestamp:
  "hlc_less p q \<Longrightarrow> Timestamp (fst p) (snd p) i < Timestamp (fst q) (snd q) j"
  by (auto simp: hlc_less_def less_Timestamp_def)

lemma hlc_less_remote:
  "hlc_less (WallTime r, Lamport r) q \<Longrightarrow> r < Timestamp (fst q) (snd q) j"
  by (auto simp: hlc_less_def less_Timestamp_def)

text \<open>\<open>SyncWithRemote\<close> returns a timestamp later than the clock's previous state and later than
  the remote timestamp it is given, whatever the wall clock reads, and the clock moves to exactly
  that timestamp; logical counters at the largest uint64 are excluded.\<close>

lemma SyncWithRemote_later:
  assumes "st_logical h \<noteq> - 1" and "Lamport remote \<noteq> - 1" and "SyncWithRemote h t remote = (ts, h')"
  shows "Timestamp (st_wall h) (st_logical h) (nodeID h) < ts
    \<and> (IsZero remote \<or> remote < ts)
    \<and> TsID ts = nodeID h
    \<and> h' = h\<lparr>st_wall := WallTime ts, st_logical := Lamport ts\<rparr>"
proof -
  let ?p = "(st_wall h, st_logical h)"
  let ?q = "sync_pair (nowNano h t) remote ?p"
  have "hlc_less ?p ?q" and "IsZero remote \<or> hlc_less (WallTime remote, Lamport remote) ?q"
    using assms sync_hlc_less [of ?p remote] sync_pair_remote [of ?p remote] by auto
  with assms(3) show ?thesis
    using hlc_less_Timestamp [of ?p ?q] hlc_less_remote [of remote ?q]
    by (auto simp: SyncWithRemote_def Let_def)
qed

section \<open>The compare-and-swap loop under interleaving\<close>

text \<open>
  \<open>Now\<close> and \<open>SyncWithRemote\<close> read the wall clock, load the pointer \<open>st\<close>, compute a fresh pair and
  try to swap it in, starting over when another goroutine swapped in between. A pair is never
  modified once it is published and every attempt allocates a new one, so comparing pointers is
  comparing publication numbers.
\<close>

datatype hlc_call = CallNow | CallSync Timestamp

datatype hlc_thread =
    Idle
  | LoopHead hlc_call
  | Loaded hlc_call u64 nat "u64 \<times> u64" \<comment> \<open>call, now, loaded pointer, loaded pair\<close>

record hlc_sys =
  cell_ptr :: nat
  cell :: "u64 \<times> u64"
  threads :: "nat \<Rightarrow> hlc_thread"
  issued :: "Timestamp list" \<comment> \<open>latest first\<close>

fun call_pair :: "hlc_call \<Rightarrow> u64 \<Rightarrow> u64 \<times> u64 \<Rightarrow> u64 \<times> u64" where
  "call_pair CallNow now p = now_pair now p"
| "call_pair (CallSync r) now p = sync_pair now r p"

definition hlc_init :: hlc_sys where
  "hlc_init = \<lparr>cell_ptr = 0, cell = (0, 0), threads = (\<lambda>_. Idle), issued = []\<rparr>"

inductive hlc_step :: "string \<Rightarrow> hlc_sys \<Rightarrow> hlc_sys \<Rightarrow> bool" for me where
  call: "threads s i = Idle \<Longrightarrow>
     hlc_step me s (s\<lparr>threads := (threads s)(i := LoopHead c)\<rparr>)"
| load: "threads s i = LoopHead c \<Longrightarrow>
     hlc_step me s (s\<lparr>threads := (threads s)(i := Loaded c now (cell_ptr s) (cell s))\<rparr>)"
| swap: "threads s i = Loaded c now q p \<Longrightarrow> cell_ptr s = q \<Longrightarrow> np = call_pair c now p \<Longrightarrow>
     hlc_step me s (s\<lparr>cell_ptr := Suc (cell_ptr s), cell := np,
       threads := (threads s)(i := Idle),
       issued := Timestamp (fst np) (snd np) me # issued s\<rparr>)"
| retry: "threads s i = Loaded c now q p \<Longrightarrow> cell_ptr s \<noteq> q \<Longrightarrow>
     hlc_step me s (s\<lparr>threads := (threads s)(i := LoopHead c)\<rparr>)"

fun call_headroom :: "hlc_thread \<Rightarrow> bool" where
  "call_headroom (Loaded (CallSync r) now q p) = (Lamport r \<noteq> - 1)"
| "call_headroom _ = True"

definition lamport_headroom :: "hlc_sys \<Rightarrow> bool" where
  "lamport_headroom s \<longleftrightarrow> snd (cell s) \<noteq> - 1 \<and> (\<forall>i. call_headroom (threads s i))"

text \<open>The reachable states of a clock whose logical counters have not run up to the largest
  uint64.\<close>

inductive hlc_reach :: "string \<Rightarrow> hlc_sys \<Rightarrow> bool" for me where
  start: "hlc_reach me hlc_init"
| step: "hlc_reach me s \<Longrightarrow> lamport_headroom s \<Longrightarrow> hlc_step me s s' \<Longrightarrow> hlc_reach me s'"

definition hlc_inv :: "string \<Rightarrow> hlc_sys \<Rightarrow> bool" where
  "hlc_inv me s \<longleftrightarrow>
     (\<forall>i c now q p. threads s i = Loaded c now q p \<longrightarrow> q \<le> cell_ptr s \<and> (q = cell_ptr s \<longrightarrow> p = cell s))
     \<and> sorted_wrt (>) (issued s)
     \<and> (\<forall>t \<in> set (issued s). t \<le> Timestamp (fst (cell s)) (snd (cell s)) me)"

lemma call_hlc_less:
  assumes "snd p \<noteq> - 1" and "call_headroom (Loaded c now q p)"
  shows "hlc_less p (call_pair c now p)"
  using assms by (cases c) (auto intro: now_hlc_less sync_hlc_less)

lemma hlc_step_inv:
  assumes "hlc_step me s s'" and "lamport_headroom s" and "hlc_inv me s"
  shows "hlc_inv me s'"
  using assms
proof (cases rule: hlc_step.cases)
  case (swap i c now q p np)
  from assms(3) swap(2,3) have p: "p = cell s" unfolding hlc_inv_def by blast
  have "call_headroom (Loaded c now q p)"
    using assms(2) swap(2) by (metis lamport_headroom_def)
  with assms(2) p have "hlc_less (cell s) np"
    by (auto simp: swap lamport_headroom_def intro: call_hlc_less)
  then have "Timestamp (fst (cell s)) (snd (cell s)) me < Timestamp (fst np) (snd np) me"
    by (rule hlc_less_Timestamp)
  with assms(3) show ?thesis
    by (fastforce simp: swap(1) hlc_inv_def split: if_splits)
qed (auto simp: hlc_inv_def split: if_splits)

lemma hlc_inv_init: "hlc_inv me hlc_init"
  by (simp add: hlc_init_def hlc_inv_def)

lemma hlc_reach_inv: "hlc_reach me s \<Longrightarrow> hlc_inv me s"
  by (induction rule: hlc_reach.induct) (auto intro: hlc_inv_init hlc_step_inv)

text \<open>C4. However the goroutines of a node interleave in the compare-and-swap loops of \<open>Now\<close> and
  \<open>SyncWithRemote\<close>, the timestamps the clock hands out strictly increase in the order in which the
  swaps succeed; in particular no two calls get the same timestamp.\<close>

theorem issued_strictly_increase:
  assumes "hlc_reach me s"
  shows "sorted_wrt (>) (issued s) \<and> distinct (issued s)"
proof -
  from hlc_reach_inv [OF assms] have s: "sorted_wrt (>) (issued s)" by (simp add: hlc_inv_def)
  then have "distinct (issued s)"
    by (auto simp: distinct_conv_nth neq_iff dest: sorted_wrt_nth_less)
  with s show ?thesis by simp
qed

lemma hlc_reach_call:
  "hlc_reach me s \<Longrightarrow> lamport_headroom s \<Longrightarrow> threads s i = Idle \<Longrightarrow>
   s' = s\<lparr>threads := (threads s)(i := LoopHead c)\<rparr> \<Longrightarrow> hlc_reach me s'"
  by (blast intro: hlc_reach.step hlc_step.call)

lemma hlc_reach_load:
  "hlc_reach me s \<Longrightarrow> lamport_headroom s \<Longrightarrow> threads s i = LoopHead c \<Longrightarrow>
   s' = s\<lparr>threads := (threads s)(i := Loaded c now (cell_ptr s) (cell s))\<rparr> \<Longrightarrow> hlc_reach me s'"
  by (blast intro: hlc_reach.step hlc_step.load)

lemma hlc_reach_swap:
  "hlc_reach me s \<Longrightarrow> lamport_headroom s \<Longrightarrow> threads s i = Loaded c now (cell_ptr s) p \<Longrightarrow>
   s' = s\<lparr>cell_ptr := Suc (cell_ptr s), cell := call_pair c now p, threads := (threads s)(i := Idle),
       issued := Timestamp (fst (call_pair c now p)) (snd (call_pair c now p)) me # issued s\<rparr> \<Longrightarrow>
   hlc_reach me s'"
  by (blast intro: hlc_reach.step hlc_step.swap)

lemma hlc_reach_retry:
  "hlc_reach me s \<Longrightarrow> lamport_headroom s \<Longrightarrow> threads s i = Loaded c now q p \<Longrightarrow> cell_ptr s \<noteq> q \<Longrightarrow>
   s' = s\<lparr>threads := (threads s)(i := LoopHead c)\<rparr> \<Longrightarrow> hlc_reach me s'"
  by (blast intro: hlc_reach.step hlc_step.retry)

text \<open>A contended run: two goroutines load the same pair, the second one loses the swap, reloads
  and gets a later timestamp.\<close>

theorem issued_strictly_increase_witness:
  "sorted_wrt (>) [Timestamp 5 1 ''a'', Timestamp 5 0 ''a''] \<and> distinct [Timestamp 5 1 ''a'', Timestamp 5 0 ''a'']"
proof -
  let ?run = "\<lambda>k c f is. \<lparr>cell_ptr = k, cell = c, threads = f, issued = is\<rparr>"
  let ?I = "\<lambda>_::nat. Idle" and ?L = "LoopHead CallNow"
  let ?D = "Loaded CallNow 5 0 (0, 0)"
  note defs = lamport_headroom_def hlc_init_def now_pair_def
  have "hlc_reach ''a'' (?run 0 (0, 0) (?I(0 := ?L)) [])"
    by (rule hlc_reach_call [OF hlc_reach.start, where i = 0]) (simp add: defs)+
  then have "hlc_reach ''a'' (?run 0 (0, 0) (?I(0 := ?L, 1 := ?L)) [])"
    by (rule hlc_reach_call [where i = 1])
       (simp add: defs)+
  then have "hlc_reach ''a'' (?run 0 (0, 0) (?I(0 := ?D, 1 := ?L)) [])"
    by (rule hlc_reach_load [where i = 0])
       (simp add: defs fun_upd_twist)+
  then have "hlc_reach ''a'' (?run 0 (0, 0) (?I(0 := ?D, 1 := ?D)) [])"
    by (rule hlc_reach_load [where i = 1])
       (simp add: defs)+
  then have "hlc_reach ''a'' (?run 1 (5, 0) (?I(0 := Idle, 1 := ?D)) [Timestamp 5 0 ''a''])"
    by (rule hlc_reach_swap [where i = 0])
       (simp add: defs fun_upd_twist)+
  then have "hlc_reach ''a'' (?run 1 (5, 0) (?I(0 := Idle, 1 := ?L)) [Timestamp 5 0 ''a''])"
    by (rule hlc_reach_retry [where i = 1])
       (simp add: defs)+
  then have "hlc_reach ''a'' (?run 1 (5, 0) (?I(0 := Idle, 1 := Loaded CallNow 5 1 (5, 0))) [Timestamp 5 0 ''a''])"
    by (rule hlc_reach_load [where i = 1])
       (simp add: defs)+
  then have "hlc_reach ''a'' (?run 2 (5, 1) (?I(0 := Idle, 1 := Idle))
      [Timestamp 5 1 ''a'', Timestamp 5 0 ''a''])"
    by (rule hlc_reach_swap [where i = 1])
       (simp add: defs)+
  from issued_strictly_increase [OF this] show ?thesis by simp
qed

end
