(* ===== verification/Lww_Register.thy ===== *)
theory Lww_Register
  imports Crdt_Laws Go_Hash Hlc
begin

text \<open>
  The last-writer-wins register, \<open>pkg/crdt/lwwhlc_register.go\<close>: the register, its delta and their
  methods (the JSON methods are in the theory of the CRDT codecs). The wall clock readings the
  methods take are arguments. Lemmas: deliveries leave the value with the greatest timestamp
  (interpretation of the CRDT laws on the pair of value and timestamp), a local write wins over
  everything applied before it, and the clock stays ahead of the register's timestamp.
\<close>

section \<open>Data and operations\<close>

record LWWHLCRegisterDelta =
  dValue :: bytes
  dTS :: Timestamp

record LWWHLCRegister =
  reg_id :: string
  reg_value :: bytes
  reg_ts :: Timestamp
  reg_clock :: "Time option" \<comment> \<open>a pointer: None is nil\<close>

definition NewLWWHLCRegister :: "string \<Rightarrow> LWWHLCRegister" where
  "NewLWWHLCRegister nid =
     \<lparr>reg_id = nid, reg_value = [], reg_ts = zero_ts, reg_clock = Some (NewHLC nid)\<rparr>"

definition LWWHLCRegisterDelta_Merge :: "LWWHLCRegisterDelta \<Rightarrow> LWWHLCRegisterDelta \<Rightarrow> LWWHLCRegisterDelta" where
  "LWWHLCRegisterDelta_Merge d od =
     (if IsZero (dTS d) \<or> (\<not> IsZero (dTS od) \<and> Before (dTS d) (dTS od))
      then d\<lparr>dValue := dValue od, dTS := dTS od\<rparr> else d)"

definition LWWHLCRegisterDelta_Hash :: "LWWHLCRegisterDelta \<Rightarrow> u64" where
  "LWWHLCRegisterDelta_Hash d = fnv64a_write fnv64a_init (dValue d)"

definition LWWHLCRegisterDelta_CreateCRDT :: "LWWHLCRegisterDelta \<Rightarrow> LWWHLCRegister" where
  "LWWHLCRegisterDelta_CreateCRDT d =
     \<lparr>reg_id = '''', reg_value = dValue d, reg_ts = dTS d, reg_clock = None\<rparr>"

definition LWWHLCRegister_Write ::
    "LWWHLCRegister \<Rightarrow> i64 \<Rightarrow> bytes \<Rightarrow> go_error + LWWHLCRegisterDelta \<times> LWWHLCRegister" where
  "LWWHLCRegister_Write r t v =
     (case reg_clock r of None \<Rightarrow> Inl (Panic NilDereference)
      | Some h \<Rightarrow> let (ts, h') = hlc_Now h t
                 in Inr (\<lparr>dValue = v, dTS = ts\<rparr>, r\<lparr>reg_ts := ts, reg_value := v, reg_clock := Some h'\<rparr>))"

text \<open>\<open>ApplyDelta\<close> and \<open>Merge\<close> share their body: synchronise the clock, then adopt the other side's
  value if this register is unset or older.\<close>

definition reg_adopt :: "LWWHLCRegister \<Rightarrow> i64 \<Rightarrow> bytes \<Rightarrow> Timestamp \<Rightarrow> go_error + LWWHLCRegister" where
  "reg_adopt r t v ts =
     (case reg_clock r of None \<Rightarrow> Inl (Panic NilDereference)
      | Some h \<Rightarrow> let r' = r\<lparr>reg_clock := Some (snd (SyncWithRemote h t ts))\<rparr>
                 in Inr (if IsZero (reg_ts r) \<or> Before (reg_ts r) ts
                         then r'\<lparr>reg_value := v, reg_ts := ts\<rparr> else r'))"

definition LWWHLCRegister_ApplyDelta ::
    "LWWHLCRegister \<Rightarrow> i64 \<Rightarrow> LWWHLCRegisterDelta \<Rightarrow> go_error + LWWHLCRegister" where
  "LWWHLCRegister_ApplyDelta r t d = reg_adopt r t (dValue d) (dTS d)"

definition LWWHLCRegister_Merge ::
    "LWWHLCRegister \<Rightarrow> i64 \<Rightarrow> LWWHLCRegister \<Rightarrow> go_error + LWWHLCRegister" where
  "LWWHLCRegister_Merge r t o' = reg_adopt r t (reg_value o') (reg_ts o')"

definition LWWHLCRegister_Read :: "LWWHLCRegister \<Rightarrow> bytes" where
  "LWWHLCRegister_Read r = reg_value r"

definition LWWHLCRegister_Hash :: "LWWHLCRegister \<Rightarrow> u64" where
  "LWWHLCRegister_Hash r = fnv64a_write fnv64a_init (reg_value r)"

section \<open>Deliveries\<close>

fun lww_ApplyDeltas :: "LWWHLCRegister \<Rightarrow> (i64 \<times> LWWHLCRegisterDelta) list \<Rightarrow> go_error + LWWHLCRegister" where
  "lww_ApplyDeltas r [] = Inr r"
| "lww_ApplyDeltas r ((t, d) # ds) = bind_res (LWWHLCRegister_ApplyDelta r t d) (\<lambda>r'. lww_ApplyDeltas r' ds)"

definition lww_view :: "LWWHLCRegister \<Rightarrow> bytes \<times> Timestamp" where
  "lww_view r = (reg_value r, reg_ts r)"

definition delta_view :: "LWWHLCRegisterDelta \<Rightarrow> bytes \<times> Timestamp" where
  "delta_view d = (dValue d, dTS d)"

definition lww_absorb :: "bytes \<times> Timestamp \<Rightarrow> bytes \<times> Timestamp \<Rightarrow> bytes \<times> Timestamp" where
  "lww_absorb d s = (if snd s = zero_ts \<or> snd s < snd d then d else s)"

text \<open>Timestamps identify writes: no two of the writes carry the same timestamp and different
  values.\<close>

definition ts_consistent :: "(bytes \<times> Timestamp) list \<Rightarrow> bool" where
  "ts_consistent ws \<longleftrightarrow> list_all (\<lambda>(v, t). list_all (\<lambda>(w, u). t = u \<longrightarrow> v = w) ws) ws"

lemma ts_consistent_fun:
  assumes "ts_consistent ws"
  shows "\<exists>f. \<forall>(v, t) \<in> set ws. v = f t"
proof -
  let ?f = "\<lambda>t. the (map_of (map prod.swap ws) t)"
  have "v = ?f t" if "(v, t) \<in> set ws" for v t
  proof -
    from that have "(t, v) \<in> set (map prod.swap ws)" by force
    then obtain w where w: "map_of (map prod.swap ws) t = Some w" by (blast dest: weak_map_of_SomeI)
    then have "(w, t) \<in> set ws" by (auto dest: map_of_SomeD)
    moreover have "\<forall>x \<in> set ws. \<forall>y \<in> set ws. snd x = snd y \<longrightarrow> fst x = fst y"
      using assms by (auto simp: ts_consistent_def list_all_iff split: prod.splits)
    ultimately have "v = w" using that by force
    with w show ?thesis by simp
  qed
  then show ?thesis by (intro exI [of _ ?f]) auto
qed

lemma lww_absorb_max:
  "fst w = f (snd w) \<Longrightarrow> fst s = f (snd s) \<Longrightarrow>
   lww_absorb w s = (f (max (snd s) (snd w)), max (snd s) (snd w))"
  by (auto simp: lww_absorb_def max_def not_le prod_eq_iff)

interpretation lww: delta_crdt lww_absorb "\<lambda>d. fst d = f (snd d)" "\<lambda>s. fst s = f (snd s)"
  for f :: "Timestamp \<Rightarrow> bytes"
proof unfold_locales
  fix s d e :: "bytes \<times> Timestamp"
  assume s: "fst s = f (snd s)" and d: "fst d = f (snd d)"
  show "fst (lww_absorb d s) = f (snd (lww_absorb d s))" using lww_absorb_max [where f = f, OF d s] by simp
  show "lww_absorb d (lww_absorb d s) = lww_absorb d s" by (auto simp: lww_absorb_def)
  assume e: "fst e = f (snd e)"
  show "lww_absorb d (lww_absorb e s) = lww_absorb e (lww_absorb d s)"
    by (simp add: lww_absorb_max [where f = f] s d e ac_simps)
qed

lemma reg_adopt_clock:
  "reg_clock r \<noteq> None \<Longrightarrow> \<exists>r'. reg_adopt r t v ts = Inr r' \<and> reg_clock r' \<noteq> None
     \<and> reg_id r' = reg_id r \<and> lww_view r' = lww_absorb (v, ts) (lww_view r)"
  by (auto simp: reg_adopt_def lww_view_def lww_absorb_def ts_simps Let_def)

lemma lww_ApplyDeltas_view:
  "reg_clock r \<noteq> None \<Longrightarrow> \<exists>r'. lww_ApplyDeltas r ds = Inr r'
     \<and> lww_view r' = fold lww_absorb (map (delta_view \<circ> snd) ds) (lww_view r)"
proof (induction ds arbitrary: r)
  case (Cons td ds)
  obtain t d where td: "td = (t, d)" by (cases td)
  from reg_adopt_clock [OF Cons.prems, of t "dValue d" "dTS d"] obtain r1 where
    "reg_adopt r t (dValue d) (dTS d) = Inr r1" "reg_clock r1 \<noteq> None"
    "lww_view r1 = lww_absorb (delta_view d) (lww_view r)" by (auto simp: delta_view_def)
  with Cons.IH [of r1] td show ?case by (auto simp: LWWHLCRegister_ApplyDelta_def)
qed simp

lemma lww_fold_max:
  "\<forall>w \<in> set ws. fst w = f (snd w) \<Longrightarrow> fst s = f (snd s) \<Longrightarrow>
   fold lww_absorb ws s = (f (fold (\<lambda>w m. max m (snd w)) ws (snd s)), fold (\<lambda>w m. max m (snd w)) ws (snd s))"
proof (induction ws arbitrary: s)
  case Nil
  then show ?case by (cases s) simp
next
  case (Cons w ws)
  then have "lww_absorb w s = (f (max (snd s) (snd w)), max (snd s) (snd w))"
    by (intro lww_absorb_max) auto
  with Cons.IH [of "lww_absorb w s"] Cons.prems show ?case by simp
qed

lemma fold_max_Max: "fold (\<lambda>w m. max m (snd w)) ws m = Max (insert m (snd ` set ws))"
  for m :: "'a::linorder"
proof (induction ws arbitrary: m)
  case (Cons w ws)
  show ?case
  proof (cases "ws = []")
    case False
    with Cons.IH [of "max m (snd w)"] show ?thesis by (simp add: max.assoc)
  qed simp
qed simp

text \<open>C3. Last writer wins: after any delivery of deltas, in any order, with any duplicates and any
  wall clock readings, the register holds the greatest timestamp among its own and the deltas', and
  the value written with that timestamp; two deliveries of the same set of deltas agree.\<close>

theorem lww_last_writer_wins:
  assumes "reg_clock r \<noteq> None"
    and "ts_consistent (lww_view r # map (delta_view \<circ> snd) ds)"
    and "snd ` set es = snd ` set ds"
  shows "\<exists>r' r''. lww_ApplyDeltas r ds = Inr r' \<and> lww_ApplyDeltas r es = Inr r''
    \<and> reg_ts r' = Max (insert (reg_ts r) (dTS ` snd ` set ds))
    \<and> lww_view r' \<in> insert (lww_view r) (delta_view ` snd ` set ds)
    \<and> lww_view r'' = lww_view r'"
proof -
  let ?w = "map (delta_view \<circ> snd)"
  obtain f where f: "\<forall>(v, t) \<in> set (lww_view r # ?w ds). v = f t"
    using ts_consistent_fun [OF assms(2)] by blast
  then have fr: "fst (lww_view r) = f (snd (lww_view r))" by (cases "lww_view r") auto
  have fds: "\<forall>d \<in> set (?w ds). fst d = f (snd d)" using f by fastforce
  have set: "set (?w es) = set (?w ds)" using assms(3) by (metis image_comp list.set_map)
  obtain r' where r': "lww_ApplyDeltas r ds = Inr r'" "lww_view r' = fold lww_absorb (?w ds) (lww_view r)"
    using lww_ApplyDeltas_view [OF assms(1)] by blast
  obtain r'' where r'': "lww_ApplyDeltas r es = Inr r''" "lww_view r'' = fold lww_absorb (?w es) (lww_view r)"
    using lww_ApplyDeltas_view [OF assms(1)] by blast
  have "lww_view r'' = lww_view r'"
    using lww.deliver_converge [of "lww_view r" f "?w ds" "?w es"] fr fds set r' r'' by simp
  moreover have max: "lww_view r' = (f (Max (insert (reg_ts r) (snd ` set (?w ds)))), Max (insert (reg_ts r) (snd ` set (?w ds))))"
    using lww_fold_max [of "?w ds" f "lww_view r"] fds fr r'(2) by (simp add: fold_max_Max lww_view_def)
  moreover have "snd ` set (?w ds) = dTS ` snd ` set ds" by (force simp: delta_view_def image_comp)
  moreover have "lww_view r' \<in> insert (lww_view r) (set (?w ds))"
  proof -
    have "Max (insert (reg_ts r) (snd ` set (?w ds))) \<in> insert (reg_ts r) (snd ` set (?w ds))"
      by (rule Max_in) auto
    then consider "Max (insert (reg_ts r) (snd ` set (?w ds))) = reg_ts r"
      | w where "w \<in> set (?w ds)" "Max (insert (reg_ts r) (snd ` set (?w ds))) = snd w" by blast
    then show ?thesis
    proof cases
      case 1
      with max fr show ?thesis by (simp add: lww_view_def)
    next
      case 2
      with fds have "(f (snd w), snd w) = w" by (metis prod.collapse)
      with 2 max show ?thesis by simp
    qed
  qed
  ultimately show ?thesis using r' r'' by (auto simp: lww_view_def image_comp)
qed

theorem lww_last_writer_wins_witness:
  "\<exists>r' r''. lww_ApplyDeltas (NewLWWHLCRegister ''n'')
        [(5, \<lparr>dValue = [1], dTS = Timestamp 3 0 ''a''\<rparr>), (4, \<lparr>dValue = [2], dTS = Timestamp 3 0 ''b''\<rparr>)] = Inr r'
    \<and> lww_ApplyDeltas (NewLWWHLCRegister ''n'')
        [(1, \<lparr>dValue = [2], dTS = Timestamp 3 0 ''b''\<rparr>), (1, \<lparr>dValue = [1], dTS = Timestamp 3 0 ''a''\<rparr>),
         (0, \<lparr>dValue = [2], dTS = Timestamp 3 0 ''b''\<rparr>)] = Inr r''
    \<and> lww_view r'' = lww_view r' \<and> reg_ts r' = Timestamp 3 0 ''b''"
proof -
  let ?a = "\<lparr>dValue = [1], dTS = Timestamp 3 0 ''a''\<rparr> :: LWWHLCRegisterDelta"
  let ?b = "\<lparr>dValue = [2], dTS = Timestamp 3 0 ''b''\<rparr> :: LWWHLCRegisterDelta"
  have 1: "reg_clock (NewLWWHLCRegister ''n'') \<noteq> None" by (simp add: NewLWWHLCRegister_def)
  have 2: "ts_consistent (lww_view (NewLWWHLCRegister ''n'') # map (delta_view \<circ> snd) [(5, ?a), (4, ?b)])"
    by code_simp
  have 3: "snd ` set [(1, ?b), (1, ?a), (0, ?b)] = snd ` set [(5 :: i64, ?a), (4, ?b)]" by auto
  have "Max {zero_ts, Timestamp 3 0 ''a'', Timestamp 3 0 ''b''} = Timestamp 3 0 ''b''"
    by code_simp
  moreover have "reg_ts (NewLWWHLCRegister ''n'') = zero_ts" by (simp add: NewLWWHLCRegister_def)
  ultimately show ?thesis using lww_last_writer_wins [OF 1 2 3] by fastforce
qed

section \<open>Local writes\<close>

text \<open>The clock of a register is never behind the register's timestamp.\<close>

definition lww_wf :: "LWWHLCRegister \<Rightarrow> bool" where
  "lww_wf r \<longleftrightarrow> (case reg_clock r of None \<Rightarrow> False
     | Some h \<Rightarrow> \<not> hlc_less (st_wall h, st_logical h) (WallTime (reg_ts r), Lamport (reg_ts r)))"

text \<open>No logical counter is at the largest uint64, where the increment would wrap.\<close>

definition unsaturated :: "LWWHLCRegister \<Rightarrow> bool" where
  "unsaturated r \<longleftrightarrow> (case reg_clock r of None \<Rightarrow> True | Some h \<Rightarrow> st_logical h \<noteq> - 1)"

lemma lww_wf_New [simp]: "lww_wf (NewLWWHLCRegister nid)"
  by (simp add: lww_wf_def NewLWWHLCRegister_def NewHLC_def hlc_less_def zero_ts_def)

lemma hlc_less_le_trans: "\<not> hlc_less q p \<Longrightarrow> hlc_less q r \<Longrightarrow> hlc_less p r"
  by (auto simp: hlc_less_def not_less)

lemma hlc_less_asym: "hlc_less p q \<Longrightarrow> \<not> hlc_less q p"
  by (auto simp: hlc_less_def)

lemma reg_adopt_wf:
  assumes "lww_wf r" "unsaturated r" "Lamport ts \<noteq> - 1" "reg_adopt r t v ts = Inr r'"
  shows "lww_wf r'"
proof -
  obtain h where h: "reg_clock r = Some h" using assms(1) by (auto simp: lww_wf_def split: option.splits)
  let ?p = "(st_wall h, st_logical h)" and ?q = "sync_pair (nowNano h t) ts (st_wall h, st_logical h)"
  have pq: "hlc_less ?p ?q" using assms(2,3) h by (intro sync_hlc_less) (auto simp: unsaturated_def)
  have remote: "hlc_less (WallTime ts, Lamport ts) ?q" if "\<not> IsZero ts"
    using assms(2,3) h that by (intro sync_pair_remote) (auto simp: unsaturated_def)
  have own: "hlc_less (WallTime (reg_ts r), Lamport (reg_ts r)) ?q"
    using assms(1) h pq by (auto simp: lww_wf_def intro: hlc_less_le_trans)
  have zero: "\<not> hlc_less ?q (WallTime ts, Lamport ts)" if "IsZero ts"
    using that by (simp add: IsZero_iff zero_ts_def hlc_less_def)
  have "reg_clock r' = Some (h\<lparr>st_wall := fst ?q, st_logical := snd ?q\<rparr>)" "reg_ts r' = ts \<or> reg_ts r' = reg_ts r"
    using assms(4) h by (auto simp: reg_adopt_def SyncWithRemote_def Let_def split: if_splits)
  then show ?thesis using remote own zero by (auto simp: lww_wf_def dest: hlc_less_asym)
qed

lemma fold_lww_absorb_stays:
  "snd s \<noteq> zero_ts \<Longrightarrow> \<forall>w \<in> set ws. snd w \<le> snd s \<Longrightarrow> fold lww_absorb ws s = s"
  by (induction ws) (auto simp: lww_absorb_def not_less)

text \<open>A local write wins over everything the register has seen: \<open>Write\<close> returns a delta with a
  timestamp strictly later than the register's, the register reads the written value, its clock stays
  ahead, and no later delivery of deltas from the past changes that; any replica whose timestamp is
  not later reads the same value once it applies the delta.\<close>

lemma Write_wins:
  assumes "lww_wf r" "unsaturated r" "LWWHLCRegister_Write r t v = Inr (d, r')"
    and "\<forall>td \<in> set ds. dTS (snd td) \<le> reg_ts r"
    and "reg_clock q \<noteq> None" "reg_ts q \<le> reg_ts r"
  shows "reg_ts r < dTS d \<and> LWWHLCRegister_Read r' = v \<and> lww_wf r'
    \<and> (\<exists>r''. lww_ApplyDeltas r' ds = Inr r'' \<and> LWWHLCRegister_Read r'' = v)
    \<and> (\<exists>q'. LWWHLCRegister_ApplyDelta q u d = Inr q' \<and> LWWHLCRegister_Read q' = v)"
proof -
  obtain h where h: "reg_clock r = Some h" using assms(1) by (auto simp: lww_wf_def split: option.splits)
  let ?p = "(st_wall h, st_logical h)" and ?q = "now_pair (nowNano h t) (st_wall h, st_logical h)"
  have w: "d = \<lparr>dValue = v, dTS = Timestamp (fst ?q) (snd ?q) (nodeID h)\<rparr>"
    "r' = r\<lparr>reg_ts := dTS d, reg_value := v, reg_clock := Some (h\<lparr>st_wall := fst ?q, st_logical := snd ?q\<rparr>)\<rparr>"
    using assms(3) h by (auto simp: LWWHLCRegister_Write_def hlc_Now_def Let_def)
  have "hlc_less ?p ?q" using assms(2) h by (intro now_hlc_less) (simp add: unsaturated_def)
  then have "hlc_less (WallTime (reg_ts r), Lamport (reg_ts r)) ?q"
    using assms(1) h by (auto simp: lww_wf_def intro: hlc_less_le_trans)
  then have less: "reg_ts r < dTS d" using hlc_less_remote w(1) by simp
  have "lww_wf r'" using w by (simp add: lww_wf_def hlc_less_def)
  moreover obtain r'' where r'': "lww_ApplyDeltas r' ds = Inr r''"
      "lww_view r'' = fold lww_absorb (map (delta_view \<circ> snd) ds) (lww_view r')"
    using lww_ApplyDeltas_view [of r' ds] w(2) by auto
  moreover have "fold lww_absorb (map (delta_view \<circ> snd) ds) (lww_view r') = lww_view r'"
    using less assms(4) w(2) not_less_zero_ts [of "reg_ts r"]
    by (intro fold_lww_absorb_stays) (auto simp: lww_view_def delta_view_def intro: order_trans less_imp_le)
  moreover obtain q' where "LWWHLCRegister_ApplyDelta q u d = Inr q'"
      "lww_view q' = lww_absorb (v, dTS d) (lww_view q)"
    using reg_adopt_clock [OF assms(5), of u v "dTS d"] w(1)
    by (auto simp: LWWHLCRegister_ApplyDelta_def)
  moreover have "lww_absorb (v, dTS d) (lww_view q) = (v, dTS d)"
    using assms(6) less by (auto simp: lww_absorb_def lww_view_def)
  ultimately show ?thesis using less w(2)
    by (auto simp: LWWHLCRegister_Read_def lww_view_def)
qed

text \<open>A register made by \<open>CreateCRDT\<close> has no clock: each of its state-changing methods panics.\<close>

lemma CreateCRDT_register_panics:
  "LWWHLCRegister_Write (LWWHLCRegisterDelta_CreateCRDT d) t v = Inl (Panic NilDereference)"
  "LWWHLCRegister_ApplyDelta (LWWHLCRegisterDelta_CreateCRDT d) t e = Inl (Panic NilDereference)"
  "LWWHLCRegister_Merge (LWWHLCRegisterDelta_CreateCRDT d) t r = Inl (Panic NilDereference)"
  by (simp_all add: LWWHLCRegister_Write_def LWWHLCRegister_ApplyDelta_def LWWHLCRegister_Merge_def
      reg_adopt_def LWWHLCRegisterDelta_CreateCRDT_def)

text \<open>Merging two deltas and applying the result is applying both, in either order.\<close>

lemma lww_Merge_ApplyDelta:
  "delta_view (LWWHLCRegisterDelta_Merge d e) = lww_absorb (delta_view e) (delta_view d)"
  by (auto simp: LWWHLCRegisterDelta_Merge_def delta_view_def lww_absorb_def ts_simps)

end
