(* ===== verification/Go_Json.thy ===== *)
theory Go_Json
  imports Lume_Prelude
begin

text \<open>
  What the codecs of \<open>pkg/crdt\<close> use of \<open>encoding/json\<close>. Documents are trees: the punctuation of the
  text and the base64 and decimal spellings are abstracted. Two transformations of the text are
  visible in the data and are modelled on bytes: a \<open>json.RawMessage\<close> is validated, compacted and
  HTML-escaped when it is embedded, and a string that is not UTF-8 has its bad bytes replaced.
  Lemmas: ASCII text is unchanged by both, and a second pass changes nothing.
\<close>

section \<open>Documents\<close>

datatype json =
    JNull
  | JNum int
  | JStr string
  | JBytes bytes \<comment> \<open>a byte slice: a base64 string in the text\<close>
  | JRaw bytes \<comment> \<open>the text of an embedded raw message\<close>
  | JObj "(string \<times> json) list"

definition ascii_lower :: "char \<Rightarrow> char" where
  "ascii_lower c = (if CHR ''A'' \<le> c \<and> c \<le> CHR ''Z'' then char_of (of_char c + (32 :: nat)) else c)"

definition ToLower :: "string \<Rightarrow> string" where
  "ToLower s = map ascii_lower s"

text \<open>The field of an object that a struct field of the given name receives: names match without
  regard to case, and a later occurrence overwrites an earlier one.\<close>

definition json_field :: "string \<Rightarrow> (string \<times> json) list \<Rightarrow> json option" where
  "json_field f kvs = map_of (rev (map (\<lambda>(k, v). (ToLower k, v)) kvs)) (ToLower f)"

fun json_object :: "json \<Rightarrow> go_error + (string \<times> json) list" where
  "json_object (JObj kvs) = Inr kvs"
| "json_object JNull = Inr []"
| "json_object _ = Inl ErrJson"

section \<open>UTF-8\<close>

definition cont_byte :: "u8 \<Rightarrow> bool" where
  "cont_byte b \<longleftrightarrow> 0x80 \<le> b \<and> b \<le> 0xBF"

text \<open>The width of the rune at the head of the bytes, 0 when they do not start with a valid
  encoding (\<open>utf8.DecodeRune\<close> answers \<open>RuneError\<close> with width 1 there).\<close>

fun rune_width :: "bytes \<Rightarrow> nat" where
  "rune_width [] = 0"
| "rune_width (b # bs) =
     (if b < 0x80 then 1
      else if 0xC2 \<le> b \<and> b \<le> 0xDF then
        (case bs of c # _ \<Rightarrow> if cont_byte c then 2 else 0 | _ \<Rightarrow> 0)
      else if 0xE0 \<le> b \<and> b \<le> 0xEF then
        (case bs of c # d # _ \<Rightarrow>
           if (if b = 0xE0 then 0xA0 else 0x80) \<le> c \<and> c \<le> (if b = 0xED then 0x9F else 0xBF) \<and> cont_byte d
           then 3 else 0 | _ \<Rightarrow> 0)
      else if 0xF0 \<le> b \<and> b \<le> 0xF4 then
        (case bs of c # d # e # _ \<Rightarrow>
           if (if b = 0xF0 then 0x90 else 0x80) \<le> c \<and> c \<le> (if b = 0xF4 then 0x8F else 0xBF)
              \<and> cont_byte d \<and> cont_byte e
           then 4 else 0 | _ \<Rightarrow> 0)
      else 0)"

text \<open>A string after encoding and decoding: each byte that is not part of a valid encoding becomes
  U+FFFD.\<close>

function utf8_sanitize :: "bytes \<Rightarrow> bytes" where
  "utf8_sanitize [] = []"
| "utf8_sanitize (b # bs) =
     (let w = rune_width (b # bs)
      in if w = 0 then [0xEF, 0xBF, 0xBD] @ utf8_sanitize bs
         else take w (b # bs) @ utf8_sanitize (drop w (b # bs)))"
  by pat_completeness auto
termination by (relation "measure length") auto

definition json_text :: "string \<Rightarrow> string" where
  "json_text s = map (\<lambda>b. char_of (unat b)) (utf8_sanitize (map (\<lambda>c. of_nat (of_char c)) s))"

lemma utf8_sanitize_ascii: "\<forall>b \<in> set bs. b < 0x80 \<Longrightarrow> utf8_sanitize bs = bs"
  by (induction bs) simp_all

lemma json_text_ascii:
  assumes "\<forall>c \<in> set s. of_char c < (128 :: nat)"
  shows "json_text s = s"
proof -
  have "of_nat (of_char c) < (0x80 :: u8) \<and> unat (of_nat (of_char c) :: u8) = of_char c" if "c \<in> set s" for c
    using assms that by (simp add: word_less_nat_alt unat_of_nat)
  then have "utf8_sanitize (map (\<lambda>c. of_nat (of_char c)) s) = map (\<lambda>c. of_nat (of_char c)) s"
    and "map (\<lambda>c. char_of (unat (of_nat (of_char c) :: u8))) s = s"
    by (auto intro!: utf8_sanitize_ascii map_idI)
  then show ?thesis by (simp add: json_text_def comp_def)
qed

section \<open>Validity of a text\<close>

definition json_ws :: "u8 \<Rightarrow> bool" where
  "json_ws b \<longleftrightarrow> b = 0x20 \<or> b = 0x09 \<or> b = 0x0D \<or> b = 0x0A"

definition is_digit :: "u8 \<Rightarrow> bool" where
  "is_digit b \<longleftrightarrow> 0x30 \<le> b \<and> b \<le> 0x39"

definition is_hex :: "u8 \<Rightarrow> bool" where
  "is_hex b \<longleftrightarrow> is_digit b \<or> 0x61 \<le> b \<and> b \<le> 0x66 \<or> 0x41 \<le> b \<and> b \<le> 0x46"

text \<open>Each scanner consumes one token and returns what follows it. A string literal after its
  opening quote:\<close>

fun scan_string :: "bytes \<Rightarrow> bytes option" where
  "scan_string [] = None"
| "scan_string (b # bs) =
     (if b = 0x22 then Some bs
      else if b = 0x5C then
        (case bs of [] \<Rightarrow> None
         | c # cs \<Rightarrow>
             if c \<in> set [0x22, 0x5C, 0x2F, 0x62, 0x66, 0x6E, 0x72, 0x74] then scan_string cs
             else if c = 0x75 then
               (case cs of h1 # h2 # h3 # h4 # ds \<Rightarrow>
                  if is_hex h1 \<and> is_hex h2 \<and> is_hex h3 \<and> is_hex h4 then scan_string ds else None
                | _ \<Rightarrow> None)
             else None)
      else if b < 0x20 then None
      else scan_string bs)"

definition scan_digits1 :: "bytes \<Rightarrow> bytes option" where
  "scan_digits1 bs = (case bs of b # cs \<Rightarrow> if is_digit b then Some (dropWhile is_digit cs) else None | [] \<Rightarrow> None)"

definition scan_int :: "bytes \<Rightarrow> bytes option" where
  "scan_int bs = (case bs of b # cs \<Rightarrow> if b = 0x30 then Some cs else scan_digits1 bs | [] \<Rightarrow> None)"

definition scan_frac :: "bytes \<Rightarrow> bytes option" where
  "scan_frac bs = (case bs of b # cs \<Rightarrow> if b = 0x2E then scan_digits1 cs else Some bs | [] \<Rightarrow> Some [])"

definition scan_exp :: "bytes \<Rightarrow> bytes option" where
  "scan_exp bs = (case bs of [] \<Rightarrow> Some []
     | b # cs \<Rightarrow> if b = 0x65 \<or> b = 0x45
         then scan_digits1 (case cs of s # ds \<Rightarrow> if s = 0x2B \<or> s = 0x2D then ds else cs | [] \<Rightarrow> [])
         else Some bs)"

definition scan_number :: "bytes \<Rightarrow> bytes option" where
  "scan_number bs =
     (let cs = (case bs of b # ds \<Rightarrow> if b = 0x2D then ds else bs | [] \<Rightarrow> [])
      in Option.bind (Option.bind (scan_int cs) scan_frac) scan_exp)"

definition scan_lit :: "bytes \<Rightarrow> bytes \<Rightarrow> bytes option" where
  "scan_lit l bs = (if take (length l) bs = l then Some (drop (length l) bs) else None)"

text \<open>Values. The first argument bounds the recursion; the second is the nesting depth left, 10000
  at the outermost level. Every call below a bracket, a comma or a colon consumes at least one byte,
  so twice the length of the text is enough.\<close>

fun scan_value :: "nat \<Rightarrow> nat \<Rightarrow> bytes \<Rightarrow> bytes option"
  and scan_elems :: "nat \<Rightarrow> nat \<Rightarrow> bytes \<Rightarrow> bytes option"
  and scan_members :: "nat \<Rightarrow> nat \<Rightarrow> bytes \<Rightarrow> bytes option" where
  "scan_value 0 d bs = None"
| "scan_value (Suc n) d bs =
     (case dropWhile json_ws bs of [] \<Rightarrow> None
      | b # cs \<Rightarrow>
          if b = 0x22 then scan_string cs
          else if b = 0x7B then
            (if d = 0 then None
             else case dropWhile json_ws cs of c # ds \<Rightarrow> if c = 0x7D then Some ds else scan_members n (d - 1) (c # ds)
                  | [] \<Rightarrow> None)
          else if b = 0x5B then
            (if d = 0 then None
             else case dropWhile json_ws cs of c # ds \<Rightarrow> if c = 0x5D then Some ds else scan_elems n (d - 1) (c # ds)
                  | [] \<Rightarrow> None)
          else if b = 0x74 then scan_lit [0x72, 0x75, 0x65] cs
          else if b = 0x66 then scan_lit [0x61, 0x6C, 0x73, 0x65] cs
          else if b = 0x6E then scan_lit [0x75, 0x6C, 0x6C] cs
          else scan_number (b # cs))"
| "scan_elems 0 d bs = None"
| "scan_elems (Suc n) d bs =
     (case scan_value n d bs of None \<Rightarrow> None
      | Some cs \<Rightarrow> (case dropWhile json_ws cs of [] \<Rightarrow> None
          | c # ds \<Rightarrow> if c = 0x2C then scan_elems n d ds else if c = 0x5D then Some ds else None))"
| "scan_members 0 d bs = None"
| "scan_members (Suc n) d bs =
     (case dropWhile json_ws bs of [] \<Rightarrow> None
      | q # cs \<Rightarrow> if q \<noteq> 0x22 then None
          else (case map_option (dropWhile json_ws) (scan_string cs) of
              Some (c # ds) \<Rightarrow> if c \<noteq> 0x3A then None
                else (case map_option (dropWhile json_ws) (scan_value n d ds) of
                    Some (e # es) \<Rightarrow> if e = 0x2C then scan_members n d es
                      else if e = 0x7D then Some es else None
                  | _ \<Rightarrow> None)
            | _ \<Rightarrow> None))"

definition json_Valid :: "bytes \<Rightarrow> bool" where
  "json_Valid bs =
     (case scan_value (2 * length bs + 2) 10000 bs of None \<Rightarrow> False | Some cs \<Rightarrow> list_all json_ws cs)"

section \<open>Embedding a raw message\<close>

definition ascii :: "string \<Rightarrow> bytes" where
  "ascii s = map (\<lambda>c. of_nat (of_char c)) s"

definition hex_digit :: "u8 \<Rightarrow> u8" where
  "hex_digit n = (if n < 10 then 0x30 + n else 0x57 + n)"

definition unicode_escape :: "u8 \<Rightarrow> bytes" where
  "unicode_escape b = ascii [CHR 0x5C, CHR ''u'', CHR ''0'', CHR ''0''] @ [hex_digit (b div 16), hex_digit (b mod 16)]"

definition html_byte :: "u8 \<Rightarrow> bool" where
  "html_byte b \<longleftrightarrow> b = 0x3C \<or> b = 0x3E \<or> b = 0x26"

text \<open>\<open>compact\<close> with HTML escaping, on a valid text: white space outside string literals goes, the
  three HTML bytes and the two line separators of Unicode are escaped. The flags say whether the
  position is inside a literal and whether the last byte there was an unescaped backslash.\<close>

fun json_compact :: "bool \<Rightarrow> bool \<Rightarrow> bytes \<Rightarrow> bytes" where
  "json_compact str esc [] = []"
| "json_compact str esc (b # bs) =
     (if html_byte b then unicode_escape b @ json_compact str False bs
      else if b = 0xE2 \<and> (case bs of c # d # _ \<Rightarrow> c = 0x80 \<and> (d = 0xA8 \<or> d = 0xA9) | _ \<Rightarrow> False)
        then ascii [CHR 0x5C, CHR ''u'', CHR ''2'', CHR ''0'', CHR ''2''] @ [hex_digit (hd (tl bs) AND 15)]
             @ json_compact str False (drop 2 bs)
      else if \<not> str \<and> json_ws b then json_compact False False bs
      else b # (if \<not> str then json_compact (b = 0x22) False bs
                else if esc then json_compact True False bs
                else if b = 0x5C then json_compact True True bs
                else json_compact (b \<noteq> 0x22) False bs))"

text \<open>\<open>json.Marshal\<close> of a string, without its quotes.\<close>

function quote_body :: "bytes \<Rightarrow> bytes" where
  "quote_body [] = []"
| "quote_body (b # bs) =
     (if b < 0x80 then
        (if b = 0x5C \<or> b = 0x22 then [0x5C, b]
         else if b = 0x08 then [0x5C, 0x62] else if b = 0x0C then [0x5C, 0x66]
         else if b = 0x0A then [0x5C, 0x6E] else if b = 0x0D then [0x5C, 0x72]
         else if b = 0x09 then [0x5C, 0x74]
         else if b < 0x20 \<or> html_byte b then unicode_escape b
         else [b]) @ quote_body bs
      else let w = rune_width (b # bs)
        in if w = 0 then ascii [CHR 0x5C, CHR ''u'', CHR ''f'', CHR ''f'', CHR ''f'', CHR ''d''] @ quote_body bs
           else if take w (b # bs) = [0xE2, 0x80, 0xA8] then ascii [CHR 0x5C, CHR ''u'', CHR ''2'', CHR ''0'', CHR ''2'', CHR ''8''] @ quote_body (drop w (b # bs))
           else if take w (b # bs) = [0xE2, 0x80, 0xA9] then ascii [CHR 0x5C, CHR ''u'', CHR ''2'', CHR ''0'', CHR ''2'', CHR ''9''] @ quote_body (drop w (b # bs))
           else take w (b # bs) @ quote_body (drop w (b # bs)))"
  by pat_completeness auto
termination by (relation "measure length") auto

definition json_quote :: "bytes \<Rightarrow> bytes" where
  "json_quote bs = [0x22] @ quote_body bs @ [0x22]"

end
