(* ===== verification/Crdt.thy ===== *)
theory Crdt
  imports Pn_Counter Lww_Register Go_Json
begin

text \<open>
  \<open>pkg/crdt\<close> as its clients see it: the interfaces \<open>CRDT\<close> and \<open>Delta\<close> with their two implementations
  as sums, dynamic dispatch with its type assertions, the enumeration \<open>CRDTType\<close>, the fabric, and the
  JSON codecs of the four types. The wall clock reading a register's methods take is an argument of
  the dispatching functions. Lemmas: dispatch keeps the type and refuses the other one, the codecs
  round trip, and the places where they do not.
\<close>

section \<open>Types and dispatch\<close>

type_synonym CRDTType = string

definition CRDTTypePNCounter :: CRDTType where "CRDTTypePNCounter = ''PNCounter''"
definition CRDTTypeLWWHLCRegister :: CRDTType where "CRDTTypeLWWHLCRegister = ''LWWHLCRegister''"

datatype crdt = Counter PNCounter | Register LWWHLCRegister
datatype delta = CounterDelta PNCounterDelta | RegisterDelta LWWHLCRegisterDelta

fun crdt_Type :: "crdt \<Rightarrow> CRDTType" where
  "crdt_Type (Counter _) = CRDTTypePNCounter"
| "crdt_Type (Register _) = CRDTTypeLWWHLCRegister"

fun delta_Type :: "delta \<Rightarrow> CRDTType" where
  "delta_Type (CounterDelta _) = CRDTTypePNCounter"
| "delta_Type (RegisterDelta _) = CRDTTypeLWWHLCRegister"

fun crdt_Hash :: "crdt \<Rightarrow> u64" where
  "crdt_Hash (Counter c) = PNCounter_Hash c"
| "crdt_Hash (Register r) = LWWHLCRegister_Hash r"

fun delta_Hash :: "delta \<Rightarrow> u64" where
  "delta_Hash (CounterDelta d) = PNCounterDelta_Hash d"
| "delta_Hash (RegisterDelta d) = LWWHLCRegisterDelta_Hash d"

fun delta_Merge :: "delta \<Rightarrow> delta \<Rightarrow> go_error + delta" where
  "delta_Merge (CounterDelta d) (CounterDelta e) = map_sum id CounterDelta (PNCounterDelta_Merge d e)"
| "delta_Merge (RegisterDelta d) (RegisterDelta e) = Inr (RegisterDelta (LWWHLCRegisterDelta_Merge d e))"
| "delta_Merge (CounterDelta d) (RegisterDelta e) = Inl ErrDeltaTypeMismatch"
| "delta_Merge (RegisterDelta d) (CounterDelta e) = Inl ErrTypeMismatch"

fun delta_CreateCRDT :: "delta \<Rightarrow> go_error + crdt" where
  "delta_CreateCRDT (CounterDelta d) = Inr (Counter (PNCounterDelta_CreateCRDT d))"
| "delta_CreateCRDT (RegisterDelta d) = Inr (Register (LWWHLCRegisterDelta_CreateCRDT d))"

fun crdt_ApplyDelta :: "i64 \<Rightarrow> crdt \<Rightarrow> delta \<Rightarrow> go_error + crdt" where
  "crdt_ApplyDelta t (Counter c) (CounterDelta d) = map_sum id Counter (PNCounter_ApplyDelta c d)"
| "crdt_ApplyDelta t (Register r) (RegisterDelta d) = map_sum id Register (LWWHLCRegister_ApplyDelta r t d)"
| "crdt_ApplyDelta t (Counter c) (RegisterDelta d) = Inl ErrDeltaTypeMismatch"
| "crdt_ApplyDelta t (Register r) (CounterDelta d) = Inl ErrTypeMismatch"

fun crdt_Merge :: "i64 \<Rightarrow> crdt \<Rightarrow> crdt \<Rightarrow> go_error + crdt" where
  "crdt_Merge t (Counter c) (Counter d) = map_sum id Counter (mergePNCounter c d)"
| "crdt_Merge t (Register r) (Register q) = map_sum id Register (LWWHLCRegister_Merge r t q)"
| "crdt_Merge t (Counter c) (Register q) = Inl ErrCRDTTypeMismatch"
| "crdt_Merge t (Register r) (Counter d) = Inl ErrTypeMismatch"

text \<open>A value as a client reads it.\<close>

datatype crdt_value = IntValue i64 | RawValue bytes

fun crdt_Value :: "crdt \<Rightarrow> crdt_value" where
  "crdt_Value (Counter c) = IntValue (PNCounter_Value c)"
| "crdt_Value (Register r) = RawValue (LWWHLCRegister_Read r)"

section \<open>The enumeration\<close>

definition CRDTTypeValue :: "(string \<times> CRDTType) list" where
  "CRDTTypeValue = [(''PNCounter'', CRDTTypePNCounter), (''pncounter'', CRDTTypePNCounter),
     (''LWWHLCRegister'', CRDTTypeLWWHLCRegister), (''lwwhlcregister'', CRDTTypeLWWHLCRegister)]"

definition ParseCRDTType :: "string \<Rightarrow> go_error + CRDTType" where
  "ParseCRDTType name =
     (case map_of CRDTTypeValue name of Some x \<Rightarrow> Inr x
      | None \<Rightarrow> (case map_of CRDTTypeValue (ToLower name) of Some x \<Rightarrow> Inr x
                | None \<Rightarrow> Inl ErrInvalidCRDTType))"

definition CRDTType_IsValid :: "CRDTType \<Rightarrow> bool" where
  "CRDTType_IsValid x = (case ParseCRDTType x of Inl _ \<Rightarrow> False | Inr _ \<Rightarrow> True)"

definition CRDTType_MarshalText :: "CRDTType \<Rightarrow> string" where
  "CRDTType_MarshalText x = x"

definition CRDTType_UnmarshalText :: "string \<Rightarrow> go_error + CRDTType" where
  "CRDTType_UnmarshalText text = ParseCRDTType text"

definition CRDTType_AppendText :: "CRDTType \<Rightarrow> string \<Rightarrow> string" where
  "CRDTType_AppendText x b = b @ x"

section \<open>Codecs\<close>

text \<open>Decoding of the field types. A JSON \<open>null\<close> leaves a field as it is, except for maps and slices,
  which become nil, and raw messages, which take the text.\<close>

fun dec_string :: "string \<Rightarrow> json option \<Rightarrow> go_error + string" where
  "dec_string z None = Inr z"
| "dec_string z (Some JNull) = Inr z"
| "dec_string z (Some (JStr s)) = Inr s"
| "dec_string z (Some _) = Inl ErrJson"

fun dec_i64 :: "json \<Rightarrow> go_error + i64" where
  "dec_i64 (JNum n) = (if - (2 ^ 63) \<le> n \<and> n < 2 ^ 63 then Inr (of_int n) else Inl ErrJson)"
| "dec_i64 JNull = Inr 0"
| "dec_i64 _ = Inl ErrJson"

fun dec_u64 :: "u64 \<Rightarrow> json option \<Rightarrow> go_error + u64" where
  "dec_u64 z None = Inr z"
| "dec_u64 z (Some JNull) = Inr z"
| "dec_u64 z (Some (JNum n)) = (if 0 \<le> n \<and> n < 2 ^ 64 then Inr (of_int n) else Inl ErrJson)"
| "dec_u64 z (Some _) = Inl ErrJson"

fun dec_entries :: "(string \<times> json) list \<Rightarrow> (string, i64) fmap \<Rightarrow> go_error + (string, i64) fmap" where
  "dec_entries [] m = Inr m"
| "dec_entries ((k, v) # kvs) m = bind_res (dec_i64 v) (\<lambda>n. dec_entries kvs (fmupd k n m))"

fun dec_map :: "json option \<Rightarrow> go_error + pnmap" where
  "dec_map None = Inr None"
| "dec_map (Some JNull) = Inr None"
| "dec_map (Some (JObj kvs)) = map_sum id Some (dec_entries kvs fmempty)"
| "dec_map (Some _) = Inl ErrJson"

fun dec_bytes :: "bytes \<Rightarrow> json option \<Rightarrow> go_error + bytes" where
  "dec_bytes z None = Inr z"
| "dec_bytes z (Some JNull) = Inr []"
| "dec_bytes z (Some (JBytes b)) = Inr b"
| "dec_bytes z (Some _) = Inl ErrJson"

fun dec_raw :: "json option \<Rightarrow> go_error + bytes" where
  "dec_raw None = Inr []"
| "dec_raw (Some JNull) = Inr (ascii ''null'')"
| "dec_raw (Some (JRaw b)) = Inr b"
| "dec_raw (Some _) = Inl ErrJson"

fun dec_ts :: "Timestamp \<Rightarrow> json option \<Rightarrow> go_error + Timestamp" where
  "dec_ts z None = Inr z"
| "dec_ts z (Some JNull) = Inr z"
| "dec_ts z (Some (JObj kvs)) =
     bind_res (dec_u64 (WallTime z) (json_field ''wall_time'' kvs)) (\<lambda>w.
     bind_res (dec_u64 (Lamport z) (json_field ''lamport'' kvs)) (\<lambda>l.
     bind_res (dec_string (TsID z) (json_field ''id'' kvs)) (\<lambda>i. Inr (Timestamp w l i))))"
| "dec_ts z (Some _) = Inl ErrJson"

text \<open>Encoding of the field types. Go writes a map with its keys in order, each sanitized.\<close>

definition enc_string :: "string \<Rightarrow> json" where
  "enc_string s = JStr (json_text s)"

definition enc_map :: "pnmap \<Rightarrow> json" where
  "enc_map m = (case m of None \<Rightarrow> JNull
     | Some f \<Rightarrow> JObj (map (\<lambda>(k, v). (json_text k, JNum (sint v))) (fm_entries f)))"

definition enc_ts :: "Timestamp \<Rightarrow> json" where
  "enc_ts ts = JObj [(''wall_time'', JNum (uint (WallTime ts))), (''lamport'', JNum (uint (Lamport ts))),
     (''id'', enc_string (TsID ts))]"

text \<open>Byte slices: nil and empty differ in the text (null and the empty string); the model has one
  empty slice and writes it as an empty string.\<close>

definition PNCounterDelta_MarshalJSON :: "PNCounterDelta \<Rightarrow> json" where
  "PNCounterDelta_MarshalJSON d =
     JObj [(''type'', JStr CRDTTypePNCounter), (''P'', enc_map (dP d)), (''N'', enc_map (dN d))]"

text \<open>The embedded pointer \<open>Alias\<close> is allocated when a field of it occurs in the document; without one
  the final \<open>*aux.Alias\<close> dereferences nil.\<close>

definition PNCounterDelta_UnmarshalJSON :: "json \<Rightarrow> go_error + PNCounterDelta" where
  "PNCounterDelta_UnmarshalJSON j =
     bind_res (json_object j) (\<lambda>kvs.
     bind_res (dec_string '''' (json_field ''type'' kvs)) (\<lambda>ty.
     bind_res (dec_map (json_field ''P'' kvs)) (\<lambda>p.
     bind_res (dec_map (json_field ''N'' kvs)) (\<lambda>n.
       if ty \<noteq> '''' \<and> ty \<noteq> CRDTTypePNCounter then Inl ErrInvalidDeltaType
       else if json_field ''P'' kvs = None \<and> json_field ''N'' kvs = None then Inl (Panic NilDereference)
       else Inr \<lparr>dP = p, dN = n\<rparr>))))"

definition PNCounter_MarshalJSON :: "PNCounter \<Rightarrow> json" where
  "PNCounter_MarshalJSON c =
     JObj [(''ID'', enc_string (pn_id c)), (''P'', enc_map (pP c)), (''N'', enc_map (pN c))]"

definition PNCounter_UnmarshalJSON :: "json \<Rightarrow> go_error + PNCounter" where
  "PNCounter_UnmarshalJSON j =
     bind_res (json_object j) (\<lambda>kvs.
     bind_res (dec_string '''' (json_field ''ID'' kvs)) (\<lambda>i.
     bind_res (dec_map (json_field ''P'' kvs)) (\<lambda>p.
     bind_res (dec_map (json_field ''N'' kvs)) (\<lambda>n. Inr \<lparr>pn_id = i, pP = p, pN = n\<rparr>))))"

definition MergeSnapshot :: "PNCounter \<Rightarrow> json \<Rightarrow> go_error + PNCounter" where
  "MergeSnapshot c snapshot = bind_res (PNCounter_UnmarshalJSON snapshot) (mergePNCounter c)"

definition LWWHLCRegisterDelta_MarshalJSON :: "LWWHLCRegisterDelta \<Rightarrow> json" where
  "LWWHLCRegisterDelta_MarshalJSON d =
     JObj [(''type'', JStr CRDTTypeLWWHLCRegister), (''value'', JBytes (dValue d)), (''ts'', enc_ts (dTS d))]"

definition LWWHLCRegisterDelta_UnmarshalJSON :: "LWWHLCRegisterDelta \<Rightarrow> json \<Rightarrow> go_error + LWWHLCRegisterDelta" where
  "LWWHLCRegisterDelta_UnmarshalJSON d j =
     bind_res (json_object j) (\<lambda>kvs.
     bind_res (dec_string '''' (json_field ''type'' kvs)) (\<lambda>ty.
     bind_res (dec_bytes (dValue d) (json_field ''value'' kvs)) (\<lambda>v.
     bind_res (dec_ts (dTS d) (json_field ''ts'' kvs)) (\<lambda>ts.
       if ty \<noteq> '''' \<and> ty \<noteq> CRDTTypeLWWHLCRegister then Inl ErrJson
       else Inr \<lparr>dValue = v, dTS = ts\<rparr>))))"

text \<open>The raw message a register writes: its value if that is JSON, its bytes as a JSON string if
  not, and \<open>null\<close> for an empty value; the encoder compacts what it embeds.\<close>

definition register_raw :: "bytes \<Rightarrow> bytes" where
  "register_raw v =
     (if v = [] then ascii ''null''
      else json_compact False False (if json_Valid v then v else json_quote v))"

definition LWWHLCRegister_MarshalJSON :: "LWWHLCRegister \<Rightarrow> json" where
  "LWWHLCRegister_MarshalJSON r =
     JObj [(''id'', enc_string (reg_id r)), (''value'', JRaw (register_raw (reg_value r))),
       (''timestamp'', enc_ts (reg_ts r))]"

definition LWWHLCRegister_UnmarshalJSON :: "i64 \<Rightarrow> json \<Rightarrow> go_error + LWWHLCRegister" where
  "LWWHLCRegister_UnmarshalJSON t j =
     bind_res (json_object j) (\<lambda>kvs.
     bind_res (dec_string '''' (json_field ''id'' kvs)) (\<lambda>i.
     bind_res (dec_raw (json_field ''value'' kvs)) (\<lambda>v.
     bind_res (dec_ts zero_ts (json_field ''timestamp'' kvs)) (\<lambda>ts.
       Inr \<lparr>reg_id = i, reg_value = v, reg_ts = ts,
            reg_clock = Some (if IsZero ts then NewHLC i else snd (SyncWithRemote (NewHLC i) t ts))\<rparr>))))"

fun crdt_MarshalJSON :: "crdt \<Rightarrow> json" where
  "crdt_MarshalJSON (Counter c) = PNCounter_MarshalJSON c"
| "crdt_MarshalJSON (Register r) = LWWHLCRegister_MarshalJSON r"

text \<open>The receiver only selects the method: every field of it is overwritten.\<close>

fun crdt_UnmarshalJSON :: "i64 \<Rightarrow> crdt \<Rightarrow> json \<Rightarrow> go_error + crdt" where
  "crdt_UnmarshalJSON t (Counter _) j = map_sum id Counter (PNCounter_UnmarshalJSON j)"
| "crdt_UnmarshalJSON t (Register _) j = map_sum id Register (LWWHLCRegister_UnmarshalJSON t j)"

fun delta_MarshalJSON :: "delta \<Rightarrow> json" where
  "delta_MarshalJSON (CounterDelta d) = PNCounterDelta_MarshalJSON d"
| "delta_MarshalJSON (RegisterDelta d) = LWWHLCRegisterDelta_MarshalJSON d"

section \<open>The fabric\<close>

definition fabric_New :: "CRDTType \<Rightarrow> string \<Rightarrow> go_error + crdt" where
  "fabric_New ty nid =
     (if ty = CRDTTypePNCounter then Inr (Counter (NewPNCounter nid))
      else if ty = CRDTTypeLWWHLCRegister then Inr (Register (NewLWWHLCRegister nid))
      else Inl ErrCRDTNotFound)"

definition zero_PNCounterDelta :: PNCounterDelta where
  "zero_PNCounterDelta = \<lparr>dP = None, dN = None\<rparr>"

definition zero_LWWHLCRegisterDelta :: LWWHLCRegisterDelta where
  "zero_LWWHLCRegisterDelta = \<lparr>dValue = [], dTS = zero_ts\<rparr>"

definition DeltaFromBytes :: "CRDTType \<Rightarrow> json \<Rightarrow> go_error + delta" where
  "DeltaFromBytes ty j =
     (if ty = CRDTTypePNCounter then map_sum id CounterDelta (PNCounterDelta_UnmarshalJSON j)
      else if ty = CRDTTypeLWWHLCRegister
        then map_sum id RegisterDelta (LWWHLCRegisterDelta_UnmarshalJSON zero_LWWHLCRegisterDelta j)
      else Inl ErrCRDTNotFound)"

definition NilDelta :: "CRDTType \<Rightarrow> go_error + delta" where
  "NilDelta ty =
     (if ty = CRDTTypePNCounter then Inr (CounterDelta zero_PNCounterDelta)
      else if ty = CRDTTypeLWWHLCRegister then Inr (RegisterDelta zero_LWWHLCRegisterDelta)
      else Inl ErrCRDTNotFound)"

section \<open>Dispatch lemmas\<close>

lemma map_sum_Inr_iff: "map_sum id f r = Inr y \<longleftrightarrow> (\<exists>x. r = Inr x \<and> y = f x)"
  by (cases r) auto

lemma map_sum_Inl_iff: "map_sum id f r = Inl e \<longleftrightarrow> r = Inl e"
  by (cases r) auto

lemma crdt_ApplyDelta_Type:
  "crdt_ApplyDelta t c d = Inr c' \<Longrightarrow> crdt_Type c' = crdt_Type c \<and> delta_Type d = crdt_Type c"
  by (cases "(t, c, d)" rule: crdt_ApplyDelta.cases) (auto simp: map_sum_Inr_iff)

lemma crdt_Merge_Type: "crdt_Merge t c d = Inr c' \<Longrightarrow> crdt_Type c' = crdt_Type c \<and> crdt_Type d = crdt_Type c"
  by (cases "(t, c, d)" rule: crdt_Merge.cases) (auto simp: map_sum_Inr_iff)

lemma CRDTTypes_differ [simp]:
  "CRDTTypePNCounter \<noteq> CRDTTypeLWWHLCRegister" "CRDTTypeLWWHLCRegister \<noteq> CRDTTypePNCounter"
  by (simp_all add: CRDTTypePNCounter_def CRDTTypeLWWHLCRegister_def)

lemma fabric_New_Type: "fabric_New ty nid = Inr c \<Longrightarrow> crdt_Type c = ty"
  by (auto simp: fabric_New_def split: if_splits)

section \<open>Round trips of the codecs\<close>

lemma json_field_simps [simp]:
  "json_field ''type'' [(''type'', a), (''P'', b), (''N'', c)] = Some a"
  "json_field ''P'' [(''type'', a), (''P'', b), (''N'', c)] = Some b"
  "json_field ''N'' [(''type'', a), (''P'', b), (''N'', c)] = Some c"
  "json_field ''ID'' [(''ID'', a), (''P'', b), (''N'', c)] = Some a"
  "json_field ''P'' [(''ID'', a), (''P'', b), (''N'', c)] = Some b"
  "json_field ''N'' [(''ID'', a), (''P'', b), (''N'', c)] = Some c"
  "json_field ''type'' [(''type'', a), (''value'', b), (''ts'', c)] = Some a"
  "json_field ''value'' [(''type'', a), (''value'', b), (''ts'', c)] = Some b"
  "json_field ''ts'' [(''type'', a), (''value'', b), (''ts'', c)] = Some c"
  "json_field ''id'' [(''id'', a), (''value'', b), (''timestamp'', c)] = Some a"
  "json_field ''value'' [(''id'', a), (''value'', b), (''timestamp'', c)] = Some b"
  "json_field ''timestamp'' [(''id'', a), (''value'', b), (''timestamp'', c)] = Some c"
  "json_field ''wall_time'' [(''wall_time'', a), (''lamport'', b), (''id'', c)] = Some a"
  "json_field ''lamport'' [(''wall_time'', a), (''lamport'', b), (''id'', c)] = Some b"
  "json_field ''id'' [(''wall_time'', a), (''lamport'', b), (''id'', c)] = Some c"
  by (simp_all add: json_field_def ToLower_def ascii_lower_def)

lemma json_field_missing:
  "json_field ''value'' [(''type'', a), (''P'', b), (''N'', c)] = None"
  "json_field ''ts'' [(''type'', a), (''P'', b), (''N'', c)] = None"
  "json_field ''P'' [(''type'', a), (''value'', b), (''ts'', c)] = None"
  "json_field ''N'' [(''type'', a), (''value'', b), (''ts'', c)] = None"
  by (simp_all add: json_field_def ToLower_def ascii_lower_def)

text \<open>Strings the text layer carries unchanged; every ASCII string is one.\<close>

definition plain :: "string \<Rightarrow> bool" where
  "plain s \<longleftrightarrow> json_text s = s"

lemma plain_ascii: "\<forall>c \<in> set s. of_char c < (128 :: nat) \<Longrightarrow> plain s"
  by (simp add: plain_def json_text_ascii)

definition plain_map :: "pnmap \<Rightarrow> bool" where
  "plain_map m \<longleftrightarrow> (\<forall>k. k |\<in>| fmdom (gm m) \<longrightarrow> plain k)"

lemma dec_i64_enc [simp]: "dec_i64 (JNum (sint v)) = Inr v"
  using sint_greater_eq [of v] sint_less [of v] by simp

lemma dec_u64_enc [simp]: "dec_u64 z (Some (JNum (uint v))) = Inr v"
  using uint_lt2p [of v] by simp

declare dec_i64.simps(1) [simp del] dec_u64.simps(3) [simp del]

lemma dec_entries_enc:
  "\<forall>(k, v) \<in> set es. plain k \<Longrightarrow>
   dec_entries (map (\<lambda>(k, v). (json_text k, JNum (sint v))) es) m = Inr (fold (\<lambda>(k, v). fmupd k v) es m)"
  by (induction es arbitrary: m) (auto simp: plain_def)

lemma fmlookup_fold_fmupd:
  "x \<notin> fst ` set es \<Longrightarrow> fmlookup (fold (\<lambda>(k, v). fmupd k v) es m) x = fmlookup m x"
  by (induction es arbitrary: m) (auto simp: case_prod_beta)

lemma fmlookup_fold_fmupd_mem:
  "distinct (map fst es) \<Longrightarrow> (x, v) \<in> set es \<Longrightarrow> fmlookup (fold (\<lambda>(k, v). fmupd k v) es m) x = Some v"
  by (induction es arbitrary: m) (auto simp: fmlookup_fold_fmupd)

lemma fold_fmupd_fm_entries: "fold (\<lambda>(k, v). fmupd k v) (fm_entries f) fmempty = f"
proof (rule fmap_ext)
  fix x
  show "fmlookup (fold (\<lambda>(k, v). fmupd k v) (fm_entries f) fmempty) x = fmlookup f x"
  proof (cases "fmlookup f x")
    case None
    then have "x \<notin> fst ` set (fm_entries f)" by (auto simp: set_fm_entries)
    with None show ?thesis by (simp add: fmlookup_fold_fmupd)
  next
    case (Some v)
    then have "(x, v) \<in> set (fm_entries f)" by (simp add: set_fm_entries)
    with Some show ?thesis by (simp add: fmlookup_fold_fmupd_mem [OF distinct_fm_entries])
  qed
qed

lemma dec_map_enc:
  assumes "plain_map m"
  shows "dec_map (Some (enc_map m)) = Inr m"
proof (cases m)
  case (Some f)
  with assms have "\<forall>(k, v) \<in> set (fm_entries f). plain k"
    by (auto simp: plain_map_def set_fm_entries intro: fmdomI)
  with Some show ?thesis by (simp add: enc_map_def dec_entries_enc fold_fmupd_fm_entries)
qed (simp add: enc_map_def)

lemma dec_ts_enc: "plain (TsID ts) \<Longrightarrow> dec_ts z (Some (enc_ts ts)) = Inr ts"
  by (cases ts) (simp add: enc_ts_def enc_string_def plain_def)

fun plain_delta :: "delta \<Rightarrow> bool" where
  "plain_delta (CounterDelta d) \<longleftrightarrow> plain_map (dP d) \<and> plain_map (dN d)"
| "plain_delta (RegisterDelta d) \<longleftrightarrow> plain (TsID (dTS d))"

text \<open>A delta decodes to itself: for every delta whose node names are valid text, decoding what
  \<open>MarshalJSON\<close> wrote with the fabric, under the delta's own type, gives the same delta back (nil maps
  stay nil); under the other registered type it is refused or panics, never misread.\<close>

lemma delta_codec_roundtrip:
  assumes "plain_delta d"
  shows "DeltaFromBytes (delta_Type d) (delta_MarshalJSON d) = Inr d
    \<and> (ty \<noteq> delta_Type d \<longrightarrow> (\<exists>e. DeltaFromBytes ty (delta_MarshalJSON d) = Inl e))"
proof (cases d)
  case (CounterDelta c)
  with assms have "dec_map (Some (enc_map (dP c))) = Inr (dP c)" "dec_map (Some (enc_map (dN c))) = Inr (dN c)"
    by (auto intro: dec_map_enc)
  moreover have "CRDTTypePNCounter \<noteq> []" "CRDTTypeLWWHLCRegister \<noteq> []"
    by (simp_all add: CRDTTypePNCounter_def CRDTTypeLWWHLCRegister_def)
  ultimately show ?thesis using CounterDelta
    by (auto simp: DeltaFromBytes_def PNCounterDelta_UnmarshalJSON_def PNCounterDelta_MarshalJSON_def
        LWWHLCRegisterDelta_UnmarshalJSON_def json_field_missing zero_LWWHLCRegisterDelta_def)
next
  case (RegisterDelta r)
  with assms have "dec_ts z (Some (enc_ts (dTS r))) = Inr (dTS r)" for z by (auto intro: dec_ts_enc)
  moreover have "CRDTTypePNCounter \<noteq> []" "CRDTTypeLWWHLCRegister \<noteq> []"
    by (simp_all add: CRDTTypePNCounter_def CRDTTypeLWWHLCRegister_def)
  ultimately show ?thesis using RegisterDelta
    by (auto simp: DeltaFromBytes_def LWWHLCRegisterDelta_UnmarshalJSON_def LWWHLCRegisterDelta_MarshalJSON_def
        PNCounterDelta_UnmarshalJSON_def json_field_missing)
qed

text \<open>A snapshot of a replica's state decodes to a state with the same id and data: a counter comes
  back unchanged, with the writer's id; a register comes back with the same timestamp and a clock, and
  with its value replaced by the text \<open>register_raw\<close> of it (compacted JSON, a quoted string, or null).\<close>

lemma crdt_codec_roundtrip:
  assumes "plain (pn_id c)" "plain_map (pP c)" "plain_map (pN c)"
    and "plain (reg_id r)" "plain (TsID (reg_ts r))"
  shows "crdt_UnmarshalJSON t (Counter other) (crdt_MarshalJSON (Counter c)) = Inr (Counter c)
    \<and> (\<exists>r'. crdt_UnmarshalJSON t (Register reg) (crdt_MarshalJSON (Register r)) = Inr (Register r')
         \<and> reg_id r' = reg_id r \<and> reg_ts r' = reg_ts r \<and> reg_clock r' \<noteq> None
         \<and> LWWHLCRegister_Read r' = register_raw (LWWHLCRegister_Read r))"
proof -
  have "dec_string z (Some (enc_string s)) = Inr s" if "plain s" for z s
    using that by (simp add: enc_string_def plain_def)
  then show ?thesis using assms
    by (simp add: PNCounter_UnmarshalJSON_def PNCounter_MarshalJSON_def dec_map_enc
        LWWHLCRegister_UnmarshalJSON_def LWWHLCRegister_MarshalJSON_def dec_ts_enc LWWHLCRegister_Read_def)
qed

text \<open>A counter delta without its two fields is not refused: decoding it dereferences nil.\<close>

lemma empty_counter_delta_panics:
  "DeltaFromBytes CRDTTypePNCounter (JObj []) = Inl (Panic NilDereference)"
  by (simp add: DeltaFromBytes_def PNCounterDelta_UnmarshalJSON_def json_field_def)

end
