(* ===== verification/Engine.thy ===== *)
theory Engine
  imports Crdt
begin

text \<open>
  The storage engine, \<open>pkg/storage/engine\<close> and \<open>pkg/storage/engine/v1\<close>: sharded maps from keys to
  entries, tombstones, and the collection of expired tombstones. Entries are pointers in the source;
  the model keeps the entry under its key and writes it back where the code mutates it through the
  pointer. The hash \<open>utils.HashKey\<close> (xxhash, a third-party package) is the argument \<open>hk\<close> of every
  operation, and nothing is assumed of it. Wall clock readings are arguments. Lemmas: the engine
  provides a key-value map (a locale), whatever the hash and the number of shards; the collector
  never changes what a client reads; and the item it removes need not be the one that expired.
\<close>

section \<open>The interface: a key-value map\<close>

locale kv_map =
  fixes invar :: "'e \<Rightarrow> bool"
    and look :: "'e \<Rightarrow> string \<Rightarrow> 'v option"
    and store :: "'e \<Rightarrow> string \<Rightarrow> 'v \<Rightarrow> 'e"
    and erase :: "'e \<Rightarrow> string \<Rightarrow> 'e"
  assumes invar_store: "invar e \<Longrightarrow> invar (store e k v)"
    and invar_erase: "invar e \<Longrightarrow> invar (erase e k)"
    and look_store: "invar e \<Longrightarrow> look (store e k v) k' = (if k' = k then Some v else look e k')"
    and look_erase: "invar e \<Longrightarrow> look (erase e k) k' = (if k' = k then None else look e k')"
begin

lemma look_store_same: "invar e \<Longrightarrow> look (store e k v) k = Some v"
  by (simp add: look_store)

lemma store_commute:
  "invar e \<Longrightarrow> k \<noteq> l \<Longrightarrow> look (store (store e k v) l w) = look (store (store e l w) k v)"
  by (intro ext) (simp add: look_store invar_store)

lemma erase_all:
  "invar e \<Longrightarrow> invar (fold (\<lambda>k e. erase e k) ks e)
   \<and> look (fold (\<lambda>k e. erase e k) ks e) k' = (if k' \<in> set ks then None else look e k')"
  by (induction ks arbitrary: e) (auto simp: invar_erase look_erase)

end

section \<open>Data\<close>

record CRDTEntry =
  entObject :: crdt
  entTombstone :: bool
  entSetTimeStamp :: Timestamp

definition Deleted :: "CRDTEntry \<Rightarrow> bool" where
  "Deleted e = entTombstone e"

definition DeletedAt :: "CRDTEntry \<Rightarrow> Timestamp" where
  "DeletedAt e = entSetTimeStamp e"

record markItem =
  mkKey :: string
  mkSetTimeStamp :: Timestamp
  mkExpiryAt :: i64

record EngineOptions =
  InitialShards :: int
  OptNodeID :: string
  DeleteThreshold :: i64

record Engine =
  eng_shards :: "(string, CRDTEntry) fmap list"
  eng_numShards :: u32
  eng_clock :: Time
  eng_opts :: EngineOptions
  eng_fallback :: "markItem list"
  eng_markChan :: "markItem list"

definition markChanSize :: nat where "markChanSize = 10000"

definition WithInitialShards :: "int \<Rightarrow> EngineOptions \<Rightarrow> EngineOptions" where
  "WithInitialShards n opts = opts\<lparr>InitialShards := n\<rparr>"

definition WithNodeID :: "string \<Rightarrow> EngineOptions \<Rightarrow> EngineOptions" where
  "WithNodeID nid opts = opts\<lparr>OptNodeID := nid\<rparr>"

definition WithDeleteThreshold :: "i64 \<Rightarrow> EngineOptions \<Rightarrow> EngineOptions" where
  "WithDeleteThreshold d opts = opts\<lparr>DeleteThreshold := d\<rparr>"

definition populateDefaults :: "EngineOptions \<Rightarrow> EngineOptions" where
  "populateDefaults opts =
     (let opts1 = (if InitialShards opts = 0 then opts\<lparr>InitialShards := 256\<rparr> else opts)
      in if DeleteThreshold opts1 = 0 then opts1\<lparr>DeleteThreshold := 60000000000\<rparr> else opts1)"

definition NewEngine :: "(EngineOptions \<Rightarrow> EngineOptions) list \<Rightarrow> go_error + Engine" where
  "NewEngine options =
     (let opts = populateDefaults (fold (\<lambda>f. f) options \<lparr>InitialShards = 0, OptNodeID = '''', DeleteThreshold = 0\<rparr>)
      in if InitialShards opts < 0 then Inl (Panic MakeNegativeLen)
         else Inr \<lparr>eng_shards = replicate (nat (InitialShards opts)) fmempty,
                   eng_numShards = of_int (InitialShards opts), eng_clock = NewHLC (OptNodeID opts),
                   eng_opts = opts, eng_fallback = [], eng_markChan = []\<rparr>)"

record EngineConfig =
  ShardsNum :: int
  CfgDeleteThreshold :: i64

definition NewEngineFromConfig :: "string \<Rightarrow> EngineConfig \<Rightarrow> go_error + Engine" where
  "NewEngineFromConfig nid cfg =
     NewEngine ([WithNodeID nid] @ (if ShardsNum cfg > 0 then [WithInitialShards (ShardsNum cfg)] else [])
       @ (if 0 <s CfgDeleteThreshold cfg then [WithDeleteThreshold (CfgDeleteThreshold cfg)] else []))"

section \<open>Operations\<close>

definition shardFor :: "(string \<Rightarrow> u64) \<Rightarrow> Engine \<Rightarrow> string \<Rightarrow> nat" where
  "shardFor hk e key = unat (hk key AND (ucast (eng_numShards e) - 1))"

text \<open>Reading and writing a slot of the key's shard.\<close>

definition GetRaw :: "(string \<Rightarrow> u64) \<Rightarrow> Engine \<Rightarrow> string \<Rightarrow> CRDTEntry option" where
  "GetRaw hk e key = fmlookup (eng_shards e ! shardFor hk e key) key"

definition eng_store :: "(string \<Rightarrow> u64) \<Rightarrow> Engine \<Rightarrow> string \<Rightarrow> CRDTEntry \<Rightarrow> Engine" where
  "eng_store hk e key ent =
     (let i = shardFor hk e key in e\<lparr>eng_shards := (eng_shards e)[i := fmupd key ent (eng_shards e ! i)]\<rparr>)"

definition eng_erase :: "(string \<Rightarrow> u64) \<Rightarrow> Engine \<Rightarrow> string \<Rightarrow> Engine" where
  "eng_erase hk e key =
     (let i = shardFor hk e key in e\<lparr>eng_shards := (eng_shards e)[i := fmdrop key (eng_shards e ! i)]\<rparr>)"

definition eng_Get :: "(string \<Rightarrow> u64) \<Rightarrow> Engine \<Rightarrow> string \<Rightarrow> CRDTEntry option" where
  "eng_Get hk e key =
     (case GetRaw hk e key of None \<Rightarrow> None | Some ent \<Rightarrow> if entTombstone ent then None else Some ent)"

text \<open>Every caller passes a nil callback.\<close>

definition PutWithTimeStamp :: "(string \<Rightarrow> u64) \<Rightarrow> Engine \<Rightarrow> Timestamp \<Rightarrow> string \<Rightarrow> crdt \<Rightarrow> Timestamp \<times> Engine" where
  "PutWithTimeStamp hk e ts key obj =
     (ts, eng_store hk e key \<lparr>entObject = obj, entTombstone = False, entSetTimeStamp = ts\<rparr>)"

definition eng_Put :: "(string \<Rightarrow> u64) \<Rightarrow> Engine \<Rightarrow> i64 \<Rightarrow> string \<Rightarrow> crdt \<Rightarrow> Timestamp \<times> Engine" where
  "eng_Put hk e t key obj =
     (let (ts, clk) = hlc_Now (eng_clock e) t in PutWithTimeStamp hk (e\<lparr>eng_clock := clk\<rparr>) ts key obj)"

definition DeleteWithTimeStamp ::
    "(string \<Rightarrow> u64) \<Rightarrow> Engine \<Rightarrow> i64 \<Rightarrow> Timestamp \<Rightarrow> string \<Rightarrow> CRDTEntry option \<times> Engine" where
  "DeleteWithTimeStamp hk e now ts key =
     (case GetRaw hk e key of None \<Rightarrow> (None, e)
      | Some ent \<Rightarrow>
          let ent' = ent\<lparr>entTombstone := True, entSetTimeStamp := ts\<rparr>;
              e1 = eng_store hk e key ent';
              item = \<lparr>mkKey = key, mkSetTimeStamp = ts, mkExpiryAt = now + DeleteThreshold (eng_opts e)\<rparr>
          in (Some ent',
              if length (eng_markChan e1) < markChanSize
              then e1\<lparr>eng_markChan := eng_markChan e1 @ [item]\<rparr>
              else e1\<lparr>eng_fallback := eng_fallback e1 @ [item]\<rparr>))"

definition eng_Delete ::
    "(string \<Rightarrow> u64) \<Rightarrow> Engine \<Rightarrow> i64 \<Rightarrow> i64 \<Rightarrow> string \<Rightarrow> CRDTEntry option \<times> Engine" where
  "eng_Delete hk e t now key =
     (let (ts, clk) = hlc_Now (eng_clock e) t in DeleteWithTimeStamp hk (e\<lparr>eng_clock := clk\<rparr>) now ts key)"

text \<open>The callback of \<open>Update\<close> receives the entry and may call the engine again; it returns its two
  results and the engine it leaves.\<close>

definition eng_Update ::
    "(string \<Rightarrow> u64) \<Rightarrow> Engine \<Rightarrow> string \<Rightarrow> (CRDTEntry \<Rightarrow> Engine \<Rightarrow> (go_error + bool) \<times> Engine) \<Rightarrow> (go_error + bool) \<times> Engine" where
  "eng_Update hk e key updateFunc =
     (case GetRaw hk e key of None \<Rightarrow> (Inr False, e) | Some ent \<Rightarrow> updateFunc ent e)"

definition GetOrCreate ::
    "(string \<Rightarrow> u64) \<Rightarrow> Engine \<Rightarrow> string \<Rightarrow> go_error + CRDTEntry \<Rightarrow> (go_error + CRDTEntry \<times> bool) \<times> Engine" where
  "GetOrCreate hk e key created =
     (case eng_Get hk e key of Some ent \<Rightarrow> (Inr (ent, False), e)
      | None \<Rightarrow> (case created of Inl err \<Rightarrow> (Inl err, e)
                | Inr ent \<Rightarrow> (Inr (ent, True), eng_store hk e key ent)))"

section \<open>The expiry heap and the collector\<close>

type_synonym expiryHeap = "markItem list"

definition heap_Less :: "expiryHeap \<Rightarrow> nat \<Rightarrow> nat \<Rightarrow> bool" where
  "heap_Less h i j \<longleftrightarrow> mkExpiryAt (h ! i) <s mkExpiryAt (h ! j)"

definition heap_Swap :: "expiryHeap \<Rightarrow> nat \<Rightarrow> nat \<Rightarrow> expiryHeap" where
  "heap_Swap h i j = h[i := h ! j, j := h ! i]"

definition heap_Push :: "expiryHeap \<Rightarrow> markItem \<Rightarrow> expiryHeap" where
  "heap_Push h x = h @ [x]"

definition heap_Pop :: "expiryHeap \<Rightarrow> markItem \<times> expiryHeap" where
  "heap_Pop h = (last h, butlast h)"

definition heap_Peek :: "expiryHeap \<Rightarrow> markItem option" where
  "heap_Peek h = (if h = [] then None else Some (h ! 0))"

definition newExpiryHeap :: expiryHeap where
  "newExpiryHeap = []"

definition drainFallback :: "Engine \<Rightarrow> expiryHeap \<Rightarrow> Engine \<times> expiryHeap" where
  "drainFallback e h = (e\<lparr>eng_fallback := []\<rparr>, fold (\<lambda>it h. heap_Push h it) (eng_fallback e) h)"

definition collect_item :: "(string \<Rightarrow> u64) \<Rightarrow> Engine \<Rightarrow> markItem \<Rightarrow> Engine" where
  "collect_item hk e item =
     (case GetRaw hk e (mkKey item) of None \<Rightarrow> e
      | Some cur \<Rightarrow>
          if entTombstone cur \<and> ts_Equal (entSetTimeStamp cur) (mkSetTimeStamp item)
          then eng_erase hk e (mkKey item) else e)"

function processExpiredItems :: "(string \<Rightarrow> u64) \<Rightarrow> i64 \<Rightarrow> Engine \<Rightarrow> expiryHeap \<Rightarrow> Engine \<times> expiryHeap" where
  "processExpiredItems hk currTime e h =
     (case heap_Peek h of None \<Rightarrow> (e, h)
      | Some item \<Rightarrow>
          if currTime <s mkExpiryAt item then (e, h)
          else let (popped, h') = heap_Pop h in processExpiredItems hk currTime (collect_item hk e popped) h')"
  by pat_completeness auto
termination
  by (relation "measure (\<lambda>(hk, t, e, h). length h)") (auto simp: heap_Peek_def heap_Pop_def split: if_splits)

declare processExpiredItems.simps [simp del]

text \<open>One iteration of the loop of \<open>runGC\<close>: it receives a marked item or handles a tick.\<close>

inductive gc_step :: "(string \<Rightarrow> u64) \<Rightarrow> Engine \<times> expiryHeap \<Rightarrow> Engine \<times> expiryHeap \<Rightarrow> bool" for hk where
  gc_recv: "eng_markChan e = item # rest \<Longrightarrow>
     gc_step hk (e, h) (e\<lparr>eng_markChan := rest\<rparr>, heap_Push h item)"
| gc_tick: "drainFallback e h = (e1, h1) \<Longrightarrow> gc_step hk (e, h) (processExpiredItems hk now e1 h1)"

section \<open>The engine is a key-value map\<close>

definition eng_wf :: "Engine \<Rightarrow> bool" where
  "eng_wf e \<longleftrightarrow> eng_shards e \<noteq> [] \<and> length (eng_shards e) < 2 ^ 32 \<and> eng_numShards e = of_nat (length (eng_shards e))"

text \<open>Masking with the number of shards minus one stays inside the array, whether or not that number
  is a power of two.\<close>

lemma shardFor_in_range:
  assumes "eng_wf e"
  shows "shardFor hk e key < length (eng_shards e)"
proof -
  let ?n = "length (eng_shards e)"
  have n: "0 < ?n" "?n < 2 ^ 32" using assms by (auto simp: eng_wf_def)
  have "unat (eng_numShards e) = ?n" using assms by (simp add: eng_wf_def unat_of_nat)
  then have u: "unat (ucast (eng_numShards e) :: u64) = ?n" using n by (simp add: unsigned_ucast_eq take_bit_nat_eq_self)
  then have "(ucast (eng_numShards e) :: u64) \<noteq> 0" using n(1) by auto
  then have "unat (ucast (eng_numShards e) - 1 :: u64) = ?n - 1" using u by (simp add: unat_minus_one)
  moreover have "hk key AND (ucast (eng_numShards e) - 1) \<le> ucast (eng_numShards e) - 1" by (rule word_and_le1)
  ultimately have "shardFor hk e key \<le> ?n - 1" by (simp add: shardFor_def word_le_nat_alt)
  then show ?thesis using n(1) by linarith
qed

lemma shardFor_upd [simp]:
  "shardFor hk (e\<lparr>eng_shards := s\<rparr>) = shardFor hk e" "shardFor hk (e\<lparr>eng_clock := c\<rparr>) = shardFor hk e"
  "shardFor hk (e\<lparr>eng_markChan := m\<rparr>) = shardFor hk e" "shardFor hk (e\<lparr>eng_fallback := m\<rparr>) = shardFor hk e"
  by (auto simp: shardFor_def fun_eq_iff)

lemma eng_wf_upd [simp]:
  "eng_wf (e\<lparr>eng_clock := c\<rparr>) = eng_wf e" "eng_wf (e\<lparr>eng_markChan := m\<rparr>) = eng_wf e"
  "eng_wf (e\<lparr>eng_fallback := m\<rparr>) = eng_wf e"
  by (simp_all add: eng_wf_def)

lemma GetRaw_upd [simp]:
  "GetRaw hk (e\<lparr>eng_clock := c\<rparr>) = GetRaw hk e" "GetRaw hk (e\<lparr>eng_markChan := m\<rparr>) = GetRaw hk e"
  "GetRaw hk (e\<lparr>eng_fallback := m\<rparr>) = GetRaw hk e"
  by (auto simp: GetRaw_def fun_eq_iff)

interpretation eng: kv_map eng_wf "GetRaw hk" "eng_store hk" "eng_erase hk"
  for hk :: "string \<Rightarrow> u64"
proof unfold_locales
  fix e :: Engine and k k' :: string and v :: CRDTEntry
  assume e: "eng_wf e"
  show "eng_wf (eng_store hk e k v)" "eng_wf (eng_erase hk e k)"
    using e by (simp_all add: eng_wf_def eng_store_def eng_erase_def Let_def)
  show "GetRaw hk (eng_store hk e k v) k' = (if k' = k then Some v else GetRaw hk e k')"
    "GetRaw hk (eng_erase hk e k) k' = (if k' = k then None else GetRaw hk e k')"
    using shardFor_in_range [OF e, of hk k]
    by (auto simp: GetRaw_def eng_store_def eng_erase_def Let_def nth_list_update)
qed

lemmas eng_look [eng_simps] = eng.look_store eng.look_erase eng.invar_store eng.invar_erase

lemma NewEngine_wf:
  assumes "NewEngine options = Inr e" "InitialShards (eng_opts e) < 2 ^ 32"
  shows "eng_wf e \<and> GetRaw hk e key = None"
proof -
  let ?o = "populateDefaults (fold (\<lambda>f. f) options \<lparr>InitialShards = 0, OptNodeID = [], DeleteThreshold = 0\<rparr>)"
  have o: "InitialShards ?o \<noteq> 0" by (simp add: populateDefaults_def Let_def)
  have e: "e = \<lparr>eng_shards = replicate (nat (InitialShards ?o)) fmempty, eng_numShards = of_int (InitialShards ?o),
      eng_clock = NewHLC (OptNodeID ?o), eng_opts = ?o, eng_fallback = [], eng_markChan = []\<rparr>" "\<not> InitialShards ?o < 0"
    using assms(1) by (auto simp: NewEngine_def Let_def split: if_splits)
  have wf: "eng_wf e" using assms(2) o e by (auto simp: eng_wf_def)
  moreover have "GetRaw hk e key = None"
    using shardFor_in_range [OF wf, of hk key] e by (simp add: GetRaw_def)
  ultimately show ?thesis ..
qed

lemma GetRaw_PutWithTimeStamp [eng_simps]:
  "eng_wf e \<Longrightarrow> GetRaw hk (snd (PutWithTimeStamp hk e ts key obj)) k =
     (if k = key then Some \<lparr>entObject = obj, entTombstone = False, entSetTimeStamp = ts\<rparr> else GetRaw hk e k)"
  by (simp add: PutWithTimeStamp_def eng_simps)

lemma eng_wf_PutWithTimeStamp [eng_simps]: "eng_wf e \<Longrightarrow> eng_wf (snd (PutWithTimeStamp hk e ts key obj))"
  by (simp add: PutWithTimeStamp_def eng_simps)

lemma GetRaw_DeleteWithTimeStamp [eng_simps]:
  "eng_wf e \<Longrightarrow> GetRaw hk (snd (DeleteWithTimeStamp hk e now ts key)) k =
     (if k = key then map_option (\<lambda>ent. ent\<lparr>entTombstone := True, entSetTimeStamp := ts\<rparr>) (GetRaw hk e key)
      else GetRaw hk e k)"
  by (auto simp: DeleteWithTimeStamp_def eng_simps Let_def split: option.splits)

lemma eng_wf_DeleteWithTimeStamp [eng_simps]: "eng_wf e \<Longrightarrow> eng_wf (snd (DeleteWithTimeStamp hk e now ts key))"
  by (auto simp: DeleteWithTimeStamp_def eng_simps Let_def split: option.splits)

text \<open>Reads see the last write: after \<open>Put\<close> a key reads as the object with the timestamp that was issued;
  after \<open>Delete\<close> it is hidden but kept as a tombstone with the issued timestamp, and marked for
  collection; both leave every other key as it was, for every hash function and number of shards.\<close>

lemma engine_put_delete:
  assumes "eng_wf e" "eng_Put hk e t key obj = (ts, e1)" "eng_Delete hk e1 t' now key = (r, e2)"
  shows "eng_Get hk e1 key = Some \<lparr>entObject = obj, entTombstone = False, entSetTimeStamp = ts\<rparr>
    \<and> (k \<noteq> key \<longrightarrow> eng_Get hk e1 k = eng_Get hk e k)
    \<and> (\<exists>ts'. GetRaw hk e2 key = Some \<lparr>entObject = obj, entTombstone = True, entSetTimeStamp = ts'\<rparr>
         \<and> r = GetRaw hk e2 key
         \<and> \<lparr>mkKey = key, mkSetTimeStamp = ts', mkExpiryAt = now + DeleteThreshold (eng_opts e)\<rparr>
             \<in> set (eng_markChan e2) \<union> set (eng_fallback e2))
    \<and> eng_Get hk e2 key = None
    \<and> (k \<noteq> key \<longrightarrow> eng_Get hk e2 k = eng_Get hk e k)
    \<and> eng_wf e2"
proof -
  obtain clk where p: "(ts, clk) = hlc_Now (eng_clock e) t"
      "e1 = snd (PutWithTimeStamp hk (e\<lparr>eng_clock := clk\<rparr>) ts key obj)"
    using assms(2) by (cases "hlc_Now (eng_clock e) t") (auto simp: eng_Put_def PutWithTimeStamp_def)
  have wf1: "eng_wf e1" using assms(1) p(2) by (simp add: eng_simps)
  have r1: "GetRaw hk e1 k = (if k = key then Some \<lparr>entObject = obj, entTombstone = False, entSetTimeStamp = ts\<rparr> else GetRaw hk e k)" for k
    using assms(1) p(2) by (simp add: eng_simps)
  have o1: "eng_opts e1 = eng_opts e" using p(2) by (simp add: PutWithTimeStamp_def eng_store_def Let_def)
  obtain ts' clk' where d: "hlc_Now (eng_clock e1) t' = (ts', clk')" by fastforce
  let ?e = "e1\<lparr>eng_clock := clk'\<rparr>"
  have e2: "DeleteWithTimeStamp hk ?e now ts' key = (r, e2)" using assms(3) d by (simp add: eng_Delete_def)
  then have r2: "GetRaw hk e2 k = (if k = key then Some \<lparr>entObject = obj, entTombstone = True, entSetTimeStamp = ts'\<rparr> else GetRaw hk e k)" for k
    using GetRaw_DeleteWithTimeStamp [of ?e hk now ts' key k] wf1 r1 by simp
  have wf2: "eng_wf e2" using eng_wf_DeleteWithTimeStamp [of ?e hk now ts' key] wf1 e2 by simp
  have "r = Some \<lparr>entObject = obj, entTombstone = True, entSetTimeStamp = ts'\<rparr>
      \<and> \<lparr>mkKey = key, mkSetTimeStamp = ts', mkExpiryAt = now + DeleteThreshold (eng_opts e)\<rparr>
         \<in> set (eng_markChan e2) \<union> set (eng_fallback e2)"
    using e2 r1 [of key] o1 by (auto simp: DeleteWithTimeStamp_def Let_def split: if_splits)
  with r1 r2 wf2 show ?thesis by (auto simp: eng_Get_def)
qed

section \<open>Collection\<close>

lemma collect_item_reads:
  assumes "eng_wf e"
  shows "eng_wf (collect_item hk e item) \<and> eng_Get hk (collect_item hk e item) k = eng_Get hk e k
    \<and> (GetRaw hk (collect_item hk e item) k \<noteq> GetRaw hk e k \<longrightarrow>
        GetRaw hk (collect_item hk e item) k = None
        \<and> (\<exists>ent. GetRaw hk e k = Some ent \<and> entTombstone ent \<and> mkKey item = k
             \<and> ts_Equal (entSetTimeStamp ent) (mkSetTimeStamp item)))"
  using assms by (auto simp: collect_item_def eng_simps eng_Get_def split: option.splits)

lemma processExpiredItems_reads:
  assumes "eng_wf e" "processExpiredItems hk now e h = (e', h')"
  shows "eng_wf e' \<and> eng_Get hk e' k = eng_Get hk e k
    \<and> (GetRaw hk e' k \<noteq> GetRaw hk e k \<longrightarrow> GetRaw hk e' k = None
        \<and> (\<exists>ent item. GetRaw hk e k = Some ent \<and> entTombstone ent \<and> item \<in> set h \<and> mkKey item = k
             \<and> ts_Equal (entSetTimeStamp ent) (mkSetTimeStamp item)))
    \<and> h' = take (length h') h"
  using assms
proof (induction hk now e h rule: processExpiredItems.induct)
  case (1 hk now e h)
  consider "h = []" | "h \<noteq> []" "now <s mkExpiryAt (h ! 0)" | "h \<noteq> []" "\<not> now <s mkExpiryAt (h ! 0)" by blast
  then show ?case
  proof cases
    case 3
    let ?e = "collect_item hk e (last h)"
    have run: "processExpiredItems hk now ?e (butlast h) = (e', h')"
      using "1.prems"(2) 3 by (simp add: processExpiredItems.simps [of hk now e h] heap_Peek_def heap_Pop_def)
    note c = collect_item_reads [OF "1.prems"(1), of hk "last h" k]
    have ih: "eng_wf e' \<and> eng_Get hk e' k = eng_Get hk ?e k
      \<and> (GetRaw hk e' k \<noteq> GetRaw hk ?e k \<longrightarrow> GetRaw hk e' k = None
          \<and> (\<exists>ent item. GetRaw hk ?e k = Some ent \<and> entTombstone ent \<and> item \<in> set (butlast h) \<and> mkKey item = k
             \<and> ts_Equal (entSetTimeStamp ent) (mkSetTimeStamp item)))
      \<and> h' = take (length h') (butlast h)"
      using "1.IH" 3 c run by (simp add: heap_Peek_def heap_Pop_def)
    have h: "last h \<in> set h" "set (butlast h) \<subseteq> set h" using 3 by (auto dest: in_set_butlastD)
    have "length h' \<le> length (butlast h)" using ih by (metis length_take min.cobounded1)
    then have "take (length h') (butlast h) = take (length h') h" by (metis butlast_conv_take length_butlast take_take min.absorb1)
    with ih have t: "h' = take (length h') h" by simp
    show ?thesis
    proof (cases "GetRaw hk ?e k = GetRaw hk e k")
      case True
      with ih c t h show ?thesis by (auto simp: subset_iff)
    next
      case False
      with ih c t h show ?thesis by auto
    qed
  qed (use "1.prems" in \<open>simp_all add: processExpiredItems.simps [of hk now e] heap_Peek_def\<close>)
qed

lemma gc_step_reads:
  assumes "gc_step hk (e, h) (e', h')" "eng_wf e"
  shows "eng_wf e' \<and> eng_Get hk e' k = eng_Get hk e k
    \<and> (GetRaw hk e' k \<noteq> GetRaw hk e k \<longrightarrow> GetRaw hk e' k = None \<and> (\<exists>ent. GetRaw hk e k = Some ent \<and> entTombstone ent))"
  using assms(1)
proof cases
  case (gc_recv item rest)
  then show ?thesis using assms(2) by (simp add: eng_Get_def)
next
  case (gc_tick e1 h1 now)
  have e1: "eng_wf e1" "GetRaw hk e1 = GetRaw hk e" using gc_tick(2) assms(2) by (auto simp: drainFallback_def)
  from processExpiredItems_reads [OF e1(1) gc_tick(1) [symmetric], of k] e1 show ?thesis
    by (auto simp: eng_Get_def)
qed

text \<open>The collector is invisible: no run of it, of any length and at any times, changes what \<open>Get\<close>
  returns for any key; the only change it ever makes to the stored entries is to remove tombstones.\<close>

lemma collector_invisible:
  assumes "(gc_step hk)\<^sup>*\<^sup>* (e, h) (e', h')" "eng_wf e"
  shows "eng_wf e' \<and> (\<forall>k. eng_Get hk e' k = eng_Get hk e k
    \<and> (GetRaw hk e' k = GetRaw hk e k
       \<or> GetRaw hk e' k = None \<and> (\<exists>ent. GetRaw hk e k = Some ent \<and> entTombstone ent)))"
  using assms(1)
proof (induction "(e', h')" arbitrary: e' h' rule: rtranclp_induct)
  case base
  then show ?case using assms(2) by simp
next
  case (step s)
  obtain e1 h1 where s: "s = (e1, h1)" by (cases s)
  note ih = step.hyps(3) [OF s]
  note st = gc_step_reads [OF step.hyps(2) [unfolded s]]
  show ?case
  proof (intro conjI allI)
    show "eng_wf e'" using st ih by blast
    show "eng_Get hk e' k = eng_Get hk e k" for k using st ih by metis
    show "GetRaw hk e' k = GetRaw hk e k
       \<or> GetRaw hk e' k = None \<and> (\<exists>ent. GetRaw hk e k = Some ent \<and> entTombstone ent)" for k
      using st [of k] ih by metis
  qed
qed

text \<open>An engine with one shard, a deleted key and its mark.\<close>

definition gc_entry :: "Timestamp \<Rightarrow> CRDTEntry" where
  "gc_entry ts = \<lparr>entObject = Counter (NewPNCounter ''n''), entTombstone = True, entSetTimeStamp = ts\<rparr>"

definition gc_engine :: "(string \<times> CRDTEntry) list \<Rightarrow> Engine" where
  "gc_engine kvs = \<lparr>eng_shards = [fmap_of_list kvs], eng_numShards = 1, eng_clock = NewHLC ''n'',
     eng_opts = \<lparr>InitialShards = 1, OptNodeID = ''n'', DeleteThreshold = 60\<rparr>, eng_fallback = [], eng_markChan = []\<rparr>"

lemma GetRaw_collect_item:
  "eng_wf e \<Longrightarrow> GetRaw hk (collect_item hk e item) k = (case GetRaw hk e k of None \<Rightarrow> None
     | Some ent \<Rightarrow> if entTombstone ent \<and> mkKey item = k \<and> ts_Equal (entSetTimeStamp ent) (mkSetTimeStamp item) then None else Some ent)"
  by (auto simp: collect_item_def eng_simps split: option.splits)

text \<open>A run of the collector on a heap whose first item is due takes every item, the last one first.\<close>

lemma collect_all:
  assumes "\<not> currTime <s mkExpiryAt first" "eng_wf e"
  shows "\<exists>e'. processExpiredItems hk currTime e (first # rest) = (e', []) \<and> eng_wf e'
    \<and> (\<forall>k. GetRaw hk e' k = (case GetRaw hk e k of None \<Rightarrow> None
        | Some ent \<Rightarrow> if entTombstone ent \<and> (\<exists>item \<in> set (first # rest). mkKey item = k \<and> ts_Equal (entSetTimeStamp ent) (mkSetTimeStamp item))
            then None else Some ent))"
  using assms(2)
proof (induction rest arbitrary: e rule: rev_induct)
  case Nil
  have "processExpiredItems hk currTime e [first] = (collect_item hk e first, [])"
    using assms(1) by (simp add: processExpiredItems.simps heap_Peek_def heap_Pop_def)
  with collect_item_reads [OF Nil] show ?case by (auto simp: GetRaw_collect_item [OF Nil] split: option.splits)
next
  case (snoc x rest)
  have "processExpiredItems hk currTime e (first # rest @ [x]) = processExpiredItems hk currTime (collect_item hk e x) (first # rest)"
    using assms(1) by (subst processExpiredItems.simps) (simp add: heap_Peek_def heap_Pop_def butlast_append)
  with snoc.IH [of "collect_item hk e x"] collect_item_reads [OF snoc.prems] obtain e' where e':
      "processExpiredItems hk currTime e (first # rest @ [x]) = (e', [])" "eng_wf e'"
      "\<forall>k. GetRaw hk e' k = (case GetRaw hk (collect_item hk e x) k of None \<Rightarrow> None
        | Some ent \<Rightarrow> if entTombstone ent \<and> (\<exists>item \<in> set (first # rest). mkKey item = k \<and> ts_Equal (entSetTimeStamp ent) (mkSetTimeStamp item))
            then None else Some ent)" by metis
  show ?case by (intro exI [of _ e'] conjI allI) (use e' in \<open>auto simp: GetRaw_collect_item [OF snoc.prems] split: option.splits\<close>)
qed

text \<open>C33. The collector does not look at the time of the items it removes. Items are kept in the order in which they were pushed; a run looks at the first
  one only. If the first is not due, nothing is collected, even if all others are. If it is due, the heap is emptied: every tombstone that
  some item of the heap names, with its timestamp, is removed, also those whose own time has not come.\<close>

theorem collector_takes_wrong_item:
  assumes "eng_wf e"
  shows "(currTime <s mkExpiryAt first \<longrightarrow> processExpiredItems hk currTime e (first # rest) = (e, first # rest))
    \<and> (\<not> currTime <s mkExpiryAt first \<longrightarrow> (\<exists>e'. processExpiredItems hk currTime e (first # rest) = (e', [])
        \<and> (\<forall>k. GetRaw hk e' k = (case GetRaw hk e k of None \<Rightarrow> None
            | Some ent \<Rightarrow> if entTombstone ent \<and> (\<exists>item \<in> set (first # rest). mkKey item = k \<and> ts_Equal (entSetTimeStamp ent) (mkSetTimeStamp item))
                then None else Some ent))))
    \<and> heap_Push (first # rest) item = first # rest @ [item]"
proof -
  have "currTime <s mkExpiryAt first \<longrightarrow> processExpiredItems hk currTime e (first # rest) = (e, first # rest)"
    by (simp add: processExpiredItems.simps heap_Peek_def)
  then show ?thesis using collect_all [OF _ assms, of currTime first hk rest] by (auto simp: heap_Push_def)
qed

theorem collector_takes_wrong_item_witness:
  "let e = gc_engine [(''a'', gc_entry (Timestamp 5 0 ''n'')), (''b'', gc_entry (Timestamp 6 0 ''n''))];
       first = \<lparr>mkKey = ''a'', mkSetTimeStamp = Timestamp 5 0 ''n'', mkExpiryAt = 65\<rparr>;
       second = \<lparr>mkKey = ''b'', mkSetTimeStamp = Timestamp 6 0 ''n'', mkExpiryAt = 900\<rparr>
   in (\<exists>e'. processExpiredItems (\<lambda>_. 0) 70 e [first, second] = (e', []) \<and> GetRaw (\<lambda>_. 0) e' ''b'' = None)
      \<and> processExpiredItems (\<lambda>_. 0) 70 e [second, first] = (e, [second, first])"
proof -
  let ?e = "gc_engine [(''a'', gc_entry (Timestamp 5 0 ''n'')), (''b'', gc_entry (Timestamp 6 0 ''n''))]"
  let ?first = "\<lparr>mkKey = ''a'', mkSetTimeStamp = Timestamp 5 0 ''n'', mkExpiryAt = 65\<rparr> :: markItem"
  let ?second = "\<lparr>mkKey = ''b'', mkSetTimeStamp = Timestamp 6 0 ''n'', mkExpiryAt = 900\<rparr> :: markItem"
  have wf: "eng_wf ?e" by (simp add: eng_wf_def gc_engine_def)
  have g: "GetRaw (\<lambda>_. 0) ?e ''b'' = Some (gc_entry (Timestamp 6 0 ''n''))" by code_simp
  have t: "entTombstone (gc_entry ts)" "entSetTimeStamp (gc_entry ts) = ts" for ts by (simp_all add: gc_entry_def)
  have d: "\<not> (70 :: i64) <s mkExpiryAt ?first" "(70 :: i64) <s mkExpiryAt ?second" by code_simp+
  from collector_takes_wrong_item [OF wf, of 70 ?first "\<lambda>_. 0" "[?second]" ?first] d(1) obtain e' where
      "processExpiredItems (\<lambda>_. 0) 70 ?e [?first, ?second] = (e', [])"
      "GetRaw (\<lambda>_. 0) e' ''b'' = (case GetRaw (\<lambda>_. 0) ?e ''b'' of None \<Rightarrow> None
         | Some ent \<Rightarrow> if entTombstone ent \<and> (\<exists>item \<in> set [?first, ?second]. mkKey item = ''b'' \<and> ts_Equal (entSetTimeStamp ent) (mkSetTimeStamp item))
             then None else Some ent)" by blast
  then have "\<exists>e'. processExpiredItems (\<lambda>_. 0) 70 ?e [?first, ?second] = (e', []) \<and> GetRaw (\<lambda>_. 0) e' ''b'' = None"
    by (simp add: g t ts_Equal_def)
  moreover from collector_takes_wrong_item [OF wf, of 70 ?second "\<lambda>_. 0" "[?first]"] d(2)
  have "processExpiredItems (\<lambda>_. 0) 70 ?e [?second, ?first] = (?e, [?second, ?first])" by blast
  ultimately show ?thesis by (simp add: Let_def)
qed

end
