(* ===== verification/Engine_Locks.thy ===== *)
theory Engine_Locks
  imports Engine
begin

text \<open>
  The locks of \<open>Engine.Update\<close> (\<open>pkg/storage/engine/v1/engine.go\<close>) when its callback is the one of
  \<open>handleUpdate\<close> (\<open>v2/version_manager.go\<close>), for goroutines that work on one key: the lock of the shard and the
  lock of the entry. \<open>Update\<close> takes the shard lock, then the entry lock, and releases the shard lock; the
  callback of a delete calls \<open>DeleteWithTimeStamp\<close>, which takes the shard lock while the entry lock is held.
  Lemmas: without deletes some goroutine can always go on; with one delete and one other update two
  goroutines can wait for each other for ever.
\<close>

section \<open>Goroutines and locks\<close>

text \<open>Before \<open>sh.mu.Lock\<close>; between it and \<open>ent.Mu.Lock\<close>; in the callback; before the \<open>sh.mu.Lock\<close> of
  \<open>DeleteWithTimeStamp\<close>; between it and its \<open>Unlock\<close>; before the deferred \<open>ent.Mu.Unlock\<close>; returned.\<close>

datatype pc = WantShard | WantEntry | InCallback | WantShardAgain | InDelete | Leaving | Returned

record goroutine =
  g_deletes :: bool
  g_pc :: pc

definition shard_free :: "goroutine list \<Rightarrow> bool" where
  "shard_free gs \<longleftrightarrow> list_all (\<lambda>g. g_pc g \<noteq> WantEntry \<and> g_pc g \<noteq> InDelete) gs"

definition entry_free :: "goroutine list \<Rightarrow> bool" where
  "entry_free gs \<longleftrightarrow> list_all (\<lambda>g. g_pc g \<notin> {InCallback, WantShardAgain, InDelete, Leaving}) gs"

text \<open>\<open>WantShard\<close>, \<open>WantEntry\<close> and \<open>Leaving\<close> are in \<open>Engine.Update\<close> (engine.go:244-259), \<open>InCallback\<close> is the callback of \<open>handleUpdate\<close> up to its
  call of \<open>DeleteWithTimeStamp\<close> (version_manager.go:162-171), \<open>WantShardAgain\<close> and \<open>InDelete\<close> are in that method (engine.go:212-224).\<close>

definition lock_next :: "goroutine list \<Rightarrow> goroutine \<Rightarrow> pc option" where
  "lock_next gs g =
     (case g_pc g of
        WantShard \<Rightarrow> if shard_free gs then Some WantEntry else None
      | WantEntry \<Rightarrow> if entry_free gs then Some InCallback else None
      | InCallback \<Rightarrow> Some (if g_deletes g then WantShardAgain else Leaving)
      | WantShardAgain \<Rightarrow> if shard_free gs then Some InDelete else None
      | InDelete \<Rightarrow> Some Leaving
      | Leaving \<Rightarrow> Some Returned
      | Returned \<Rightarrow> None)"

definition lock_step :: "nat \<Rightarrow> goroutine list \<Rightarrow> goroutine list option" where
  "lock_step i gs =
     (if i < length gs then map_option (\<lambda>c. gs[i := (gs ! i)\<lparr>g_pc := c\<rparr>]) (lock_next gs (gs ! i)) else None)"

fun lock_run :: "nat list \<Rightarrow> goroutine list \<Rightarrow> goroutine list option" where
  "lock_run [] gs = Some gs"
| "lock_run (i # is) gs = Option.bind (lock_step i gs) (lock_run is)"

definition starting :: "bool list \<Rightarrow> goroutine list" where
  "starting ds = map (\<lambda>d. \<lparr>g_deletes = d, g_pc = WantShard\<rparr>) ds"

definition all_returned :: "goroutine list \<Rightarrow> bool" where
  "all_returned gs \<longleftrightarrow> list_all (\<lambda>g. g_pc g = Returned) gs"

definition deadlocked :: "goroutine list \<Rightarrow> bool" where
  "deadlocked gs \<longleftrightarrow> \<not> all_returned gs \<and> list_all (\<lambda>i. lock_step i gs = None) [0..<length gs]"

section \<open>Progress without deletes\<close>

definition no_delete :: "goroutine list \<Rightarrow> bool" where
  "no_delete gs \<longleftrightarrow> list_all (\<lambda>g. \<not> g_deletes g \<and> g_pc g \<noteq> WantShardAgain \<and> g_pc g \<noteq> InDelete) gs"

lemma lock_step_cases:
  "lock_step i gs = Some hs \<Longrightarrow> \<exists>c. i < length gs \<and> lock_next gs (gs ! i) = Some c \<and> hs = gs[i := (gs ! i)\<lparr>g_pc := c\<rparr>]"
  by (auto simp: lock_step_def split: if_splits)

lemma no_delete_step:
  assumes "no_delete gs" "lock_step i gs = Some hs"
  shows "no_delete hs"
proof -
  obtain c where c: "i < length gs" "lock_next gs (gs ! i) = Some c" "hs = gs[i := (gs ! i)\<lparr>g_pc := c\<rparr>]"
    using lock_step_cases [OF assms(2)] by blast
  have g: "\<not> g_deletes (gs ! i)" "g_pc (gs ! i) \<noteq> WantShardAgain" "g_pc (gs ! i) \<noteq> InDelete"
    using assms(1) c(1) by (auto simp: no_delete_def list_all_length)
  then have "c \<noteq> WantShardAgain" "c \<noteq> InDelete" using c(2) by (auto simp: lock_next_def split: pc.splits if_splits)
  with assms(1) c g show ?thesis by (auto simp: no_delete_def list_all_length nth_list_update)
qed

lemma no_delete_run: "no_delete gs \<Longrightarrow> lock_run is gs = Some hs \<Longrightarrow> no_delete hs"
  by (induction "is" arbitrary: gs) (auto simp: bind_eq_Some_conv intro: no_delete_step)

lemma enabled: "i < length gs \<Longrightarrow> lock_next gs (gs ! i) \<noteq> None \<Longrightarrow> \<not> deadlocked gs"
  by (auto simp: deadlocked_def lock_step_def list_all_iff)

lemma no_delete_progress:
  assumes "no_delete gs"
  shows "\<not> deadlocked gs"
proof -
  have pcs: "g_pc g \<in> {WantShard, WantEntry, InCallback, Leaving, Returned} \<and> \<not> g_deletes g" if "g \<in> set gs" for g
    using assms that by (cases "g_pc g") (auto simp: no_delete_def list_all_iff)
  consider (hold) i where "i < length gs" "g_pc (gs ! i) \<in> {InCallback, Leaving}"
    | (entry) i where "i < length gs" "g_pc (gs ! i) = WantEntry" "\<forall>g \<in> set gs. g_pc g \<notin> {InCallback, Leaving}"
    | (shard) i where "i < length gs" "g_pc (gs ! i) = WantShard" "\<forall>g \<in> set gs. g_pc g \<notin> {InCallback, Leaving, WantEntry}"
    | (returned) "\<forall>g \<in> set gs. g_pc g = Returned"
    using pcs by (metis (no_types, lifting) in_set_conv_nth insert_iff)
  then show ?thesis
  proof cases
    case hold
    then show ?thesis using pcs [of "gs ! i"] by (intro enabled [OF hold(1)]) (auto simp: lock_next_def)
  next
    case entry
    then have "entry_free gs" using pcs by (fastforce simp: entry_free_def list_all_iff)
    with entry show ?thesis by (intro enabled [OF entry(1)]) (simp add: lock_next_def)
  next
    case shard
    then have "shard_free gs" using pcs by (fastforce simp: shard_free_def list_all_iff)
    with shard show ?thesis by (intro enabled [OF shard(1)]) (simp add: lock_next_def)
  next
    case returned
    then show ?thesis by (simp add: deadlocked_def all_returned_def list_all_iff)
  qed
qed

text \<open>C17. The locks of \<open>Engine.Update\<close>: goroutines that update one key, none of them with a delete, never deadlock,
  in whatever order they run; but as soon as one of them handles a delete and another an update, two
  of them can end up waiting for each other: the delete holds the lock of the entry and waits for the
  shard, the other holds the shard and waits for the entry.\<close>

theorem update_lock_order:
  "(list_all Not ds \<and> lock_run is (starting ds) = Some gs \<longrightarrow> \<not> deadlocked gs)
   \<and> (\<exists>hs. lock_run [0, 0, 1, 0] (starting [True, d]) = Some hs \<and> deadlocked hs)"
proof (intro conjI impI)
  assume a: "list_all Not ds \<and> lock_run is (starting ds) = Some gs"
  then have "no_delete (starting ds)" by (auto simp: no_delete_def starting_def list_all_iff)
  with a no_delete_run no_delete_progress show "\<not> deadlocked gs" by blast
next
  have "case lock_run [0, 0, 1, 0] (starting [True, d]) of Some hs \<Rightarrow> deadlocked hs | None \<Rightarrow> False"
    by (cases d) code_simp+
  then show "\<exists>hs. lock_run [0, 0, 1, 0] (starting [True, d]) = Some hs \<and> deadlocked hs"
    by (auto split: option.splits)
qed

theorem update_lock_order_witness:
  "lock_run [0, 0, 1, 0, 0, 1] (starting [False, False])
     = Some [\<lparr>g_deletes = False, g_pc = Returned\<rparr>, \<lparr>g_deletes = False, g_pc = InCallback\<rparr>]
   \<and> \<not> deadlocked [\<lparr>g_deletes = False, g_pc = Returned\<rparr>, \<lparr>g_deletes = False, g_pc = InCallback\<rparr>]"
proof -
  have r: "lock_run [0, 0, 1, 0, 0, 1] (starting [False, False])
     = Some [\<lparr>g_deletes = False, g_pc = Returned\<rparr>, \<lparr>g_deletes = False, g_pc = InCallback\<rparr>]" by code_simp
  with update_lock_order [of "[False, False]" "[0, 0, 1, 0, 0, 1]"] show ?thesis by simp
qed

end
