(* ===== verification/Circular_Buffer.thy ===== *)
theory Circular_Buffer
  imports Lume_Prelude
begin

text \<open>
  \<open>pkg/structs/circular_buffer.go\<close>: the ring buffer. Lemmas: it refines a bounded queue, the list of
  its elements from the oldest, operation by operation; the interface of that queue is a locale with
  the behaviour of runs of insertions, which the gossip buffer uses. The zero value of the element
  type is an argument of the operations that clear slots.
\<close>

section \<open>The interface: a bounded queue that drops its oldest element\<close>

definition lastn :: "nat \<Rightarrow> 'a list \<Rightarrow> 'a list" where
  "lastn n xs = drop (length xs - n) xs"

lemma length_lastn [simp]: "length (lastn n xs) = min n (length xs)"
  by (simp add: lastn_def)

lemma lastn_all: "length xs \<le> n \<Longrightarrow> lastn n xs = xs"
  by (simp add: lastn_def)

lemma lastn_snoc: "lastn n (lastn n xs @ ys) = lastn n (xs @ ys)"
proof (cases "length xs \<le> n")
  case False
  then have "length ys + (length xs - n) = length xs + length ys - n" by simp
  with False show ?thesis by (simp add: lastn_def)
qed (simp add: lastn_all)

locale bounded_queue =
  fixes invar :: "'q \<Rightarrow> bool"
    and contents :: "'q \<Rightarrow> 'a list"
    and bound :: "'q \<Rightarrow> nat"
    and push :: "'a \<Rightarrow> 'q \<Rightarrow> 'q"
    and discard :: "nat \<Rightarrow> 'q \<Rightarrow> 'q"
  assumes bound_pos: "invar q \<Longrightarrow> 0 < bound q"
    and contents_le: "invar q \<Longrightarrow> length (contents q) \<le> bound q"
    and invar_push: "invar q \<Longrightarrow> invar (push x q)"
    and bound_push: "bound (push x q) = bound q"
    and contents_push: "invar q \<Longrightarrow> contents (push x q) = lastn (bound q) (contents q @ [x])"
    and invar_discard: "invar q \<Longrightarrow> invar (discard n q)"
    and bound_discard: "bound (discard n q) = bound q"
    and contents_discard: "invar q \<Longrightarrow> contents (discard n q) = drop n (contents q)"
begin

lemma push_all:
  "invar q \<Longrightarrow> invar (fold push xs q) \<and> bound (fold push xs q) = bound q
   \<and> contents (fold push xs q) = lastn (bound q) (contents q @ xs)"
proof (induction xs arbitrary: q)
  case Nil
  then show ?case by (simp add: lastn_all contents_le)
next
  case (Cons x xs)
  have "lastn (bound q) (lastn (bound q) (contents q @ [x]) @ xs) = lastn (bound q) (contents q @ x # xs)"
    using lastn_snoc [of "bound q" "contents q @ [x]" xs] by simp
  with Cons show ?case by (simp add: invar_push bound_push contents_push)
qed

text \<open>Draining a queue in batches yields its elements once each, oldest first.\<close>

fun drain :: "nat list \<Rightarrow> 'q \<Rightarrow> 'a list \<times> 'q" where
  "drain [] q = ([], q)"
| "drain (n # ns) q = (let (xs, q') = drain ns (discard n q) in (take n (contents q) @ xs, q'))"

lemma drain_take:
  "invar q \<Longrightarrow> drain ns q = (xs, q') \<Longrightarrow>
   xs = take (sum_list ns) (contents q) \<and> contents q' = drop (sum_list ns) (contents q)"
proof (induction ns arbitrary: q xs)
  case (Cons n ns)
  obtain ys where "drain ns (discard n q) = (ys, q')" "xs = take n (contents q) @ ys"
    using Cons.prems(2) by (auto split: prod.splits)
  with Cons.IH [of "discard n q" ys] Cons.prems(1) show ?case
    by (simp add: invar_discard contents_discard take_add add.commute)
qed simp

end

section \<open>The ring buffer\<close>

record 'a CircularBuffer =
  cb_buf :: "'a list"
  cb_head :: nat
  cb_tail :: nat
  cb_size :: nat
  cb_capacity :: nat
  cb_overwrite :: bool

definition NewCircularBuffer :: "'a \<Rightarrow> int \<Rightarrow> bool \<Rightarrow> go_error + 'a CircularBuffer" where
  "NewCircularBuffer zero capacity overwrite =
     (if capacity \<le> 0 then Inl (Panic (ExplicitPanic ''capacity must be > 0''))
      else Inr \<lparr>cb_buf = replicate (nat capacity) zero, cb_head = 0, cb_tail = 0, cb_size = 0,
                cb_capacity = nat capacity, cb_overwrite = overwrite\<rparr>)"

definition cb_IsEmpty :: "'a CircularBuffer \<Rightarrow> bool" where
  "cb_IsEmpty r \<longleftrightarrow> cb_size r = 0"

definition cb_IsFull :: "'a CircularBuffer \<Rightarrow> bool" where
  "cb_IsFull r \<longleftrightarrow> cb_size r = cb_capacity r"

definition Enqueue :: "'a CircularBuffer \<Rightarrow> 'a \<Rightarrow> bool \<times> 'a CircularBuffer" where
  "Enqueue r item =
     (let tail' = (cb_tail r + 1) mod cb_capacity r; buf' = (cb_buf r)[cb_tail r := item]
      in if cb_size r = cb_capacity r
         then if \<not> cb_overwrite r then (False, r)
              else (True, r\<lparr>cb_buf := buf', cb_tail := tail', cb_head := tail'\<rparr>)
         else (True, r\<lparr>cb_buf := buf', cb_tail := tail', cb_size := cb_size r + 1\<rparr>))"

definition cb_Add :: "'a CircularBuffer \<Rightarrow> 'a \<Rightarrow> 'a CircularBuffer" where
  "cb_Add r item = snd (Enqueue r item)"

definition Dequeue :: "'a \<Rightarrow> 'a CircularBuffer \<Rightarrow> ('a \<times> bool) \<times> 'a CircularBuffer" where
  "Dequeue zero r =
     (if cb_size r = 0 then ((zero, False), r)
      else ((cb_buf r ! cb_head r, True),
            r\<lparr>cb_buf := (cb_buf r)[cb_head r := zero], cb_head := (cb_head r + 1) mod cb_capacity r,
              cb_size := cb_size r - 1\<rparr>))"

definition cb_Peek :: "'a \<Rightarrow> 'a CircularBuffer \<Rightarrow> 'a \<times> bool" where
  "cb_Peek zero r = (if cb_size r = 0 then (zero, False) else (cb_buf r ! cb_head r, True))"

definition PopFirstN :: "'a CircularBuffer \<Rightarrow> int \<Rightarrow> 'a CircularBuffer" where
  "PopFirstN r n =
     (if n \<le> 0 \<or> cb_size r = 0 then r
      else if n \<ge> int (cb_size r) then r\<lparr>cb_head := 0, cb_tail := 0, cb_size := 0\<rparr>
      else r\<lparr>cb_head := (cb_head r + nat n) mod cb_capacity r, cb_size := cb_size r - nat n\<rparr>)"

definition PopLastN :: "'a CircularBuffer \<Rightarrow> int \<Rightarrow> 'a CircularBuffer" where
  "PopLastN r n =
     (if n \<le> 0 \<or> cb_size r = 0 then r
      else if n \<ge> int (cb_size r) then r\<lparr>cb_head := 0, cb_tail := 0, cb_size := 0\<rparr>
      else r\<lparr>cb_tail := (cb_tail r + cb_capacity r - nat n) mod cb_capacity r, cb_size := cb_size r - nat n\<rparr>)"

definition cb_Clear :: "'a \<Rightarrow> 'a CircularBuffer \<Rightarrow> 'a CircularBuffer" where
  "cb_Clear zero r =
     (if cb_size r = 0 then r
      else r\<lparr>cb_buf := fold (\<lambda>i buf. buf[(cb_head r + i) mod cb_capacity r := zero]) [0..<cb_size r] (cb_buf r),
             cb_head := 0, cb_tail := 0, cb_size := 0\<rparr>)"

text \<open>\<open>Get\<close> indexes the array with \<open>r.head+idx%r.capacity\<close>, where the remainder binds stronger than the
  sum; an index outside the array panics.\<close>

definition cb_Get :: "'a CircularBuffer \<Rightarrow> int \<Rightarrow> go_error + 'a \<times> bool" where
  "cb_Get r idx =
     (if idx < 0 \<or> idx \<ge> int (cb_size r) then Inl (Panic (ExplicitPanic ''index out of range''))
      else let i = cb_head r + nat idx mod cb_capacity r
           in if i < length (cb_buf r) then Inr (cb_buf r ! i, True) else Inl (Panic IndexOutOfRange))"

text \<open>The sequence the iterator \<open>All\<close> yields to a loop that does not stop early.\<close>

definition cb_All :: "'a CircularBuffer \<Rightarrow> (nat \<times> 'a) list" where
  "cb_All r = map (\<lambda>i. (i, cb_buf r ! ((cb_head r + i) mod cb_capacity r))) [0..<cb_size r]"

section \<open>Refinement of the queue\<close>

definition cb_list :: "'a CircularBuffer \<Rightarrow> 'a list" where
  "cb_list r = map (\<lambda>i. cb_buf r ! ((cb_head r + i) mod cb_capacity r)) [0..<cb_size r]"

definition cb_wf :: "'a CircularBuffer \<Rightarrow> bool" where
  "cb_wf r \<longleftrightarrow> 0 < cb_capacity r \<and> length (cb_buf r) = cb_capacity r \<and> cb_head r < cb_capacity r
     \<and> cb_size r \<le> cb_capacity r \<and> cb_tail r = (cb_head r + cb_size r) mod cb_capacity r"

lemma length_cb_list [simp]: "length (cb_list r) = cb_size r"
  by (simp add: cb_list_def)

lemma nth_cb_list: "i < cb_size r \<Longrightarrow> cb_list r ! i = cb_buf r ! ((cb_head r + i) mod cb_capacity r)"
  by (simp add: cb_list_def)

lemma cb_All_list: "map snd (cb_All r) = cb_list r"
  by (simp add: cb_All_def cb_list_def comp_def)

lemma mod_neq:
  assumes "i < j" "j < i + c"
  shows "(h + i) mod c \<noteq> (h + j) mod (c :: nat)"
proof
  assume "(h + i) mod c = (h + j) mod c"
  then have "c dvd j - i" using assms(1) mod_eq_dvd_iff_nat [of "h + i" "h + j" c] by simp
  moreover have "0 < j - i" "j - i < c" using assms by auto
  ultimately show False using nat_dvd_not_less by blast
qed

lemma shift_mod: "n \<le> s \<Longrightarrow> ((h + n) mod c + s - n) mod c = (h + s) mod (c :: nat)"
proof -
  assume "n \<le> s"
  then have "(h + n) mod c + s - n = (h + n) mod c + (s - n)" by simp
  also have "\<dots> mod c = (h + n + (s - n)) mod c" by (simp add: mod_simps)
  finally show ?thesis using \<open>n \<le> s\<close> by simp
qed

lemma cb_list_eqI:
  assumes "cb_size r = length xs"
    and "\<And>i. i < length xs \<Longrightarrow> cb_buf r ! ((cb_head r + i) mod cb_capacity r) = xs ! i"
  shows "cb_list r = xs"
  using assms by (intro nth_equalityI) (auto simp: nth_cb_list)

lemma cb_wf_New:
  "NewCircularBuffer zero c ow = Inr r \<Longrightarrow> cb_wf r \<and> cb_list r = [] \<and> int (cb_capacity r) = c"
  by (auto simp: NewCircularBuffer_def cb_wf_def cb_list_def split: if_splits)

lemma Enqueue_room:
  assumes "cb_wf r" "cb_size r < cb_capacity r" "Enqueue r x = (b, r')"
  shows "b \<and> cb_wf r' \<and> cb_list r' = cb_list r @ [x] \<and> cb_capacity r' = cb_capacity r \<and> cb_overwrite r' = cb_overwrite r"
proof -
  have r': "b" "r' = r\<lparr>cb_buf := (cb_buf r)[cb_tail r := x], cb_tail := (cb_tail r + 1) mod cb_capacity r, cb_size := cb_size r + 1\<rparr>"
    using assms(2,3) by (auto simp: Enqueue_def Let_def)
  moreover have "cb_wf r'" using assms(1,2) r' by (auto simp: cb_wf_def mod_simps)
  moreover have "cb_list r' = cb_list r @ [x]"
  proof (rule cb_list_eqI)
    fix i assume "i < length (cb_list r @ [x])"
    then consider "i < cb_size r" | "i = cb_size r" by fastforce
    then show "cb_buf r' ! ((cb_head r' + i) mod cb_capacity r') = (cb_list r @ [x]) ! i"
    proof cases
      case 1
      with assms(2) have "(cb_head r + i) mod cb_capacity r \<noteq> (cb_head r + cb_size r) mod cb_capacity r"
        by (intro mod_neq) auto
      with 1 r' assms(1) show ?thesis by (simp add: nth_append nth_cb_list cb_wf_def)
    qed (use r' assms(1) in \<open>simp add: nth_append cb_wf_def\<close>)
  qed (use r' in simp)
  ultimately show ?thesis by simp
qed

lemma Enqueue_full:
  assumes "cb_wf r" "cb_size r = cb_capacity r" "cb_overwrite r" "Enqueue r x = (b, r')"
  shows "b \<and> cb_wf r' \<and> cb_list r' = tl (cb_list r) @ [x] \<and> cb_capacity r' = cb_capacity r \<and> cb_overwrite r' = cb_overwrite r"
proof -
  let ?c = "cb_capacity r"
  have c: "0 < ?c" and tail: "cb_tail r = cb_head r" "length (cb_buf r) = ?c" "cb_head r < ?c"
    using assms(1,2) by (auto simp: cb_wf_def)
  have r': "b" "r' = r\<lparr>cb_buf := (cb_buf r)[cb_head r := x], cb_tail := (cb_head r + 1) mod ?c, cb_head := (cb_head r + 1) mod ?c\<rparr>"
    using assms tail by (auto simp: Enqueue_def Let_def)
  moreover have "cb_wf r'" using assms(1,2) r' c by (auto simp: cb_wf_def mod_simps)
  moreover have "cb_list r' = tl (cb_list r) @ [x]"
  proof (rule cb_list_eqI)
    show "cb_size r' = length (tl (cb_list r) @ [x])" using r' assms(2) c by simp
    fix i assume "i < length (tl (cb_list r) @ [x])"
    then consider "Suc i < ?c" | "Suc i = ?c" using assms(2) c by fastforce
    then show "cb_buf r' ! ((cb_head r' + i) mod cb_capacity r') = (tl (cb_list r) @ [x]) ! i"
    proof cases
      case 1
      then have "(cb_head r + 0) mod ?c \<noteq> (cb_head r + Suc i) mod ?c" by (intro mod_neq) auto
      moreover from 1 have "i < ?c - Suc 0" by simp
      ultimately show ?thesis using r' tail assms(2) 1 by (simp add: nth_append nth_tl nth_cb_list mod_simps)
    next
      case 2
      have "(Suc (cb_head r) mod ?c + i) mod ?c = (cb_head r + Suc i) mod ?c" by (simp add: mod_simps)
      with 2 tail have "(Suc (cb_head r) mod ?c + i) mod ?c = cb_head r" by simp
      moreover from 2 have "?c - Suc 0 = i" by simp
      ultimately show ?thesis using 2 r' tail assms(2) by (simp add: nth_append)
    qed
  qed
  ultimately show ?thesis by simp
qed

lemma lastn_full: "length xs = n \<Longrightarrow> 0 < n \<Longrightarrow> lastn n (xs @ [x]) = tl xs @ [x]"
  by (cases xs) (auto simp: lastn_def)

lemma cb_Add_refines:
  assumes "cb_wf r" "cb_overwrite r"
  shows "cb_wf (cb_Add r x) \<and> cb_overwrite (cb_Add r x) \<and> cb_capacity (cb_Add r x) = cb_capacity r
    \<and> cb_list (cb_Add r x) = lastn (cb_capacity r) (cb_list r @ [x])"
proof -
  obtain b r' where e: "Enqueue r x = (b, r')" by fastforce
  have c: "0 < cb_capacity r" "cb_size r \<le> cb_capacity r" using assms(1) by (auto simp: cb_wf_def)
  show ?thesis
  proof (cases "cb_size r = cb_capacity r")
    case True
    with Enqueue_full [OF assms(1) _ assms(2) e] e assms c show ?thesis
      by (simp add: cb_Add_def lastn_full)
  next
    case False
    with Enqueue_room [OF assms(1) _ e] e assms c show ?thesis by (simp add: cb_Add_def lastn_all)
  qed
qed

lemma PopFirstN_refines:
  assumes "cb_wf r"
  shows "cb_wf (PopFirstN r n) \<and> cb_capacity (PopFirstN r n) = cb_capacity r \<and> cb_overwrite (PopFirstN r n) = cb_overwrite r
    \<and> cb_list (PopFirstN r n) = drop (nat n) (cb_list r)"
proof -
  consider "n \<le> 0 \<or> cb_size r = 0" | "0 < n" "cb_size r \<noteq> 0" "n \<ge> int (cb_size r)"
    | "0 < n" "cb_size r \<noteq> 0" "n < int (cb_size r)" by linarith
  then show ?thesis
  proof cases
    case 1
    then show ?thesis using assms by (auto simp: PopFirstN_def cb_list_def)
  next
    case 2
    then show ?thesis using assms by (simp add: PopFirstN_def cb_list_def cb_wf_def)
  next
    case 3
    then have r': "PopFirstN r n = r\<lparr>cb_head := (cb_head r + nat n) mod cb_capacity r, cb_size := cb_size r - nat n\<rparr>"
      by (simp add: PopFirstN_def)
    have "cb_wf (PopFirstN r n)" using assms 3 shift_mod [of "nat n" "cb_size r" "cb_head r" "cb_capacity r"]
      unfolding r' by (auto simp: cb_wf_def)
    moreover have "cb_list (PopFirstN r n) = drop (nat n) (cb_list r)"
      by (rule cb_list_eqI) (use 3 in \<open>simp_all add: r' nth_cb_list mod_simps add.assoc\<close>)
    ultimately show ?thesis by (simp add: r')
  qed
qed

lemma Dequeue_refines:
  assumes "cb_wf r" "Dequeue z r = ((v, ok), r')"
  shows "cb_wf r' \<and> cb_list r' = tl (cb_list r) \<and> (ok \<longleftrightarrow> cb_list r \<noteq> []) \<and> (ok \<longrightarrow> v = hd (cb_list r))"
proof (cases "cb_size r = 0")
  case True
  with assms have "r' = r" "cb_list r = []" "\<not> ok" by (auto simp: Dequeue_def cb_list_def)
  with assms(1) show ?thesis by simp
next
  case False
  let ?c = "cb_capacity r"
  have r': "r' = r\<lparr>cb_buf := (cb_buf r)[cb_head r := z], cb_head := (cb_head r + 1) mod ?c, cb_size := cb_size r - 1\<rparr>"
    "ok" "v = cb_buf r ! cb_head r" using False assms(2) by (auto simp: Dequeue_def)
  have wf: "cb_head r < ?c" "length (cb_buf r) = ?c" "cb_size r \<le> ?c" using assms(1) by (auto simp: cb_wf_def)
  have "cb_wf r'" using assms(1) False shift_mod [of 1 "cb_size r" "cb_head r" ?c] by (auto simp: r' cb_wf_def)
  moreover have "cb_list r' = tl (cb_list r)"
  proof (rule cb_list_eqI)
    fix i assume i: "i < length (tl (cb_list r))"
    then have "(cb_head r + 0) mod ?c \<noteq> (cb_head r + Suc i) mod ?c" using wf by (intro mod_neq) auto
    then show "cb_buf r' ! ((cb_head r' + i) mod cb_capacity r') = tl (cb_list r) ! i"
      using i wf by (simp add: r' nth_tl nth_cb_list mod_simps)
  qed (simp add: r')
  moreover have "hd (cb_list r) = cb_buf r ! cb_head r" "cb_list r \<noteq> []"
    using False wf nth_cb_list [of 0 r] by (auto simp: hd_conv_nth simp flip: length_greater_0_conv)
  ultimately show ?thesis using r' by simp
qed

lemma PopLastN_refines:
  assumes "cb_wf r"
  shows "cb_wf (PopLastN r n) \<and> cb_list (PopLastN r n) = take (cb_size r - nat n) (cb_list r)"
proof -
  consider "n \<le> 0 \<or> cb_size r = 0" | "0 < n" "cb_size r \<noteq> 0" "n \<ge> int (cb_size r)"
    | "0 < n" "cb_size r \<noteq> 0" "n < int (cb_size r)" by linarith
  then show ?thesis
  proof cases
    case 1
    then show ?thesis using assms by (auto simp: PopLastN_def cb_list_def)
  next
    case 2
    then show ?thesis using assms by (simp add: PopLastN_def cb_list_def cb_wf_def)
  next
    case 3
    then have r': "PopLastN r n = r\<lparr>cb_tail := (cb_tail r + cb_capacity r - nat n) mod cb_capacity r, cb_size := cb_size r - nat n\<rparr>"
      by (simp add: PopLastN_def)
    have sz: "nat n \<le> cb_size r" "cb_size r \<le> cb_capacity r" using 3 assms by (auto simp: cb_wf_def)
    have "(cb_head r + cb_size r) mod cb_capacity r + cb_capacity r - nat n
        = (cb_head r + cb_size r) mod cb_capacity r + (cb_capacity r - nat n)" using sz by simp
    then have "((cb_head r + cb_size r) mod cb_capacity r + cb_capacity r - nat n) mod cb_capacity r
        = (cb_head r + cb_size r + (cb_capacity r - nat n)) mod cb_capacity r" by (simp add: mod_simps)
    also have "cb_head r + cb_size r + (cb_capacity r - nat n) = cb_head r + (cb_size r - nat n) + cb_capacity r"
      using sz by simp
    finally have "cb_wf (PopLastN r n)" using assms unfolding r' by (auto simp: cb_wf_def)
    moreover have "cb_list (PopLastN r n) = take (cb_size r - nat n) (cb_list r)"
      by (rule cb_list_eqI) (use 3 in \<open>simp_all add: r' nth_cb_list\<close>)
    ultimately show ?thesis by simp
  qed
qed

lemma length_fold_upd [simp]: "length (fold (\<lambda>i buf. buf[f i := z]) is buf) = length buf"
  by (induction "is" arbitrary: buf) auto

lemma cb_Clear_refines: "cb_wf r \<Longrightarrow> cb_wf (cb_Clear z r) \<and> cb_list (cb_Clear z r) = []"
  by (auto simp: cb_Clear_def cb_wf_def cb_list_def)

text \<open>The overwriting buffer provides the bounded queue.\<close>

interpretation cb: bounded_queue "\<lambda>r. cb_wf r \<and> cb_overwrite r" cb_list cb_capacity
  "\<lambda>x r. cb_Add r x" "\<lambda>n r. PopFirstN r (int n)"
proof unfold_locales
  fix q :: "'a CircularBuffer" and x :: 'a and n :: nat
  show "cb_capacity (cb_Add q x) = cb_capacity q" by (simp add: cb_Add_def Enqueue_def Let_def)
  show "cb_capacity (PopFirstN q (int n)) = cb_capacity q" by (simp add: PopFirstN_def)
  assume q: "cb_wf q \<and> cb_overwrite q"
  then show "0 < cb_capacity q" "length (cb_list q) \<le> cb_capacity q" by (auto simp: cb_wf_def)
  show "cb_wf (cb_Add q x) \<and> cb_overwrite (cb_Add q x)"
    "cb_list (cb_Add q x) = lastn (cb_capacity q) (cb_list q @ [x])"
    using cb_Add_refines [of q x] q by auto
  show "cb_wf (PopFirstN q (int n)) \<and> cb_overwrite (PopFirstN q (int n))"
    "cb_list (PopFirstN q (int n)) = drop n (cb_list q)"
    using PopFirstN_refines [of q "int n"] q by auto
qed

text \<open>\<open>Get\<close> reads the element at an index only while the ring has not wrapped before it: for a valid
  index it returns the queue's element if head plus index stays below the capacity, and panics with
  an index out of range otherwise.\<close>

lemma Get_panics_when_wrapped:
  assumes "cb_wf r" "0 \<le> idx" "idx < int (cb_size r)"
  shows "cb_Get r idx = (if cb_head r + nat idx < cb_capacity r then Inr (cb_list r ! nat idx, True)
                         else Inl (Panic IndexOutOfRange))"
proof -
  have "nat idx mod cb_capacity r = nat idx" using assms by (auto simp: cb_wf_def)
  with assms show ?thesis by (simp add: cb_Get_def Let_def cb_wf_def nth_cb_list)
qed

text \<open>C23. The ring buffer refines the queue of its elements, oldest first: a buffer that does not overwrite
  refuses an element when it is full and keeps its contents; otherwise an insertion appends, dropping
  the oldest element when full; dequeuing takes the oldest; the bulk removals drop from the front and
  from the back, for any count; clearing empties it; \<open>Peek\<close> shows the oldest element, \<open>All\<close> yields all of them, and the size and the tests for empty and
  full are those of the queue. Each operation keeps the representation invariant. The one exception is \<open>Get\<close>: it refuses an index outside the queue and reads
  the queue's element at an index before which the ring has not wrapped, but panics at every index after that.\<close>

theorem CircularBuffer_refines_queue:
  assumes "cb_wf r"
  shows "(fst (Enqueue r x) \<longleftrightarrow> cb_overwrite r \<or> cb_size r < cb_capacity r)
    \<and> cb_list (snd (Enqueue r x)) = (if fst (Enqueue r x) then lastn (cb_capacity r) (cb_list r @ [x]) else cb_list r)
    \<and> fst (Dequeue z r) = (case cb_list r of [] \<Rightarrow> (z, False) | v # _ \<Rightarrow> (v, True))
    \<and> cb_list (snd (Dequeue z r)) = tl (cb_list r)
    \<and> cb_list (PopFirstN r n) = drop (nat n) (cb_list r)
    \<and> cb_list (PopLastN r n) = take (cb_size r - nat n) (cb_list r)
    \<and> cb_list (cb_Clear z r) = [] \<and> map snd (cb_All r) = cb_list r
    \<and> cb_Peek z r = (case cb_list r of [] \<Rightarrow> (z, False) | v # _ \<Rightarrow> (v, True))
    \<and> (cb_IsEmpty r \<longleftrightarrow> cb_list r = []) \<and> (cb_IsFull r \<longleftrightarrow> length (cb_list r) = cb_capacity r)
    \<and> cb_Get r i = (if i < 0 \<or> int (length (cb_list r)) \<le> i then Inl (Panic (ExplicitPanic ''index out of range''))
         else if cb_head r + nat i < cb_capacity r then Inr (cb_list r ! nat i, True) else Inl (Panic IndexOutOfRange))
    \<and> cb_wf (snd (Enqueue r x)) \<and> cb_wf (snd (Dequeue z r)) \<and> cb_wf (PopFirstN r n)
    \<and> cb_wf (PopLastN r n) \<and> cb_wf (cb_Clear z r)"
proof -
  have c: "0 < cb_capacity r" "cb_size r \<le> cb_capacity r" using assms by (auto simp: cb_wf_def)
  have enq: "(fst (Enqueue r x) \<longleftrightarrow> cb_overwrite r \<or> cb_size r < cb_capacity r) \<and> cb_wf (snd (Enqueue r x))
    \<and> cb_list (snd (Enqueue r x)) = (if fst (Enqueue r x) then lastn (cb_capacity r) (cb_list r @ [x]) else cb_list r)"
  proof (cases "cb_overwrite r \<or> cb_size r < cb_capacity r")
    case True
    obtain b r' where e: "Enqueue r x = (b, r')" by fastforce
    show ?thesis
    proof (cases "cb_size r < cb_capacity r")
      case True
      with Enqueue_room [OF assms _ e] e show ?thesis by (simp add: lastn_all)
    next
      case False
      with True Enqueue_full [OF assms _ _ e] e c show ?thesis by (simp add: lastn_full)
    qed
  qed (use assms c in \<open>simp add: Enqueue_def\<close>)
  obtain v ok r' where d: "Dequeue z r = ((v, ok), r')" by (cases "Dequeue z r") auto
  have "fst (Dequeue z r) = (case cb_list r of [] \<Rightarrow> (z, False) | v # _ \<Rightarrow> (v, True))"
    using Dequeue_refines [OF assms d] d length_cb_list [of r]
    by (cases "cb_list r") (auto simp: Dequeue_def split: if_splits)
  moreover have "cb_Peek z r = fst (Dequeue z r)" by (simp add: cb_Peek_def Dequeue_def)
  moreover have "cb_IsEmpty r \<longleftrightarrow> cb_list r = []" "cb_IsFull r \<longleftrightarrow> length (cb_list r) = cb_capacity r"
    by (simp_all add: cb_IsEmpty_def cb_IsFull_def flip: length_0_conv)
  moreover have "cb_Get r i = (if i < 0 \<or> int (length (cb_list r)) \<le> i then Inl (Panic (ExplicitPanic ''index out of range''))
       else if cb_head r + nat i < cb_capacity r then Inr (cb_list r ! nat i, True) else Inl (Panic IndexOutOfRange))"
    using Get_panics_when_wrapped [OF assms, of i] by (cases "i < 0 \<or> int (cb_size r) \<le> i") (auto simp: cb_Get_def)
  ultimately show ?thesis using enq Dequeue_refines [OF assms d] d PopFirstN_refines [OF assms] PopLastN_refines [OF assms]
    cb_Clear_refines [OF assms] by (simp add: cb_All_list)
qed

theorem CircularBuffer_refines_queue_witness:
  "\<exists>r. NewCircularBuffer 0 2 True = Inr r \<and> cb_list (snd (Enqueue r (7 :: nat))) = [7]"
proof -
  obtain r where r: "NewCircularBuffer (0 :: nat) 2 True = Inr r" by (simp add: NewCircularBuffer_def)
  have f: "fst (Enqueue r 7)" using r by (auto simp: NewCircularBuffer_def Enqueue_def Let_def)
  note w = cb_wf_New [OF r]
  from CircularBuffer_refines_queue [of r 7 0 0 0] w f r show ?thesis by (auto simp: lastn_all)
qed

end
