(* ===== verification/Updates.thy ===== *)
theory Updates
  imports Crdt Circular_Buffer
begin

text \<open>
  \<open>pkg/types\<close>: the update record that nodes exchange, the merge of two updates of one key, the key
  state exchanged by anti-entropy, the enumeration \<open>UpdateType\<close>, and the JSON form of an update; and
  the gossip buffer of updates, \<open>pkg/gossip/gossip_buffer\<close>. The payload is an interface value, \<open>None\<close>
  for nil.
\<close>

section \<open>Data\<close>

type_synonym UpdateType = string

definition UpdateTypeDelta :: UpdateType where "UpdateTypeDelta = ''Delta''"
definition UpdateTypeSet :: UpdateType where "UpdateTypeSet = ''Set''"
definition UpdateTypeDelete :: UpdateType where "UpdateTypeDelete = ''Delete''"

lemmas UpdateTypes = UpdateTypeDelta_def UpdateTypeSet_def UpdateTypeDelete_def

record Update =
  Seq :: u64
  TimeStamp :: Timestamp
  SetTimeStamp :: Timestamp
  Payload :: "delta option"
  UType :: UpdateType
  TTL :: u8
  Key :: string
  NodeID :: string

record KeyState =
  ksKey :: string
  ksCRDTType :: CRDTType
  ksState :: json
  ksTombstone :: bool
  ksSetTimeStamp :: Timestamp

section \<open>The enumeration\<close>

definition UpdateTypeValue :: "(string \<times> UpdateType) list" where
  "UpdateTypeValue = [(''Delta'', UpdateTypeDelta), (''delta'', UpdateTypeDelta), (''Set'', UpdateTypeSet),
     (''set'', UpdateTypeSet), (''Delete'', UpdateTypeDelete), (''delete'', UpdateTypeDelete)]"

definition ParseUpdateType :: "string \<Rightarrow> go_error + UpdateType" where
  "ParseUpdateType name =
     (case map_of UpdateTypeValue name of Some x \<Rightarrow> Inr x
      | None \<Rightarrow> (case map_of UpdateTypeValue (ToLower name) of Some x \<Rightarrow> Inr x
                | None \<Rightarrow> Inl ErrInvalidUpdateType))"

definition UpdateType_IsValid :: "UpdateType \<Rightarrow> bool" where
  "UpdateType_IsValid x = (case ParseUpdateType x of Inl _ \<Rightarrow> False | Inr _ \<Rightarrow> True)"

definition UpdateType_MarshalText :: "UpdateType \<Rightarrow> string" where
  "UpdateType_MarshalText x = x"

definition UpdateType_UnmarshalText :: "string \<Rightarrow> go_error + UpdateType" where
  "UpdateType_UnmarshalText text = ParseUpdateType text"

definition UpdateType_AppendText :: "UpdateType \<Rightarrow> string \<Rightarrow> string" where
  "UpdateType_AppendText x b = b @ x"

section \<open>Merging updates\<close>

fun payload_Merge :: "delta option \<Rightarrow> delta option \<Rightarrow> go_error + delta option" where
  "payload_Merge None q = Inl (Panic NilDereference)"
| "payload_Merge (Some d) None = Inl ErrDeltaTypeMismatch"
| "payload_Merge (Some d) (Some e) = map_sum id Some (delta_Merge d e)"

text \<open>A failed merge of the payloads is reported with \<open>ErrCannotMerge\<close>; a panic is not caught.\<close>

fun cannot_merge :: "go_error \<Rightarrow> go_error" where
  "cannot_merge (Panic p) = Panic p"
| "cannot_merge _ = ErrCannotMerge"

definition Update_Merge :: "Update \<Rightarrow> Update \<Rightarrow> go_error + Update" where
  "Update_Merge u new =
     (if Key u \<noteq> Key new then Inl ErrCannotMerge
      else if NodeID u \<noteq> NodeID new then Inl ErrCannotMerge
      else bind_res
        (if UType u = UpdateTypeSet \<or> UType u = UpdateTypeDelete
         then Inr (u\<lparr>UType := UType new, Payload := Payload new\<rparr>)
         else case payload_Merge (Payload u) (Payload new) of
             Inl e \<Rightarrow> Inl (cannot_merge e)
           | Inr p \<Rightarrow> Inr (u\<lparr>Payload := p\<rparr>))
        (\<lambda>u'. Inr (u'\<lparr>Seq := Seq new, TimeStamp := TimeStamp new\<rparr>)))"

section \<open>JSON\<close>

text \<open>\<open>jsoniter\<close> in its standard-library mode, on documents.\<close>

fun dec_text :: "(string \<Rightarrow> go_error + string) \<Rightarrow> string \<Rightarrow> json option \<Rightarrow> go_error + string" where
  "dec_text parse z None = Inr z"
| "dec_text parse z (Some JNull) = Inr z"
| "dec_text parse z (Some (JStr s)) = parse s"
| "dec_text parse z (Some _) = Inl ErrJson"

fun dec_u8 :: "u8 \<Rightarrow> json option \<Rightarrow> go_error + u8" where
  "dec_u8 z None = Inr z"
| "dec_u8 z (Some JNull) = Inr z"
| "dec_u8 z (Some (JNum n)) = (if 0 \<le> n \<and> n < 256 then Inr (of_int n) else Inl ErrJson)"
| "dec_u8 z (Some _) = Inl ErrJson"

text \<open>The payload is decoded into the delta the interface already holds; \<open>null\<close> makes it nil.\<close>

fun dec_payload :: "delta \<Rightarrow> json option \<Rightarrow> go_error + delta option" where
  "dec_payload d None = Inr (Some d)"
| "dec_payload d (Some JNull) = Inr None"
| "dec_payload (CounterDelta d) (Some j) = map_sum id (Some \<circ> CounterDelta) (PNCounterDelta_UnmarshalJSON j)"
| "dec_payload (RegisterDelta d) (Some j) = map_sum id (Some \<circ> RegisterDelta) (LWWHLCRegisterDelta_UnmarshalJSON d j)"

definition zero_Update :: Update where
  "zero_Update = \<lparr>Seq = 0, TimeStamp = zero_ts, SetTimeStamp = zero_ts, Payload = None, UType = '''',
     TTL = 0, Key = '''', NodeID = ''''\<rparr>"

definition Update_MarshalJSON :: "Update \<Rightarrow> go_error + json" where
  "Update_MarshalJSON u =
     (case Payload u of None \<Rightarrow> Inl ErrCannotMarshal
      | Some d \<Rightarrow> Inr (JObj [(''crdt_type'', JStr (delta_Type d)), (''seq'', JNum (uint (Seq u))),
          (''time_stamp'', enc_ts (TimeStamp u)), (''set_time_stamp'', enc_ts (SetTimeStamp u)),
          (''payload'', delta_MarshalJSON d), (''type'', JStr (UType u)), (''ttl'', JNum (uint (TTL u))),
          (''key'', enc_string (Key u)), (''node_id'', enc_string (NodeID u))]))"

text \<open>Decoding into an existing update: fields that the document lacks keep their values.\<close>

definition Update_UnmarshalInto :: "Update \<Rightarrow> json \<Rightarrow> go_error + Update" where
  "Update_UnmarshalInto u j =
     (case bind_res (json_object j) (\<lambda>kvs. dec_text CRDTType_UnmarshalText '''' (json_field ''crdt_type'' kvs)) of
        Inl e \<Rightarrow> Inl ErrCannotUnmarshal
      | Inr ty \<Rightarrow>
        (case NilDelta ty of
           Inl e \<Rightarrow> Inl ErrCannotUnmarshal
         | Inr nil \<Rightarrow>
           bind_res (json_object j) (\<lambda>kvs.
           bind_res (dec_u64 (Seq u) (json_field ''seq'' kvs)) (\<lambda>sq.
           bind_res (dec_ts (TimeStamp u) (json_field ''time_stamp'' kvs)) (\<lambda>ts.
           bind_res (dec_ts (SetTimeStamp u) (json_field ''set_time_stamp'' kvs)) (\<lambda>sts.
           bind_res (dec_payload nil (json_field ''payload'' kvs)) (\<lambda>p.
           bind_res (dec_text UpdateType_UnmarshalText (UType u) (json_field ''type'' kvs)) (\<lambda>ut.
           bind_res (dec_u8 (TTL u) (json_field ''ttl'' kvs)) (\<lambda>ttl.
           bind_res (dec_string (Key u) (json_field ''key'' kvs)) (\<lambda>k.
           bind_res (dec_string (NodeID u) (json_field ''node_id'' kvs)) (\<lambda>n.
             Inr \<lparr>Seq = sq, TimeStamp = ts, SetTimeStamp = sts, Payload = p, UType = ut, TTL = ttl,
                  Key = k, NodeID = n\<rparr>)))))))))))"

definition Update_UnmarshalJSON :: "json \<Rightarrow> go_error + Update" where
  "Update_UnmarshalJSON j = Update_UnmarshalInto zero_Update j"

section \<open>Lemmas\<close>

lemma ParseUpdateType_self: "ut \<in> {UpdateTypeDelta, UpdateTypeSet, UpdateTypeDelete} \<Longrightarrow> ParseUpdateType ut = Inr ut"
  by (auto simp: ParseUpdateType_def UpdateTypeValue_def UpdateTypes)

lemma ParseCRDTType_delta: "ParseCRDTType (delta_Type d) = Inr (delta_Type d)"
  by (cases d) (simp_all add: ParseCRDTType_def CRDTTypeValue_def CRDTTypePNCounter_def CRDTTypeLWWHLCRegister_def)

lemma NilDelta_Type: "\<exists>nil. NilDelta (delta_Type d) = Inr nil \<and> delta_Type nil = delta_Type d"
  by (cases d) (simp_all add: NilDelta_def)

lemma dec_payload_enc:
  assumes "plain_delta d" "delta_Type nil = delta_Type d"
  shows "dec_payload nil (Some (delta_MarshalJSON d)) = Inr (Some d)"
proof -
  have "CRDTTypePNCounter \<noteq> []" "CRDTTypeLWWHLCRegister \<noteq> []"
    by (simp_all add: CRDTTypePNCounter_def CRDTTypeLWWHLCRegister_def)
  then show ?thesis using assms
    by (cases d; cases nil)
      (auto simp: PNCounterDelta_MarshalJSON_def LWWHLCRegisterDelta_MarshalJSON_def dec_map_enc dec_ts_enc
        PNCounterDelta_UnmarshalJSON_def LWWHLCRegisterDelta_UnmarshalJSON_def)
qed

lemma update_fields:
  "json_field ''crdt_type'' [(''crdt_type'', a), (''seq'', b), (''time_stamp'', c), (''set_time_stamp'', d), (''payload'', e),
     (''type'', f), (''ttl'', g), (''key'', h), (''node_id'', i)] = Some a"
  "json_field ''seq'' [(''crdt_type'', a), (''seq'', b), (''time_stamp'', c), (''set_time_stamp'', d), (''payload'', e),
     (''type'', f), (''ttl'', g), (''key'', h), (''node_id'', i)] = Some b"
  "json_field ''time_stamp'' [(''crdt_type'', a), (''seq'', b), (''time_stamp'', c), (''set_time_stamp'', d), (''payload'', e),
     (''type'', f), (''ttl'', g), (''key'', h), (''node_id'', i)] = Some c"
  "json_field ''set_time_stamp'' [(''crdt_type'', a), (''seq'', b), (''time_stamp'', c), (''set_time_stamp'', d), (''payload'', e),
     (''type'', f), (''ttl'', g), (''key'', h), (''node_id'', i)] = Some d"
  "json_field ''payload'' [(''crdt_type'', a), (''seq'', b), (''time_stamp'', c), (''set_time_stamp'', d), (''payload'', e),
     (''type'', f), (''ttl'', g), (''key'', h), (''node_id'', i)] = Some e"
  "json_field ''type'' [(''crdt_type'', a), (''seq'', b), (''time_stamp'', c), (''set_time_stamp'', d), (''payload'', e),
     (''type'', f), (''ttl'', g), (''key'', h), (''node_id'', i)] = Some f"
  "json_field ''ttl'' [(''crdt_type'', a), (''seq'', b), (''time_stamp'', c), (''set_time_stamp'', d), (''payload'', e),
     (''type'', f), (''ttl'', g), (''key'', h), (''node_id'', i)] = Some g"
  "json_field ''key'' [(''crdt_type'', a), (''seq'', b), (''time_stamp'', c), (''set_time_stamp'', d), (''payload'', e),
     (''type'', f), (''ttl'', g), (''key'', h), (''node_id'', i)] = Some h"
  "json_field ''node_id'' [(''crdt_type'', a), (''seq'', b), (''time_stamp'', c), (''set_time_stamp'', d), (''payload'', e),
     (''type'', f), (''ttl'', g), (''key'', h), (''node_id'', i)] = Some i"
  by (simp_all add: json_field_def ToLower_def ascii_lower_def)

lemma dec_u8_enc: "dec_u8 z (Some (JNum (uint (v :: u8)))) = Inr v"
  using uint_lt2p [of v] by simp

text \<open>Updates whose strings are valid text and whose type is one of the three.\<close>

definition plain_update :: "Update \<Rightarrow> bool" where
  "plain_update u \<longleftrightarrow> plain (Key u) \<and> plain (NodeID u) \<and> plain (TsID (TimeStamp u)) \<and> plain (TsID (SetTimeStamp u))
     \<and> (case Payload u of None \<Rightarrow> False | Some d \<Rightarrow> plain_delta d)
     \<and> UType u \<in> {UpdateTypeDelta, UpdateTypeSet, UpdateTypeDelete}"

lemma Update_Unmarshal_enc:
  assumes "plain_update u"
  shows "\<exists>j. Update_MarshalJSON u = Inr j \<and> Update_UnmarshalInto w j = Inr u"
proof -
  obtain d where d: "Payload u = Some d" "plain_delta d" using assms by (auto simp: plain_update_def split: option.splits)
  obtain nil where nil: "NilDelta (delta_Type d) = Inr nil" "delta_Type nil = delta_Type d" using NilDelta_Type by blast
  have s: "dec_string z (Some (enc_string s)) = Inr s" if "plain s" for z s
    using that by (simp add: enc_string_def plain_def)
  show ?thesis using assms d nil
    by (simp add: Update_MarshalJSON_def Update_UnmarshalInto_def update_fields plain_update_def dec_ts_enc s
        CRDTType_UnmarshalText_def UpdateType_UnmarshalText_def ParseCRDTType_delta ParseUpdateType_self
        dec_payload_enc dec_u8_enc del: dec_u8.simps)
qed

text \<open>An update written to JSON and read back is the same update, payload included.\<close>

lemma Update_codec_roundtrip:
  assumes "plain_update u"
  shows "\<exists>j. Update_MarshalJSON u = Inr j \<and> Update_UnmarshalJSON j = Inr u"
  using Update_Unmarshal_enc [OF assms] by (simp add: Update_UnmarshalJSON_def)

section \<open>The gossip buffer\<close>

type_synonym GossipBuffer = "Update CircularBuffer"

definition NewGossipBuffer :: "int \<Rightarrow> go_error + GossipBuffer" where
  "NewGossipBuffer sz = NewCircularBuffer zero_Update sz True"

definition gb_Add :: "GossipBuffer \<Rightarrow> Update list \<Rightarrow> GossipBuffer" where
  "gb_Add gb updates = fold (\<lambda>u b. cb_Add b u) updates gb"

definition AddAndDec :: "GossipBuffer \<Rightarrow> Update list \<Rightarrow> GossipBuffer" where
  "AddAndDec gb updates =
     fold (\<lambda>u b. if TTL u \<le> 1 then b else cb_Add b (u\<lparr>TTL := TTL u - 1\<rparr>)) updates gb"

definition PeekN :: "GossipBuffer \<Rightarrow> int \<Rightarrow> go_error + Update list \<times> GossipBuffer" where
  "PeekN gb n0 =
     (let n = min n0 (int (cb_size gb))
      in if n < 0 then Inl (Panic MakeNegativeLen)
         else Inr (map snd (takeWhile (\<lambda>(i, v). int i \<noteq> n) (cb_All gb)), PopFirstN gb n))"

lemma AddAndDec_filter:
  "AddAndDec gb us = gb_Add gb (map (\<lambda>u. u\<lparr>TTL := TTL u - 1\<rparr>) (filter (\<lambda>u. TTL u > 1) us))"
  by (induction us arbitrary: gb) (auto simp: AddAndDec_def gb_Add_def not_less)

lemma takeWhile_index:
  "map snd (takeWhile (\<lambda>(i, v). int i \<noteq> int k) (map (\<lambda>i. (i, f i)) [0..<n])) = map f [0..<min k n]"
proof -
  have "takeWhile (\<lambda>(i, v). int i \<noteq> int k) (map (\<lambda>i. (i, f i)) [0..<n]) = map (\<lambda>i. (i, f i)) [0..<min k n]"
  proof (cases "k < n")
    case True
    then have "[0..<n] = [0..<k] @ k # [Suc k..<n]"
      by (metis less_imp_le_nat upt_add_eq_append upt_conv_Cons zero_le le_add_diff_inverse)
    with True show ?thesis by (auto simp: takeWhile_append)
  next
    case False
    then have "takeWhile (\<lambda>(i, v). int i \<noteq> int k) (map (\<lambda>i. (i, f i)) [0..<n]) = map (\<lambda>i. (i, f i)) [0..<n]"
      by (auto simp: takeWhile_eq_all_conv)
    with False show ?thesis by (simp add: min_def)
  qed
  then show ?thesis by (simp add: comp_def)
qed

lemma PeekN_list:
  assumes "n \<ge> 0"
  shows "PeekN gb n = Inr (take (nat n) (cb_list gb), PopFirstN gb (min n (int (cb_size gb))))"
proof -
  have "min n (int (cb_size gb)) = int (min (nat n) (cb_size gb))" using assms by simp
  then have "map snd (takeWhile (\<lambda>(i, v). int i \<noteq> min n (int (cb_size gb))) (cb_All gb)) = take (nat n) (cb_list gb)"
    by (simp only: cb_All_def takeWhile_index) (simp add: cb_list_def take_map min_def)
  with assms show ?thesis by (simp add: PeekN_def Let_def)
qed

lemma PeekN_takes:
  assumes "cb_wf gb" "cb_overwrite gb" "n \<ge> 0"
  shows "\<exists>gb'. PeekN gb n = Inr (take (nat n) (cb_list gb), gb') \<and> cb_list gb' = drop (nat n) (cb_list gb) \<and> cb_wf gb' \<and> cb_overwrite gb'"
proof -
  let ?gb = "PopFirstN gb (min n (int (cb_size gb)))"
  have "drop (nat (min n (int (cb_size gb)))) (cb_list gb) = drop (nat n) (cb_list gb)"
    using assms(3) by (cases "n \<le> int (cb_size gb)") auto
  with PopFirstN_refines [OF assms(1), of "min n (int (cb_size gb))"] assms show ?thesis
    by (intro exI [of _ ?gb]) (simp add: PeekN_list)
qed

text \<open>A negative count makes the allocation panic.\<close>

lemma PeekN_negative: "n < 0 \<Longrightarrow> PeekN gb n = Inl (Panic MakeNegativeLen)"
  by (simp add: PeekN_def Let_def)

text \<open>Gossip forwarding: a batch given to \<open>AddAndDec\<close> leaves in the buffer, behind what was there, exactly
  the updates of the batch with a time to live above 1, in order, each with one hop less, and the buffer
  keeps the newest ones up to its capacity; \<open>PeekN\<close> with a count of at least 0 hands out the oldest
  updates and removes exactly those.\<close>

lemma gossip_buffer_forwards:
  assumes "cb_wf gb" "cb_overwrite gb" "n \<ge> 0"
  shows "cb_list (AddAndDec gb us)
      = lastn (cb_capacity gb) (cb_list gb @ map (\<lambda>u. u\<lparr>TTL := TTL u - 1\<rparr>) (filter (\<lambda>u. TTL u > 1) us))
    \<and> (\<exists>gb'. PeekN gb n = Inr (take (nat n) (cb_list gb), gb') \<and> cb_list gb' = drop (nat n) (cb_list gb)
         \<and> cb_wf gb' \<and> cb_overwrite gb')"
proof
  show "cb_list (AddAndDec gb us)
      = lastn (cb_capacity gb) (cb_list gb @ map (\<lambda>u. u\<lparr>TTL := TTL u - 1\<rparr>) (filter (\<lambda>u. TTL u > 1) us))"
    using cb.push_all [of gb "map (\<lambda>u. u\<lparr>TTL := TTL u - 1\<rparr>) (filter (\<lambda>u. TTL u > 1) us)"] assms(1,2)
    unfolding AddAndDec_filter gb_Add_def by blast
  show "\<exists>gb'. PeekN gb n = Inr (take (nat n) (cb_list gb), gb') \<and> cb_list gb' = drop (nat n) (cb_list gb)
      \<and> cb_wf gb' \<and> cb_overwrite gb'"
    by (rule PeekN_takes [OF assms])
qed

end
