(* ===== verification/Entry_Updater.thy ===== *)
theory Entry_Updater
  imports Updates Engine
begin

text \<open>
  \<open>pkg/storage/version_manager/v1/entry_updater/entry_updater.go\<close>, which both version managers use:
  applying an update to the entry of its key. Lemmas: what each branch does; an entry is a CRDT of
  generations (the locale of the CRDT laws is interpreted on it), so entries that receive the same
  updates agree, as long as the generations of the updates do not cross; and the cases in which
  crossing generations make the outcome depend on the order.
\<close>

section \<open>The updater\<close>

record UpdateResult =
  Applied :: bool
  Modified :: bool
  ResError :: "go_error option"

abbreviation res_applied :: UpdateResult where
  "res_applied \<equiv> \<lparr>Applied = True, Modified = False, ResError = None\<rparr>"

abbreviation res_modified :: UpdateResult where
  "res_modified \<equiv> \<lparr>Applied = True, Modified = True, ResError = None\<rparr>"

abbreviation res_error :: "go_error \<Rightarrow> UpdateResult" where
  "res_error e \<equiv> \<lparr>Applied = False, Modified = False, ResError = Some e\<rparr>"

text \<open>The updater's node id is the argument \<open>nid\<close>; its fabric is the only one of the program. \<open>d\<close> is the
  payload of the update, which the methods below dereference.\<close>

definition applySet :: "string \<Rightarrow> CRDTEntry \<Rightarrow> Update \<Rightarrow> delta \<Rightarrow> UpdateResult \<times> CRDTEntry" where
  "applySet nid entry u d =
     (if \<not> After (SetTimeStamp u) (entSetTimeStamp entry) then (res_applied, entry)
      else case fabric_New (delta_Type d) nid of
          Inl err \<Rightarrow> (res_error (ErrCreateCRDT err), entry)
        | Inr newCRDT \<Rightarrow> (res_modified,
            \<lparr>entObject = newCRDT, entTombstone = False, entSetTimeStamp = SetTimeStamp u\<rparr>))"

lemma applySet_Type:
  "applySet nid entry u d = (res, entry') \<Longrightarrow> Applied res \<Longrightarrow> After (SetTimeStamp u) (entSetTimeStamp entry) \<Longrightarrow>
   crdt_Type (entObject entry') = delta_Type d"
  by (auto simp: applySet_def dest: fabric_New_Type split: if_splits sum.splits)

text \<open>A panic inside \<open>ApplyDelta\<close> is not an error it returns.\<close>

fun delta_failed :: "go_error \<Rightarrow> CRDTEntry \<Rightarrow> go_error + UpdateResult \<times> CRDTEntry" where
  "delta_failed (Panic p) entry = Inl (Panic p)"
| "delta_failed err entry = Inr (res_error (ErrApplyDelta err), entry)"

function applyDelta :: "string \<Rightarrow> i64 \<Rightarrow> CRDTEntry \<Rightarrow> Update \<Rightarrow> delta \<Rightarrow> go_error + UpdateResult \<times> CRDTEntry" where
  "applyDelta nid t entry u d =
     (if crdt_Type (entObject entry) \<noteq> delta_Type d then
        if After (SetTimeStamp u) (entSetTimeStamp entry) then
          let (res, entry') = applySet nid entry u d
          in if \<not> Applied res then Inr (res, entry') else applyDelta nid t entry' u d
        else Inr (res_applied, entry)
      else
        let (res, entry') = (if After (SetTimeStamp u) (entSetTimeStamp entry) then applySet nid entry u d
                             else (res_applied, entry))
        in if \<not> Applied res then Inr (res, entry')
           else case crdt_ApplyDelta t (entObject entry') d of
               Inl err \<Rightarrow> delta_failed err entry'
             | Inr obj \<Rightarrow> Inr (res_modified, entry'\<lparr>entObject := obj, entTombstone := False\<rparr>))"
  by pat_completeness auto
termination
  by (relation "measure (\<lambda>(nid, t, entry, u, d). if crdt_Type (entObject entry) \<noteq> delta_Type d then 1 else 0)")
    (auto dest: applySet_Type [OF sym])

declare applyDelta.simps [simp del]

definition applyDelete :: "CRDTEntry \<Rightarrow> Update \<Rightarrow> UpdateResult \<times> CRDTEntry" where
  "applyDelete entry u = (res_modified, entry\<lparr>entTombstone := True, entSetTimeStamp := SetTimeStamp u\<rparr>)"

definition ApplyUpdate :: "string \<Rightarrow> i64 \<Rightarrow> CRDTEntry \<Rightarrow> Update \<Rightarrow> go_error + UpdateResult \<times> CRDTEntry" where
  "ApplyUpdate nid t entry u =
     (if After (entSetTimeStamp entry) (TimeStamp u) then Inr (res_applied, entry)
      else if UType u = UpdateTypeSet then
        (if \<not> After (SetTimeStamp u) (entSetTimeStamp entry) then Inr (res_applied, entry)
         else case Payload u of None \<Rightarrow> Inl (Panic NilDereference) | Some d \<Rightarrow> Inr (applySet nid entry u d))
      else if UType u = UpdateTypeDelta then
        (case Payload u of None \<Rightarrow> Inl (Panic NilDereference) | Some d \<Rightarrow> applyDelta nid t entry u d)
      else if UType u = UpdateTypeDelete then Inr (applyDelete entry u)
      else Inr (res_error ErrUnknownUpdateType, entry))"

definition CreateFromUpdate :: "string \<Rightarrow> i64 \<Rightarrow> Update \<Rightarrow> go_error + CRDTEntry" where
  "CreateFromUpdate nid t u =
     (case Payload u of None \<Rightarrow> Inl (Panic NilDereference)
      | Some d \<Rightarrow>
        (case fabric_New (delta_Type d) nid of Inl err \<Rightarrow> Inl (ErrCreateCRDT err)
         | Inr newCRDT \<Rightarrow>
           (case (if UType u = UpdateTypeDelta then crdt_ApplyDelta t newCRDT d else Inr newCRDT) of
              Inl (Panic p) \<Rightarrow> Inl (Panic p)
            | Inl err \<Rightarrow> Inl (ErrApplyDelta err)
            | Inr obj \<Rightarrow> Inr \<lparr>entObject = obj, entTombstone = False, entSetTimeStamp = SetTimeStamp u\<rparr>)))"

section \<open>What is visible of an entry\<close>

datatype obj_view = CounterView "(string, i64) fmap" "(string, i64) fmap" | RegisterView bytes Timestamp

fun crdt_view :: "crdt \<Rightarrow> obj_view" where
  "crdt_view (Counter c) = CounterView (gm (pP c)) (gm (pN c))"
| "crdt_view (Register r) = RegisterView (reg_value r) (reg_ts r)"

definition entry_view :: "CRDTEntry \<Rightarrow> Timestamp \<times> obj_view option" where
  "entry_view ent = (entSetTimeStamp ent, if entTombstone ent then None else Some (crdt_view (entObject ent)))"

text \<open>Objects whose maps and clock exist.\<close>

fun crdt_ok :: "crdt \<Rightarrow> bool" where
  "crdt_ok (Counter c) = pn_wf c"
| "crdt_ok (Register r) = (reg_clock r \<noteq> None)"

fun fresh_view :: "delta \<Rightarrow> obj_view" where
  "fresh_view (CounterDelta d) = CounterView fmempty fmempty"
| "fresh_view (RegisterDelta d) = RegisterView [] zero_ts"

fun view_absorb :: "delta \<Rightarrow> obj_view \<Rightarrow> obj_view" where
  "view_absorb (CounterDelta d) (CounterView p n) = CounterView (max_fm (gm (dP d)) p) (max_fm (gm (dN d)) n)"
| "view_absorb (RegisterDelta d) (RegisterView v ts) =
     (let r = lww_absorb (dValue d, dTS d) (v, ts) in RegisterView (fst r) (snd r))"
| "view_absorb d v = v"

lemma crdt_ApplyDelta_view:
  assumes "crdt_ok c" "crdt_Type c = delta_Type d"
  shows "\<exists>c'. crdt_ApplyDelta t c d = Inr c' \<and> crdt_ok c' \<and> crdt_view c' = view_absorb d (crdt_view c)"
proof (cases c; cases d)
  fix p e assume c: "c = Counter p" "d = CounterDelta e"
  have "PNCounter_ApplyDelta p e = Inr (pn_absorb e p)" using assms(1) c by (simp add: pn_absorb_wf ApplyDelta_wf)
  with c assms(1) pn_absorb_wf [of p e] pn_wf_absorb [of p e] show ?thesis by auto
next
  fix r e assume c: "c = Register r" "d = RegisterDelta e"
  with reg_adopt_clock [of r t "dValue e" "dTS e"] assms(1) show ?thesis
    by (auto simp: LWWHLCRegister_ApplyDelta_def lww_view_def Let_def prod_eq_iff)
qed (use assms in auto)

lemma fabric_New_delta:
  "\<exists>c. fabric_New (delta_Type d) nid = Inr c \<and> crdt_ok c \<and> crdt_view c = fresh_view d \<and> crdt_Type c = delta_Type d"
  by (cases d) (simp_all add: fabric_New_def NewPNCounter_def NewLWWHLCRegister_def pn_wf_def)

section \<open>An entry is a CRDT of generations\<close>

text \<open>
  The generation of an update is its set timestamp. \<open>coherent\<close> says of a list of updates of one key
  what the storage guarantees for the updates it issues, and that generations do not cross: an update
  of an older generation was issued before a newer generation began.
\<close>

definition is_delete :: "Update \<Rightarrow> bool" where
  "is_delete u \<longleftrightarrow> UType u = UpdateTypeDelete"

definition upd_fresh :: "Update \<Rightarrow> obj_view option" where
  "upd_fresh u = (if is_delete u then None else map_option fresh_view (Payload u))"

definition upd_contrib :: "Update \<Rightarrow> obj_view option \<Rightarrow> obj_view option" where
  "upd_contrib u s =
     (if is_delete u then None
      else if UType u = UpdateTypeDelta
        then (case Payload u of None \<Rightarrow> s | Some d \<Rightarrow> map_option (view_absorb d) s)
      else s)"

fun same_write :: "delta \<Rightarrow> delta \<Rightarrow> bool" where
  "same_write (RegisterDelta d) (RegisterDelta e) \<longleftrightarrow> (dTS d = dTS e \<longrightarrow> dValue d = dValue e)"
| "same_write d e \<longleftrightarrow> True"

definition well_formed_update :: "Update \<Rightarrow> bool" where
  "well_formed_update u \<longleftrightarrow> Payload u \<noteq> None \<and> SetTimeStamp u \<le> TimeStamp u
     \<and> UType u \<in> {UpdateTypeDelta, UpdateTypeSet, UpdateTypeDelete}"

definition compatible :: "Update \<Rightarrow> Update \<Rightarrow> bool" where
  "compatible u w \<longleftrightarrow>
     (SetTimeStamp u < SetTimeStamp w \<longrightarrow> TimeStamp u < SetTimeStamp w)
     \<and> (SetTimeStamp u = SetTimeStamp w \<longrightarrow> is_delete u = is_delete w
         \<and> (\<not> is_delete u \<longrightarrow> map_option delta_Type (Payload u) = map_option delta_Type (Payload w)
             \<and> same_write (the (Payload u)) (the (Payload w))))"

definition coherent :: "Update list \<Rightarrow> bool" where
  "coherent us \<longleftrightarrow> list_all well_formed_update us \<and> list_all (\<lambda>u. list_all (compatible u) us) us"

fun kind_ok :: "delta \<Rightarrow> obj_view \<Rightarrow> bool" where
  "kind_ok (CounterDelta d) (CounterView p n) \<longleftrightarrow> True"
| "kind_ok (RegisterDelta d) (RegisterView v ts) \<longleftrightarrow> (ts \<noteq> zero_ts \<longrightarrow> dTS d = ts \<longrightarrow> dValue d = v)"
| "kind_ok d v \<longleftrightarrow> False"

text \<open>The state of a generation agrees with the updates of that generation.\<close>

definition agrees :: "Update \<Rightarrow> obj_view option \<Rightarrow> bool" where
  "agrees u s \<longleftrightarrow> (if is_delete u then s = None
     else case s of None \<Rightarrow> False | Some v \<Rightarrow> kind_ok (the (Payload u)) v)"

definition view_ok :: "Update list \<Rightarrow> Timestamp \<Rightarrow> obj_view option \<Rightarrow> bool" where
  "view_ok us g s \<longleftrightarrow> list_all (\<lambda>u. SetTimeStamp u = g \<longrightarrow> agrees u s) us"

definition no_crossing :: "Update list \<Rightarrow> Timestamp \<Rightarrow> bool" where
  "no_crossing us g \<longleftrightarrow> list_all (\<lambda>u. SetTimeStamp u < g \<longrightarrow> TimeStamp u < g) us"

lemma coherentD:
  "coherent us \<Longrightarrow> u \<in> set us \<Longrightarrow> well_formed_update u"
  "coherent us \<Longrightarrow> u \<in> set us \<Longrightarrow> w \<in> set us \<Longrightarrow> compatible u w"
  by (auto simp: coherent_def list_all_iff)

lemma delta_Type_cases:
  "delta_Type d = delta_Type e \<longleftrightarrow> (case d of CounterDelta _ \<Rightarrow> (case e of CounterDelta _ \<Rightarrow> True | _ \<Rightarrow> False)
     | RegisterDelta _ \<Rightarrow> (case e of RegisterDelta _ \<Rightarrow> True | _ \<Rightarrow> False))"
  by (cases d; cases e) auto

lemma lww_absorb_commute:
  assumes "snd d = snd e \<Longrightarrow> fst d = fst e"
    and "snd s \<noteq> zero_ts \<Longrightarrow> snd d = snd s \<Longrightarrow> fst d = fst s"
    and "snd s \<noteq> zero_ts \<Longrightarrow> snd e = snd s \<Longrightarrow> fst e = fst s"
  shows "lww_absorb d (lww_absorb e s) = lww_absorb e (lww_absorb d s)"
proof (cases "snd d" "snd e" rule: linorder_cases)
  case less
  then have "snd e \<noteq> zero_ts" by auto
  then show ?thesis using less by (auto simp: lww_absorb_def)
next
  case equal
  with assms(1) have "d = e" by (simp add: prod_eq_iff)
  then show ?thesis by simp
next
  case greater
  then have "snd d \<noteq> zero_ts" by auto
  then show ?thesis using greater by (auto simp: lww_absorb_def)
qed

lemma view_absorb_commute:
  assumes "kind_ok d v" "kind_ok e v" "same_write d e"
  shows "view_absorb d (view_absorb e v) = view_absorb e (view_absorb d v)"
proof (cases v)
  case (CounterView p n)
  with assms show ?thesis by (cases d; cases e) (auto simp: max_fm_commute)
next
  case (RegisterView w ts)
  with assms obtain r q where "d = RegisterDelta r" "e = RegisterDelta q" by (cases d; cases e) auto
  moreover have "lww_absorb (dValue r, dTS r) (lww_absorb (dValue q, dTS q) (w, ts))
      = lww_absorb (dValue q, dTS q) (lww_absorb (dValue r, dTS r) (w, ts))"
    by (rule lww_absorb_commute) (use calculation RegisterView assms in auto)
  ultimately show ?thesis using RegisterView by (simp add: Let_def)
qed

lemma view_absorb_idem: "kind_ok d v \<Longrightarrow> view_absorb d (view_absorb d v) = view_absorb d v"
  by (cases d; cases v) (auto simp: max_fm_idem lww_absorb_def)

lemma kind_ok_absorb:
  "kind_ok d v \<Longrightarrow> kind_ok e v \<Longrightarrow> same_write d e \<Longrightarrow> kind_ok d (view_absorb e v)"
  by (cases d; cases e; cases v) (auto simp: lww_absorb_def)

lemma kind_ok_fresh: "delta_Type d = delta_Type e \<Longrightarrow> kind_ok d (fresh_view e)"
  by (cases d; cases e) auto

lemma same_write_commute: "same_write d e = same_write e d"
  by (cases d; cases e) auto

lemma same_generation:
  assumes "coherent us" "x \<in> set us" "u \<in> set us" "SetTimeStamp x = SetTimeStamp u"
  shows "\<exists>d e. Payload x = Some d \<and> Payload u = Some e \<and> is_delete x = is_delete u
    \<and> (\<not> is_delete u \<longrightarrow> delta_Type d = delta_Type e \<and> same_write d e)"
proof -
  obtain d e where "Payload x = Some d" "Payload u = Some e"
    using coherentD(1) [OF assms(1,2)] coherentD(1) [OF assms(1,3)] by (auto simp: well_formed_update_def)
  with coherentD(2) [OF assms(1-3)] assms(4) show ?thesis by (auto simp: compatible_def)
qed

lemma fresh_view_cong: "delta_Type d = delta_Type e \<Longrightarrow> fresh_view d = fresh_view e"
  by (cases d; cases e) auto

interpretation ent: generations SetTimeStamp upd_fresh upd_contrib "\<lambda>u. coherent us \<and> u \<in> set us" "view_ok us"
  for us
proof unfold_locales
  fix u w :: Update and s
  assume u: "coherent us \<and> u \<in> set us"
  have "agrees x (upd_fresh u)" if "x \<in> set us" "SetTimeStamp x = SetTimeStamp u" for x
    using same_generation [of us x u] u that by (auto simp: agrees_def upd_fresh_def kind_ok_fresh)
  then show "view_ok us (SetTimeStamp u) (upd_fresh u)" by (simp add: view_ok_def list_all_iff)
  show "view_ok us (SetTimeStamp u) s \<Longrightarrow> view_ok us (SetTimeStamp u) (upd_contrib u s)"
  proof -
    assume ok: "view_ok us (SetTimeStamp u) s"
    have "agrees x (upd_contrib u s)" if x: "x \<in> set us" "SetTimeStamp x = SetTimeStamp u" for x
    proof -
      obtain d e where de: "Payload x = Some d" "Payload u = Some e" "is_delete x = is_delete u"
        "\<not> is_delete u \<longrightarrow> delta_Type d = delta_Type e \<and> same_write d e"
        using same_generation [of us x u] u x by auto
      have "agrees x s" "agrees u s" using ok x u by (auto simp: view_ok_def list_all_iff)
      with de show ?thesis by (auto simp: agrees_def upd_contrib_def kind_ok_absorb split: option.splits)
    qed
    then show ?thesis by (simp add: view_ok_def list_all_iff)
  qed
  show "view_ok us (SetTimeStamp u) s \<Longrightarrow> upd_contrib u (upd_contrib u s) = upd_contrib u s"
    using u by (auto simp: upd_contrib_def view_ok_def agrees_def list_all_iff view_absorb_idem split: option.splits)
  assume w: "coherent us \<and> w \<in> set us" and g: "SetTimeStamp u = SetTimeStamp w"
  from u w g obtain d e where de: "Payload u = Some d" "Payload w = Some e" "is_delete u = is_delete w"
      "\<not> is_delete w \<longrightarrow> delta_Type d = delta_Type e \<and> same_write d e"
    using same_generation [of us u w] by auto
  show "upd_fresh u = upd_fresh w" using de fresh_view_cong [of d e] by (auto simp: upd_fresh_def)
  assume ok: "view_ok us (SetTimeStamp u) s"
  then have "agrees u s" "agrees w s" using u w g by (auto simp: view_ok_def list_all_iff)
  then show "upd_contrib u (upd_contrib w s) = upd_contrib w (upd_contrib u s)"
    using de by (cases s) (auto simp: upd_contrib_def agrees_def intro: view_absorb_commute)
qed

lemma applyDelta_newer:
  assumes "After (SetTimeStamp u) (entSetTimeStamp entry)" "fabric_New (delta_Type d) nid = Inr c"
    and "crdt_ApplyDelta t c d = Inr c'"
  shows "applyDelta nid t entry u d =
    Inr (res_modified, \<lparr>entObject = c', entTombstone = False, entSetTimeStamp = SetTimeStamp u\<rparr>)"
proof -
  let ?e = "\<lparr>entObject = c, entTombstone = False, entSetTimeStamp = SetTimeStamp u\<rparr>"
  have same: "applyDelta nid t ?e u d = Inr (res_modified, ?e\<lparr>entObject := c', entTombstone := False\<rparr>)"
    using assms(2,3) fabric_New_Type [OF assms(2)]
    by (simp add: applyDelta.simps [of nid t ?e] After_iff)
  have "applySet nid entry u d = (res_modified, ?e)" using assms(1,2) by (simp add: applySet_def)
  with same assms show ?thesis by (simp add: applyDelta.simps [of nid t entry])
qed

lemma applyDelta_current:
  assumes "\<not> After (SetTimeStamp u) (entSetTimeStamp entry)" "crdt_Type (entObject entry) = delta_Type d"
    and "crdt_ApplyDelta t (entObject entry) d = Inr c'"
  shows "applyDelta nid t entry u d = Inr (res_modified, entry\<lparr>entObject := c', entTombstone := False\<rparr>)"
  using assms by (simp add: applyDelta.simps [of nid t entry])

text \<open>The concrete updater implements the absorption of generations.\<close>

lemma kind_ok_Type: "kind_ok d (crdt_view c) \<Longrightarrow> crdt_Type c = delta_Type d"
  by (cases c; cases d) auto

lemma UpdateTypes_differ [simp]:
  "UpdateTypeSet \<noteq> UpdateTypeDelta" "UpdateTypeDelta \<noteq> UpdateTypeSet" "UpdateTypeDelete \<noteq> UpdateTypeSet"
  "UpdateTypeSet \<noteq> UpdateTypeDelete" "UpdateTypeDelete \<noteq> UpdateTypeDelta" "UpdateTypeDelta \<noteq> UpdateTypeDelete"
  by (simp_all add: UpdateTypes)

lemma ApplyUpdate_refines:
  assumes "coherent us" "u \<in> set us" "crdt_ok (entObject ent)"
    and "view_ok us (entSetTimeStamp ent) (snd (entry_view ent))" "no_crossing us (entSetTimeStamp ent)"
  shows "\<exists>res ent'. ApplyUpdate nid t ent u = Inr (res, ent') \<and> Applied res \<and> ResError res = None
    \<and> crdt_ok (entObject ent') \<and> entry_view ent' = ent.gen_absorb u (entry_view ent)"
proof -
  let ?g = "entSetTimeStamp ent"
  obtain d where d: "Payload u = Some d" and wf: "SetTimeStamp u \<le> TimeStamp u" "UType u \<in> {UpdateTypeDelta, UpdateTypeSet, UpdateTypeDelete}"
    using coherentD(1) [OF assms(1,2)] by (auto simp: well_formed_update_def)
  have g: "fst (entry_view ent) = ?g" by (simp add: entry_view_def)
  show ?thesis
  proof (cases "TimeStamp u < ?g")
    case True
    with wf(1) have "SetTimeStamp u < ?g" by (rule le_less_trans)
    then have "ent.gen_absorb u (entry_view ent) = entry_view ent" by (simp add: ent.gen_absorb_def g)
    with True assms(3) show ?thesis by (simp add: ApplyUpdate_def ts_simps)
  next
    case False
    then have ge: "?g \<le> SetTimeStamp u" using assms(2,5) by (auto simp: no_crossing_def list_all_iff not_less)
    obtain c where c: "fabric_New (delta_Type d) nid = Inr c" "crdt_ok c" "crdt_view c = fresh_view d" "crdt_Type c = delta_Type d"
      using fabric_New_delta by blast
    obtain c' where c': "crdt_ApplyDelta t c d = Inr c'" "crdt_ok c'" "crdt_view c' = view_absorb d (fresh_view d)"
      using crdt_ApplyDelta_view [OF c(2,4)] c(3) by auto
    consider (del) "UType u = UpdateTypeDelete" | (set_new) "UType u = UpdateTypeSet" "?g < SetTimeStamp u"
      | (set_same) "UType u = UpdateTypeSet" "SetTimeStamp u = ?g"
      | (delta_new) "UType u = UpdateTypeDelta" "?g < SetTimeStamp u"
      | (delta_same) "UType u = UpdateTypeDelta" "SetTimeStamp u = ?g"
      using wf(2) ge by fastforce
    then show ?thesis
    proof cases
      case del
      then show ?thesis using False ge assms(3)
        by (auto simp: ApplyUpdate_def applyDelete_def ts_simps entry_view_def ent.gen_absorb_def upd_contrib_def is_delete_def)
    next
      case set_new
      then show ?thesis using False d c
        by (auto simp: ApplyUpdate_def applySet_def ts_simps entry_view_def ent.gen_absorb_def upd_contrib_def
            upd_fresh_def is_delete_def)
    next
      case set_same
      then show ?thesis using False assms(3)
        by (auto simp: ApplyUpdate_def ts_simps entry_view_def ent.gen_absorb_def upd_contrib_def is_delete_def)
    next
      case delta_new
      have "applyDelta nid t ent u d = Inr (res_modified, \<lparr>entObject = c', entTombstone = False, entSetTimeStamp = SetTimeStamp u\<rparr>)"
        by (rule applyDelta_newer [OF _ c(1) c'(1)]) (simp add: ts_simps delta_new)
      then show ?thesis using delta_new False d c'
        by (auto simp: ApplyUpdate_def ts_simps entry_view_def ent.gen_absorb_def upd_contrib_def upd_fresh_def is_delete_def)
    next
      case delta_same
      have "agrees u (snd (entry_view ent))" using assms(2,4) delta_same by (auto simp: view_ok_def list_all_iff)
      then have live: "\<not> entTombstone ent" and k: "kind_ok d (crdt_view (entObject ent))"
        using delta_same d by (auto simp: agrees_def is_delete_def entry_view_def split: if_splits)
      obtain o' where o': "crdt_ApplyDelta t (entObject ent) d = Inr o'" "crdt_ok o'" "crdt_view o' = view_absorb d (crdt_view (entObject ent))"
        using crdt_ApplyDelta_view [OF assms(3) kind_ok_Type [OF k]] by blast
      have "applyDelta nid t ent u d = Inr (res_modified, ent\<lparr>entObject := o', entTombstone := False\<rparr>)"
        by (rule applyDelta_current [OF _ kind_ok_Type [OF k] o'(1)]) (simp add: ts_simps delta_same)
      then show ?thesis using delta_same False d o' live
        by (auto simp: ApplyUpdate_def ts_simps entry_view_def ent.gen_absorb_def upd_contrib_def is_delete_def)
    qed
  qed
qed

section \<open>Convergence\<close>

text \<open>Applying a sequence of updates to an entry, each with the clock reading at which it is applied.\<close>

fun apply_updates :: "string \<Rightarrow> CRDTEntry \<Rightarrow> (i64 \<times> Update) list \<Rightarrow> go_error + CRDTEntry" where
  "apply_updates nid ent [] = Inr ent"
| "apply_updates nid ent ((t, u) # us) =
     bind_res (ApplyUpdate nid t ent u) (\<lambda>(res, ent'). apply_updates nid ent' us)"

definition entry_ready :: "Update list \<Rightarrow> CRDTEntry \<Rightarrow> bool" where
  "entry_ready us ent \<longleftrightarrow> crdt_ok (entObject ent) \<and> view_ok us (entSetTimeStamp ent) (snd (entry_view ent))
     \<and> no_crossing us (entSetTimeStamp ent)"

lemma no_crossing_gen: "coherent us \<Longrightarrow> u \<in> set us \<Longrightarrow> no_crossing us (SetTimeStamp u)"
  using coherentD(2) [of us _ u] by (auto simp: no_crossing_def list_all_iff compatible_def)

lemma ApplyUpdate_ready:
  assumes "coherent us" "u \<in> set us" "entry_ready us ent"
  shows "\<exists>res ent'. ApplyUpdate nid t ent u = Inr (res, ent') \<and> Applied res \<and> ResError res = None
    \<and> entry_ready us ent' \<and> entry_view ent' = ent.gen_absorb u (entry_view ent)"
proof -
  obtain res ent' where a: "ApplyUpdate nid t ent u = Inr (res, ent')" "Applied res" "ResError res = None"
      "crdt_ok (entObject ent')" "entry_view ent' = ent.gen_absorb u (entry_view ent)"
    using ApplyUpdate_refines [OF assms(1,2)] assms(3) unfolding entry_ready_def by blast
  have "ent.gen_ok us (entry_view ent)" using assms(3) by (simp add: ent.gen_ok_def entry_ready_def entry_view_def)
  then have "ent.gen_ok us (entry_view ent')" using assms(1,2) a(5) ent.gen_absorb_ok [of us u] by simp
  then have "view_ok us (entSetTimeStamp ent') (snd (entry_view ent'))" by (simp add: ent.gen_ok_def entry_view_def)
  moreover have "entSetTimeStamp ent' = entSetTimeStamp ent \<or> entSetTimeStamp ent' = SetTimeStamp u"
    using arg_cong [OF a(5), of fst] by (auto simp: ent.gen_absorb_def entry_view_def split: if_splits)
  then have "no_crossing us (entSetTimeStamp ent')"
    using assms(3) no_crossing_gen [OF assms(1,2)] by (auto simp: entry_ready_def)
  ultimately show ?thesis using a by (auto simp: entry_ready_def)
qed

lemma apply_updates_view:
  "coherent us \<Longrightarrow> snd ` set tus \<subseteq> set us \<Longrightarrow> entry_ready us ent \<Longrightarrow>
   \<exists>ent'. apply_updates nid ent tus = Inr ent' \<and> entry_view ent' = fold ent.gen_absorb (map snd tus) (entry_view ent)"
proof (induction tus arbitrary: ent)
  case (Cons tu tus)
  obtain t u where tu: "tu = (t, u)" by (cases tu)
  with Cons.prems obtain res ent1 where "ApplyUpdate nid t ent u = Inr (res, ent1)" "entry_ready us ent1"
      "entry_view ent1 = ent.gen_absorb u (entry_view ent)"
    using ApplyUpdate_ready [of us u ent nid t] by auto
  with Cons.IH [of ent1] Cons.prems tu show ?case by auto
qed simp

text \<open>Convergence of an entry: two replicas that hold the same visible state of a key and receive the
  same set of updates (sets, deltas and deletes, counters and registers), in any order, with any
  repetitions and at any times, apply all of them without error and end in the same visible state, as
  long as the updates are coherent: generations do not cross, and a generation has one type.\<close>

lemma entry_convergence:
  assumes "coherent (map snd us)" "snd ` set ws = snd ` set us"
    and "entry_ready (map snd us) e1" "entry_ready (map snd us) e2" "entry_view e1 = entry_view e2"
  shows "\<exists>f1 f2. apply_updates n1 e1 us = Inr f1 \<and> apply_updates n2 e2 ws = Inr f2 \<and> entry_view f1 = entry_view f2"
proof -
  let ?U = "map snd us"
  obtain f1 where f1: "apply_updates n1 e1 us = Inr f1" "entry_view f1 = fold ent.gen_absorb ?U (entry_view e1)"
    using apply_updates_view [OF assms(1) _ assms(3), of us n1] by auto
  obtain f2 where f2: "apply_updates n2 e2 ws = Inr f2" "entry_view f2 = fold ent.gen_absorb (map snd ws) (entry_view e2)"
    using apply_updates_view [OF assms(1) _ assms(4), of ws n2] assms(2) by auto
  have ok: "ent.gen_ok ?U (entry_view e1)" using assms(3) by (simp add: ent.gen_ok_def entry_ready_def entry_view_def)
  have "fold ent.gen_absorb ?U (entry_view e1) = fold ent.gen_absorb (map snd ws) (entry_view e1)"
    by (rule ent.gen.deliver_converge [OF ok]) (use assms(1,2) in auto)
  with f1 f2 assms(5) show ?thesis by auto
qed

text \<open>A counter entry and updates of it for the examples.\<close>

definition sample_entry :: CRDTEntry where
  "sample_entry = \<lparr>entObject = Counter (NewPNCounter ''n''), entTombstone = False, entSetTimeStamp = Timestamp 1 0 ''a''\<rparr>"

definition sample_delta :: "u64 \<Rightarrow> string \<Rightarrow> i64 \<Rightarrow> Update" where
  "sample_delta w nd n = \<lparr>Seq = 1, TimeStamp = Timestamp w 0 nd, SetTimeStamp = Timestamp 1 0 ''a'',
     Payload = Some (CounterDelta \<lparr>dP = Some (fmupd nd n fmempty), dN = None\<rparr>), UType = UpdateTypeDelta,
     TTL = 1, Key = ''k'', NodeID = nd\<rparr>"

definition sample_delete :: "u64 \<Rightarrow> string \<Rightarrow> Update" where
  "sample_delete w nd = \<lparr>Seq = 2, TimeStamp = Timestamp w 0 nd, SetTimeStamp = Timestamp w 0 nd,
     Payload = Some (CounterDelta zero_PNCounterDelta), UType = UpdateTypeDelete, TTL = 1, Key = ''k'', NodeID = nd\<rparr>"

text \<open>C34. Crossing generations diverge. Let a delete be issued later than the set timestamp of an entry, and let another node issue a delta of the
  entry's generation after that, because it has not seen the delete. For every such entry, delete and delta that applies to the object: if the delete arrives
  last the key is deleted, if the delta arrives last the key is alive, with its old object changed by the delta, and both
  nodes hold the same set timestamp, so no later update of the generation will tell them apart.\<close>

theorem crossing_generations_diverge:
  assumes "UType v = UpdateTypeDelete" "UType u = UpdateTypeDelta" "Payload u = Some d" "crdt_Type (entObject ent) = delta_Type d"
    and "crdt_ApplyDelta t (entObject ent) d = Inr obj" "TimeStamp v = SetTimeStamp v"
    and "SetTimeStamp u \<le> entSetTimeStamp ent" "entSetTimeStamp ent < SetTimeStamp v" "SetTimeStamp v < TimeStamp u"
  shows "apply_updates nid ent [(t', v), (t, u)] = Inr \<lparr>entObject = obj, entTombstone = False, entSetTimeStamp = SetTimeStamp v\<rparr>
    \<and> apply_updates nid ent [(t, u), (t', v)] = Inr \<lparr>entObject = obj, entTombstone = True, entSetTimeStamp = SetTimeStamp v\<rparr>"
proof -
  let ?del = "ent\<lparr>entTombstone := True, entSetTimeStamp := SetTimeStamp v\<rparr>"
  have lt: "\<not> After (entSetTimeStamp ent) (TimeStamp v)" "\<not> After (SetTimeStamp v) (TimeStamp u)" "\<not> After (SetTimeStamp u) (SetTimeStamp v)"
      "\<not> After (entSetTimeStamp ent) (TimeStamp u)" "\<not> After (SetTimeStamp u) (entSetTimeStamp ent)" "\<not> After (entSetTimeStamp ent) (SetTimeStamp v)"
    using assms(6-9) by (auto simp: After_iff)
  have "ApplyUpdate nid t' ent v = Inr (res_modified, ?del)" using assms(1) lt(1) by (simp add: ApplyUpdate_def applyDelete_def)
  moreover have "ApplyUpdate nid t ?del u = Inr (res_modified, ?del\<lparr>entObject := obj, entTombstone := False\<rparr>)"
    using assms(2-5) lt(2,3) by (simp add: ApplyUpdate_def applyDelta.simps)
  moreover have "ApplyUpdate nid t ent u = Inr (res_modified, ent\<lparr>entObject := obj, entTombstone := False\<rparr>)"
    using assms(2-5) lt(4,5) by (simp add: ApplyUpdate_def applyDelta.simps)
  moreover have "ApplyUpdate nid t' (ent\<lparr>entObject := obj, entTombstone := False\<rparr>) v = Inr (res_modified, ?del\<lparr>entObject := obj\<rparr>)"
    using assms(1,6) lt(6) by (simp add: ApplyUpdate_def applyDelete_def)
  ultimately show ?thesis by simp
qed

theorem crossing_generations_diverge_witness:
  "\<exists>f1 f2. apply_updates ''n'' sample_entry [(0, sample_delete 5 ''a''), (0, sample_delta 6 ''b'' 7)] = Inr f1
     \<and> apply_updates ''n'' sample_entry [(0, sample_delta 6 ''b'' 7), (0, sample_delete 5 ''a'')] = Inr f2
     \<and> entTombstone f2 \<and> \<not> entTombstone f1 \<and> crdt_Value (entObject f1) = IntValue 7"
proof -
  let ?d = "the (Payload (sample_delta 6 ''b'' 7))"
  have v: "case crdt_ApplyDelta 0 (entObject sample_entry) ?d of Inl _ \<Rightarrow> False | Inr obj \<Rightarrow> crdt_Value obj = IntValue 7" by code_simp
  then obtain obj where obj: "crdt_ApplyDelta 0 (entObject sample_entry) ?d = Inr obj" "crdt_Value obj = IntValue 7" by (auto split: sum.splits)
  have "UType (sample_delete 5 ''a'') = UpdateTypeDelete" "UType (sample_delta 6 ''b'' 7) = UpdateTypeDelta"
      "Payload (sample_delta 6 ''b'' 7) = Some ?d" "crdt_Type (entObject sample_entry) = delta_Type ?d"
      "TimeStamp (sample_delete 5 ''a'') = SetTimeStamp (sample_delete 5 ''a'')" "SetTimeStamp (sample_delta 6 ''b'' 7) \<le> entSetTimeStamp sample_entry"
      "entSetTimeStamp sample_entry < SetTimeStamp (sample_delete 5 ''a'')" "SetTimeStamp (sample_delete 5 ''a'') < TimeStamp (sample_delta 6 ''b'' 7)"
    by code_simp+
  from crossing_generations_diverge [OF this(1-4) obj(1) this(5-8), of "''n''" 0] obj(2) show ?thesis by auto
qed

end
