(* ===== verification/Version_Manager.thy ===== *)
theory Version_Manager
  imports Entry_Updater History
begin

text \<open>
  The version manager, \<open>pkg/storage/version_manager/v2\<close>: local sequence numbers, the history of remote
  updates, the application of updates to the engine, the per-key digests for anti-entropy, the merge
  of remote key states and the recovery from the write-ahead log. \<open>hk\<close> is the engine's key hash; \<open>t\<close> and
  \<open>now\<close> are the clock readings of a register's clock and of the deletion mark. A panic inside a method
  is the result \<open>Inl (Panic _)\<close>.
\<close>

section \<open>Digests\<close>

definition stateDigest :: "u64 \<Rightarrow> bool \<Rightarrow> u64" where
  "stateDigest crdtHash tombstone =
     fnv64a_write (fnv64a_write fnv64a_init (put_uint64_le crdtHash)) (if tombstone then [1] else [0])"

definition entry_digest :: "CRDTEntry \<Rightarrow> u64" where
  "entry_digest ent = stateDigest (crdt_Hash (entObject ent)) (entTombstone ent)"

definition keyBucket :: "string \<Rightarrow> u32 \<Rightarrow> u32" where
  "keyBucket key numBuckets = fnv32a_write fnv32a_init (string_bytes key) mod numBuckets"

record keyMeta =
  km_hash :: u64
  km_bucket :: u32

type_synonym keyVersionShards = "(string, keyMeta) fmap list"

definition numVersionShards :: nat where "numVersionShards = 64"

definition newKeyVersionShards :: keyVersionShards where
  "newKeyVersionShards = replicate numVersionShards fmempty"

definition kv_shardFor :: "string \<Rightarrow> nat" where
  "kv_shardFor key = unat (fnv32a_write fnv32a_init (string_bytes key) mod of_nat numVersionShards)"

definition LoadOrStore :: "keyVersionShards \<Rightarrow> string \<Rightarrow> u32 \<Rightarrow> keyMeta \<times> keyVersionShards" where
  "LoadOrStore s key bucket =
     (let i = kv_shardFor key
      in case fmlookup (s ! i) key of Some km \<Rightarrow> (km, s)
         | None \<Rightarrow> let km = \<lparr>km_hash = 0, km_bucket = bucket\<rparr> in (km, s[i := fmupd key km (s ! i)]))"

text \<open>The entries \<open>Range\<close> visits when the function never stops it.\<close>

definition kv_Range :: "keyVersionShards \<Rightarrow> (string \<times> keyMeta) list" where
  "kv_Range s = concat (map fm_entries s)"

section \<open>State\<close>

record VersionManager =
  vm_nodeID :: string
  vm_seq :: u64
  vm_history :: ShardedHistory
  vm_engine :: Engine
  vm_keyVersions :: keyVersionShards
  vm_numBuckets :: u32

definition DefaultNumBuckets :: u32 where "DefaultNumBuckets = 4"

definition NewVersionManager :: "string \<Rightarrow> Engine \<Rightarrow> VersionManager" where
  "NewVersionManager nid e = \<lparr>vm_nodeID = nid, vm_seq = 0, vm_history = NewShardedHistory, vm_engine = e,
     vm_keyVersions = newKeyVersionShards, vm_numBuckets = DefaultNumBuckets\<rparr>"

definition updateKeyStateHash :: "VersionManager \<Rightarrow> string \<Rightarrow> u64 \<Rightarrow> VersionManager" where
  "updateKeyStateHash vm key hash =
     (let (km, s) = LoadOrStore (vm_keyVersions vm) key (keyBucket key (vm_numBuckets vm)); i = kv_shardFor key
      in vm\<lparr>vm_keyVersions := s[i := fmupd key (km\<lparr>km_hash := hash\<rparr>) (s ! i)]\<rparr>)"

section \<open>Updates\<close>

fun UpdateLocal :: "VersionManager \<Rightarrow> Update list \<Rightarrow> go_error + Update list \<times> VersionManager" where
  "UpdateLocal vm [] = Inr ([], vm)"
| "UpdateLocal vm (u # us) =
     (case Payload u of None \<Rightarrow> Inl (Panic NilDereference)
      | Some d \<Rightarrow>
          let vm1 = updateKeyStateHash vm (Key u) (stateDigest (delta_Hash d) (UType u = UpdateTypeDelete));
              sq = vm_seq vm1 + 1
          in bind_res (UpdateLocal (vm1\<lparr>vm_seq := sq\<rparr>) us) (\<lambda>(us', vm'). Inr (u\<lparr>Seq := sq\<rparr> # us', vm')))"

text \<open>The callback of \<open>handleUpdate\<close> and of \<open>applyUpdateDuringRestore\<close>: the entry is changed through its
  pointer, also when an error is returned.\<close>

definition updateEntryCallback ::
    "(string \<Rightarrow> u64) \<Rightarrow> string \<Rightarrow> i64 \<Rightarrow> i64 \<Rightarrow> Update \<Rightarrow> CRDTEntry \<Rightarrow> Engine \<Rightarrow> (go_error + bool) \<times> Engine" where
  "updateEntryCallback hk nid t now u ent e =
     (case ApplyUpdate nid t ent u of
        Inl p \<Rightarrow> (Inl p, e)
      | Inr (result, ent') \<Rightarrow>
          let e1 = eng_store hk e (Key u) ent'
          in case ResError result of
               Some err \<Rightarrow> (Inl err, e1)
             | None \<Rightarrow>
                 (Inr (Applied result),
                  if Modified result \<and> UType u = UpdateTypeDelete
                  then snd (DeleteWithTimeStamp hk e1 now (SetTimeStamp u) (Key u)) else e1))"

text \<open>The digest the callback leaves in \<open>newHash\<close>: zero unless it applied the update to an entry.\<close>

definition callback_hash :: "(string \<Rightarrow> u64) \<Rightarrow> Engine \<Rightarrow> string \<Rightarrow> bool \<Rightarrow> u64" where
  "callback_hash hk e key updated =
     (if updated then case GetRaw hk e key of None \<Rightarrow> 0 | Some ent \<Rightarrow> entry_digest ent else 0)"

definition handleNewEntry :: "(string \<Rightarrow> u64) \<Rightarrow> VersionManager \<Rightarrow> i64 \<Rightarrow> Update \<Rightarrow> go_error + bool \<times> VersionManager" where
  "handleNewEntry hk vm t u =
     (case CreateFromUpdate (vm_nodeID vm) t u of
        Inl (Panic p) \<Rightarrow> Inl (Panic p)
      | Inl err \<Rightarrow> Inr (False, vm)
      | Inr ent \<Rightarrow>
          let vm1 = vm\<lparr>vm_engine := snd (PutWithTimeStamp hk (vm_engine vm) (SetTimeStamp u) (Key u) (entObject ent))\<rparr>
          in Inr (True, updateKeyStateHash vm1 (Key u) (stateDigest (crdt_Hash (entObject ent)) False)))"

definition apply_to_engine :: "(string \<Rightarrow> u64) \<Rightarrow> VersionManager \<Rightarrow> i64 \<Rightarrow> i64 \<Rightarrow> Update \<Rightarrow> go_error + bool \<times> VersionManager" where
  "apply_to_engine hk vm t now u =
     (case eng_Update hk (vm_engine vm) (Key u) (updateEntryCallback hk (vm_nodeID vm) t now u) of
        (Inl (Panic p), e) \<Rightarrow> Inl (Panic p)
      | (Inl err, e) \<Rightarrow> Inr (False, vm\<lparr>vm_engine := e\<rparr>)
      | (Inr updated, e) \<Rightarrow>
          if \<not> updated \<and> UType u \<noteq> UpdateTypeDelete then handleNewEntry hk (vm\<lparr>vm_engine := e\<rparr>) t u
          else Inr (True, updateKeyStateHash (vm\<lparr>vm_engine := e\<rparr>) (Key u) (callback_hash hk e (Key u) updated)))"

definition handleUpdate :: "(string \<Rightarrow> u64) \<Rightarrow> VersionManager \<Rightarrow> i64 \<Rightarrow> i64 \<Rightarrow> Update \<Rightarrow> go_error + bool \<times> VersionManager" where
  "handleUpdate hk vm t now u =
     (let (new, h) = TryAddRange (vm_history vm) (NodeID u) \<lparr>Start = Seq u, End = Seq u\<rparr>;
          vm1 = vm\<lparr>vm_history := h\<rparr>
      in if \<not> new then Inr (False, vm1) else apply_to_engine hk vm1 t now u)"

text \<open>\<open>updateSequential\<close>, with the clock readings of each step: the applied updates, in order.\<close>

fun updateSequential ::
    "(string \<Rightarrow> u64) \<Rightarrow> VersionManager \<Rightarrow> (i64 \<times> i64 \<times> Update) list \<Rightarrow> go_error + Update list \<times> VersionManager" where
  "updateSequential hk vm [] = Inr ([], vm)"
| "updateSequential hk vm ((t, now, u) # us) =
     bind_res (handleUpdate hk vm t now u) (\<lambda>(applied, vm1).
     bind_res (updateSequential hk vm1 us) (\<lambda>(rest, vm2).
       Inr (if applied then u # rest else rest, vm2)))"

section \<open>Clocks\<close>

definition vm_VectorClockContiguous :: "VersionManager \<Rightarrow> (string, u64) fmap" where
  "vm_VectorClockContiguous vm = fmupd (vm_nodeID vm) (vm_seq vm) (AllContiguousSeq (vm_history vm))"

definition vm_VectorClockMax :: "VersionManager \<Rightarrow> (string, u64) fmap" where
  "vm_VectorClockMax vm = fmupd (vm_nodeID vm) (vm_seq vm) (AllMaxSeq (vm_history vm))"

definition VersionDiff :: "VersionManager \<Rightarrow> (string, u64) fmap \<Rightarrow> (string, Range list) fmap" where
  "VersionDiff vm remote = DiffAll (vm_history vm) remote"

definition GetCurrentSequence :: "VersionManager \<Rightarrow> u64" where
  "GetCurrentSequence vm = vm_seq vm"

definition RestoreSeq :: "VersionManager \<Rightarrow> string \<Rightarrow> VersionManager" where
  "RestoreSeq vm nid = vm\<lparr>vm_history := sh_Clear (vm_history vm) nid\<rparr>"

definition vm_Stats :: "VersionManager \<Rightarrow> u64 \<times> (string, u64) fmap" where
  "vm_Stats vm = (vm_seq vm, vm_VectorClockContiguous vm)"

definition vm_Advance :: "VersionManager \<Rightarrow> u64 \<times> VersionManager" where
  "vm_Advance vm = (vm_seq vm + 1, vm\<lparr>vm_seq := vm_seq vm + 1\<rparr>)"

section \<open>Recovery\<close>

definition applyUpdateDuringRestore :: "(string \<Rightarrow> u64) \<Rightarrow> VersionManager \<Rightarrow> i64 \<Rightarrow> i64 \<Rightarrow> Update \<Rightarrow> go_error + VersionManager" where
  "applyUpdateDuringRestore hk vm t now u = map_sum id snd (apply_to_engine hk vm t now u)"

text \<open>The replay calls the handler on each update of the log; \<open>cancelled n\<close> says whether the context is done
  when the counter reaches \<open>n\<close>, and \<open>walErr\<close> is the error with which the log itself ends, if any.\<close>

fun restore_loop ::
    "(string \<Rightarrow> u64) \<Rightarrow> (nat \<Rightarrow> bool) \<Rightarrow> go_error option \<Rightarrow> VersionManager \<Rightarrow> nat \<Rightarrow> u64 \<Rightarrow> (i64 \<times> i64 \<times> Update) list
       \<Rightarrow> go_error + (go_error option \<times> u64 \<times> VersionManager)" where
  "restore_loop hk cancelled walErr vm cnt locals [] = Inr (walErr, locals, vm)"
| "restore_loop hk cancelled walErr vm cnt locals ((t, now, u) # us) =
     (let cnt' = cnt + 1
      in if cnt' mod 100 = 0 \<and> cancelled cnt' then Inr (Some ErrContextDone, locals, vm)
         else
           let locals' = (if NodeID u = vm_nodeID vm then locals + 1 else locals);
               vm1 = (if NodeID u = vm_nodeID vm then vm
                      else vm\<lparr>vm_history := sh_Add (vm_history vm) (NodeID u) (Seq u)\<rparr>)
           in bind_res (applyUpdateDuringRestore hk vm1 t now u)
                (\<lambda>vm2. restore_loop hk cancelled walErr vm2 cnt' locals' us))"

definition RestoreFromWal ::
    "(string \<Rightarrow> u64) \<Rightarrow> (nat \<Rightarrow> bool) \<Rightarrow> go_error option \<Rightarrow> VersionManager \<Rightarrow> (i64 \<times> i64 \<times> Update) list
       \<Rightarrow> go_error + (go_error option \<times> VersionManager)" where
  "RestoreFromWal hk cancelled walErr vm log =
     bind_res (restore_loop hk cancelled walErr vm 0 0 log)
       (\<lambda>(err, locals, vm'). Inr (err, vm'\<lparr>vm_seq := locals\<rparr>))"

section \<open>Anti-entropy\<close>

definition KeyDigests :: "VersionManager \<Rightarrow> u32 \<Rightarrow> (string, u64) fmap" where
  "KeyDigests vm bucket =
     fold (\<lambda>(key, km) result. if km_bucket km \<noteq> bucket then result else fmupd key (km_hash km) result)
       (kv_Range (vm_keyVersions vm)) fmempty"

text \<open>The branches of \<open>MergeKeyState\<close> for a key that has an entry.\<close>

definition merge_existing ::
    "(string \<Rightarrow> u64) \<Rightarrow> Engine \<Rightarrow> i64 \<Rightarrow> i64 \<Rightarrow> KeyState \<Rightarrow> crdt \<Rightarrow> CRDTEntry \<Rightarrow> go_error + u64 \<times> Engine" where
  "merge_existing hk e t now st remoteCRDT entry =
     (let ts = ksSetTimeStamp st; key = ksKey st;
          keep = (\<lambda>ent. Inr (entry_digest ent, eng_store hk e key ent))
      in if entTombstone entry \<and> \<not> ksTombstone st then
           keep (if \<not> Before ts (entSetTimeStamp entry)
                 then \<lparr>entObject = remoteCRDT, entTombstone = False, entSetTimeStamp = ts\<rparr> else entry)
         else if \<not> entTombstone entry \<and> ksTombstone st then
           (if \<not> Before ts (entSetTimeStamp entry)
            then Inr (stateDigest (crdt_Hash remoteCRDT) True, snd (DeleteWithTimeStamp hk e now ts key))
            else if crdt_Type (entObject entry) = ksCRDTType st
              then (case crdt_Merge t (entObject entry) remoteCRDT of
                      Inl (Panic p) \<Rightarrow> Inl (Panic p)
                    | Inl err \<Rightarrow> keep entry
                    | Inr obj \<Rightarrow> keep (entry\<lparr>entObject := obj\<rparr>))
            else keep entry)
         else if entTombstone entry \<and> ksTombstone st then
           keep (if After ts (entSetTimeStamp entry) then entry\<lparr>entSetTimeStamp := ts\<rparr> else entry)
         else if crdt_Type (entObject entry) = ksCRDTType st then
           (case crdt_Merge t (entObject entry) remoteCRDT of
              Inl err \<Rightarrow> Inl err
            | Inr obj \<Rightarrow>
                keep (if After ts (entSetTimeStamp entry)
                      then entry\<lparr>entObject := obj, entSetTimeStamp := ts\<rparr> else entry\<lparr>entObject := obj\<rparr>))
         else
           keep (if \<not> IsZero ts \<and> (IsZero (entSetTimeStamp entry) \<or> Before (entSetTimeStamp entry) ts)
                 then entry\<lparr>entObject := remoteCRDT, entSetTimeStamp := ts\<rparr> else entry))"

text \<open>An error leaves the version manager as it was. The nil state of the source is not a value of the
  model.\<close>

definition MergeKeyState :: "(string \<Rightarrow> u64) \<Rightarrow> VersionManager \<Rightarrow> i64 \<Rightarrow> i64 \<Rightarrow> KeyState \<Rightarrow> go_error + VersionManager" where
  "MergeKeyState hk vm t now st =
     bind_res (fabric_New (ksCRDTType st) (vm_nodeID vm)) (\<lambda>blank.
     bind_res (crdt_UnmarshalJSON t blank (ksState st)) (\<lambda>remoteCRDT.
     bind_res
       (case GetRaw hk (vm_engine vm) (ksKey st) of
          None \<Rightarrow>
            let e1 = snd (PutWithTimeStamp hk (vm_engine vm) (ksSetTimeStamp st) (ksKey st) remoteCRDT)
            in Inr (stateDigest (crdt_Hash remoteCRDT) (ksTombstone st),
                    if ksTombstone st then snd (DeleteWithTimeStamp hk e1 now (ksSetTimeStamp st) (ksKey st)) else e1)
        | Some entry \<Rightarrow> merge_existing hk (vm_engine vm) t now st remoteCRDT entry)
       (\<lambda>(newHash, e). Inr (updateKeyStateHash (vm\<lparr>vm_engine := e\<rparr>) (ksKey st) newHash))))"

section \<open>Lemmas on the key versions\<close>

definition key_meta :: "VersionManager \<Rightarrow> string \<Rightarrow> keyMeta option" where
  "key_meta vm key = fmlookup (vm_keyVersions vm ! kv_shardFor key) key"

text \<open>Each key is in its own shard and carries its own bucket.\<close>

definition kv_wf :: "VersionManager \<Rightarrow> bool" where
  "kv_wf vm \<longleftrightarrow> length (vm_keyVersions vm) = numVersionShards \<and> vm_numBuckets vm \<noteq> 0
     \<and> (\<forall>i < numVersionShards. \<forall>key km. fmlookup (vm_keyVersions vm ! i) key = Some km \<longrightarrow>
          kv_shardFor key = i \<and> km_bucket km = keyBucket key (vm_numBuckets vm))"

lemma kv_shardFor_less [simp]: "kv_shardFor key < numVersionShards"
proof -
  have "unat (x mod 64 :: u32) < 64" for x by (simp add: unat_mod)
  then show ?thesis by (simp add: kv_shardFor_def numVersionShards_def)
qed

lemma kv_wf_bucket:
  "kv_wf vm \<Longrightarrow> fmlookup (vm_keyVersions vm ! kv_shardFor key) key = Some km \<Longrightarrow>
   km_bucket km = keyBucket key (vm_numBuckets vm)"
  unfolding kv_wf_def using kv_shardFor_less by blast

lemma key_meta_update [vm_simps]:
  assumes "kv_wf vm"
  shows "key_meta (updateKeyStateHash vm key h) k =
    (if k = key then Some \<lparr>km_hash = h, km_bucket = keyBucket key (vm_numBuckets vm)\<rparr> else key_meta vm k)"
proof -
  let ?i = "kv_shardFor key" and ?s = "vm_keyVersions vm"
  have i: "?i < length ?s" using assms by (simp add: kv_wf_def)
  show ?thesis
  proof (cases "fmlookup (?s ! ?i) key")
    case None
    then show ?thesis using i
      by (auto simp: key_meta_def updateKeyStateHash_def LoadOrStore_def Let_def nth_list_update)
  next
    case (Some km)
    then have "km_bucket km = keyBucket key (vm_numBuckets vm)" using kv_wf_bucket [OF assms] by simp
    with Some i show ?thesis
      by (auto simp: key_meta_def updateKeyStateHash_def LoadOrStore_def Let_def nth_list_update)
  qed
qed

lemma updateKeyStateHash_shards:
  assumes "kv_wf vm"
  shows "vm_keyVersions (updateKeyStateHash vm key h) = (vm_keyVersions vm)[kv_shardFor key :=
    fmupd key \<lparr>km_hash = h, km_bucket = keyBucket key (vm_numBuckets vm)\<rparr> (vm_keyVersions vm ! kv_shardFor key)]"
proof (cases "fmlookup (vm_keyVersions vm ! kv_shardFor key) key")
  case None
  moreover have "fmupd key a (fmupd key b m) = fmupd key a m" for a b :: keyMeta and m
    by (rule fmap_ext) simp
  ultimately show ?thesis using assms by (simp add: updateKeyStateHash_def LoadOrStore_def Let_def kv_wf_def)
next
  case (Some km)
  then have "km\<lparr>km_hash := h\<rparr> = \<lparr>km_hash = h, km_bucket = keyBucket key (vm_numBuckets vm)\<rparr>"
    using kv_wf_bucket [OF assms] by simp
  with Some show ?thesis by (simp add: updateKeyStateHash_def LoadOrStore_def Let_def)
qed

lemma kv_wf_update [vm_simps]:
  assumes "kv_wf vm"
  shows "kv_wf (updateKeyStateHash vm key h)"
proof -
  have len: "kv_shardFor key < length (vm_keyVersions vm)" using assms unfolding kv_wf_def by simp
  note sh = updateKeyStateHash_shards [OF assms]
  have b: "vm_numBuckets (updateKeyStateHash vm key h) = vm_numBuckets vm"
    by (simp add: updateKeyStateHash_def Let_def split: prod.split)
  have "kv_shardFor k = i \<and> km_bucket km = keyBucket k (vm_numBuckets vm)"
    if "i < numVersionShards" "fmlookup (vm_keyVersions (updateKeyStateHash vm key h) ! i) k = Some km" for i k km
  proof (cases "i = kv_shardFor key \<and> k = key")
    case True
    with that(2) len show ?thesis by (auto simp: sh)
  next
    case False
    then have "fmlookup (vm_keyVersions vm ! i) k = Some km" using that(2) len
      by (auto simp: sh nth_list_update split: if_splits)
    with that(1) assms show ?thesis unfolding kv_wf_def by blast
  qed
  moreover have "length (vm_keyVersions (updateKeyStateHash vm key h)) = numVersionShards" "vm_numBuckets vm \<noteq> 0"
    using assms unfolding kv_wf_def sh by auto
  ultimately show ?thesis unfolding kv_wf_def b by blast
qed

lemma updateKeyStateHash_fields [simp, vm_simps]:
  "vm_engine (updateKeyStateHash vm key h) = vm_engine vm" "vm_history (updateKeyStateHash vm key h) = vm_history vm"
  "vm_seq (updateKeyStateHash vm key h) = vm_seq vm" "vm_nodeID (updateKeyStateHash vm key h) = vm_nodeID vm"
  "vm_numBuckets (updateKeyStateHash vm key h) = vm_numBuckets vm"
  by (simp_all add: updateKeyStateHash_def Let_def split: prod.split)

lemma kv_wf_fields [simp]:
  "kv_wf (vm\<lparr>vm_engine := e\<rparr>) = kv_wf vm" "kv_wf (vm\<lparr>vm_history := h\<rparr>) = kv_wf vm" "kv_wf (vm\<lparr>vm_seq := q\<rparr>) = kv_wf vm"
  "key_meta (vm\<lparr>vm_engine := e\<rparr>) = key_meta vm" "key_meta (vm\<lparr>vm_history := h\<rparr>) = key_meta vm"
  "key_meta (vm\<lparr>vm_seq := q\<rparr>) = key_meta vm"
  by (simp_all add: kv_wf_def key_meta_def fun_eq_iff)

lemma kv_wf_New: "kv_wf (NewVersionManager nid e)"
  by (simp add: kv_wf_def NewVersionManager_def newKeyVersionShards_def DefaultNumBuckets_def)

text \<open>The tombstone flag always changes the digest, and so does the hash of the state.\<close>

lemma stateDigest_tombstone: "stateDigest h a = stateDigest h b \<longleftrightarrow> a = b"
  by (auto simp: stateDigest_def fnv64a_write_def fnv64a_step_byte_inj split: if_splits)

section \<open>The invariant\<close>

definition vm_wf :: "(string \<Rightarrow> u64) \<Rightarrow> VersionManager \<Rightarrow> bool" where
  "vm_wf hk vm \<longleftrightarrow> eng_wf (vm_engine vm) \<and> history_wf (vm_history vm) \<and> kv_wf vm
     \<and> (\<forall>key ent. GetRaw hk (vm_engine vm) key = Some ent \<longrightarrow> crdt_ok (entObject ent))"

lemma ApplyUpdate_total:
  assumes "crdt_ok (entObject ent)" "Payload u = Some d"
  shows "\<exists>res ent'. ApplyUpdate nid t ent u = Inr (res, ent') \<and> crdt_ok (entObject ent')
    \<and> (ResError res = None \<longrightarrow> Applied res)
    \<and> (ResError res = None \<longleftrightarrow> After (entSetTimeStamp ent) (TimeStamp u) \<or> UType u \<in> {UpdateTypeDelta, UpdateTypeSet, UpdateTypeDelete})"
proof -
  obtain c where c: "fabric_New (delta_Type d) nid = Inr c" "crdt_ok c" "crdt_Type c = delta_Type d"
    using fabric_New_delta by blast
  obtain c' where c': "crdt_ApplyDelta t c d = Inr c'" "crdt_ok c'" using crdt_ApplyDelta_view [OF c(2,3)] by auto
  have s: "applySet nid ent u d = (if After (SetTimeStamp u) (entSetTimeStamp ent)
      then (res_modified, \<lparr>entObject = c, entTombstone = False, entSetTimeStamp = SetTimeStamp u\<rparr>) else (res_applied, ent))"
    using c(1) by (simp add: applySet_def)
  have dl: "\<exists>res ent'. applyDelta nid t ent u d = Inr (res, ent') \<and> crdt_ok (entObject ent') \<and> Applied res \<and> ResError res = None"
  proof (cases "After (SetTimeStamp u) (entSetTimeStamp ent)")
    case True
    from applyDelta_newer [OF True c(1) c'(1)] c'(2) show ?thesis by simp
  next
    case False
    show ?thesis
    proof (cases "crdt_Type (entObject ent) = delta_Type d")
      case True
      then obtain o' where "crdt_ApplyDelta t (entObject ent) d = Inr o'" "crdt_ok o'"
        using crdt_ApplyDelta_view [OF assms(1) True] by auto
      with applyDelta_current [OF False True] show ?thesis by simp
    next
      case ne: False
      with False assms(1) show ?thesis by (simp add: applyDelta.simps [of nid t ent])
    qed
  qed
  show ?thesis using assms s c dl by (auto simp: ApplyUpdate_def applyDelete_def)
qed

lemma CreateFromUpdate_total:
  assumes "Payload u = Some d"
  shows "\<exists>ent. CreateFromUpdate nid t u = Inr ent \<and> crdt_ok (entObject ent) \<and> \<not> entTombstone ent
    \<and> entSetTimeStamp ent = SetTimeStamp u
    \<and> crdt_view (entObject ent) = (if UType u = UpdateTypeDelta then view_absorb d (fresh_view d) else fresh_view d)"
proof -
  obtain c where c: "fabric_New (delta_Type d) nid = Inr c" "crdt_ok c" "crdt_view c = fresh_view d" "crdt_Type c = delta_Type d"
    using fabric_New_delta by blast
  with crdt_ApplyDelta_view [OF c(2,4), of t] assms show ?thesis by (auto simp: CreateFromUpdate_def)
qed

section \<open>Applying an update\<close>

lemma ApplyUpdate_delete:
  "ApplyUpdate nid t ent u = Inr (res, ent') \<Longrightarrow> UType u = UpdateTypeDelete \<Longrightarrow> Modified res \<Longrightarrow>
   ent' = ent\<lparr>entTombstone := True, entSetTimeStamp := SetTimeStamp u\<rparr>"
  by (auto simp: ApplyUpdate_def applyDelete_def split: if_splits)

lemma callback_ok:
  assumes "eng_wf e" "ApplyUpdate nid t ent u = Inr (res, ent')" "ResError res = None" "Applied res"
    and "updateEntryCallback hk nid t now u ent e = (r, e')"
  shows "r = Inr True \<and> eng_wf e' \<and> GetRaw hk e' k = (if k = Key u then Some ent' else GetRaw hk e k)"
proof -
  have e': "r = Inr True" "e' = (if Modified res \<and> UType u = UpdateTypeDelete
      then snd (DeleteWithTimeStamp hk (eng_store hk e (Key u) ent') now (SetTimeStamp u) (Key u))
      else eng_store hk e (Key u) ent')"
    using assms by (auto simp: updateEntryCallback_def Let_def)
  have "ent'\<lparr>entTombstone := True, entSetTimeStamp := SetTimeStamp u\<rparr> = ent'" if "Modified res" "UType u = UpdateTypeDelete"
    using ApplyUpdate_delete [OF assms(2) that(2,1)] by simp
  with e' assms(1) show ?thesis by (auto simp: eng_simps)
qed

lemma vm_wf_store:
  assumes "vm_wf hk vm" "eng_wf e" "\<And>k. GetRaw hk e k = (if k = key then Some ent else GetRaw hk (vm_engine vm) k)"
    and "crdt_ok (entObject ent)"
  shows "vm_wf hk (vm\<lparr>vm_engine := e\<rparr>)"
  using assms by (auto simp: vm_wf_def split: if_splits)

lemma vm_wf_hash: "vm_wf hk vm \<Longrightarrow> vm_wf hk (updateKeyStateHash vm key h)"
  by (simp add: vm_wf_def vm_simps)

lemma apply_existing:
  assumes "vm_wf hk vm" "GetRaw hk (vm_engine vm) (Key u) = Some ent"
    and "ApplyUpdate (vm_nodeID vm) t ent u = Inr (res, ent')" "ResError res = None" "Applied res" "crdt_ok (entObject ent')"
  shows "\<exists>vm'. apply_to_engine hk vm t now u = Inr (True, vm') \<and> vm_wf hk vm'
    \<and> (\<forall>k. GetRaw hk (vm_engine vm') k = (if k = Key u then Some ent' else GetRaw hk (vm_engine vm) k))
    \<and> (\<forall>k. key_meta vm' k = (if k = Key u then Some \<lparr>km_hash = entry_digest ent', km_bucket = keyBucket k (vm_numBuckets vm)\<rparr> else key_meta vm k))
    \<and> vm_history vm' = vm_history vm \<and> vm_seq vm' = vm_seq vm \<and> vm_nodeID vm' = vm_nodeID vm"
proof -
  have e: "eng_wf (vm_engine vm)" and kv: "kv_wf vm" using assms(1) by (auto simp: vm_wf_def)
  obtain r e' where cb: "updateEntryCallback hk (vm_nodeID vm) t now u ent (vm_engine vm) = (r, e')" by fastforce
  note c = callback_ok [OF e assms(3-5) cb]
  let ?vm = "updateKeyStateHash (vm\<lparr>vm_engine := e'\<rparr>) (Key u) (entry_digest ent')"
  have "GetRaw hk e' (Key u) = Some ent'" using c [of "Key u"] by simp
  then have "apply_to_engine hk vm t now u = Inr (True, ?vm)"
    using cb c assms(2) by (simp add: apply_to_engine_def eng_Update_def callback_hash_def)
  moreover have "vm_wf hk (vm\<lparr>vm_engine := e'\<rparr>)" by (rule vm_wf_store [OF assms(1)]) (use c assms(6) in auto)
  then have "vm_wf hk ?vm" by (rule vm_wf_hash)
  ultimately show ?thesis using c kv by (simp add: vm_simps)
qed

lemma apply_absent:
  assumes "vm_wf hk vm" "GetRaw hk (vm_engine vm) (Key u) = None" "Payload u = Some d"
  shows "\<exists>vm'. apply_to_engine hk vm t now u = Inr (True, vm') \<and> vm_wf hk vm'
    \<and> (if UType u = UpdateTypeDelete then vm_engine vm' = vm_engine vm
       else \<exists>ent. CreateFromUpdate (vm_nodeID vm) t u = Inr ent
         \<and> (\<forall>k. GetRaw hk (vm_engine vm') k = (if k = Key u then Some ent else GetRaw hk (vm_engine vm) k)))
    \<and> (\<forall>k. k \<noteq> Key u \<longrightarrow> key_meta vm' k = key_meta vm k)
    \<and> vm_history vm' = vm_history vm \<and> vm_seq vm' = vm_seq vm \<and> vm_nodeID vm' = vm_nodeID vm"
proof (cases "UType u = UpdateTypeDelete")
  case True
  let ?vm = "updateKeyStateHash (vm\<lparr>vm_engine := vm_engine vm\<rparr>) (Key u) 0"
  have "apply_to_engine hk vm t now u = Inr (True, ?vm)"
    using True assms(2) by (simp add: apply_to_engine_def eng_Update_def callback_hash_def)
  moreover have "vm_wf hk ?vm" using assms(1) by (intro vm_wf_hash) simp
  ultimately show ?thesis using True assms(1) by (simp add: vm_wf_def vm_simps)
next
  case False
  obtain ent where ent: "CreateFromUpdate (vm_nodeID vm) t u = Inr ent" "crdt_ok (entObject ent)" "\<not> entTombstone ent"
      "entSetTimeStamp ent = SetTimeStamp u" using CreateFromUpdate_total [OF assms(3)] by blast
  have eta: "\<lparr>entObject = entObject ent, entTombstone = False, entSetTimeStamp = SetTimeStamp u\<rparr> = ent"
    using ent by simp
  let ?e = "snd (PutWithTimeStamp hk (vm_engine vm) (SetTimeStamp u) (Key u) (entObject ent))"
  let ?vm = "updateKeyStateHash (vm\<lparr>vm_engine := ?e\<rparr>) (Key u) (stateDigest (crdt_Hash (entObject ent)) False)"
  have e: "eng_wf (vm_engine vm)" using assms(1) by (simp add: vm_wf_def)
  have look: "GetRaw hk ?e k = (if k = Key u then Some ent else GetRaw hk (vm_engine vm) k)" for k
    using e eta by (simp add: eng_simps)
  have "apply_to_engine hk vm t now u = Inr (True, ?vm)"
    using False assms(2) ent(1) by (simp add: apply_to_engine_def eng_Update_def handleNewEntry_def Let_def)
  moreover have "vm_wf hk (vm\<lparr>vm_engine := ?e\<rparr>)"
    by (rule vm_wf_store [OF assms(1) _ look ent(2)]) (use e in \<open>simp add: eng_simps\<close>)
  then have "vm_wf hk ?vm" by (rule vm_wf_hash)
  ultimately show ?thesis using False look ent(1) assms(1) by (simp add: vm_wf_def vm_simps)
qed

lemma apply_unknown_type:
  assumes "vm_wf hk vm" "GetRaw hk (vm_engine vm) (Key u) = Some ent" "Payload u = Some d"
    and "ApplyUpdate (vm_nodeID vm) t ent u = Inr (res, ent')" "ResError res \<noteq> None" "crdt_ok (entObject ent')"
  shows "\<exists>vm'. apply_to_engine hk vm t now u = Inr (False, vm') \<and> vm_wf hk vm'
    \<and> (\<forall>k. k \<noteq> Key u \<longrightarrow> GetRaw hk (vm_engine vm') k = GetRaw hk (vm_engine vm) k)
    \<and> (\<forall>k. key_meta vm' k = key_meta vm k)
    \<and> vm_history vm' = vm_history vm \<and> vm_seq vm' = vm_seq vm \<and> vm_nodeID vm' = vm_nodeID vm"
proof -
  obtain err where err: "ResError res = Some err" "\<forall>p. err \<noteq> Panic p"
    using assms(4,5) fabric_New_delta [of d "vm_nodeID vm"] ApplyUpdate_total [of ent u d "vm_nodeID vm" t] assms(1-3)
    by (auto simp: ApplyUpdate_def applySet_def applyDelete_def vm_wf_def split: if_splits)
  let ?e = "eng_store hk (vm_engine vm) (Key u) ent'"
  have e: "eng_wf (vm_engine vm)" using assms(1) by (simp add: vm_wf_def)
  have "apply_to_engine hk vm t now u = Inr (False, vm\<lparr>vm_engine := ?e\<rparr>)"
    using assms(2,4) err by (cases err) (simp_all add: apply_to_engine_def eng_Update_def updateEntryCallback_def Let_def)
  moreover have "vm_wf hk (vm\<lparr>vm_engine := ?e\<rparr>)"
    by (rule vm_wf_store [OF assms(1), of _ "Key u" ent']) (use e assms(6) in \<open>auto simp: eng_simps\<close>)
  ultimately show ?thesis using e by (simp add: eng_simps)
qed

end
