(* ===== verification/Replication.thy ===== *)
theory Replication
  imports Version_Manager
begin

text \<open>
  What the version manager guarantees between nodes. \<open>handleUpdate\<close> is total on the invariant, changes
  only the key of its update and leaves the digest of what it stored; nodes that receive the same
  updates in any order, with duplicates, converge key by key; the update of a key that is not there is
  its creation, and a delete of such a key is lost. The convergence proof is the one of the locale
  \<open>generations\<close>, extended by states that do not exist yet.
\<close>

section \<open>One update\<close>

definition known_type :: "Update \<Rightarrow> bool" where
  "known_type u \<longleftrightarrow> UType u \<in> {UpdateTypeDelta, UpdateTypeSet, UpdateTypeDelete}"

lemma vm_wf_history: "vm_wf hk vm \<Longrightarrow> history_wf h \<Longrightarrow> vm_wf hk (vm\<lparr>vm_history := h\<rparr>)"
  by (simp add: vm_wf_def)

lemma apply_total:
  assumes "vm_wf hk vm" "Payload u = Some d" "known_type u"
  shows "\<exists>vm'. apply_to_engine hk vm t now u = Inr (True, vm') \<and> vm_wf hk vm'
    \<and> (\<forall>k. k \<noteq> Key u \<longrightarrow> GetRaw hk (vm_engine vm') k = GetRaw hk (vm_engine vm) k \<and> key_meta vm' k = key_meta vm k)
    \<and> (\<forall>ent. GetRaw hk (vm_engine vm') (Key u) = Some ent \<longrightarrow>
         (\<exists>m. key_meta vm' (Key u) = Some m \<and> km_hash m = entry_digest ent))
    \<and> vm_history vm' = vm_history vm \<and> vm_seq vm' = vm_seq vm \<and> vm_nodeID vm' = vm_nodeID vm"
proof (cases "GetRaw hk (vm_engine vm) (Key u)")
  case None
  show ?thesis
  proof (cases "UType u = UpdateTypeDelete")
    case True
    then show ?thesis using apply_absent [OF assms(1) None assms(2), of t now] None by fastforce
  next
    case False
    obtain ent where ent: "CreateFromUpdate (vm_nodeID vm) t u = Inr ent" "\<not> entTombstone ent"
      using CreateFromUpdate_total [OF assms(2), of "vm_nodeID vm" t] by blast
    obtain vm' where vm': "apply_to_engine hk vm t now u = Inr (True, vm')" "vm_wf hk vm'"
        "\<forall>k. GetRaw hk (vm_engine vm') k = (if k = Key u then Some ent else GetRaw hk (vm_engine vm) k)"
        "\<forall>k. k \<noteq> Key u \<longrightarrow> key_meta vm' k = key_meta vm k"
        "vm_history vm' = vm_history vm" "vm_seq vm' = vm_seq vm" "vm_nodeID vm' = vm_nodeID vm"
      using apply_absent [OF assms(1) None assms(2), of t now] False ent(1) by auto
    have "vm' = updateKeyStateHash (vm\<lparr>vm_engine := vm_engine vm'\<rparr>) (Key u) (stateDigest (crdt_Hash (entObject ent)) False)"
      using vm'(1) None False ent(1)
      by (auto simp: apply_to_engine_def eng_Update_def handleNewEntry_def Let_def)
    then have "key_meta vm' (Key u) = Some \<lparr>km_hash = entry_digest ent, km_bucket = keyBucket (Key u) (vm_numBuckets vm)\<rparr>"
      using assms(1) ent(2) key_meta_update [of "vm\<lparr>vm_engine := vm_engine vm'\<rparr>" "Key u" "entry_digest ent" "Key u"]
      by (auto simp: vm_wf_def entry_digest_def)
    with vm' show ?thesis by auto
  qed
next
  case (Some ent)
  then have "crdt_ok (entObject ent)" using assms(1) by (auto simp: vm_wf_def)
  then obtain res ent' where a: "ApplyUpdate (vm_nodeID vm) t ent u = Inr (res, ent')" "ResError res = None"
      "Applied res" "crdt_ok (entObject ent')"
    using ApplyUpdate_total [of ent u d "vm_nodeID vm" t] assms(2,3) by (auto simp: known_type_def)
  from apply_existing [OF assms(1) Some a] show ?thesis by fastforce
qed

lemma handleUpdate_seen:
  assumes "vm_wf hk vm" "Seq u \<noteq> - 1" "Seq u \<in> history_seqs (vm_history vm) (NodeID u)"
  shows "\<exists>h. handleUpdate hk vm t now u = Inr (False, vm\<lparr>vm_history := h\<rparr>) \<and> history_wf h
    \<and> (\<forall>n. history_seqs h n = history_seqs (vm_history vm) n)"
proof -
  let ?t = "TryAddRange (vm_history vm) (NodeID u) \<lparr>Start = Seq u, End = Seq u\<rparr>"
  have h: "history_wf (vm_history vm)" using assms(1) by (simp add: vm_wf_def)
  note s = sharded.try_new [OF h assms(2), of "NodeID u"] sharded.try_invar [OF h assms(2), of "NodeID u"]
    sharded.try_seqs [OF h assms(2), of "NodeID u"]
  obtain h' where "?t = (False, h')" using s(1) assms(3) by (cases ?t) auto
  then show ?thesis using s(2,3) assms(3) by (intro exI [of _ h']) (simp add: handleUpdate_def insert_absorb)
qed

lemma handleUpdate_new:
  assumes "vm_wf hk vm" "Seq u \<noteq> - 1" "Seq u \<notin> history_seqs (vm_history vm) (NodeID u)"
  shows "\<exists>h. handleUpdate hk vm t now u = apply_to_engine hk (vm\<lparr>vm_history := h\<rparr>) t now u \<and> history_wf h
    \<and> (\<forall>n. history_seqs h n = (if n = NodeID u then insert (Seq u) (history_seqs (vm_history vm) n) else history_seqs (vm_history vm) n))"
proof -
  let ?t = "TryAddRange (vm_history vm) (NodeID u) \<lparr>Start = Seq u, End = Seq u\<rparr>"
  have h: "history_wf (vm_history vm)" using assms(1) by (simp add: vm_wf_def)
  note s = sharded.try_new [OF h assms(2), of "NodeID u"] sharded.try_invar [OF h assms(2), of "NodeID u"]
    sharded.try_seqs [OF h assms(2), of "NodeID u"]
  obtain h' where "?t = (True, h')" using s(1) assms(3) by (cases ?t) auto
  then show ?thesis using s(2,3) by (intro exI [of _ h']) (simp add: handleUpdate_def)
qed

lemma handleUpdate_total:
  assumes "vm_wf hk vm" "Payload u = Some d" "known_type u" "Seq u \<noteq> - 1"
  shows "\<exists>new vm'. handleUpdate hk vm t now u = Inr (new, vm') \<and> vm_wf hk vm'
    \<and> (new \<longleftrightarrow> \<not> sh_Has (vm_history vm) (NodeID u) (Seq u))
    \<and> (\<forall>n v. sh_Has (vm_history vm') n v \<longleftrightarrow> sh_Has (vm_history vm) n v \<or> (n = NodeID u \<and> v = Seq u))
    \<and> (\<not> new \<longrightarrow> vm_engine vm' = vm_engine vm \<and> key_meta vm' = key_meta vm)
    \<and> (\<forall>k. k \<noteq> Key u \<longrightarrow> GetRaw hk (vm_engine vm') k = GetRaw hk (vm_engine vm) k \<and> key_meta vm' k = key_meta vm k)
    \<and> (new \<longrightarrow> (\<forall>ent. GetRaw hk (vm_engine vm') (Key u) = Some ent \<longrightarrow>
         (\<exists>m. key_meta vm' (Key u) = Some m \<and> km_hash m = entry_digest ent)))
    \<and> vm_seq vm' = vm_seq vm"
proof -
  have h: "history_wf (vm_history vm)" using assms(1) by (simp add: vm_wf_def)
  show ?thesis
  proof (cases "Seq u \<in> history_seqs (vm_history vm) (NodeID u)")
    case True
    obtain h' where h': "handleUpdate hk vm t now u = Inr (False, vm\<lparr>vm_history := h'\<rparr>)" "history_wf h'"
        "\<forall>n. history_seqs h' n = history_seqs (vm_history vm) n"
      using handleUpdate_seen [OF assms(1,4) True] by blast
    with True vm_wf_history [OF assms(1) h'(2)] show ?thesis by (auto simp: sh_Has_iff h)
  next
    case False
    obtain h' where h': "handleUpdate hk vm t now u = apply_to_engine hk (vm\<lparr>vm_history := h'\<rparr>) t now u" "history_wf h'"
        "\<forall>n. history_seqs h' n = (if n = NodeID u then insert (Seq u) (history_seqs (vm_history vm) n) else history_seqs (vm_history vm) n)"
      using handleUpdate_new [OF assms(1,4) False] by blast
    from apply_total [OF vm_wf_history [OF assms(1) h'(2)] assms(2,3), of t now]
    show ?thesis using h' False by (auto simp: sh_Has_iff h)
  qed
qed

text \<open>C15. Handling a remote update is safe: on every well-formed node and for every update of a known type that
  carries a payload, \<open>handleUpdate\<close> returns without error or panic and keeps the node well-formed. It
  reports whether the update was new and records its number. A seen update leaves the engine and the
  digests as they are; a new one touches no other key, and the digest left for its key is the digest of
  the entry now stored there.\<close>

theorem handleUpdate_safe:
  assumes "vm_wf hk vm" "Payload u = Some d" "known_type u" "Seq u \<noteq> - 1"
  shows "\<exists>new vm'. handleUpdate hk vm t now u = Inr (new, vm') \<and> vm_wf hk vm'
    \<and> (new \<longleftrightarrow> \<not> sh_Has (vm_history vm) (NodeID u) (Seq u))
    \<and> (\<forall>n v. sh_Has (vm_history vm') n v \<longleftrightarrow> sh_Has (vm_history vm) n v \<or> (n = NodeID u \<and> v = Seq u))
    \<and> (\<not> new \<longrightarrow> vm_engine vm' = vm_engine vm \<and> key_meta vm' = key_meta vm)
    \<and> (\<forall>k. k \<noteq> Key u \<longrightarrow> GetRaw hk (vm_engine vm') k = GetRaw hk (vm_engine vm) k \<and> key_meta vm' k = key_meta vm k)
    \<and> (new \<longrightarrow> (\<forall>ent. GetRaw hk (vm_engine vm') (Key u) = Some ent \<longrightarrow>
         (\<exists>m. key_meta vm' (Key u) = Some m \<and> km_hash m = entry_digest ent)))
    \<and> vm_seq vm' = vm_seq vm"
  using handleUpdate_total [OF assms] .

text \<open>A node with an empty engine of one shard.\<close>

definition sample_vm :: "string \<Rightarrow> VersionManager" where
  "sample_vm nid = NewVersionManager nid (gc_engine [])"

lemma sample_vm_wf [simp]: "vm_wf (\<lambda>_. 0) (sample_vm nid)"
  using kv_wf_New [of nid "gc_engine []"]
  by (simp add: vm_wf_def sample_vm_def NewVersionManager_def gc_engine_def eng_wf_def GetRaw_def shardFor_def)

lemma sample_vm_simps [simp]:
  "GetRaw (\<lambda>_. 0) (vm_engine (sample_vm nid)) key = None" "history_seqs (vm_history (sample_vm nid)) n = {}"
  "vm_nodeID (sample_vm nid) = nid" "key_meta (sample_vm nid) key = None"
  by (simp_all add: sample_vm_def NewVersionManager_def gc_engine_def GetRaw_def shardFor_def history_seqs_def
      NewShardedHistory_def key_meta_def newKeyVersionShards_def)

lemma sample_update_simps [simp]:
  "Payload (sample_delta w nd n) = Some (CounterDelta \<lparr>dP = Some (fmupd nd n fmempty), dN = None\<rparr>)"
  "known_type (sample_delta w nd n)" "Seq (sample_delta w nd n) = 1" "Key (sample_delta w nd n) = ''k''"
  "NodeID (sample_delta w nd n) = nd" "Seq (sample_delete w nd) = 2" "NodeID (sample_delete w nd) = nd"
  "Key (sample_delete w nd) = ''k''" "known_type (sample_delete w nd)"
  by (simp_all add: sample_delta_def sample_delete_def known_type_def)

theorem handleUpdate_safe_witness:
  "\<exists>vm'. handleUpdate (\<lambda>_. 0) (sample_vm ''n'') 0 0 (sample_delta 2 ''a'' 5) = Inr (True, vm')
     \<and> vm_wf (\<lambda>_. 0) vm' \<and> sh_Has (vm_history vm') ''a'' 1"
proof -
  have "\<not> sh_Has (vm_history (sample_vm ''n'')) ''a'' 1"
    using sh_Has_iff [of "vm_history (sample_vm ''n'')" "''a''" 1] sample_vm_wf [of "''n''"] by (simp add: vm_wf_def)
  with handleUpdate_safe [OF sample_vm_wf sample_update_simps(1,2), of 2 "''a''" 5 "''n''" 0 0] show ?thesis
    by fastforce
qed

section \<open>Convergence of nodes\<close>

text \<open>Copies of one update on different routes differ in their time to live only.\<close>

definition msg :: "Update \<Rightarrow> Update" where
  "msg u = u\<lparr>TTL := 0\<rparr>"

lemma msg_simps [simp]:
  "Seq (msg u) = Seq u" "TimeStamp (msg u) = TimeStamp u" "SetTimeStamp (msg u) = SetTimeStamp u"
  "Payload (msg u) = Payload u" "UType (msg u) = UType u" "Key (msg u) = Key u" "NodeID (msg u) = NodeID u"
  "msg (msg u) = msg u"
  by (simp_all add: msg_def)

lemma applySet_msg: "applySet nid ent (msg u) d = applySet nid ent u d"
  by (simp add: applySet_def split: sum.split)

lemma applyDelta_msg: "applyDelta nid t ent (msg u) d = applyDelta nid t ent u d"
proof (induction nid t ent u d rule: applyDelta.induct)
  case (1 nid t ent u d)
  then show ?case
    by (auto simp: applySet_msg applyDelta.simps [of nid t ent "msg u"] applyDelta.simps [of nid t ent u] Let_def split: prod.splits)
qed

lemma ApplyUpdate_msg: "ApplyUpdate nid t ent (msg u) = ApplyUpdate nid t ent u"
  by (simp add: ApplyUpdate_def applyDelta_msg applySet_msg applyDelete_def cong: option.case_cong)

lemma handleUpdate_msg: "handleUpdate hk vm t now (msg u) = handleUpdate hk vm t now u"
proof -
  have a: "updateEntryCallback hk nid t now (msg u) = updateEntryCallback hk nid t now u" for nid
    unfolding updateEntryCallback_def msg_simps ApplyUpdate_msg ..
  have b: "CreateFromUpdate nid t (msg u) = CreateFromUpdate nid t u" for nid
    unfolding CreateFromUpdate_def msg_simps ..
  show ?thesis unfolding handleUpdate_def apply_to_engine_def handleNewEntry_def msg_simps a b ..
qed

definition updates_of :: "string \<Rightarrow> Update list \<Rightarrow> Update list" where
  "updates_of key us = filter (\<lambda>u. Key u = key) us"

definition key_view :: "(string \<Rightarrow> u64) \<Rightarrow> VersionManager \<Rightarrow> string \<Rightarrow> (Timestamp \<times> obj_view option) option" where
  "key_view hk vm key = map_option entry_view (GetRaw hk (vm_engine vm) key)"

text \<open>The updates of a key are coherent with each other and with the entry; a key that has no entry is
  not deleted by them.\<close>

definition key_ready :: "(string \<Rightarrow> u64) \<Rightarrow> Update list \<Rightarrow> VersionManager \<Rightarrow> string \<Rightarrow> bool" where
  "key_ready hk us vm key \<longleftrightarrow> coherent (updates_of key us)
     \<and> (case GetRaw hk (vm_engine vm) key of
          None \<Rightarrow> list_all (\<lambda>u. \<not> is_delete u) (updates_of key us)
        | Some ent \<Rightarrow> entry_ready (updates_of key us) ent)"

lemma updates_of_iff [simp]: "u \<in> set (updates_of key us) \<longleftrightarrow> u \<in> set us \<and> Key u = key"
  by (auto simp: updates_of_def)

lemma key_ready_created:
  assumes "key_ready hk us vm (Key u)" "u \<in> set us" "GetRaw hk (vm_engine vm) (Key u) = None"
    and "CreateFromUpdate nid t u = Inr ent"
  shows "entry_ready (updates_of (Key u) us) ent \<and> entry_view ent = (SetTimeStamp u, upd_contrib u (upd_fresh u))"
proof -
  let ?U = "updates_of (Key u) us"
  have c: "coherent ?U" "u \<in> set ?U" "\<not> is_delete u" using assms(1-3) by (auto simp: key_ready_def list_all_iff)
  obtain d where d: "Payload u = Some d" using coherentD(1) [OF c(1,2)] by (auto simp: well_formed_update_def)
  have e: "crdt_ok (entObject ent)" "\<not> entTombstone ent" "entSetTimeStamp ent = SetTimeStamp u"
      "crdt_view (entObject ent) = (if UType u = UpdateTypeDelta then view_absorb d (fresh_view d) else fresh_view d)"
    using CreateFromUpdate_total [OF d, of nid t] assms(4) by auto
  then have v: "entry_view ent = (SetTimeStamp u, upd_contrib u (upd_fresh u))"
    using c(3) d by (simp add: entry_view_def upd_contrib_def upd_fresh_def)
  with ent.created_ok [of ?U u] c have "view_ok ?U (SetTimeStamp u) (snd (entry_view ent))" by (simp add: ent.gen_ok_def)
  with e no_crossing_gen [OF c(1,2)] v show ?thesis by (simp add: entry_ready_def)
qed

lemma apply_ready:
  assumes "vm_wf hk vm" "u \<in> set us" "key_ready hk us vm (Key u)"
  shows "\<exists>vm' ent. apply_to_engine hk vm t now u = Inr (True, vm') \<and> vm_wf hk vm' \<and> vm_history vm' = vm_history vm
    \<and> (\<forall>k. GetRaw hk (vm_engine vm') k = (if k = Key u then Some ent else GetRaw hk (vm_engine vm) k))
    \<and> entry_ready (updates_of (Key u) us) ent
    \<and> Some (entry_view ent) = ent.opt_absorb u (key_view hk vm (Key u))"
proof -
  let ?U = "updates_of (Key u) us"
  have c: "coherent ?U" "u \<in> set ?U" using assms(2,3) by (auto simp: key_ready_def)
  obtain d where d: "Payload u = Some d" using coherentD(1) [OF c] by (auto simp: well_formed_update_def)
  show ?thesis
  proof (cases "GetRaw hk (vm_engine vm) (Key u)")
    case None
    then have nd: "UType u \<noteq> UpdateTypeDelete" using assms(3) c by (auto simp: key_ready_def list_all_iff is_delete_def)
    then obtain vm' ent where "apply_to_engine hk vm t now u = Inr (True, vm')" "vm_wf hk vm'" "vm_history vm' = vm_history vm"
        "CreateFromUpdate (vm_nodeID vm) t u = Inr ent"
        "\<forall>k. GetRaw hk (vm_engine vm') k = (if k = Key u then Some ent else GetRaw hk (vm_engine vm) k)"
      using apply_absent [OF assms(1) None d, of t now] by auto
    with key_ready_created [OF assms(3,2) None] None show ?thesis
      by (intro exI [of _ vm'] exI [of _ ent]) (simp add: key_view_def)
  next
    case (Some e)
    then have r: "entry_ready ?U e" using assms(3) by (simp add: key_ready_def)
    obtain res ent where a: "ApplyUpdate (vm_nodeID vm) t e u = Inr (res, ent)" "ResError res = None" "Applied res"
        "entry_ready ?U ent" "entry_view ent = ent.gen_absorb u (entry_view e)"
      using ApplyUpdate_ready [OF c r] by blast
    then have ok: "crdt_ok (entObject ent)" by (simp add: entry_ready_def)
    from apply_existing [OF assms(1) Some a(1-3) ok, of now] a Some show ?thesis
      by (auto simp: key_view_def)
  qed
qed

definition node_ready :: "(string \<Rightarrow> u64) \<Rightarrow> Update list \<Rightarrow> VersionManager \<Rightarrow> bool" where
  "node_ready hk us vm \<longleftrightarrow> vm_wf hk vm \<and> list_all (\<lambda>u. Seq u \<noteq> - 1 \<and> key_ready hk us vm (Key u)) us"

lemma node_ready_step:
  assumes "node_ready hk us vm" "u \<in> set us" "vm_wf hk vm'" "entry_ready (updates_of (Key u) us) ent"
    and "\<forall>k. GetRaw hk (vm_engine vm') k = (if k = Key u then Some ent else GetRaw hk (vm_engine vm) k)"
  shows "node_ready hk us vm'"
  using assms by (auto simp: node_ready_def list_all_iff key_ready_def)

lemma handleUpdate_ready:
  assumes "node_ready hk us vm" "msg u \<in> set us"
  shows "\<exists>new vm'. handleUpdate hk vm t now u = Inr (new, vm') \<and> node_ready hk us vm'
    \<and> (new \<longleftrightarrow> Seq u \<notin> history_seqs (vm_history vm) (NodeID u))
    \<and> (\<forall>n. history_seqs (vm_history vm') n = (if n = NodeID u then insert (Seq u) (history_seqs (vm_history vm) n) else history_seqs (vm_history vm) n))
    \<and> (\<forall>k. key_view hk vm' k = (if new \<and> k = Key u then ent.opt_absorb (msg u) (key_view hk vm k) else key_view hk vm k))"
proof -
  have wf: "vm_wf hk vm" and sq: "Seq (msg u) \<noteq> - 1" and kr: "key_ready hk us vm (Key (msg u))"
    using assms unfolding node_ready_def list_all_iff by blast+
  show ?thesis
  proof (cases "Seq u \<in> history_seqs (vm_history vm) (NodeID u)")
    case True
    then obtain h where h: "handleUpdate hk vm t now u = Inr (False, vm\<lparr>vm_history := h\<rparr>)" "history_wf h"
        "\<forall>n. history_seqs h n = history_seqs (vm_history vm) n"
      using handleUpdate_seen [OF wf _ True, of t now] sq by auto
    moreover have "node_ready hk us (vm\<lparr>vm_history := h\<rparr>)"
      using assms(1) vm_wf_history [OF wf h(2)] by (simp add: node_ready_def key_ready_def)
    ultimately show ?thesis using True by (auto simp: key_view_def)
  next
    case False
    obtain h where h: "handleUpdate hk vm t now (msg u) = apply_to_engine hk (vm\<lparr>vm_history := h\<rparr>) t now (msg u)" "history_wf h"
        "\<forall>n. history_seqs h n = (if n = NodeID u then insert (Seq u) (history_seqs (vm_history vm) n) else history_seqs (vm_history vm) n)"
      using handleUpdate_new [OF wf sq, of t now] False by auto
    let ?vm = "vm\<lparr>vm_history := h\<rparr>"
    have r: "node_ready hk us ?vm"
      using assms(1) vm_wf_history [OF wf h(2)] by (simp add: node_ready_def key_ready_def)
    obtain vm' ent where vm': "apply_to_engine hk ?vm t now (msg u) = Inr (True, vm')" "vm_wf hk vm'" "vm_history vm' = h"
        "\<forall>k. GetRaw hk (vm_engine vm') k = (if k = Key u then Some ent else GetRaw hk (vm_engine vm) k)"
        "entry_ready (updates_of (Key u) us) ent" "Some (entry_view ent) = ent.opt_absorb (msg u) (key_view hk vm (Key u))"
      using apply_ready [OF vm_wf_history [OF wf h(2)] assms(2), of t now] kr
      by (auto simp: key_ready_def key_view_def)
    have "node_ready hk us vm'" by (rule node_ready_step [OF r assms(2) vm'(2)]) (use vm' in auto)
    then show ?thesis using h vm' False unfolding handleUpdate_msg [symmetric, of hk vm t now u]
      by (auto simp: key_view_def)
  qed
qed

text \<open>Within the updates of a run, a node and a number identify one update.\<close>

definition identified :: "Update list \<Rightarrow> bool" where
  "identified us \<longleftrightarrow> list_all (\<lambda>u. list_all (\<lambda>w. NodeID u = NodeID w \<and> Seq u = Seq w \<longrightarrow> u = w) us) us"

lemma identifiedD:
  "identified us \<Longrightarrow> u \<in> set us \<Longrightarrow> w \<in> set us \<Longrightarrow> NodeID u = NodeID w \<Longrightarrow> Seq u = Seq w \<Longrightarrow> u = w"
  unfolding identified_def list_all_iff by blast

abbreviation upd :: "i64 \<times> i64 \<times> Update \<Rightarrow> Update" where
  "upd x \<equiv> snd (snd x)"

definition unseen :: "VersionManager \<Rightarrow> Update \<Rightarrow> bool" where
  "unseen vm u \<longleftrightarrow> Seq u \<notin> history_seqs (vm_history vm) (NodeID u)"

lemma updateSequential_ready:
  "node_ready hk us vm \<Longrightarrow> identified us \<Longrightarrow> msg ` upd ` set xs \<subseteq> set us \<Longrightarrow>
   \<exists>applied vm'. updateSequential hk vm xs = Inr (applied, vm') \<and> node_ready hk us vm'
     \<and> msg ` set applied = {m \<in> msg ` upd ` set xs. unseen vm m}
     \<and> (\<forall>k. key_view hk vm' k = fold ent.opt_absorb (updates_of k (map msg applied)) (key_view hk vm k))"
proof (induction xs arbitrary: vm)
  case (Cons x xs)
  obtain t now u where x: "x = (t, now, u)" by (cases x)
  have u: "msg u \<in> set us" using Cons.prems(3) x by auto
  obtain new vm1 where s: "handleUpdate hk vm t now u = Inr (new, vm1)" "node_ready hk us vm1" "new \<longleftrightarrow> unseen vm u"
      "\<forall>n. history_seqs (vm_history vm1) n = (if n = NodeID u then insert (Seq u) (history_seqs (vm_history vm) n) else history_seqs (vm_history vm) n)"
      "\<forall>k. key_view hk vm1 k = (if new \<and> k = Key u then ent.opt_absorb (msg u) (key_view hk vm k) else key_view hk vm k)"
    using handleUpdate_ready [OF Cons.prems(1) u, of t now] by (auto simp: unseen_def)
  obtain rest vm2 where r: "updateSequential hk vm1 xs = Inr (rest, vm2)" "node_ready hk us vm2"
      "msg ` set rest = {m \<in> msg ` upd ` set xs. unseen vm1 m}"
      "\<forall>k. key_view hk vm2 k = fold ent.opt_absorb (updates_of k (map msg rest)) (key_view hk vm1 k)"
    using Cons.IH [OF s(2) Cons.prems(2)] Cons.prems(3) by auto
  have same: "m = msg u" if "m \<in> msg ` upd ` set xs" "NodeID m = NodeID u" "Seq m = Seq u" for m
    by (rule identifiedD [OF Cons.prems(2) _ u]) (use Cons.prems(3) that in auto)
  have un: "unseen vm1 m \<longleftrightarrow> unseen vm m \<and> m \<noteq> msg u" if "m \<in> msg ` upd ` set xs" for m
    using s(4) same [OF that] by (auto simp: unseen_def)
  have mu: "unseen vm (msg u) \<longleftrightarrow> new" using s(3) by (simp add: unseen_def)
  have "msg ` set rest = {m \<in> msg ` upd ` set xs. unseen vm m \<and> m \<noteq> msg u}" unfolding r(3) using un by blast
  then have "msg ` set (if new then u # rest else rest) = {m \<in> msg ` upd ` set (x # xs). unseen vm m}"
    using mu x by (auto simp: image_iff)
  moreover have "\<forall>k. key_view hk vm2 k
      = fold ent.opt_absorb (updates_of k (map msg (if new then u # rest else rest))) (key_view hk vm k)"
    using r(4) s(5) by (simp add: updates_of_def)
  ultimately show ?case using s(1) r(1,2) x by auto
qed (simp add: updates_of_def)

lemma updateSequential_seen:
  "node_ready hk us vm \<Longrightarrow> msg ` upd ` set xs \<subseteq> set us \<Longrightarrow> updateSequential hk vm xs = Inr (applied, vm') \<Longrightarrow>
   (\<forall>m. unseen vm' m \<longrightarrow> unseen vm m) \<and> (\<forall>m \<in> msg ` upd ` set xs. \<not> unseen vm' m)"
proof (induction xs arbitrary: vm applied)
  case (Cons x xs)
  obtain t now u where x: "x = (t, now, u)" by (cases x)
  obtain new vm1 where s: "handleUpdate hk vm t now u = Inr (new, vm1)" "node_ready hk us vm1"
      "\<forall>n. history_seqs (vm_history vm1) n = (if n = NodeID u then insert (Seq u) (history_seqs (vm_history vm) n) else history_seqs (vm_history vm) n)"
    using handleUpdate_ready [OF Cons.prems(1), of u t now] Cons.prems(2) x by auto
  obtain rest where r: "updateSequential hk vm1 xs = Inr (rest, vm')" using Cons.prems(3) s(1) x by (auto simp: bind_res_Inr_iff)
  have ih: "\<forall>m. unseen vm' m \<longrightarrow> unseen vm1 m" "\<forall>m \<in> msg ` upd ` set xs. \<not> unseen vm' m" using Cons.IH [OF s(2) _ r] Cons.prems(2) by auto
  have "\<not> unseen vm1 (msg u)" "\<forall>m. unseen vm1 m \<longrightarrow> unseen vm m" using s(3) by (auto simp: unseen_def split: if_splits)
  with ih x show ?case by auto
qed simp

text \<open>No update is reported as applied twice.\<close>

lemma updateSequential_distinct:
  "node_ready hk us vm \<Longrightarrow> identified us \<Longrightarrow> msg ` upd ` set xs \<subseteq> set us \<Longrightarrow> updateSequential hk vm xs = Inr (applied, vm') \<Longrightarrow>
   distinct (map msg applied)"
proof (induction xs arbitrary: vm applied)
  case (Cons x xs)
  obtain t now u where x: "x = (t, now, u)" by (cases x)
  obtain new vm1 where s: "handleUpdate hk vm t now u = Inr (new, vm1)" "node_ready hk us vm1"
      "\<forall>n. history_seqs (vm_history vm1) n = (if n = NodeID u then insert (Seq u) (history_seqs (vm_history vm) n) else history_seqs (vm_history vm) n)"
    using handleUpdate_ready [OF Cons.prems(1), of u t now] Cons.prems(3) x by auto
  obtain rest where r: "updateSequential hk vm1 xs = Inr (rest, vm')" "applied = (if new then u # rest else rest)"
    using Cons.prems(4) s(1) x by (auto simp: bind_res_Inr_iff)
  have "msg ` set rest = {m \<in> msg ` upd ` set xs. unseen vm1 m}"
    using updateSequential_ready [OF s(2) Cons.prems(2), of xs] Cons.prems(3) r(1) by auto
  moreover have "\<not> unseen vm1 (msg u)" using s(3) by (auto simp: unseen_def)
  ultimately have "msg u \<notin> msg ` set rest" by blast
  moreover have "distinct (map msg rest)" using Cons.IH [OF s(2) Cons.prems(2) _ r(1)] Cons.prems(3) by simp
  ultimately show ?case using r(2) by simp
qed simp

text \<open>On a ready node the outcome for a key depends only on the set of updates.\<close>

lemma key_fold_cong:
  assumes "node_ready hk us vm" "set as = set bs" "set as \<subseteq> set us"
  shows "fold ent.opt_absorb (updates_of k as) (key_view hk vm k) = fold ent.opt_absorb (updates_of k bs) (key_view hk vm k)"
proof (cases "updates_of k as")
  case Nil
  then have "\<forall>u \<in> set as. Key u \<noteq> k" by (auto simp: updates_of_def filter_empty_conv)
  then have "updates_of k bs = []" unfolding assms(2) by (auto simp: updates_of_def)
  with Nil show ?thesis by simp
next
  case (Cons u0 us0)
  let ?U = "updates_of k us"
  have "u0 \<in> set us" "Key u0 = k" using Cons updates_of_iff [of u0 k as] assms(3) by auto
  then have kr: "key_ready hk us vm k" using assms(1) unfolding node_ready_def list_all_iff by blast
  then have c: "coherent ?U" by (simp add: key_ready_def)
  have "ent.opt_ok ?U (key_view hk vm k)"
    using kr by (auto simp: key_ready_def key_view_def entry_ready_def ent.gen_ok_def entry_view_def split: option.splits)
  then show ?thesis using c assms(2,3) by (intro ent.opt.deliver_converge [of ?U]) auto
qed

text \<open>The digest of a live entry is a function of its visible state.\<close>

lemma view_digest: "crdt_view c = crdt_view d \<Longrightarrow> crdt_Hash c = crdt_Hash d"
  by (cases c; cases d) (auto simp: PNCounter_Hash_def getHash_def LWWHLCRegister_Hash_def)

lemma entry_view_digest:
  "entry_view a = entry_view b \<Longrightarrow> \<not> entTombstone a \<Longrightarrow> entry_digest a = entry_digest b"
  using view_digest [of "entObject a" "entObject b"] by (auto simp: entry_view_def entry_digest_def split: if_splits)

definition digests_ok :: "(string \<Rightarrow> u64) \<Rightarrow> VersionManager \<Rightarrow> bool" where
  "digests_ok hk vm \<longleftrightarrow> (\<forall>k ent. GetRaw hk (vm_engine vm) k = Some ent \<longrightarrow>
     map_option km_hash (key_meta vm k) = Some (entry_digest ent))"

lemma handleUpdate_digests:
  assumes "node_ready hk us vm" "msg u \<in> set us" "digests_ok hk vm" "handleUpdate hk vm t now u = Inr (new, vm')"
  shows "digests_ok hk vm'"
proof -
  have wf: "vm_wf hk vm" "Seq (msg u) \<noteq> - 1" and kr: "key_ready hk us vm (Key (msg u))"
    using assms(1,2) unfolding node_ready_def list_all_iff by blast+
  have "well_formed_update (msg u)" using kr assms(2) coherentD(1) [of "updates_of (Key u) us"] by (auto simp: key_ready_def)
  then obtain d where d: "Payload u = Some d" "known_type u" by (auto simp: well_formed_update_def known_type_def)
  from handleUpdate_total [OF wf(1) d, of t now] wf(2) assms(4)
  have *: "(\<not> new \<longrightarrow> vm_engine vm' = vm_engine vm \<and> key_meta vm' = key_meta vm)
      \<and> (\<forall>k. k \<noteq> Key u \<longrightarrow> GetRaw hk (vm_engine vm') k = GetRaw hk (vm_engine vm) k \<and> key_meta vm' k = key_meta vm k)
      \<and> (new \<longrightarrow> (\<forall>ent. GetRaw hk (vm_engine vm') (Key u) = Some ent \<longrightarrow>
         (\<exists>m. key_meta vm' (Key u) = Some m \<and> km_hash m = entry_digest ent)))" by auto
  show ?thesis unfolding digests_ok_def
  proof (intro allI impI)
    fix k ent assume g: "GetRaw hk (vm_engine vm') k = Some ent"
    show "map_option km_hash (key_meta vm' k) = Some (entry_digest ent)"
      using * g assms(3) by (cases "k = Key u"; cases new) (auto simp: digests_ok_def)
  qed
qed

lemma updateSequential_digests:
  "node_ready hk us vm \<Longrightarrow> msg ` upd ` set xs \<subseteq> set us \<Longrightarrow> digests_ok hk vm \<Longrightarrow>
   updateSequential hk vm xs = Inr (applied, vm') \<Longrightarrow> digests_ok hk vm'"
proof (induction xs arbitrary: vm applied)
  case (Cons x xs)
  obtain t now u where x: "x = (t, now, u)" by (cases x)
  have u: "msg u \<in> set us" using Cons.prems(2) x by auto
  obtain new vm1 where s: "handleUpdate hk vm t now u = Inr (new, vm1)" "node_ready hk us vm1"
    using handleUpdate_ready [OF Cons.prems(1) u, of t now] by blast
  obtain rest where "updateSequential hk vm1 xs = Inr (rest, vm')"
    using Cons.prems(4) x s(1) by (cases "updateSequential hk vm1 xs") auto
  with Cons.IH [OF s(2) _ handleUpdate_digests [OF Cons.prems(1) u Cons.prems(3) s(1)]] Cons.prems(2) show ?case by auto
qed simp



section \<open>Early deletes\<close>

lemma fresh_handle:
  assumes "vm_wf hk vm" "Seq u \<noteq> - 1" "unseen vm u" "Payload u = Some d" "known_type u"
  shows "\<exists>h vm'. handleUpdate hk vm t now u = Inr (True, vm') \<and> vm_wf hk vm' \<and> vm_history vm' = h
    \<and> apply_to_engine hk (vm\<lparr>vm_history := h\<rparr>) t now u = Inr (True, vm') \<and> vm_wf hk (vm\<lparr>vm_history := h\<rparr>)
    \<and> (\<forall>n. history_seqs h n = (if n = NodeID u then insert (Seq u) (history_seqs (vm_history vm) n) else history_seqs (vm_history vm) n))"
proof -
  obtain h where h: "handleUpdate hk vm t now u = apply_to_engine hk (vm\<lparr>vm_history := h\<rparr>) t now u" "history_wf h"
      "\<forall>n. history_seqs h n = (if n = NodeID u then insert (Seq u) (history_seqs (vm_history vm) n) else history_seqs (vm_history vm) n)"
    using handleUpdate_new [OF assms(1,2), of t now] assms(3) by (auto simp: unseen_def)
  note wf = vm_wf_history [OF assms(1) h(2)]
  from apply_total [OF wf assms(4,5), of t now] h wf show ?thesis by auto
qed

lemma absent_delete:
  assumes "vm_wf hk vm" "Seq w \<noteq> - 1" "unseen vm w" "Payload w = Some e" "is_delete w"
    and "GetRaw hk (vm_engine vm) (Key w) = None"
  shows "\<exists>vm'. handleUpdate hk vm t now w = Inr (True, vm') \<and> vm_wf hk vm' \<and> vm_engine vm' = vm_engine vm
    \<and> (\<forall>n. history_seqs (vm_history vm') n = (if n = NodeID w then insert (Seq w) (history_seqs (vm_history vm) n) else history_seqs (vm_history vm) n))"
proof -
  have kt: "known_type w" using assms(5) by (simp add: known_type_def is_delete_def)
  obtain h vm' where h: "handleUpdate hk vm t now w = Inr (True, vm')" "vm_wf hk vm'" "vm_history vm' = h"
      "apply_to_engine hk (vm\<lparr>vm_history := h\<rparr>) t now w = Inr (True, vm')" "vm_wf hk (vm\<lparr>vm_history := h\<rparr>)"
      "\<forall>n. history_seqs h n = (if n = NodeID w then insert (Seq w) (history_seqs (vm_history vm) n) else history_seqs (vm_history vm) n)"
    using fresh_handle [OF assms(1-4) kt] by blast
  from apply_absent [OF h(5) _ assms(4), of t now] assms(5,6) h show ?thesis by (auto simp: is_delete_def)
qed

lemma absent_create:
  assumes "vm_wf hk vm" "Seq u \<noteq> - 1" "unseen vm u" "Payload u = Some d" "known_type u" "\<not> is_delete u"
    and "GetRaw hk (vm_engine vm) (Key u) = None"
  shows "\<exists>vm' ent. handleUpdate hk vm t now u = Inr (True, vm') \<and> vm_wf hk vm'
    \<and> GetRaw hk (vm_engine vm') (Key u) = Some ent \<and> \<not> entTombstone ent \<and> entSetTimeStamp ent = SetTimeStamp u
    \<and> (\<forall>n. history_seqs (vm_history vm') n = (if n = NodeID u then insert (Seq u) (history_seqs (vm_history vm) n) else history_seqs (vm_history vm) n))"
proof -
  obtain h vm' where h: "handleUpdate hk vm t now u = Inr (True, vm')" "vm_wf hk vm'" "vm_history vm' = h"
      "apply_to_engine hk (vm\<lparr>vm_history := h\<rparr>) t now u = Inr (True, vm')" "vm_wf hk (vm\<lparr>vm_history := h\<rparr>)"
      "\<forall>n. history_seqs h n = (if n = NodeID u then insert (Seq u) (history_seqs (vm_history vm) n) else history_seqs (vm_history vm) n)"
    using fresh_handle [OF assms(1-5)] by blast
  obtain ent where ent: "CreateFromUpdate (vm_nodeID vm) t u = Inr ent" "\<not> entTombstone ent" "entSetTimeStamp ent = SetTimeStamp u"
    using CreateFromUpdate_total [OF assms(4), of "vm_nodeID vm" t] by blast
  have "GetRaw hk (vm_engine vm') (Key u) = Some ent"
    using apply_absent [OF h(5) _ assms(4), of t now] assms(6,7) h(4) ent(1) by (auto simp: is_delete_def)
  with h ent show ?thesis by blast
qed

lemma present_delete:
  assumes "vm_wf hk vm" "Seq w \<noteq> - 1" "unseen vm w" "Payload w = Some e" "is_delete w"
    and "GetRaw hk (vm_engine vm) (Key w) = Some ent" "entSetTimeStamp ent \<le> TimeStamp w"
  shows "\<exists>vm'. handleUpdate hk vm t now w = Inr (True, vm') \<and> eng_Get hk (vm_engine vm') (Key w) = None"
proof -
  have kt: "known_type w" using assms(5) by (simp add: known_type_def is_delete_def)
  obtain h vm' where h: "handleUpdate hk vm t now w = Inr (True, vm')"
      "apply_to_engine hk (vm\<lparr>vm_history := h\<rparr>) t now w = Inr (True, vm')" "vm_wf hk (vm\<lparr>vm_history := h\<rparr>)"
    using fresh_handle [OF assms(1-4) kt] by blast
  let ?e = "ent\<lparr>entTombstone := True, entSetTimeStamp := SetTimeStamp w\<rparr>"
  have a: "ApplyUpdate (vm_nodeID vm) t ent w = Inr (res_modified, ?e)"
    using assms(5,7) by (simp add: ApplyUpdate_def applyDelete_def is_delete_def ts_simps not_less)
  have "crdt_ok (entObject ?e)" using assms(1,6) by (auto simp: vm_wf_def)
  then have "GetRaw hk (vm_engine vm') (Key w) = Some ?e"
    using apply_existing [OF h(3), of w ent t res_modified ?e now] assms(6) a h(2) by auto
  with h show ?thesis by (simp add: eng_Get_def)
qed

text \<open>C19. A delete that arrives before the key is lost: a node that has no entry for the key reports the delete
  as applied, records its number and stores nothing. When the older update that creates the key arrives
  next, the key is alive, and it stays so when the delete is delivered again, because its number was
  already seen. A node that receives the two updates in the order they were issued ends with the key
  deleted.\<close>

theorem early_delete_lost:
  assumes "vm_wf hk vm" "GetRaw hk (vm_engine vm) (Key u) = None" "Key w = Key u"
    and "is_delete w" "Payload w = Some e" "\<not> is_delete u" "known_type u" "Payload u = Some d"
    and "unseen vm u" "unseen vm w" "Seq u \<noteq> - 1" "Seq w \<noteq> - 1" "(NodeID u, Seq u) \<noteq> (NodeID w, Seq w)"
    and "SetTimeStamp u < SetTimeStamp w" "SetTimeStamp w \<le> TimeStamp w"
  shows "(\<exists>vm'. updateSequential hk vm [(t1, n1, w), (t2, n2, u)] = Inr ([w, u], vm') \<and> eng_Get hk (vm_engine vm') (Key u) \<noteq> None
      \<and> (\<exists>vm''. handleUpdate hk vm' t3 n3 w = Inr (False, vm'') \<and> vm_engine vm'' = vm_engine vm'))
    \<and> (\<exists>wm'. updateSequential hk vm [(t2, n2, u), (t1, n1, w)] = Inr ([u, w], wm') \<and> eng_Get hk (vm_engine wm') (Key u) = None)"
proof
  obtain vm1 where v1: "handleUpdate hk vm t1 n1 w = Inr (True, vm1)" "vm_wf hk vm1" "vm_engine vm1 = vm_engine vm"
      "\<forall>n. history_seqs (vm_history vm1) n = (if n = NodeID w then insert (Seq w) (history_seqs (vm_history vm) n) else history_seqs (vm_history vm) n)"
    using absent_delete [OF assms(1,12,10,5,4), of t1 n1] assms(2,3) by auto
  have un: "unseen vm1 u" using v1(4) assms(9,13) by (auto simp: unseen_def)
  obtain vm' ent where v2: "handleUpdate hk vm1 t2 n2 u = Inr (True, vm')" "vm_wf hk vm'"
      "GetRaw hk (vm_engine vm') (Key u) = Some ent" "\<not> entTombstone ent"
      "\<forall>n. history_seqs (vm_history vm') n = (if n = NodeID u then insert (Seq u) (history_seqs (vm_history vm1) n) else history_seqs (vm_history vm1) n)"
    using absent_create [OF v1(2) assms(11) un assms(8,7,6), of t2 n2] assms(2) v1(3) by auto
  have "Seq w \<in> history_seqs (vm_history vm') (NodeID w)" using v1(4) v2(5) by auto
  with handleUpdate_seen [OF v2(2) assms(12), of t3 n3]
  show "\<exists>vm'. updateSequential hk vm [(t1, n1, w), (t2, n2, u)] = Inr ([w, u], vm') \<and> eng_Get hk (vm_engine vm') (Key u) \<noteq> None
      \<and> (\<exists>vm''. handleUpdate hk vm' t3 n3 w = Inr (False, vm'') \<and> vm_engine vm'' = vm_engine vm')"
    using v1(1) v2 by (auto simp: eng_Get_def)
next
  obtain wm1 ent where w1: "handleUpdate hk vm t2 n2 u = Inr (True, wm1)" "vm_wf hk wm1"
      "GetRaw hk (vm_engine wm1) (Key u) = Some ent" "entSetTimeStamp ent = SetTimeStamp u"
      "\<forall>n. history_seqs (vm_history wm1) n = (if n = NodeID u then insert (Seq u) (history_seqs (vm_history vm) n) else history_seqs (vm_history vm) n)"
    using absent_create [OF assms(1,11,9,8,7,6,2), of t2 n2] by blast
  have un: "unseen wm1 w" using w1(5) assms(10,13) by (auto simp: unseen_def)
  have "entSetTimeStamp ent \<le> TimeStamp w" using w1(4) assms(14,15) by order
  with present_delete [OF w1(2) assms(12) un assms(5,4), of ent t1 n1] w1 assms(3)
  show "\<exists>wm'. updateSequential hk vm [(t2, n2, u), (t1, n1, w)] = Inr ([u, w], wm') \<and> eng_Get hk (vm_engine wm') (Key u) = None"
    by auto
qed

theorem early_delete_lost_witness:
  "\<exists>vm'. updateSequential (\<lambda>_. 0) (sample_vm ''n'') [(0, 0, sample_delete 9 ''b''), (0, 0, sample_delta 2 ''a'' 5)]
       = Inr ([sample_delete 9 ''b'', sample_delta 2 ''a'' 5], vm')
     \<and> eng_Get (\<lambda>_. 0) (vm_engine vm') ''k'' \<noteq> None"
proof -
  have s: "SetTimeStamp (sample_delta 2 ''a'' 5) < SetTimeStamp (sample_delete 9 ''b'')"
    "SetTimeStamp (sample_delete 9 ''b'') \<le> TimeStamp (sample_delete 9 ''b'')" by code_simp+
  have p: "Payload (sample_delete 9 ''b'') = Some (CounterDelta zero_PNCounterDelta)" "is_delete (sample_delete 9 ''b'')"
    "\<not> is_delete (sample_delta 2 ''a'' 5)" by (simp_all add: sample_delete_def sample_delta_def is_delete_def)
  from early_delete_lost [OF sample_vm_wf [of "''n''"] sample_vm_simps(1) _ p(2,1,3) sample_update_simps(2,1) _ _ _ _ _ s, of 0 0 0 0 0 0]
  show ?thesis by (auto simp: unseen_def simp del: updateSequential.simps)
qed

end
