(* ===== verification/Updates_Buffer.thy ===== *)
theory Updates_Buffer
  imports Updates Structs_Range
begin

text \<open>
  The buffer of local updates to be gossiped, \<open>pkg/storage/updates_buffer/v3/ring.go\<close>. It keeps updates in an
  LRU cache (\<open>hashicorp/golang-lru\<close>), which is the parameter \<open>L\<close>; \<open>lru_laws\<close> states the documented behaviour of
  that cache. An update holds a pointer to its payload, and a merge changes the payload through that
  pointer, so payloads live in an explicit heap and an update of the buffer refers to one by its address.
  Lemmas: after a put the buffer holds the new update of the key; what a merge does to an update that was
  already handed out; how many updates \<open>RemoveN\<close> removes.
\<close>

section \<open>Payloads and the cache\<close>

type_synonym payload_heap = "delta list"

text \<open>The payload field of \<open>bu_update\<close> is not used; the payload is the object at \<open>bu_payload\<close>.\<close>

record bufupd =
  bu_update :: Update
  bu_payload :: nat

definition fetch :: "payload_heap \<Rightarrow> nat \<Rightarrow> delta option" where
  "fetch h a = (if a < length h then Some (h ! a) else None)"

definition deref :: "payload_heap \<Rightarrow> bufupd \<Rightarrow> Update" where
  "deref h b = (bu_update b)\<lparr>Payload := fetch h (bu_payload b)\<rparr>"

definition alloc :: "payload_heap \<Rightarrow> Update \<Rightarrow> delta \<Rightarrow> bufupd \<times> payload_heap" where
  "alloc h u d = (\<lparr>bu_update = u, bu_payload = length h\<rparr>, h @ [d])"

text \<open>\<open>Get\<close> makes the entry the most recent one, \<open>Values\<close> lists from the oldest to the newest.\<close>

record 'c lru =
  lru_Get :: "'c \<Rightarrow> string \<Rightarrow> bufupd option \<times> 'c"
  lru_Add :: "'c \<Rightarrow> string \<Rightarrow> bufupd \<Rightarrow> 'c"
  lru_Values :: "'c \<Rightarrow> bufupd list"
  lru_RemoveOldest :: "'c \<Rightarrow> 'c"
  lru_Len :: "'c \<Rightarrow> nat"

section \<open>The buffer\<close>

definition cacheKey :: "Update \<Rightarrow> string" where
  "cacheKey u = Key u @ '':'' @ NodeID u"

text \<open>\<open>Update.Merge\<close> on an update whose payload is shared: a merge of payloads changes the object in place.\<close>

definition ref_Merge :: "payload_heap \<Rightarrow> bufupd \<Rightarrow> bufupd \<Rightarrow> go_error + bufupd \<times> payload_heap" where
  "ref_Merge h b new =
     (let u = bu_update b; w = bu_update new
      in if Key u \<noteq> Key w then Inl ErrCannotMerge
         else if NodeID u \<noteq> NodeID w then Inl ErrCannotMerge
         else bind_res
           (if UType u = UpdateTypeSet \<or> UType u = UpdateTypeDelete
            then Inr (\<lparr>bu_update = u\<lparr>UType := UType w\<rparr>, bu_payload = bu_payload new\<rparr>, h)
            else case payload_Merge (fetch h (bu_payload b)) (fetch h (bu_payload new)) of
                Inl e \<Rightarrow> Inl (cannot_merge e)
              | Inr None \<Rightarrow> Inr (b, h)
              | Inr (Some d) \<Rightarrow> Inr (b, h[bu_payload b := d]))
           (\<lambda>(b', h'). Inr (b'\<lparr>bu_update := (bu_update b')\<lparr>Seq := Seq w, TimeStamp := TimeStamp w\<rparr>\<rparr>, h')))"

fun rb_Put :: "'c lru \<Rightarrow> payload_heap \<Rightarrow> 'c \<Rightarrow> bufupd list \<Rightarrow> go_error + 'c \<times> payload_heap" where
  "rb_Put L h c [] = Inr (c, h)"
| "rb_Put L h c (newUpd # updates) =
     (let k = cacheKey (bu_update newUpd); (hit, c1) = lru_Get L c k
      in case hit of
           None \<Rightarrow> rb_Put L h (lru_Add L c1 k newUpd) updates
         | Some upd \<Rightarrow>
             (case ref_Merge h upd newUpd of
                Inl (Panic p) \<Rightarrow> Inl (Panic p)
              | Inl err \<Rightarrow> rb_Put L h c1 updates
              | Inr (merged, h') \<Rightarrow> rb_Put L h' (lru_Add L (lru_Add L c1 k merged) k newUpd) updates))"

text \<open>The loop of \<open>PeekN\<close> stops when the slice has exactly \<open>n\<close> elements; for \<open>n = 0\<close> it never does.\<close>

definition rb_PeekN :: "'c lru \<Rightarrow> 'c \<Rightarrow> int \<Rightarrow> go_error + bufupd list" where
  "rb_PeekN L c n =
     (if n < 0 then Inl (Panic MakeNegativeLen)
      else if n = 0 then Inr (lru_Values L c)
      else Inr (take (nat n) (lru_Values L c)))"

function removeN_loop :: "'c lru \<Rightarrow> 'c \<Rightarrow> nat \<Rightarrow> nat \<Rightarrow> int \<Rightarrow> nat \<times> 'c" where
  "removeN_loop L c i removed n =
     (if i < lru_Len L c \<and> int removed < n then removeN_loop L (lru_RemoveOldest L c) (i + 1) (removed + 1) n
      else (removed, c))"
  by pat_completeness auto
termination by (relation "measure (\<lambda>(L, c, i, removed, n). nat (n - int removed))") auto

declare removeN_loop.simps [simp del]

definition rb_RemoveN :: "'c lru \<Rightarrow> 'c \<Rightarrow> int \<Rightarrow> nat \<times> 'c" where
  "rb_RemoveN L c n = removeN_loop L c 0 0 n"

definition rb_Len :: "'c lru \<Rightarrow> 'c \<Rightarrow> nat" where
  "rb_Len L c = lru_Len L c"

text \<open>\<open>lru.New\<close> refuses a size that is not positive, and the constructor panics then; \<open>newLRU\<close> makes the cache.
  Two methods of the interface were given up.\<close>

definition NewUpdatesBuffer :: "(nat \<Rightarrow> 'c) \<Rightarrow> int \<Rightarrow> go_error + 'c" where
  "NewUpdatesBuffer newLRU sz = (if sz \<le> 0 then Inl (Panic (ExplicitPanic ''must provide a positive size'')) else Inr (newLRU (nat sz)))"

definition rb_Get :: "'c \<Rightarrow> string \<Rightarrow> string \<Rightarrow> go_error + bufupd list \<times> bool" where
  "rb_Get c key nid = Inl (Panic (ExplicitPanic ''deprecated, cannot be used''))"

definition rb_GetCovering :: "'c \<Rightarrow> string \<Rightarrow> Range \<Rightarrow> go_error + bufupd list" where
  "rb_GetCovering c nid r = Inl (Panic (ExplicitPanic ''deprecated, cannot be used''))"

section \<open>What the cache promises\<close>

definition evict :: "nat \<Rightarrow> 'a list \<Rightarrow> 'a list" where
  "evict cap xs = drop (length xs - cap) xs"

definition without :: "string \<Rightarrow> (string \<times> 'a) list \<Rightarrow> (string \<times> 'a) list" where
  "without k xs = filter (\<lambda>x. fst x \<noteq> k) xs"

definition lru_laws :: "'c lru \<Rightarrow> ('c \<Rightarrow> (string \<times> bufupd) list) \<Rightarrow> nat \<Rightarrow> bool" where
  "lru_laws L entries cap \<longleftrightarrow>
     (\<forall>c k. fst (lru_Get L c k) = map_of (entries c) k
        \<and> entries (snd (lru_Get L c k))
            = (case map_of (entries c) k of None \<Rightarrow> entries c | Some v \<Rightarrow> without k (entries c) @ [(k, v)]))
     \<and> (\<forall>c k v. entries (lru_Add L c k v) = evict cap (without k (entries c) @ [(k, v)]))
     \<and> (\<forall>c. lru_Values L c = map snd (entries c))
     \<and> (\<forall>c. entries (lru_RemoveOldest L c) = tl (entries c))
     \<and> (\<forall>c. lru_Len L c = length (entries c))"

text \<open>A cache that is its list of entries satisfies the laws.\<close>

definition list_lru :: "nat \<Rightarrow> (string \<times> bufupd) list lru" where
  "list_lru cap = \<lparr>
     lru_Get = (\<lambda>c k. (map_of c k, case map_of c k of None \<Rightarrow> c | Some v \<Rightarrow> without k c @ [(k, v)])),
     lru_Add = (\<lambda>c k v. evict cap (without k c @ [(k, v)])),
     lru_Values = map snd, lru_RemoveOldest = tl, lru_Len = length\<rparr>"

lemma list_lru_laws: "lru_laws (list_lru cap) (\<lambda>c. c) cap"
  by (simp add: lru_laws_def list_lru_def)

lemma lru_lawsD:
  assumes "lru_laws L entries cap"
  shows "fst (lru_Get L c k) = map_of (entries c) k"
    "entries (snd (lru_Get L c k)) = (case map_of (entries c) k of None \<Rightarrow> entries c | Some v \<Rightarrow> without k (entries c) @ [(k, v)])"
    "entries (lru_Add L c k v) = evict cap (without k (entries c) @ [(k, v)])"
    "lru_Values L c = map snd (entries c)" "entries (lru_RemoveOldest L c) = tl (entries c)" "lru_Len L c = length (entries c)"
  using assms unfolding lru_laws_def by blast+

section \<open>Removing\<close>

lemma removeN_loop_drop:
  assumes "lru_laws L entries cap"
  shows "removeN_loop L c i i n = (removed, c') \<Longrightarrow>
    removed = i + min ((length (entries c) + 1 - i) div 2) (nat (n - int i)) \<and> entries c' = drop (removed - i) (entries c)"
proof (induction "nat (n - int i)" arbitrary: c i)
  case 0
  then show ?case by (simp add: removeN_loop.simps [of L c])
next
  case (Suc m)
  note laws = lru_lawsD [OF assms]
  show ?case
  proof (cases "i < length (entries c)")
    case True
    have lt: "int i < n" using Suc(2) by linarith
    then have step: "removeN_loop L (lru_RemoveOldest L c) (Suc i) (Suc i) n = (removed, c')"
      using Suc.prems(1) True by (simp add: removeN_loop.simps [of L c] laws)
    have m: "m = nat (n - int (Suc i))" using Suc(2) by linarith
    have len: "length (entries (lru_RemoveOldest L c)) = length (entries c) - 1" by (simp add: laws)
    from Suc(1) [OF m step] have ih: "removed = Suc i + min ((length (entries c) - 1 + 1 - Suc i) div 2) m"
        "entries c' = drop (removed - Suc i) (tl (entries c))" by (simp_all add: len laws m)
    have "(length (entries c) + 1 - i) div 2 = Suc ((length (entries c) - 1 + 1 - Suc i) div 2)" using True by linarith
    moreover have "nat (n - int i) = Suc m" using Suc(2) by simp
    ultimately have "removed = i + min ((length (entries c) + 1 - i) div 2) (nat (n - int i))" using ih(1) by simp
    moreover have "entries c' = drop (removed - i) (entries c)" using ih by (simp add: drop_Suc Suc_diff_Suc drop_tl)
    ultimately show ?thesis by simp
  next
    case False
    then show ?thesis using Suc.prems(1) by (simp add: removeN_loop.simps [of L c] laws)
  qed
qed

text \<open>\<open>RemoveN\<close> removes at most half of the buffer: its loop compares a growing index with a length that shrinks
  with every removal, so a call that should drop the \<open>n\<close> updates that were just handed to gossip removes
  the oldest \<open>min n \<lceil>len / 2\<rceil>\<close> of them; the others stay and are sent again.\<close>

lemma RemoveN_removes_half:
  assumes "lru_laws L entries cap" "rb_RemoveN L c n = (removed, c')"
  shows "removed = min ((length (entries c) + 1) div 2) (nat n) \<and> entries c' = drop removed (entries c)"
  using removeN_loop_drop [OF assms(1), of c 0 n removed c'] assms(2) by (simp add: rb_RemoveN_def)

section \<open>Putting\<close>

lemma map_of_without: "map_of (without k xs) k' = (if k' = k then None else map_of xs k')"
  by (induction xs) (auto simp: without_def)

lemma length_evict: "length (evict cap xs) = min (length xs) cap"
  by (simp add: evict_def min_def)

lemma evict_last: "0 < cap \<Longrightarrow> \<exists>ys. evict cap (xs @ [x]) = ys @ [x] \<and> set ys \<subseteq> set xs"
  by (intro exI [of _ "drop (length xs + 1 - cap) xs"]) (auto simp: evict_def dest: in_set_dropD)

lemma distinct_without: "distinct (map fst xs) \<Longrightarrow> distinct (map fst (without k xs @ [(k, v)]))"
  by (auto simp: without_def distinct_map_filter)

lemma distinct_evict: "distinct (map fst xs) \<Longrightarrow> distinct (map fst (evict cap xs))"
  by (simp add: evict_def drop_map [symmetric])

text \<open>What one \<open>Add\<close> does to the entries, as a map.\<close>

lemma add_lookup:
  assumes "0 < cap" "distinct (map fst xs)"
  shows "map_of (evict cap (without k xs @ [(k, v)])) k = Some v
    \<and> (\<forall>k'. k' \<noteq> k \<longrightarrow> map_of (evict cap (without k xs @ [(k, v)])) k' \<in> {None, map_of xs k'})"
proof -
  let ?e = "evict cap (without k xs @ [(k, v)])"
  have d: "distinct (map fst ?e)" using distinct_evict [OF distinct_without [OF assms(2)]] .
  obtain ys where ys: "?e = ys @ [(k, v)]" "set ys \<subseteq> set (without k xs)" using evict_last [OF assms(1), of "without k xs" "(k, v)"] by blast
  have "map_of ?e k' \<in> {None, map_of xs k'}" if "k' \<noteq> k" for k'
  proof (cases "map_of ?e k'")
    case (Some w)
    then have "(k', w) \<in> set ?e" by (rule map_of_SomeD)
    then have "(k', w) \<in> set xs" using ys that by (auto simp: without_def)
    with assms(2) Some show ?thesis by simp
  qed simp
  moreover have "(k, v) \<in> set ?e" using ys(1) by simp
  then have "map_of ?e k = Some v" using d by simp
  ultimately show ?thesis by blast
qed

definition stored :: "('c \<Rightarrow> (string \<times> bufupd) list) \<Rightarrow> 'c \<Rightarrow> string \<Rightarrow> bufupd option" where
  "stored entries c k = map_of (entries c) k"

lemma put_hit_entries:
  assumes "lru_laws L entries cap" "0 < cap" "distinct (map fst (entries c))"
    and "lru_Get L c k = (hit, c1)" "hit \<noteq> None"
  shows "stored entries (lru_Add L (lru_Add L c1 k m) k b) k = Some b
    \<and> (\<forall>k'. k' \<noteq> k \<longrightarrow> stored entries (lru_Add L (lru_Add L c1 k m) k b) k' \<in> {None, stored entries c k'})"
proof -
  note laws = lru_lawsD [OF assms(1)]
  have hit: "map_of (entries c) k = hit" "entries c1 = without k (entries c) @ [(k, the hit)]"
    using assms(4,5) laws(1) [of c k] laws(2) [of c k] by auto
  have d1: "distinct (map fst (entries c1))" using hit(2) distinct_without [OF assms(3)] by simp
  have c1: "map_of (entries c1) k' = map_of (entries c) k'" for k'
    using hit assms(5) by (auto simp: map_add_def map_of_without split: option.splits)
  have a1: "entries (lru_Add L c1 k m) = evict cap (without k (entries c1) @ [(k, m)])" by (rule laws)
  then have d2: "distinct (map fst (entries (lru_Add L c1 k m)))" using distinct_evict [OF distinct_without [OF d1]] by simp
  have s1: "\<forall>k'. k' \<noteq> k \<longrightarrow> map_of (entries (lru_Add L c1 k m)) k' \<in> {None, map_of (entries c1) k'}"
    using add_lookup [OF assms(2) d1, of k m] a1 by simp
  have s2: "map_of (entries (lru_Add L (lru_Add L c1 k m) k b)) k = Some b"
      "\<forall>k'. k' \<noteq> k \<longrightarrow> map_of (entries (lru_Add L (lru_Add L c1 k m) k b)) k' \<in> {None, map_of (entries (lru_Add L c1 k m)) k'}"
    using add_lookup [OF assms(2) d2, of k b] laws(3) by simp_all
  show ?thesis unfolding stored_def using s1 s2 unfolding c1 insert_iff empty_iff by metis
qed

lemma rb_Put_latest:
  assumes "lru_laws L entries cap" "0 < cap" "distinct (map fst (entries c))"
    and "\<forall>upd. stored entries c (cacheKey (bu_update b)) = Some upd \<longrightarrow> (\<exists>r. ref_Merge h upd b = Inr r)"
  shows "\<exists>c' h'. rb_Put L h c [b] = Inr (c', h') \<and> stored entries c' (cacheKey (bu_update b)) = Some b
    \<and> (\<forall>k. k \<noteq> cacheKey (bu_update b) \<longrightarrow> stored entries c' k \<in> {None, stored entries c k})"
proof -
  let ?k = "cacheKey (bu_update b)"
  note laws = lru_lawsD [OF assms(1)]
  obtain hit c1 where g: "lru_Get L c ?k = (hit, c1)" by fastforce
  have hit: "hit = stored entries c ?k" using laws(1) [of c ?k] g by (simp add: stored_def)
  show ?thesis
  proof (cases hit)
    case None
    then have "entries c1 = entries c" using laws(2) [of c ?k] g hit by (simp add: stored_def)
    then have "entries (lru_Add L c1 ?k b) = evict cap (without ?k (entries c) @ [(?k, b)])" by (simp add: laws)
    with add_lookup [OF assms(2,3), of ?k b] g None show ?thesis by (simp add: stored_def)
  next
    case (Some upd)
    then obtain m h' where "ref_Merge h upd b = Inr (m, h')" using assms(4) hit by fastforce
    with put_hit_entries [OF assms(1-3) g, of m b] g Some show ?thesis by (simp add: Let_def)
  qed
qed

text \<open>The delta of an increment of node \<open>n\<close> to the total \<open>p\<close>, and of a decrement.\<close>

definition inc_delta :: "string \<Rightarrow> i64 \<Rightarrow> delta" where
  "inc_delta n p = CounterDelta \<lparr>dP = Some (fmupd n p fmempty), dN = None\<rparr>"

definition dec_delta :: "string \<Rightarrow> i64 \<Rightarrow> delta" where
  "dec_delta n p = CounterDelta \<lparr>dP = None, dN = Some (fmupd n p fmempty)\<rparr>"

lemma fm_entries_single [simp]: "fm_entries (fmupd k v fmempty) = [(k, v)]"
  by (simp add: fm_entries_def sorted_list_of_fset.rep_eq)

lemma fm_entries_empty [simp]: "fm_entries fmempty = []"
  by (simp add: fm_entries_Nil_iff)

lemma merge_inc_inc: "payload_Merge (Some (inc_delta n p)) (Some (inc_delta n q)) = Inr (Some (inc_delta n (p + q)))"
proof -
  have "fmupd n (p + q) (fmupd n p fmempty) = fmupd n (p + q) fmempty" by (rule fmap_ext) simp
  then show ?thesis by (simp add: inc_delta_def PNCounterDelta_Merge_def fm_get_def)
qed

lemma merge_inc_dec: "payload_Merge (Some (inc_delta n p)) (Some (dec_delta n q)) = Inl (Panic NilMapWrite)"
  by (simp add: inc_delta_def dec_delta_def PNCounterDelta_Merge_def add_into_None)

definition same_slot :: "bufupd \<Rightarrow> bufupd \<Rightarrow> bool" where
  "same_slot b new \<longleftrightarrow> Key (bu_update b) = Key (bu_update new) \<and> NodeID (bu_update b) = NodeID (bu_update new)
     \<and> UType (bu_update b) = UpdateTypeDelta"

lemma ref_Merge_delta:
  assumes "same_slot b new"
  shows "ref_Merge h b new = (case payload_Merge (fetch h (bu_payload b)) (fetch h (bu_payload new)) of
      Inl e \<Rightarrow> Inl (cannot_merge e)
    | Inr None \<Rightarrow> Inr (b\<lparr>bu_update := (bu_update b)\<lparr>Seq := Seq (bu_update new), TimeStamp := TimeStamp (bu_update new)\<rparr>\<rparr>, h)
    | Inr (Some d) \<Rightarrow> Inr (b\<lparr>bu_update := (bu_update b)\<lparr>Seq := Seq (bu_update new), TimeStamp := TimeStamp (bu_update new)\<rparr>\<rparr>, h[bu_payload b := d]))"
  using assms by (auto simp: ref_Merge_def same_slot_def Let_def UpdateTypes split: sum.split option.split)

text \<open>An update that was handed to gossip can still change: the updates of \<open>PeekN\<close> share their payloads with
  the buffer. When node \<open>n\<close> increments a key again while its previous increment is still in the buffer,
  \<open>Put\<close> adds the new total to the old total inside the payload that was handed out, and a replica that
  receives it counts both, \<open>p + q\<close>, although the node's total is \<open>q\<close>. If the second operation is a
  decrement, \<open>Put\<close> panics.\<close>

lemma handed_out_update_changes:
  assumes "lru_laws L entries cap" "0 < cap" "distinct (map fst (entries c))"
    and "stored entries c (cacheKey (bu_update new)) = Some b" "same_slot b new" "bu_payload b \<noteq> bu_payload new"
    and "fetch h (bu_payload b) = Some (inc_delta n p)"
  shows "(fetch h (bu_payload new) = Some (inc_delta n q) \<longrightarrow>
      (\<exists>c' h'. rb_Put L h c [new] = Inr (c', h') \<and> stored entries c' (cacheKey (bu_update new)) = Some new
        \<and> Payload (deref h' b) = Some (inc_delta n (p + q)) \<and> Payload (deref h' new) = Some (inc_delta n q)))
    \<and> (fetch h (bu_payload new) = Some (dec_delta n q) \<longrightarrow> rb_Put L h c [new] = Inl (Panic NilMapWrite))"
proof -
  let ?k = "cacheKey (bu_update new)"
  obtain hit c1 where g: "lru_Get L c ?k = (hit, c1)" by fastforce
  have hit: "hit = Some b" using lru_lawsD(1) [OF assms(1), of c ?k] g assms(4) by (simp add: stored_def)
  have a: "bu_payload b < length h" using assms(7) by (auto simp: fetch_def split: if_splits)
  have dec: "rb_Put L h c [new] = Inl (Panic NilMapWrite)" if "fetch h (bu_payload new) = Some (dec_delta n q)"
    using g hit that assms(7) by (simp add: ref_Merge_delta [OF assms(5)] merge_inc_dec Let_def del: payload_Merge.simps)
  have inc: "\<exists>c' h'. rb_Put L h c [new] = Inr (c', h') \<and> stored entries c' ?k = Some new
        \<and> Payload (deref h' b) = Some (inc_delta n (p + q)) \<and> Payload (deref h' new) = Some (inc_delta n q)"
    if second: "fetch h (bu_payload new) = Some (inc_delta n q)"
  proof -
    let ?h = "h[bu_payload b := inc_delta n (p + q)]"
    obtain m where m: "ref_Merge h b new = Inr (m, ?h)"
      using second assms(7) by (simp add: ref_Merge_delta [OF assms(5)] merge_inc_inc del: payload_Merge.simps)
    have "fetch ?h (bu_payload b) = Some (inc_delta n (p + q))" "fetch ?h (bu_payload new) = Some (inc_delta n q)"
      using a second assms(6) by (auto simp: fetch_def split: if_splits)
    with put_hit_entries [OF assms(1-3) g, of m new] g hit m show ?thesis by (simp add: deref_def Let_def)
  qed
  from inc dec show ?thesis by blast
qed

definition sample_bufupd :: "u64 \<Rightarrow> nat \<Rightarrow> bufupd" where
  "sample_bufupd sq a = \<lparr>bu_update = zero_Update\<lparr>Seq := sq, Key := ''k'', NodeID := ''n'', UType := UpdateTypeDelta\<rparr>, bu_payload = a\<rparr>"

end
