(* ===== verification/Wal.thy ===== *)
theory Wal
  imports Updates
begin

unbundle bit_operations_syntax

text \<open>
  The write-ahead log, \<open>pkg/storage/wal/v2/wal.go\<close> and \<open>keygen.go\<close>, and the log that keeps nothing,
  \<open>wal/noop/noop.go\<close>. The segment files are those of \<open>kestfor/gowal\<close>, which is the parameter \<open>G\<close>; \<open>gowal_laws\<close>
  states what the log relies on. Values are JSON documents. Lemmas: record indices are unique up to 8192
  nodes and \<open>2\<^sup>5\<^sup>1\<close> numbers; what was appended is on disk in order, but for less than a batch; replaying a
  closed log gives the appended updates whose segments were not deleted, which are all as long as they fit.
\<close>

section \<open>Indices\<close>

definition stringBits :: nat where "stringBits = 13"
definition idMask :: u64 where "idMask = push_bit (64 - stringBits) 1 - 1"

type_synonym KeyGen = "(string, u64) fmap"

definition NewKeyGen :: KeyGen where "NewKeyGen = fmempty"

definition pack :: "u64 \<Rightarrow> u64 \<Rightarrow> u64" where
  "pack idx n = push_bit (64 - stringBits) idx OR (n AND idMask)"

definition keySlow :: "KeyGen \<Rightarrow> string \<Rightarrow> u64 \<Rightarrow> u64 \<times> KeyGen" where
  "keySlow m s n =
     (case fmlookup m s of Some idx \<Rightarrow> (pack idx n, m)
      | None \<Rightarrow> let next = of_nat (fcard (fmdom m)) in (pack next n, fmupd s next m))"

definition keygen_Key :: "KeyGen \<Rightarrow> string \<Rightarrow> u64 \<Rightarrow> u64 \<times> KeyGen" where
  "keygen_Key m s n = (case fmlookup m s of Some idx \<Rightarrow> (pack idx n, m) | None \<Rightarrow> keySlow m s n)"

section \<open>The log\<close>

record Record =
  recKey :: string
  recIndex :: u64
  recValue :: json

record 'w gowal =
  gw_WriteBatch :: "'w \<Rightarrow> Record list \<Rightarrow> go_error option \<times> 'w"
  gw_Get :: "'w \<Rightarrow> u64 \<Rightarrow> go_error + string \<times> json"
  gw_Iterator :: "'w \<Rightarrow> Record list"
  gw_Close :: "'w \<Rightarrow> go_error option \<times> 'w"

record 'w walWrapper =
  ww_w :: 'w
  ww_keyGen :: KeyGen
  ww_batch :: "Record list"
  ww_batchSize :: nat
  ww_batchCap :: int

text \<open>The other fields of the configuration say where the files are, whether writes are synced and how often the
  background flush runs. \<open>SegmentThreshold\<close> and \<open>MaxSegmentsNum\<close> go to \<open>gowal.NewWAL\<close>, which returns the log \<open>w\<close>.\<close>

record WalConfig =
  SegmentThreshold :: int
  MaxSegmentsNum :: int
  BatchSize :: int

definition wal_New :: "WalConfig \<Rightarrow> 'w \<Rightarrow> go_error + 'w walWrapper" where
  "wal_New config w =
     (if BatchSize config < 0 then Inl (Panic MakeNegativeLen)
      else Inr \<lparr>ww_w = w, ww_keyGen = NewKeyGen, ww_batch = [], ww_batchSize = 0, ww_batchCap = BatchSize config\<rparr>)"

definition takeBatch :: "'w walWrapper \<Rightarrow> Record list option \<times> 'w walWrapper" where
  "takeBatch ww =
     (if ww_batchSize ww = 0 then (None, ww) else (Some (ww_batch ww), ww\<lparr>ww_batch := [], ww_batchSize := 0\<rparr>))"

definition writeBatch :: "'w gowal \<Rightarrow> 'w walWrapper \<Rightarrow> Record list \<Rightarrow> go_error option \<times> 'w walWrapper" where
  "writeBatch G ww batch = (let (err, w) = gw_WriteBatch G (ww_w ww) batch in (err, ww\<lparr>ww_w := w\<rparr>))"

text \<open>One tick of \<open>backgroundFlush\<close> that finds the last flush old enough; a failed write is only logged.\<close>

definition flush_tick :: "'w gowal \<Rightarrow> 'w walWrapper \<Rightarrow> 'w walWrapper" where
  "flush_tick G ww =
     (case takeBatch ww of (None, ww1) \<Rightarrow> ww1 | (Some batch, ww1) \<Rightarrow> snd (writeBatch G ww1 batch))"

definition Append :: "'w gowal \<Rightarrow> 'w walWrapper \<Rightarrow> Update \<Rightarrow> go_error option \<times> 'w walWrapper" where
  "Append G ww u =
     (case Update_MarshalJSON u of
        Inl err \<Rightarrow> (Some err, ww)
      | Inr doc \<Rightarrow>
          let (idx, kg) = keygen_Key (ww_keyGen ww) (NodeID u) (Seq u);
              record = \<lparr>recKey = NodeID u, recIndex = idx, recValue = doc\<rparr>;
              ww1 = ww\<lparr>ww_keyGen := kg, ww_batch := ww_batch ww @ [record], ww_batchSize := ww_batchSize ww + 1\<rparr>;
              (toFlush, ww2) = (if int (ww_batchSize ww1) \<ge> ww_batchCap ww1 then takeBatch ww1 else (None, ww1))
          in case toFlush of None \<Rightarrow> (None, ww2) | Some batch \<Rightarrow> writeBatch G ww2 batch)"

definition wal_Get :: "'w gowal \<Rightarrow> 'w walWrapper \<Rightarrow> string \<Rightarrow> u64 \<Rightarrow> (go_error + Update) \<times> 'w walWrapper" where
  "wal_Get G ww nid sq =
     (let (walIndex, kg) = keygen_Key (ww_keyGen ww) nid sq; ww1 = ww\<lparr>ww_keyGen := kg\<rparr>
      in case find (\<lambda>r. recIndex r = walIndex) (take (ww_batchSize ww1) (ww_batch ww1)) of
           Some r \<Rightarrow> (Update_UnmarshalJSON (recValue r), ww1)
         | None \<Rightarrow>
             (case gw_Get G (ww_w ww1) walIndex of
                Inl err \<Rightarrow> (Inl ErrNotFound, ww1)
              | Inr (_, val) \<Rightarrow> (Update_UnmarshalJSON val, ww1)))"

text \<open>The callback of the replays changes a state of its caller.\<close>

fun replay_loop :: "string \<Rightarrow> u64 \<Rightarrow> ('s \<Rightarrow> Update \<Rightarrow> go_error option \<times> 's) \<Rightarrow> Record list \<Rightarrow> 's \<Rightarrow> go_error option \<times> 's" where
  "replay_loop nid fromSeq fn [] s = (None, s)"
| "replay_loop nid fromSeq fn (r # rs) s =
     (if recKey r = nid \<and> (recIndex r AND idMask) \<ge> fromSeq
      then case Update_UnmarshalJSON (recValue r) of
             Inl err \<Rightarrow> (Some err, s)
           | Inr u \<Rightarrow> (case fn s u of (Some err, s') \<Rightarrow> (Some err, s') | (None, s') \<Rightarrow> replay_loop nid fromSeq fn rs s')
      else replay_loop nid fromSeq fn rs s)"

definition Replay :: "'w gowal \<Rightarrow> 'w walWrapper \<Rightarrow> string \<Rightarrow> u64 \<Rightarrow> ('s \<Rightarrow> Update \<Rightarrow> go_error option \<times> 's) \<Rightarrow> 's \<Rightarrow> go_error option \<times> 's" where
  "Replay G ww nid fromSeq fn s = replay_loop nid fromSeq fn (gw_Iterator G (ww_w ww)) s"

text \<open>\<open>ReplayAll\<close> decodes every record into the same variable.\<close>

fun replayAll_loop :: "('s \<Rightarrow> Update \<Rightarrow> go_error option \<times> 's) \<Rightarrow> Update \<Rightarrow> Record list \<Rightarrow> 's \<Rightarrow> go_error option \<times> 's" where
  "replayAll_loop fn u [] s = (None, s)"
| "replayAll_loop fn u (r # rs) s =
     (case Update_UnmarshalInto u (recValue r) of
        Inl err \<Rightarrow> (Some err, s)
      | Inr u' \<Rightarrow> (case fn s u' of (Some err, s') \<Rightarrow> (Some err, s') | (None, s') \<Rightarrow> replayAll_loop fn u' rs s'))"

definition ReplayAll :: "'w gowal \<Rightarrow> 'w walWrapper \<Rightarrow> ('s \<Rightarrow> Update \<Rightarrow> go_error option \<times> 's) \<Rightarrow> 's \<Rightarrow> go_error option \<times> 's" where
  "ReplayAll G ww fn s = replayAll_loop fn zero_Update (gw_Iterator G (ww_w ww)) s"

definition wal_Close :: "'w gowal \<Rightarrow> 'w walWrapper \<Rightarrow> go_error option \<times> 'w walWrapper" where
  "wal_Close G ww =
     (let (batch, ww1) = takeBatch ww;
          (err, ww2) = (case batch of None \<Rightarrow> (None, ww1) | Some b \<Rightarrow> writeBatch G ww1 b)
      in case err of Some e \<Rightarrow> (Some e, ww2)
         | None \<Rightarrow> (let (e, w) = gw_Close G (ww_w ww2) in (e, ww2\<lparr>ww_w := w\<rparr>)))"

text \<open>The log that keeps nothing.\<close>

definition noop_Append :: "Update \<Rightarrow> go_error option" where "noop_Append u = None"
definition noop_Get :: "string \<Rightarrow> u64 \<Rightarrow> go_error + Update" where "noop_Get nid sq = Inr zero_Update"
definition noop_Replay :: "string \<Rightarrow> u64 \<Rightarrow> ('s \<Rightarrow> Update \<Rightarrow> go_error option \<times> 's) \<Rightarrow> 's \<Rightarrow> go_error option \<times> 's" where
  "noop_Replay nid fromSeq fn s = (None, s)"
definition noop_ReplayAll :: "('s \<Rightarrow> Update \<Rightarrow> go_error option \<times> 's) \<Rightarrow> 's \<Rightarrow> go_error option \<times> 's" where
  "noop_ReplayAll fn s = (None, s)"
definition noop_Close :: "go_error option" where "noop_Close = None"

section \<open>Indices are unique\<close>

definition keygen_wf :: "KeyGen \<Rightarrow> bool" where
  "keygen_wf m \<longleftrightarrow> fcard (fmdom m) \<le> 2 ^ stringBits \<and> (\<forall>s idx. fmlookup m s = Some idx \<longrightarrow> unat idx < fcard (fmdom m))
     \<and> (\<forall>s t idx. fmlookup m s = Some idx \<longrightarrow> fmlookup m t = Some idx \<longrightarrow> s = t)"

lemma pack_bits:
  assumes "n < 2 ^ 51"
  shows "pack idx n AND idMask = n" "drop_bit 51 (pack idx n) = idx AND mask 13"
proof -
  have m: "idMask = mask 51" by (simp add: idMask_def stringBits_def mask_eq_exp_minus_1 push_bit_eq_mult)
  have "unat n < 2 ^ 51" using assms by (simp add: word_less_nat_alt)
  then have "unat (take_bit 51 n) = unat n" by (simp add: unsigned_take_bit_eq take_bit_nat_eq_self)
  then have n: "n AND mask 51 = n" by (simp add: take_bit_eq_mask word_unat_eq_iff)
  show "pack idx n AND idMask = n"
    by (rule bit_eqI) (use n in \<open>auto simp: pack_def m stringBits_def bit_simps bit_eq_iff\<close>)
  show "drop_bit 51 (pack idx n) = idx AND mask 13"
    by (rule bit_eqI) (auto simp: pack_def m stringBits_def bit_simps)
qed

lemma keygen_wf_New: "keygen_wf NewKeyGen"
  by (simp add: keygen_wf_def NewKeyGen_def fcard_fempty)

lemma keygen_Key_correct:
  assumes "keygen_wf m" "fcard (finsert s (fmdom m)) \<le> 2 ^ stringBits" "keygen_Key m s n = (k, m')"
  shows "keygen_wf m' \<and> fmdom m' = finsert s (fmdom m) \<and> (\<exists>idx. fmlookup m' s = Some idx \<and> k = pack idx n)
    \<and> (\<forall>t i. fmlookup m t = Some i \<longrightarrow> fmlookup m' t = Some i)"
proof (cases "fmlookup m s")
  case (Some idx)
  then have "s |\<in>| fmdom m" by (rule fmdomI)
  with Some assms show ?thesis by (auto simp: keygen_Key_def finsert_absorb)
next
  case None
  let ?c = "fcard (fmdom m)"
  have ns: "s |\<notin>| fmdom m" using None by (simp add: fmdom_notI)
  then have c: "fcard (finsert s (fmdom m)) = Suc ?c" by (simp add: fcard_finsert_disjoint)
  have m': "k = pack (of_nat ?c) n" "m' = fmupd s (of_nat ?c) m"
    using assms(3) None by (auto simp: keygen_Key_def keySlow_def Let_def)
  have un: "unat (of_nat ?c :: u64) = ?c" using assms(2) c by (simp add: unat_of_nat stringBits_def)
  have lt: "unat idx < ?c" if "fmlookup m t = Some idx" for t idx using assms(1) that unfolding keygen_wf_def by blast
  have "keygen_wf m'" unfolding keygen_wf_def m'(2)
  proof (intro conjI allI impI)
    show "fcard (fmdom (fmupd s (of_nat ?c) m)) \<le> 2 ^ stringBits" using assms(2) by simp
    fix t idx assume a: "fmlookup (fmupd s (of_nat ?c) m) t = Some idx"
    show "unat idx < fcard (fmdom (fmupd s (of_nat ?c) m))"
      using a lt [of t idx] un c by (auto split: if_splits)
    fix t2 assume b: "fmlookup (fmupd s (of_nat ?c) m) t2 = Some idx"
    show "t = t2"
    proof (cases "t = s \<or> t2 = s")
      case True
      then show ?thesis using a b un lt [of t idx] lt [of t2 idx] by (auto split: if_splits)
    next
      case False
      with a b have "fmlookup m t = Some idx" "fmlookup m t2 = Some idx" by auto
      with assms(1) show ?thesis unfolding keygen_wf_def by blast
    qed
  qed
  with m' None show ?thesis by auto
qed

lemma pack_inj:
  assumes "n < 2 ^ 51" "n' < 2 ^ 51" "unat i < 2 ^ 13" "unat j < 2 ^ 13" "pack i n = pack j n'"
  shows "i = j \<and> n = n'"
proof -
  have "take_bit 13 x = x" if "unat x < 2 ^ 13" for x :: u64
    using that by (simp add: word_unat_eq_iff unsigned_take_bit_eq take_bit_nat_eq_self)
  then have "i AND mask 13 = i" "j AND mask 13 = j" using assms(3,4) by (simp_all add: take_bit_eq_mask)
  with pack_bits [OF assms(1), of i] pack_bits [OF assms(2), of j] assms(5) show ?thesis by metis
qed

text \<open>The calls of \<open>Key\<close> in one run of a node, in order.\<close>

fun keygen_run :: "KeyGen \<Rightarrow> (string \<times> u64) list \<Rightarrow> u64 list \<times> KeyGen" where
  "keygen_run m [] = ([], m)"
| "keygen_run m ((s, n) # calls) =
     (let (k, m1) = keygen_Key m s n; (ks, m2) = keygen_run m1 calls in (k # ks, m2))"

lemma keygen_run_correct:
  "keygen_wf m \<Longrightarrow> fcard (fmdom m |\<union>| fset_of_list (map fst calls)) \<le> 2 ^ stringBits \<Longrightarrow> keygen_run m calls = (ks, m') \<Longrightarrow>
   keygen_wf m' \<and> (\<forall>t i. fmlookup m t = Some i \<longrightarrow> fmlookup m' t = Some i)
   \<and> list_all2 (\<lambda>(s, n) k. \<exists>idx. fmlookup m' s = Some idx \<and> k = pack idx n) calls ks"
proof (induction calls arbitrary: m ks)
  case (Cons c calls)
  obtain s n where c: "c = (s, n)" by fastforce
  obtain k m1 where k: "keygen_Key m s n = (k, m1)" by fastforce
  obtain ks1 where ks: "keygen_run m1 calls = (ks1, m')" "ks = k # ks1" using Cons.prems(3) c k by (auto split: prod.splits)
  have "fcard (finsert s (fmdom m)) \<le> fcard (fmdom m |\<union>| fset_of_list (map fst (c # calls)))"
    unfolding c by (rule fcard_mono) auto
  then have le: "fcard (finsert s (fmdom m)) \<le> 2 ^ stringBits" using Cons.prems(2) by linarith
  obtain idx where m1: "keygen_wf m1" "fmdom m1 = finsert s (fmdom m)" "fmlookup m1 s = Some idx" "k = pack idx n"
      "\<forall>t i. fmlookup m t = Some i \<longrightarrow> fmlookup m1 t = Some i"
    using keygen_Key_correct [OF Cons.prems(1) le k] by blast
  from Cons.IH [OF m1(1) _ ks(1)] Cons.prems(2) m1 ks(2) c show ?case by auto
qed simp

text \<open>C36. Record indices are unique within one run of a node: take any sequence of calls of \<open>Key\<close>, from a fresh
  generator or any well-formed one, for at most 8192 node ids in all and sequence numbers below \<open>2\<^sup>5\<^sup>1\<close>. Any two of the
  calls give the same index exactly when they name the same node and the same number, whatever ids were
  registered before or in between, and asking again at the end of the run gives every index again. (A restart begins with a fresh generator
  and hands out the prefixes anew.)\<close>

theorem keygen_injective:
  assumes "keygen_wf m" "keygen_run m calls = (ks, m')"
    and "fcard (fmdom m |\<union>| fset_of_list (map fst calls)) \<le> 2 ^ stringBits" "list_all (\<lambda>(s, n). n < 2 ^ 51) calls"
  shows "keygen_wf m' \<and> length ks = length calls
    \<and> (\<forall>i < length calls. \<forall>j < length calls. ks ! i = ks ! j \<longleftrightarrow> calls ! i = calls ! j)
    \<and> (\<forall>i < length calls. keygen_Key m' (fst (calls ! i)) (snd (calls ! i)) = (ks ! i, m'))"
proof -
  note r = keygen_run_correct [OF assms(1,3,2)]
  then have len: "length ks = length calls" using list_all2_lengthD by fastforce
  have at: "\<exists>idx. fmlookup m' (fst (calls ! i)) = Some idx \<and> ks ! i = pack idx (snd (calls ! i))" if "i < length calls" for i
    using list_all2_nthD [of _ calls ks i] r that by fastforce
  have b: "unat x < 2 ^ 13" if "fmlookup m' t = Some x" for t x
    using r that unfolding keygen_wf_def stringBits_def by (metis order_less_le_trans)
  have "calls ! i = calls ! j" if ij: "i < length calls" "j < length calls" "ks ! i = ks ! j" for i j
  proof -
    obtain x where x: "fmlookup m' (fst (calls ! i)) = Some x" "ks ! i = pack x (snd (calls ! i))" using at ij by blast
    obtain y where y: "fmlookup m' (fst (calls ! j)) = Some y" "ks ! j = pack y (snd (calls ! j))" using at ij by blast
    have "snd (calls ! i) < 2 ^ 51" "snd (calls ! j) < 2 ^ 51"
      using assms(4) ij(1,2) unfolding list_all_iff by (metis nth_mem case_prod_beta)+
    from pack_inj [OF this b [OF x(1)] b [OF y(1)]] x y ij(3) have "x = y" "snd (calls ! i) = snd (calls ! j)" by auto
    moreover have "fst (calls ! i) = fst (calls ! j)" using r x(1) y(1) calculation(1) unfolding keygen_wf_def by blast
    ultimately show ?thesis by (simp add: prod_eq_iff)
  qed
  moreover have "ks ! i = ks ! j" if "i < length calls" "j < length calls" "calls ! i = calls ! j" for i j
    using at [OF that(1)] at [OF that(2)] that(3) by auto
  moreover have "keygen_Key m' (fst (calls ! i)) (snd (calls ! i)) = (ks ! i, m')" if "i < length calls" for i
    using at [OF that] by (auto simp: keygen_Key_def)
  ultimately show ?thesis using r len by blast
qed

theorem keygen_injective_witness:
  "case keygen_run NewKeyGen [(''a'', 7), (''b'', 7), (''c'', 8), (''a'', 7), (''a'', 8)] of (ks, m) \<Rightarrow>
     ks ! 0 \<noteq> ks ! 1 \<and> ks ! 0 = ks ! 3 \<and> ks ! 3 \<noteq> ks ! 4 \<and> keygen_Key m ''b'' 7 = (ks ! 1, m)"
proof -
  let ?calls = "[(''a'', 7 :: u64), (''b'', 7), (''c'', 8), (''a'', 7), (''a'', 8)]"
  obtain ks m where k: "keygen_run NewKeyGen ?calls = (ks, m)" by fastforce
  have "fcard (fmdom NewKeyGen |\<union>| fset_of_list (map fst ?calls)) \<le> 2 ^ stringBits"
    by (simp add: NewKeyGen_def stringBits_def fcard_finsert_if fcard_fempty)
  note r = keygen_injective [OF keygen_wf_New k this]
  have eq: "ks ! i = ks ! j \<longleftrightarrow> ?calls ! i = ?calls ! j" if "i < 5" "j < 5" for i j using r that by simp
  have again: "keygen_Key m (fst (?calls ! i)) (snd (?calls ! i)) = (ks ! i, m)" if "i < 5" for i using r that by simp
  from eq [of 0 1] eq [of 0 3] eq [of 3 4] again [of 1] k show ?thesis by simp
qed

section \<open>What was appended can be read back\<close>

text \<open>What the log relies on. \<open>log w\<close> is the sequence of all records ever written to \<open>w\<close>. A new segment is begun
  after \<open>SegmentThreshold\<close> records and the oldest segment is deleted when there are more than \<open>MaxSegmentsNum\<close> of
  them, so that the files hold the end of that sequence, and all of it as long as the records fit into the
  full segments beside the last one. \<open>Iterator\<close> reads and \<open>Get\<close> searches what the files hold. Writes succeed, as
  on a disk without errors.\<close>

definition segment_room :: "WalConfig \<Rightarrow> nat" where
  "segment_room cfg = nat (SegmentThreshold cfg * (MaxSegmentsNum cfg - 1))"

definition gowal_laws :: "'w gowal \<Rightarrow> ('w \<Rightarrow> Record list) \<Rightarrow> nat \<Rightarrow> bool" where
  "gowal_laws G log room \<longleftrightarrow>
     (\<forall>w b. fst (gw_WriteBatch G w b) = None \<and> log (snd (gw_WriteBatch G w b)) = log w @ b)
     \<and> (\<forall>w. \<exists>k. gw_Iterator G w = drop k (log w) \<and> (length (log w) \<le> room \<longrightarrow> k = 0))
     \<and> (\<forall>w. fst (gw_Close G w) = None \<and> log (snd (gw_Close G w)) = log w)
     \<and> (\<forall>w i. case gw_Get G w i of Inl e \<Rightarrow> \<forall>r \<in> set (gw_Iterator G w). recIndex r \<noteq> i
          | Inr (k, v) \<Rightarrow> \<exists>r \<in> set (gw_Iterator G w). recIndex r = i \<and> recKey r = k \<and> recValue r = v)"

text \<open>Two logs with these laws: one that keeps everything, and one that keeps the last \<open>n\<close> records.\<close>

definition suffix_gowal :: "(Record list \<Rightarrow> Record list) \<Rightarrow> Record list gowal" where
  "suffix_gowal keep = \<lparr>gw_WriteBatch = (\<lambda>w b. (None, w @ b)),
     gw_Get = (\<lambda>w i. case find (\<lambda>r. recIndex r = i) (keep w) of None \<Rightarrow> Inl ErrNotFound | Some r \<Rightarrow> Inr (recKey r, recValue r)),
     gw_Iterator = keep, gw_Close = (\<lambda>w. (None, w))\<rparr>"

definition list_gowal :: "Record list gowal" where "list_gowal = suffix_gowal (\<lambda>w. w)"

definition segment_gowal :: "nat \<Rightarrow> Record list gowal" where
  "segment_gowal n = suffix_gowal (\<lambda>w. drop (length w - n) w)"

lemma suffix_gowal_laws:
  "(\<And>w. \<exists>k. keep w = drop k w \<and> (length w \<le> room \<longrightarrow> k = 0)) \<Longrightarrow> gowal_laws (suffix_gowal keep) (\<lambda>w. w) room"
  unfolding gowal_laws_def suffix_gowal_def by (auto split: option.splits simp: find_None_iff find_Some_iff)

lemma list_gowal_laws: "gowal_laws list_gowal (\<lambda>w. w) room"
  unfolding list_gowal_def by (rule suffix_gowal_laws) (rule exI [of _ 0], simp)

lemma segment_gowal_laws: "gowal_laws (segment_gowal n) (\<lambda>w. w) n"
  unfolding segment_gowal_def by (rule suffix_gowal_laws) fastforce

lemma gowal_lawsD:
  assumes "gowal_laws G log room"
  shows "fst (gw_WriteBatch G w b) = None" "log (snd (gw_WriteBatch G w b)) = log w @ b"
    "\<exists>k. gw_Iterator G w = drop k (log w) \<and> (length (log w) \<le> room \<longrightarrow> k = 0)"
    "fst (gw_Close G w) = None" "log (snd (gw_Close G w)) = log w"
    "gw_Get G w i = Inl e \<Longrightarrow> r \<in> set (gw_Iterator G w) \<Longrightarrow> recIndex r \<noteq> i"
    "gw_Get G w i = Inr (k, v) \<Longrightarrow> \<exists>r \<in> set (gw_Iterator G w). recIndex r = i \<and> recKey r = k \<and> recValue r = v"
    "length (log w) \<le> room \<Longrightarrow> gw_Iterator G w = log w"
proof -
  show "fst (gw_WriteBatch G w b) = None" "log (snd (gw_WriteBatch G w b)) = log w @ b"
    "fst (gw_Close G w) = None" "log (snd (gw_Close G w)) = log w"
    using assms unfolding gowal_laws_def by blast+
  show it: "\<exists>k. gw_Iterator G w = drop k (log w) \<and> (length (log w) \<le> room \<longrightarrow> k = 0)"
    using assms unfolding gowal_laws_def by blast
  then show "length (log w) \<le> room \<Longrightarrow> gw_Iterator G w = log w" by auto
  have get: "case gw_Get G w i of Inl e \<Rightarrow> \<forall>r \<in> set (gw_Iterator G w). recIndex r \<noteq> i
      | Inr (k, v) \<Rightarrow> \<exists>r \<in> set (gw_Iterator G w). recIndex r = i \<and> recKey r = k \<and> recValue r = v"
    using assms unfolding gowal_laws_def by blast
  then show "gw_Get G w i = Inl e \<Longrightarrow> r \<in> set (gw_Iterator G w) \<Longrightarrow> recIndex r \<noteq> i" by simp
  from get show "gw_Get G w i = Inr (k, v) \<Longrightarrow> \<exists>r \<in> set (gw_Iterator G w). recIndex r = i \<and> recKey r = k \<and> recValue r = v" by simp
qed

lemma gowal_kept: "gowal_laws G log room \<Longrightarrow> set (gw_Iterator G w) \<subseteq> set (log w)"
  using gowal_lawsD(3) [of G log room w] by (auto dest: in_set_dropD)

lemma writeBatch_ok:
  "gowal_laws G log room \<Longrightarrow> writeBatch G ww b = (None, ww\<lparr>ww_w := snd (gw_WriteBatch G (ww_w ww) b)\<rparr>)"
  using gowal_lawsD(1) [of G log room "ww_w ww" b] by (cases "gw_WriteBatch G (ww_w ww) b") (simp add: writeBatch_def)

text \<open>Everything appended so far: first the records on disk, then the batch in memory.\<close>

definition wal_records :: "('w \<Rightarrow> Record list) \<Rightarrow> 'w walWrapper \<Rightarrow> Record list" where
  "wal_records log ww = log (ww_w ww) @ ww_batch ww"

definition encodes :: "KeyGen \<Rightarrow> Update \<Rightarrow> Record \<Rightarrow> bool" where
  "encodes m u r \<longleftrightarrow> Update_MarshalJSON u = Inr (recValue r) \<and> recKey r = NodeID u
     \<and> (\<exists>idx. fmlookup m (NodeID u) = Some idx \<and> recIndex r = pack idx (Seq u))"

definition wal_inv :: "('w \<Rightarrow> Record list) \<Rightarrow> Update list \<Rightarrow> 'w walWrapper \<Rightarrow> bool" where
  "wal_inv log us ww \<longleftrightarrow> ww_batchSize ww = length (ww_batch ww) \<and> int (length (ww_batch ww)) < max 1 (ww_batchCap ww)
     \<and> keygen_wf (ww_keyGen ww) \<and> fmdom (ww_keyGen ww) = fset_of_list (map NodeID us)
     \<and> list_all2 (encodes (ww_keyGen ww)) us (wal_records log ww)"

fun appends :: "'w gowal \<Rightarrow> 'w walWrapper \<Rightarrow> Update list \<Rightarrow> go_error option \<times> 'w walWrapper" where
  "appends G ww [] = (None, ww)"
| "appends G ww (u # us) = (case Append G ww u of (Some e, ww1) \<Rightarrow> (Some e, ww1) | (None, ww1) \<Rightarrow> appends G ww1 us)"

lemma encodes_mono:
  "encodes m u r \<Longrightarrow> (\<And>t i. fmlookup m t = Some i \<Longrightarrow> fmlookup m' t = Some i) \<Longrightarrow> encodes m' u r"
  by (auto simp: encodes_def)

lemma Append_inv:
  assumes "gowal_laws G log room" "wal_inv log us ww" "plain_update u" "fcard (fset_of_list (map NodeID (us @ [u]))) \<le> 2 ^ stringBits"
  shows "\<exists>ww'. Append G ww u = (None, ww') \<and> wal_inv log (us @ [u]) ww' \<and> ww_batchCap ww' = ww_batchCap ww"
proof -
  note laws = gowal_lawsD [OF assms(1)]
  obtain doc where doc: "Update_MarshalJSON u = Inr doc" using Update_Unmarshal_enc [OF assms(3)] by blast
  obtain idx kg where kg: "keygen_Key (ww_keyGen ww) (NodeID u) (Seq u) = (idx, kg)" by fastforce
  let ?r = "\<lparr>recKey = NodeID u, recIndex = idx, recValue = doc\<rparr>"
  let ?ww = "ww\<lparr>ww_keyGen := kg, ww_batch := ww_batch ww @ [?r], ww_batchSize := ww_batchSize ww + 1\<rparr>"
  let ?full = "int (ww_batchSize ww + 1) \<ge> ww_batchCap ww"
  have i: "ww_batchSize ww = length (ww_batch ww)" "int (length (ww_batch ww)) < max 1 (ww_batchCap ww)" "keygen_wf (ww_keyGen ww)"
      "fmdom (ww_keyGen ww) = fset_of_list (map NodeID us)" "list_all2 (encodes (ww_keyGen ww)) us (wal_records log ww)"
    using assms(2) unfolding wal_inv_def by blast+
  have dom: "finsert (NodeID u) (fmdom (ww_keyGen ww)) = fset_of_list (map NodeID (us @ [u]))" using i(4) by auto
  note k = keygen_Key_correct [OF i(3) _ kg, unfolded dom, OF assms(4)]
  define ww' where "ww' = (if ?full then ?ww\<lparr>ww_batch := [], ww_batchSize := 0, ww_w := snd (gw_WriteBatch G (ww_w ww) (ww_batch ww @ [?r]))\<rparr> else ?ww)"
  have app: "Append G ww u = (None, ww')"
  proof (cases ?full)
    case True
    then show ?thesis using doc kg by (simp add: Append_def ww'_def takeBatch_def writeBatch_ok [OF assms(1)])
  next
    case False
    then show ?thesis using doc kg by (simp add: Append_def ww'_def)
  qed
  have rec: "wal_records log ww' = wal_records log ww @ [?r]" "ww_keyGen ww' = kg" "ww_batchCap ww' = ww_batchCap ww"
    by (simp_all add: wal_records_def ww'_def laws)
  have "ww_batchSize ww' = length (ww_batch ww') \<and> int (length (ww_batch ww')) < max 1 (ww_batchCap ww')"
    using i(1,2) by (auto simp: ww'_def)
  moreover have "list_all2 (encodes kg) us (wal_records log ww)"
    using i(5) by (rule list_all2_mono) (use k in \<open>blast intro: encodes_mono\<close>)
  then have "list_all2 (encodes kg) (us @ [u]) (wal_records log ww')"
    using k doc rec by (auto simp: encodes_def intro!: list_all2_appendI)
  ultimately have "wal_inv log (us @ [u]) ww'" using k rec dom unfolding wal_inv_def by simp
  with app rec(3) show ?thesis by blast
qed

lemma appends_inv:
  assumes "gowal_laws G log room"
  shows "wal_inv log us ww \<Longrightarrow> list_all plain_update vs \<Longrightarrow> fcard (fset_of_list (map NodeID (us @ vs))) \<le> 2 ^ stringBits \<Longrightarrow>
    \<exists>ww'. appends G ww vs = (None, ww') \<and> wal_inv log (us @ vs) ww' \<and> ww_batchCap ww' = ww_batchCap ww"
proof (induction vs arbitrary: us ww)
  case (Cons v vs)
  have "fcard (fset_of_list (map NodeID (us @ [v]))) \<le> fcard (fset_of_list (map NodeID (us @ v # vs)))"
    by (rule fcard_mono) auto
  then have le: "fcard (fset_of_list (map NodeID (us @ [v]))) \<le> 2 ^ stringBits" using Cons.prems(3) by linarith
  obtain ww1 where w1: "Append G ww v = (None, ww1)" "wal_inv log (us @ [v]) ww1" "ww_batchCap ww1 = ww_batchCap ww"
    using Append_inv [OF assms Cons.prems(1) _ le] Cons.prems(2) by auto
  from Cons.IH [OF w1(2)] Cons.prems(2,3) w1 show ?case by simp
qed simp

text \<open>The callbacks of a replay, one after the other until the first error.\<close>

fun replay_updates :: "('s \<Rightarrow> Update \<Rightarrow> go_error option \<times> 's) \<Rightarrow> Update list \<Rightarrow> 's \<Rightarrow> go_error option \<times> 's" where
  "replay_updates fn [] s = (None, s)"
| "replay_updates fn (u # us) s = (case fn s u of (Some err, s') \<Rightarrow> (Some err, s') | (None, s') \<Rightarrow> replay_updates fn us s')"

lemma replayAll_loop_updates:
  "list_all2 (encodes m) us rs \<Longrightarrow> list_all plain_update us \<Longrightarrow> replayAll_loop fn w rs s = replay_updates fn us s"
proof (induction us rs arbitrary: w s rule: list_all2_induct)
  case (Cons u us r rs)
  from Cons obtain doc where "Update_MarshalJSON u = Inr doc" "recValue r = doc" "Update_UnmarshalInto w doc = Inr u"
    using Update_Unmarshal_enc [of u w] by (auto simp: encodes_def)
  with Cons show ?case by (auto split: prod.splits option.splits)
qed simp

lemma encodes_decode: "encodes m u r \<Longrightarrow> plain_update u \<Longrightarrow> Update_UnmarshalJSON (recValue r) = Inr u"
  using Update_Unmarshal_enc [of u zero_Update] by (auto simp: encodes_def Update_UnmarshalJSON_def)

lemma list_all2_member:
  "list_all2 P xs ys \<Longrightarrow> x \<in> set xs \<Longrightarrow> \<exists>y \<in> set ys. P x y" "list_all2 P xs ys \<Longrightarrow> y \<in> set ys \<Longrightarrow> \<exists>x \<in> set xs. P x y"
  by (fastforce simp: list_all2_conv_all_nth in_set_conv_nth)+

lemma wal_Get_found:
  assumes "gowal_laws G log room" "wal_inv log us ww" "list_all plain_update us" "list_all (\<lambda>u. Seq u < 2 ^ 51) us"
    and "u \<in> set us" "\<And>w. w \<in> set us \<Longrightarrow> NodeID w = NodeID u \<Longrightarrow> Seq w = Seq u \<Longrightarrow> w = u"
  shows "fst (wal_Get G ww (NodeID u) (Seq u)) = Inr u \<or> room < length us \<and> fst (wal_Get G ww (NodeID u) (Seq u)) = Inl ErrNotFound"
proof -
  let ?m = "ww_keyGen ww"
  have i: "ww_batchSize ww = length (ww_batch ww)" "keygen_wf ?m" "list_all2 (encodes ?m) us (wal_records log ww)"
    using assms(2) unfolding wal_inv_def by blast+
  obtain r0 where r0: "r0 \<in> set (wal_records log ww)" "encodes ?m u r0"
    using list_all2_member(1) [OF i(3) assms(5)] by blast
  then obtain idx where idx: "fmlookup ?m (NodeID u) = Some idx" "recIndex r0 = pack idx (Seq u)" by (auto simp: encodes_def)
  then have key: "keygen_Key ?m (NodeID u) (Seq u) = (pack idx (Seq u), ?m)" by (simp add: keygen_Key_def)
  have small: "unat x < 2 ^ 13" if "fmlookup ?m t = Some x" for t x
    using i(2) that unfolding keygen_wf_def stringBits_def by (metis order_less_le_trans)
  have val: "Update_UnmarshalJSON (recValue r) = Inr u" if r: "r \<in> set (wal_records log ww)" "recIndex r = pack idx (Seq u)" for r
  proof -
    obtain w where w: "w \<in> set us" "encodes ?m w r" using list_all2_member(2) [OF i(3) r(1)] by blast
    then obtain j where j: "fmlookup ?m (NodeID w) = Some j" "recIndex r = pack j (Seq w)" by (auto simp: encodes_def)
    have "j = idx \<and> Seq w = Seq u"
      using pack_inj [of "Seq w" "Seq u" j idx] assms(4,5) w(1) small j idx(1) r(2) by (simp add: list_all_iff)
    moreover have "NodeID w = NodeID u" using i(2) calculation j(1) idx(1) unfolding keygen_wf_def by blast
    ultimately have "w = u" using assms(6) w(1) by blast
    with w encodes_decode assms(3,5) show ?thesis by (auto simp: list_all_iff)
  qed
  show ?thesis
  proof (cases "find (\<lambda>r. recIndex r = pack idx (Seq u)) (ww_batch ww)")
    case (Some r)
    then have "r \<in> set (ww_batch ww)" "recIndex r = pack idx (Seq u)" by (auto simp: find_Some_iff)
    with val [of r] Some key i(1) show ?thesis by (simp add: wal_Get_def wal_records_def)
  next
    case None
    then have r0': "r0 \<in> set (log (ww_w ww))" using r0(1) idx(2) by (auto simp: wal_records_def find_None_iff)
    have len: "length (log (ww_w ww)) \<le> length us" using list_all2_lengthD [OF i(3)] by (simp add: wal_records_def)
    show ?thesis
    proof (cases "gw_Get G (ww_w ww) (pack idx (Seq u))")
      case (Inl e)
      then have "r0 \<notin> set (gw_Iterator G (ww_w ww))" using gowal_lawsD(6) [OF assms(1)] idx(2) by blast
      then have "room < length us" using gowal_lawsD(8) [OF assms(1), of "ww_w ww"] r0' len by fastforce
      with Inl None key i(1) show ?thesis by (simp add: wal_Get_def)
    next
      case (Inr kv)
      obtain k v where kv: "kv = (k, v)" by fastforce
      obtain r where "r \<in> set (log (ww_w ww))" "recIndex r = pack idx (Seq u)" "recValue r = v"
        using gowal_lawsD(7) [OF assms(1) Inr [unfolded kv]] gowal_kept [OF assms(1)] by blast
      with val [of r] Inr kv None key i(1) show ?thesis by (simp add: wal_Get_def wal_records_def)
    qed
  qed
qed

lemma wal_Close_log:
  assumes "gowal_laws G log room" "wal_inv log us ww"
  shows "\<exists>ww'. wal_Close G ww = (None, ww') \<and> log (ww_w ww') = wal_records log ww"
proof -
  have s: "ww_batchSize ww = length (ww_batch ww)" using assms(2) by (simp add: wal_inv_def)
  show ?thesis
  proof (cases "ww_batch ww = []")
    case True
    with s gowal_lawsD(4,5) [OF assms(1), of "ww_w ww"] show ?thesis
      by (cases "gw_Close G (ww_w ww)") (simp add: wal_Close_def takeBatch_def wal_records_def)
  next
    case False
    let ?w = "snd (gw_WriteBatch G (ww_w ww) (ww_batch ww))"
    have "log ?w = wal_records log ww" by (simp add: wal_records_def gowal_lawsD(2) [OF assms(1)])
    with False s gowal_lawsD(4,5) [OF assms(1), of ?w] show ?thesis
      by (cases "gw_Close G ?w") (simp add: wal_Close_def takeBatch_def writeBatch_ok [OF assms(1)])
  qed
qed

text \<open>The updates a replay of a closed log sees: those whose segments are still there.\<close>

lemma wal_replay_kept:
  assumes "gowal_laws G log room" "wal_inv log us ww" "list_all plain_update us" "ww_w ww' = ww_w (snd (wal_Close G ww))"
  obtains k where "\<forall>fn s. ReplayAll G ww' fn s = replay_updates fn (drop k us) s" "length us \<le> room \<longrightarrow> k = 0"
proof -
  let ?m = "ww_keyGen ww"
  have enc: "list_all2 (encodes ?m) us (wal_records log ww)" using assms(2) unfolding wal_inv_def by blast
  have log: "log (ww_w ww') = wal_records log ww" using wal_Close_log [OF assms(1,2)] assms(4) by auto
  obtain k where k: "gw_Iterator G (ww_w ww') = drop k (wal_records log ww)" "length (wal_records log ww) \<le> room \<longrightarrow> k = 0"
    using gowal_lawsD(3) [OF assms(1), of "ww_w ww'"] log by auto
  have "list_all2 (encodes ?m) (drop k us) (drop k (wal_records log ww))" using enc by (rule list_all2_dropI)
  moreover have "list_all plain_update (drop k us)" using assms(3) by (auto simp: list_all_iff dest: in_set_dropD)
  ultimately have "\<forall>fn s. ReplayAll G ww' fn s = replay_updates fn (drop k us) s"
    using k(1) by (simp add: ReplayAll_def replayAll_loop_updates)
  with k(2) list_all2_lengthD [OF enc] that show ?thesis by auto
qed

text \<open>C35. The log keeps what was appended, as long as no segment is deleted. On a fresh log and a disk without errors every append
  succeeds; the records written and the batch in memory hold the appended updates in order, and the batch,
  which is all that a crash can lose, is smaller than the configured batch size. As long as the updates fit into
  the segments, every appended update is found by \<open>Get\<close> under its node and number within the same run,
  on disk or in the batch, and once the log is closed \<open>ReplayAll\<close> runs its callback on exactly the appended
  updates, in order, until the callback fails. When old segments have been deleted, \<open>Get\<close> gives the update or
  \<open>ErrNotFound\<close>, never another one, and \<open>ReplayAll\<close> gives the end of the sequence. Node ids are at most
  8192, numbers are below \<open>2\<^sup>5\<^sup>1\<close>, and updates with the same node and number are the same.\<close>

theorem wal_roundtrip:
  assumes "gowal_laws G log (segment_room cfg)" "log w = []" "wal_New cfg w = Inr ww" "list_all plain_update us"
    and "list_all (\<lambda>u. Seq u < 2 ^ 51) us" "fcard (fset_of_list (map NodeID us)) \<le> 2 ^ stringBits"
    and "list_all (\<lambda>u. list_all (\<lambda>v. NodeID v = NodeID u \<and> Seq v = Seq u \<longrightarrow> v = u) us) us"
  shows "\<exists>ww' ww'' k. appends G ww us = (None, ww')
    \<and> map (\<lambda>r. Update_UnmarshalJSON (recValue r)) (log (ww_w ww') @ ww_batch ww') = map Inr us
    \<and> int (length (ww_batch ww')) < max 1 (BatchSize cfg)
    \<and> (\<forall>u \<in> set us. fst (wal_Get G ww' (NodeID u) (Seq u)) = Inr u
         \<or> segment_room cfg < length us \<and> fst (wal_Get G ww' (NodeID u) (Seq u)) = Inl ErrNotFound)
    \<and> wal_Close G ww' = (None, ww'') \<and> (\<forall>fn (s :: 's). ReplayAll G ww'' fn s = replay_updates fn (drop k us) s)
    \<and> (length us \<le> segment_room cfg \<longrightarrow> k = 0)"
proof -
  have ww: "ww = \<lparr>ww_w = w, ww_keyGen = NewKeyGen, ww_batch = [], ww_batchSize = 0, ww_batchCap = BatchSize cfg\<rparr>"
    using assms(3) by (auto simp: wal_New_def split: if_splits)
  then have "wal_inv log [] ww" using assms(2) keygen_wf_New
    by (simp add: wal_inv_def wal_records_def NewKeyGen_def)
  then obtain ww' where w: "appends G ww us = (None, ww')" "wal_inv log us ww'" "ww_batchCap ww' = BatchSize cfg"
    using appends_inv [OF assms(1), of "[]" ww us] assms(4,6) ww by auto
  have enc: "list_all2 (encodes (ww_keyGen ww')) us (wal_records log ww')" and sz: "int (length (ww_batch ww')) < max 1 (ww_batchCap ww')"
    using w(2) unfolding wal_inv_def by blast+
  have "map (\<lambda>r. Update_UnmarshalJSON (recValue r)) rs = map Inr us" if "list_all2 (encodes m) us rs" for rs m
    using that assms(4) by (induction us rs rule: list_all2_induct) (auto simp: encodes_decode)
  from this [OF enc] have dec: "map (\<lambda>r. Update_UnmarshalJSON (recValue r)) (log (ww_w ww') @ ww_batch ww') = map Inr us"
    by (simp add: wal_records_def)
  obtain ww'' where c: "wal_Close G ww' = (None, ww'')" using wal_Close_log [OF assms(1) w(2)] by blast
  obtain k where k: "\<forall>fn (s :: 's). ReplayAll G ww'' fn s = replay_updates fn (drop k us) s" "length us \<le> segment_room cfg \<longrightarrow> k = 0"
    by (rule wal_replay_kept [OF assms(1) w(2) assms(4), of ww'']) (simp_all add: c)
  have get: "fst (wal_Get G ww' (NodeID u) (Seq u)) = Inr u
      \<or> segment_room cfg < length us \<and> fst (wal_Get G ww' (NodeID u) (Seq u)) = Inl ErrNotFound" if "u \<in> set us" for u
    by (rule wal_Get_found [OF assms(1) w(2) assms(4,5) that]) (use assms(7) that in \<open>auto simp: list_all_iff\<close>)
  show ?thesis using w(1,3) dec sz c k get by auto
qed

definition wal_sample :: "string \<Rightarrow> u64 \<Rightarrow> Update" where
  "wal_sample nd sq = \<lparr>Seq = sq, TimeStamp = Timestamp 1 2 ''a'', SetTimeStamp = Timestamp 1 0 ''a'',
     Payload = Some (RegisterDelta \<lparr>dValue = [1], dTS = Timestamp 1 2 ''a''\<rparr>), UType = ''Delta'', TTL = 0, Key = ''k'', NodeID = nd\<rparr>"

theorem wal_roundtrip_witness:
  "\<exists>ww' ww''. appends list_gowal \<lparr>ww_w = [], ww_keyGen = NewKeyGen, ww_batch = [], ww_batchSize = 0, ww_batchCap = 2\<rparr>
       [wal_sample ''a'' 1, wal_sample ''b'' 1, wal_sample ''a'' 2] = (None, ww')
     \<and> length (ww_batch ww') < 2 \<and> fst (wal_Get list_gowal ww' ''b'' 1) = Inr (wal_sample ''b'' 1)
     \<and> wal_Close list_gowal ww' = (None, ww'')
     \<and> ReplayAll list_gowal ww'' (\<lambda>s u. (None, s @ [(NodeID u, Seq u)])) [] = (None, [(''a'', 1), (''b'', 1), (''a'', 2)])"
proof -
  let ?us = "[wal_sample ''a'' 1, wal_sample ''b'' 1, wal_sample ''a'' 2]"
  let ?ww = "\<lparr>ww_w = [], ww_keyGen = NewKeyGen, ww_batch = [], ww_batchSize = 0, ww_batchCap = 2\<rparr>"
  have new: "wal_New \<lparr>SegmentThreshold = 1000, MaxSegmentsNum = 100000000, BatchSize = 2\<rparr> ([] :: Record list) = Inr ?ww" by (simp add: wal_New_def)
  have "plain ''a''" "plain ''b''" "plain ''k''" by (auto intro: plain_ascii)
  then have plain: "list_all plain_update ?us" by (simp add: wal_sample_def plain_update_def UpdateTypes)
  have lt: "list_all (\<lambda>u. Seq u < 2 ^ 51) ?us" by (simp add: wal_sample_def)
  have fc: "fcard (fset_of_list (map NodeID ?us)) \<le> 2 ^ stringBits"
    by (simp add: wal_sample_def stringBits_def fcard_finsert_if fcard_fempty)
  have idn: "list_all (\<lambda>u. list_all (\<lambda>v. NodeID v = NodeID u \<and> Seq v = Seq u \<longrightarrow> v = u) ?us) ?us" by (simp add: wal_sample_def)
  have room: "3 \<le> segment_room \<lparr>SegmentThreshold = 1000, MaxSegmentsNum = 100000000, BatchSize = 2\<rparr>" by (simp add: segment_room_def)
  from wal_roundtrip [OF list_gowal_laws _ new plain lt fc idn, where 's = "(string \<times> u64) list"] room
  obtain ww' ww'' where w: "appends list_gowal ?ww ?us = (None, ww')" "int (length (ww_batch ww')) < 2"
      "\<forall>u \<in> set ?us. fst (wal_Get list_gowal ww' (NodeID u) (Seq u)) = Inr u" "wal_Close list_gowal ww' = (None, ww'')"
      "\<forall>fn (s :: (string \<times> u64) list). ReplayAll list_gowal ww'' fn s = replay_updates fn ?us s"
    by (auto simp del: appends.simps replay_updates.simps)
  from w(3) have "fst (wal_Get list_gowal ww' ''b'' 1) = Inr (wal_sample ''b'' 1)" by (simp add: wal_sample_def)
  with w show ?thesis by (intro exI [of _ ww'] exI [of _ ww'']) (simp add: wal_sample_def)
qed

end
