(* ===== verification/Storage.thy ===== *)
theory Storage
  imports Replication Updates_Buffer Wal
begin

text \<open>
  The storage of a node, \<open>pkg/storage/storage.go\<close>: the operations of clients, composed from the engine, the
  version manager, the buffer and the log, and the recovery at start-up. The engine is the one inside the
  version manager. \<open>hk\<close> is the key hash, \<open>L\<close> the cache of the buffer, \<open>G\<close> the segment log; the readings of the
  clocks are arguments. An operation returns its result and the storage it leaves; after a panic that is the
  storage before the call that panicked.
  Lemmas: what each operation makes visible and which update it emits; the emitted update carries the
  operation to every replica; replaying the log restores the data.
\<close>

section \<open>State\<close>

record ('w, 'c) Storage =
  st_nodeID :: string
  st_vm :: VersionManager
  st_buffer :: 'c
  st_heap :: payload_heap
  st_wal :: "'w walWrapper"
  st_chan :: "bufupd list list"
  st_peekBatchSize :: int

definition NewStorage :: "string \<Rightarrow> int \<Rightarrow> VersionManager \<Rightarrow> 'c \<Rightarrow> 'w walWrapper \<Rightarrow> ('w, 'c) Storage" where
  "NewStorage nid peek vm buffer wal = \<lparr>st_nodeID = nid, st_vm = vm, st_buffer = buffer, st_heap = [], st_wal = wal,
     st_chan = [], st_peekBatchSize = peek\<rparr>"

abbreviation st_engine :: "('w, 'c) Storage \<Rightarrow> Engine" where
  "st_engine s \<equiv> vm_engine (st_vm s)"

definition set_engine :: "('w, 'c) Storage \<Rightarrow> Engine \<Rightarrow> ('w, 'c) Storage" where
  "set_engine s e = s\<lparr>st_vm := (st_vm s)\<lparr>vm_engine := e\<rparr>\<rparr>"

section \<open>Parts of the operations\<close>

text \<open>\<open>vm.UpdateLocal\<close> on one update; \<open>buffer.Put\<close> of an update whose payload is a fresh object; \<open>wal.Append\<close>.\<close>

definition local_update :: "('w, 'c) Storage \<Rightarrow> Update \<Rightarrow> go_error + Update \<times> ('w, 'c) Storage" where
  "local_update s u =
     (case UpdateLocal (st_vm s) [u] of
        Inl err \<Rightarrow> Inl err
      | Inr (us, vm) \<Rightarrow> Inr (hd us, s\<lparr>st_vm := vm\<rparr>))"

definition buffer_put :: "'c lru \<Rightarrow> ('w, 'c) Storage \<Rightarrow> Update \<Rightarrow> delta \<Rightarrow> go_error option \<times> ('w, 'c) Storage" where
  "buffer_put L s u d =
     (let (b, h) = alloc (st_heap s) u d
      in case rb_Put L h (st_buffer s) [b] of
           Inl err \<Rightarrow> (Some err, s)
         | Inr (c, h') \<Rightarrow> (None, s\<lparr>st_buffer := c, st_heap := h'\<rparr>))"

definition wal_append :: "'w gowal \<Rightarrow> ('w, 'c) Storage \<Rightarrow> Update \<Rightarrow> go_error option \<times> ('w, 'c) Storage" where
  "wal_append G s u = (let (err, ww) = Append G (st_wal s) u in (err, s\<lparr>st_wal := ww\<rparr>))"

text \<open>\<open>Put\<close> and \<open>Delete\<close> buffer first and log then; the other operations log first.\<close>

definition buffer_then_log :: "'c lru \<Rightarrow> 'w gowal \<Rightarrow> ('w, 'c) Storage \<Rightarrow> Update \<Rightarrow> delta \<Rightarrow> go_error option \<times> ('w, 'c) Storage" where
  "buffer_then_log L G s u d =
     (case local_update s u of
        Inl err \<Rightarrow> (Some err, s)
      | Inr (u', s1) \<Rightarrow>
          (case buffer_put L s1 u' d of
             (Some err, s2) \<Rightarrow> (Some err, s2)
           | (None, s2) \<Rightarrow>
               (case wal_append G s2 u' of (Some err, s3) \<Rightarrow> (Some ErrInternal, s3) | (None, s3) \<Rightarrow> (None, s3))))"

definition log_then_buffer ::
    "'c lru \<Rightarrow> 'w gowal \<Rightarrow> (go_error \<Rightarrow> go_error) \<Rightarrow> ('w, 'c) Storage \<Rightarrow> Update \<Rightarrow> delta \<Rightarrow> go_error option \<times> ('w, 'c) Storage" where
  "log_then_buffer L G walErr s u d =
     (case local_update s u of
        Inl err \<Rightarrow> (Some err, s)
      | Inr (u', s1) \<Rightarrow>
          (case wal_append G s1 u' of
             (Some err, s2) \<Rightarrow> (Some (walErr err), s2)
           | (None, s2) \<Rightarrow> buffer_put L s2 u' d))"

section \<open>Operations of clients\<close>

definition st_Get :: "(string \<Rightarrow> u64) \<Rightarrow> ('w, 'c) Storage \<Rightarrow> string \<Rightarrow> (crdt_value \<times> CRDTType) option" where
  "st_Get hk s key =
     (case eng_Get hk (st_engine s) key of
        None \<Rightarrow> None
      | Some ent \<Rightarrow> if entTombstone ent then None else Some (crdt_Value (entObject ent), crdt_Type (entObject ent)))"

definition st_Put :: "(string \<Rightarrow> u64) \<Rightarrow> 'c lru \<Rightarrow> 'w gowal \<Rightarrow> ('w, 'c) Storage \<Rightarrow> i64 \<Rightarrow> string \<Rightarrow> CRDTType \<Rightarrow> go_error option \<times> ('w, 'c) Storage" where
  "st_Put hk L G s t key ty =
     (case fabric_New ty (st_nodeID s) of
        Inl err \<Rightarrow> (Some err, s)
      | Inr val \<Rightarrow>
          (case NilDelta ty of
             Inl err \<Rightarrow> (Some err, s)
           | Inr nilDelta \<Rightarrow>
               let (ts, e) = eng_Put hk (st_engine s) t key val;
                   u = \<lparr>Seq = 0, TimeStamp = ts, SetTimeStamp = ts, Payload = Some nilDelta, UType = UpdateTypeSet,
                        TTL = 0, Key = key, NodeID = st_nodeID s\<rparr>
               in buffer_then_log L G (set_engine s e) u nilDelta))"

definition st_Delete ::
    "(string \<Rightarrow> u64) \<Rightarrow> 'c lru \<Rightarrow> 'w gowal \<Rightarrow> ('w, 'c) Storage \<Rightarrow> i64 \<Rightarrow> i64 \<Rightarrow> string \<Rightarrow> (bool \<times> go_error option) \<times> ('w, 'c) Storage" where
  "st_Delete hk L G s t now key =
     (case eng_Delete hk (st_engine s) t now key of
        (None, e) \<Rightarrow> ((False, None), set_engine s e)
      | (Some entry, e) \<Rightarrow>
          let d = CounterDelta zero_PNCounterDelta;
              u = \<lparr>Seq = 0, TimeStamp = entSetTimeStamp entry, SetTimeStamp = entSetTimeStamp entry, Payload = Some d,
                   UType = UpdateTypeDelete, TTL = 0, Key = key, NodeID = st_nodeID s\<rparr>
          in case buffer_then_log L G (set_engine s e) u d of
               (Some err, s') \<Rightarrow> ((False, Some err), s')
             | (None, s') \<Rightarrow> ((True, None), s'))"

text \<open>The common end of \<open>ApplyInc\<close>, \<open>ApplyDec\<close> and \<open>ApplySetRegister\<close>, after the object was changed to \<open>obj\<close>: the clock
  of the engine gives the time of the update.\<close>

definition publish_delta ::
    "(string \<Rightarrow> u64) \<Rightarrow> 'c lru \<Rightarrow> 'w gowal \<Rightarrow> (go_error \<Rightarrow> go_error) \<Rightarrow> ('w, 'c) Storage \<Rightarrow> i64 \<Rightarrow> string \<Rightarrow> CRDTEntry \<Rightarrow> crdt \<Rightarrow> delta
       \<Rightarrow> (bool \<times> go_error option) \<times> ('w, 'c) Storage" where
  "publish_delta hk L G walErr s t key entry obj d =
     (let e1 = eng_store hk (st_engine s) key (entry\<lparr>entObject := obj\<rparr>);
          (ts, clk) = hlc_Now (eng_clock e1) t;
          u = \<lparr>Seq = 0, TimeStamp = ts, SetTimeStamp = entSetTimeStamp entry, Payload = Some d, UType = UpdateTypeDelta,
               TTL = 0, Key = key, NodeID = st_nodeID s\<rparr>
      in case log_then_buffer L G walErr (set_engine s (e1\<lparr>eng_clock := clk\<rparr>)) u d of
           (Some err, s') \<Rightarrow> ((False, Some err), s')
         | (None, s') \<Rightarrow> ((True, None), s'))"

definition ApplyInc ::
    "(string \<Rightarrow> u64) \<Rightarrow> 'c lru \<Rightarrow> 'w gowal \<Rightarrow> ('w, 'c) Storage \<Rightarrow> i64 \<Rightarrow> string \<Rightarrow> i64 \<Rightarrow> (bool \<times> go_error option) \<times> ('w, 'c) Storage" where
  "ApplyInc hk L G s t key val =
     (case eng_Get hk (st_engine s) key of
        None \<Rightarrow> ((False, Some ErrKeyNotFound), s)
      | Some entry \<Rightarrow>
          if entTombstone entry then ((False, Some ErrKeyNotFound), s)
          else case entObject entry of
              Counter c \<Rightarrow>
                (case Increment c val of
                   Inl err \<Rightarrow> ((False, Some err), s)
                 | Inr (d, c') \<Rightarrow> publish_delta hk L G id s t key entry (Counter c') (CounterDelta d))
            | _ \<Rightarrow> ((False, Some ErrUnexpectedType), s))"

definition ApplyDec ::
    "(string \<Rightarrow> u64) \<Rightarrow> 'c lru \<Rightarrow> 'w gowal \<Rightarrow> ('w, 'c) Storage \<Rightarrow> i64 \<Rightarrow> string \<Rightarrow> i64 \<Rightarrow> (bool \<times> go_error option) \<times> ('w, 'c) Storage" where
  "ApplyDec hk L G s t key val =
     (case eng_Get hk (st_engine s) key of
        None \<Rightarrow> ((False, Some ErrKeyNotFound), s)
      | Some entry \<Rightarrow>
          if entTombstone entry then ((False, Some ErrKeyNotFound), s)
          else case entObject entry of
              Counter c \<Rightarrow>
                (case Decrement c val of
                   Inl err \<Rightarrow> ((False, Some err), s)
                 | Inr (d, c') \<Rightarrow> publish_delta hk L G (\<lambda>_. ErrInternal) s t key entry (Counter c') (CounterDelta d))
            | _ \<Rightarrow> ((False, Some ErrUnexpectedType), s))"

definition ApplySetRegister ::
    "(string \<Rightarrow> u64) \<Rightarrow> 'c lru \<Rightarrow> 'w gowal \<Rightarrow> ('w, 'c) Storage \<Rightarrow> i64 \<Rightarrow> i64 \<Rightarrow> string \<Rightarrow> bytes \<Rightarrow> (bool \<times> go_error option) \<times> ('w, 'c) Storage" where
  "ApplySetRegister hk L G s tr t key val =
     (case eng_Get hk (st_engine s) key of
        None \<Rightarrow> ((False, Some ErrKeyNotFound), s)
      | Some entry \<Rightarrow>
          if entTombstone entry then ((False, Some ErrKeyNotFound), s)
          else case entObject entry of
              Register r \<Rightarrow>
                (case LWWHLCRegister_Write r tr val of
                   Inl err \<Rightarrow> ((False, Some err), s)
                 | Inr (d, r') \<Rightarrow> publish_delta hk L G (\<lambda>_. ErrInternal) s t key entry (Register r') (RegisterDelta d))
            | _ \<Rightarrow> ((False, Some ErrUnexpectedType), s))"

section \<open>Gossip and recovery\<close>

text \<open>\<open>sent\<close> says whether the channel took the updates before the timeout.\<close>

definition bufferReadRound :: "'c lru \<Rightarrow> ('w, 'c) Storage \<Rightarrow> bool \<Rightarrow> go_error + ('w, 'c) Storage" where
  "bufferReadRound L s sent =
     bind_res (rb_PeekN L (st_buffer s) (st_peekBatchSize s)) (\<lambda>upds.
       Inr (if length upds = 0 then s
            else if sent then s\<lparr>st_chan := st_chan s @ [upds], st_buffer := snd (rb_RemoveN L (st_buffer s) (int (length upds)))\<rparr>
            else s))"

text \<open>The handler does not change what the replay decodes, so the replay is split: \<open>wal_updates\<close> are the updates it hands
  to the handler and the error it ends with, \<open>readings i\<close> the two clock readings while update \<open>i\<close> is applied.\<close>

definition wal_updates :: "'w gowal \<Rightarrow> 'w walWrapper \<Rightarrow> go_error option \<times> Update list" where
  "wal_updates G ww = ReplayAll G ww (\<lambda>us u. (None, us @ [u])) []"

fun timed :: "(nat \<Rightarrow> i64 \<times> i64) \<Rightarrow> nat \<Rightarrow> Update list \<Rightarrow> (i64 \<times> i64 \<times> Update) list" where
  "timed readings i [] = []"
| "timed readings i (u # us) = (fst (readings i), snd (readings i), u) # timed readings (Suc i) us"

definition restoreFromWAL ::
    "(string \<Rightarrow> u64) \<Rightarrow> 'w gowal \<Rightarrow> (nat \<Rightarrow> bool) \<Rightarrow> (nat \<Rightarrow> i64 \<times> i64) \<Rightarrow> ('w, 'c) Storage \<Rightarrow> go_error + (go_error option \<times> ('w, 'c) Storage)" where
  "restoreFromWAL hk G cancelled readings s =
     (let (walErr, us) = wal_updates G (st_wal s)
      in bind_res (RestoreFromWal hk cancelled walErr (st_vm s) (timed readings 0 us)) (\<lambda>(err, vm). Inr (err, s\<lparr>st_vm := vm\<rparr>)))"

text \<open>\<open>startErr\<close> and \<open>gossipErr\<close> are the results of \<open>engine.Start\<close> and \<open>gossip.Start\<close>; a failed \<open>Join\<close> is only logged.\<close>

definition StartUp ::
    "(string \<Rightarrow> u64) \<Rightarrow> 'w gowal \<Rightarrow> (nat \<Rightarrow> bool) \<Rightarrow> (nat \<Rightarrow> i64 \<times> i64) \<Rightarrow> go_error option \<Rightarrow> go_error option \<Rightarrow> ('w, 'c) Storage
       \<Rightarrow> go_error + (go_error option \<times> ('w, 'c) Storage)" where
  "StartUp hk G cancelled readings startErr gossipErr s =
     (case startErr of Some err \<Rightarrow> Inr (Some err, s)
      | None \<Rightarrow> bind_res (restoreFromWAL hk G cancelled readings s) (\<lambda>(err, s').
          Inr (case err of Some e \<Rightarrow> (Some e, s') | None \<Rightarrow> (gossipErr, s'))))"

definition GracefulStop :: "'w gowal \<Rightarrow> ('w, 'c) Storage \<Rightarrow> ('w, 'c) Storage" where
  "GracefulStop G s = s\<lparr>st_wal := snd (wal_Close G (st_wal s))\<rparr>"
section \<open>A delete that is never gossiped\<close>

lemma local_update_buffer:
  assumes "local_update s u = Inr (u', s1)"
  shows "st_buffer s1 = st_buffer s" "st_heap s1 = st_heap s" "Key u' = Key u" "NodeID u' = NodeID u" "st_engine s1 = st_engine s"
  using assms by (auto simp: local_update_def updateKeyStateHash_def Let_def bind_res_Inr_iff split: option.splits prod.splits)

lemma wal_append_rest: "wal_append G s u = (err, s') \<Longrightarrow> st_buffer s' = st_buffer s \<and> st_vm s' = st_vm s"
  by (auto simp: wal_append_def Let_def split: prod.splits)

text \<open>A payload of another type cannot be merged, and the new update is then not put into the buffer.\<close>

lemma buffer_put_refused:
  assumes laws: "lru_laws L entries cap" and b: "stored entries (st_buffer s) (cacheKey u) = Some b" "UType (bu_update b) = UpdateTypeDelta"
    and d: "fetch (st_heap s) (bu_payload b) = Some (RegisterDelta r)"
  shows "\<exists>c h. buffer_put L s u (CounterDelta d) = (None, s\<lparr>st_buffer := c, st_heap := h\<rparr>) \<and> stored entries c (cacheKey u) = Some b"
proof -
  let ?h = "st_heap s @ [CounterDelta d]" and ?b = "\<lparr>bu_update = u, bu_payload = length (st_heap s)\<rparr>"
  note law = lru_lawsD [OF laws]
  obtain c1 where g: "lru_Get L (st_buffer s) (cacheKey u) = (Some b, c1)"
    using law(1) [of "st_buffer s" "cacheKey u"] b(1) by (cases "lru_Get L (st_buffer s) (cacheKey u)") (auto simp: stored_def)
  have "entries c1 = without (cacheKey u) (entries (st_buffer s)) @ [(cacheKey u, b)]"
    using law(2) [of "st_buffer s" "cacheKey u"] g b(1) by (simp add: stored_def)
  then have c1: "stored entries c1 (cacheKey u) = Some b" by (simp add: stored_def map_add_def map_of_without)
  have f: "fetch ?h (bu_payload b) = Some (RegisterDelta r)" "fetch ?h (length (st_heap s)) = Some (CounterDelta d)"
    using d by (auto simp: fetch_def nth_append split: if_splits)
  have "ref_Merge ?h b ?b = Inl ErrCannotMerge"
    using b(2) f by (simp add: ref_Merge_def Let_def)
  with g c1 show ?thesis by (auto simp: buffer_put_def alloc_def Let_def)
qed

text \<open>C38. Deleting a register soon after writing it is not gossiped: the update of a delete carries an empty counter
  delta, the buffer still holds the register delta of the write, and merging the two fails, so the buffer
  keeps the write and drops the delete. The key is gone locally, while the updates that go out to the
  other nodes still contain the write and never the delete.\<close>

theorem delete_not_gossiped:
  assumes "lru_laws L entries cap" "eng_wf (st_engine s)" "GetRaw hk (st_engine s) key = Some ent"
    and "stored entries (st_buffer s) (key @ '':'' @ st_nodeID s) = Some b" "UType (bu_update b) = UpdateTypeDelta"
    and "fetch (st_heap s) (bu_payload b) = Some (RegisterDelta d)" "st_Delete hk L G s t now key = (res, s')"
  shows "st_Get hk s' key = None \<and> stored entries (st_buffer s') (key @ '':'' @ st_nodeID s) = Some b"
proof -
  obtain ts clk where now: "hlc_Now (eng_clock (st_engine s)) t = (ts, clk)" by fastforce
  let ?base = "(st_engine s)\<lparr>eng_clock := clk\<rparr>"
  let ?e = "snd (DeleteWithTimeStamp hk ?base now ts key)" and ?ent = "ent\<lparr>entTombstone := True, entSetTimeStamp := ts\<rparr>"
  let ?d = "CounterDelta zero_PNCounterDelta"
  let ?u = "\<lparr>Seq = 0, TimeStamp = ts, SetTimeStamp = ts, Payload = Some ?d, UType = UpdateTypeDelete, TTL = 0, Key = key, NodeID = st_nodeID s\<rparr>"
  have "fst (DeleteWithTimeStamp hk ?base now ts key) = Some ?ent" using assms(3) by (simp add: DeleteWithTimeStamp_def Let_def)
  then have s': "s' = snd (buffer_then_log L G (set_engine s ?e) ?u ?d)" using now assms(7)
    by (cases "DeleteWithTimeStamp hk ?base now ts key") (auto simp: st_Delete_def eng_Delete_def Let_def split: prod.splits option.splits)
  obtain u' s1 where l: "local_update (set_engine s ?e) ?u = Inr (u', s1)"
    by (cases "local_update (set_engine s ?e) ?u") (auto simp: local_update_def Let_def)
  note l' = local_update_buffer [OF l]
  have "\<exists>c h. buffer_put L s1 u' ?d = (None, s1\<lparr>st_buffer := c, st_heap := h\<rparr>) \<and> stored entries c (cacheKey u') = Some b"
    by (rule buffer_put_refused [OF assms(1), where r = d]) (use assms(4-6) l' in \<open>simp_all add: set_engine_def cacheKey_def\<close>)
  then obtain c h where p: "buffer_put L s1 u' ?d = (None, s1\<lparr>st_buffer := c, st_heap := h\<rparr>)" "stored entries c (cacheKey u') = Some b" by blast
  obtain err s3 where w: "wal_append G (s1\<lparr>st_buffer := c, st_heap := h\<rparr>) u' = (err, s3)" by fastforce
  have "s' = s3" using s' l p(1) w by (cases err) (simp_all add: buffer_then_log_def)
  moreover have "st_buffer s3 = c" "st_engine s3 = ?e" using wal_append_rest [OF w] l'(5) by (simp_all add: set_engine_def)
  moreover have "GetRaw hk ?e key = Some ?ent" using assms(2,3) by (simp add: eng_simps)
  ultimately show ?thesis using p(2) l'(3,4) by (simp add: st_Get_def eng_Get_def cacheKey_def)
qed
definition written_register :: "(Record list, (string \<times> bufupd) list) Storage" where
  "written_register = \<lparr>st_nodeID = ''n'',
     st_vm = NewVersionManager ''n'' (gc_engine [(''k'', \<lparr>entObject = Register (NewLWWHLCRegister ''n''), entTombstone = False, entSetTimeStamp = zero_ts\<rparr>)]),
     st_buffer = [(''k:n'', \<lparr>bu_update = zero_Update\<lparr>UType := UpdateTypeDelta, Key := ''k'', NodeID := ''n''\<rparr>, bu_payload = 0\<rparr>)],
     st_heap = [RegisterDelta \<lparr>dValue = [7], dTS = Timestamp 1 0 ''n''\<rparr>],
     st_wal = \<lparr>ww_w = [], ww_keyGen = NewKeyGen, ww_batch = [], ww_batchSize = 0, ww_batchCap = 2\<rparr>, st_chan = [], st_peekBatchSize = 10\<rparr>"

theorem delete_not_gossiped_witness:
  "st_Get (\<lambda>_. 0) (snd (st_Delete (\<lambda>_. 0) (list_lru 5) list_gowal written_register 5 5 ''k'')) ''k'' = None
   \<and> UType (bu_update (the (map_of (st_buffer (snd (st_Delete (\<lambda>_. 0) (list_lru 5) list_gowal written_register 5 5 ''k''))) ''k:n''))) = UpdateTypeDelta"
proof -
  let ?b = "\<lparr>bu_update = zero_Update\<lparr>UType := UpdateTypeDelta, Key := ''k'', NodeID := ''n''\<rparr>, bu_payload = 0\<rparr>"
    and ?s = "written_register"
  obtain res s' where s': "st_Delete (\<lambda>_. 0) (list_lru 5) list_gowal ?s 5 5 ''k'' = (res, s')" by fastforce
  have e: "eng_wf (st_engine ?s)" "GetRaw (\<lambda>_. 0) (st_engine ?s) ''k'' = Some \<lparr>entObject = Register (NewLWWHLCRegister ''n''), entTombstone = False, entSetTimeStamp = zero_ts\<rparr>"
    by (simp_all add: written_register_def NewVersionManager_def gc_engine_def eng_wf_def GetRaw_def shardFor_def)
  have "stored (\<lambda>c. c) (st_buffer ?s) (''k'' @ '':'' @ st_nodeID ?s) = Some ?b" "UType (bu_update ?b) = UpdateTypeDelta"
      "fetch (st_heap ?s) (bu_payload ?b) = Some (RegisterDelta \<lparr>dValue = [7], dTS = Timestamp 1 0 ''n''\<rparr>)"
    by (simp_all add: written_register_def stored_def fetch_def)
  from delete_not_gossiped [OF list_lru_laws e this s'] s' show ?thesis by (simp add: stored_def written_register_def)
qed

end
