(* ===== verification/Recovery.thy ===== *)
theory Recovery
  imports Storage
begin

text \<open>
  Runs of the storage of one node: client operations, rounds of gossip and flushes of the log, in any order,
  ended by \<open>GracefulStop\<close> and followed by a start on the same log. Lemmas: every operation that changes the
  data appends exactly one update to the log, and that update makes the same change on any node that shows
  the same data for its key; hence the restart restores what clients saw.
\<close>

section \<open>Publishing an update\<close>

text \<open>Updates in the buffer have their payload objects.\<close>

definition heap_ok :: "('c \<Rightarrow> (string \<times> bufupd) list) \<Rightarrow> ('w, 'c) Storage \<Rightarrow> bool" where
  "heap_ok entries s \<longleftrightarrow> list_all (\<lambda>(k, b). bu_payload b < length (st_heap s)) (entries (st_buffer s))"

text \<open>A payload without contributions, as sets and deletes carry it.\<close>

fun nil_payload :: "delta \<Rightarrow> bool" where
  "nil_payload (CounterDelta d) \<longleftrightarrow> dP d = None \<and> dN d = None"
| "nil_payload (RegisterDelta d) \<longleftrightarrow> True"

lemma delta_Merge_nil: "nil_payload e \<Longrightarrow> delta_Merge d e \<noteq> Inl (Panic p)"
  by (cases d; cases e) (auto simp: PNCounterDelta_Merge_def)

lemma evict_subset: "set (evict cap xs) \<subseteq> set xs"
  by (auto simp: evict_def dest: in_set_dropD)

lemma ref_Merge_heap:
  assumes "ref_Merge h b new = Inr (m, h')" "bu_payload b < length h" "bu_payload new < length h"
  shows "length h' = length h \<and> bu_payload m < length h"
  using assms by (auto simp: ref_Merge_def Let_def split: if_splits sum.splits option.splits)

lemma cannot_merge_Panic: "cannot_merge e = Panic p \<longleftrightarrow> e = Panic p"
  by (cases e) auto

text \<open>Putting one update keeps the payloads, and does not panic when its payload is empty.\<close>

lemma rb_Put_heap:
  assumes laws: "lru_laws L entries cap" and ok: "list_all (\<lambda>(k, b). bu_payload b < length h) (entries c)"
    and b: "bu_payload b < length h"
  shows "rb_Put L h c [b] = Inr (c', h') \<Longrightarrow> length h' = length h \<and> list_all (\<lambda>(k, b). bu_payload b < length h) (entries c')"
    and "nil_payload (h ! bu_payload b) \<Longrightarrow> \<exists>c' h'. rb_Put L h c [b] = Inr (c', h')"
proof -
  let ?k = "cacheKey (bu_update b)"
  note law = lru_lawsD [OF laws]
  obtain hit c1 where g: "lru_Get L c ?k = (hit, c1)" by fastforce
  have hit: "hit = map_of (entries c) ?k" using law(1) [of c ?k] g by simp
  have c1: "list_all (\<lambda>(k, b). bu_payload b < length h) (entries c1)"
    using law(2) [of c ?k] g ok by (auto simp: without_def list_all_iff split: option.splits dest!: map_of_SomeD)
  have add: "list_all (\<lambda>(k, b). bu_payload b < length h) (entries (lru_Add L x k v))"
    if "list_all (\<lambda>(k, b). bu_payload b < length h) (entries x)" "bu_payload v < length h" for x k v
    using that evict_subset [of cap "without k (entries x) @ [(k, v)]"] by (fastforce simp: law(3) without_def list_all_iff)
  show "length h' = length h \<and> list_all (\<lambda>(k, b). bu_payload b < length h) (entries c')" if "rb_Put L h c [b] = Inr (c', h')"
  proof (cases hit)
    case None
    with that g add [OF c1 b] show ?thesis by auto
  next
    case (Some u)
    then have u: "bu_payload u < length h" using hit ok by (auto simp: list_all_iff dest!: map_of_SomeD)
    show ?thesis
    proof (cases "ref_Merge h u b")
      case (Inl e)
      with that g Some c1 show ?thesis by (cases e) auto
    next
      case (Inr r)
      obtain m h'' where r: "r = (m, h'')" by fastforce
      have "length h'' = length h \<and> bu_payload m < length h" using ref_Merge_heap Inr r u b by blast
      with that g Some Inr r add [OF add [OF c1, of m] b] show ?thesis by (auto simp: Let_def)
    qed
  qed
  assume nil: "nil_payload (h ! bu_payload b)"
  have "ref_Merge h u b \<noteq> Inl (Panic p)" if "hit = Some u" for u p
  proof -
    have u: "bu_payload u < length h" using that hit ok by (auto simp: list_all_iff dest!: map_of_SomeD)
    then show ?thesis using b delta_Merge_nil [OF nil, of "h ! bu_payload u"]
      by (auto simp: ref_Merge_def Let_def fetch_def map_sum_Inl_iff cannot_merge_Panic split: if_splits sum.splits option.splits)
  qed
  then show "\<exists>c' h'. rb_Put L h c [b] = Inr (c', h')"
    using g by (cases hit) (fastforce simp: Let_def split: sum.splits go_error.splits)+
qed
text \<open>What publishing an update leaves: the engine is as before, the update has the next number and is the
  last one of the log.\<close>

definition numbered :: "('w, 'c) Storage \<Rightarrow> Update \<Rightarrow> Update" where
  "numbered s u = u\<lparr>Seq := vm_seq (st_vm s) + 1\<rparr>"

definition logged ::
    "(string \<Rightarrow> u64) \<Rightarrow> ('c \<Rightarrow> (string \<times> bufupd) list) \<Rightarrow> ('w \<Rightarrow> Record list) \<Rightarrow> Update list \<Rightarrow> ('w, 'c) Storage \<Rightarrow> Update \<Rightarrow> ('w, 'c) Storage \<Rightarrow> bool" where
  "logged hk entries log us s u s' \<longleftrightarrow> st_engine s' = st_engine s \<and> vm_seq (st_vm s') = vm_seq (st_vm s) + 1
     \<and> st_nodeID s' = st_nodeID s \<and> (vm_wf hk (st_vm s) \<longrightarrow> vm_wf hk (st_vm s')) \<and> heap_ok entries s'
     \<and> wal_inv log (us @ [numbered s u]) (st_wal s')"

lemma local_update_ok:
  assumes "Payload u = Some d"
  shows "\<exists>vm. local_update s u = Inr (numbered s u, s\<lparr>st_vm := vm\<rparr>) \<and> vm_engine vm = st_engine s
    \<and> vm_seq vm = vm_seq (st_vm s) + 1 \<and> (vm_wf hk (st_vm s) \<longrightarrow> vm_wf hk vm)"
proof -
  let ?vm = "updateKeyStateHash (st_vm s) (Key u) (stateDigest (delta_Hash d) (UType u = UpdateTypeDelete))"
  have "vm_wf hk (?vm\<lparr>vm_seq := x\<rparr>)" if "vm_wf hk (st_vm s)" for x
    using vm_wf_hash [OF that] by (simp add: vm_wf_def kv_wf_def)
  moreover have "local_update s u = Inr (numbered s u, s\<lparr>st_vm := ?vm\<lparr>vm_seq := vm_seq (st_vm s) + 1\<rparr>\<rparr>)"
    using assms by (simp add: local_update_def numbered_def vm_simps Let_def)
  ultimately show ?thesis by (intro exI [of _ "?vm\<lparr>vm_seq := vm_seq (st_vm s) + 1\<rparr>"]) (simp add: vm_simps)
qed

lemma buffer_put_ok:
  assumes "lru_laws L entries cap" "heap_ok entries s" "buffer_put L s u d = (err, s')"
  shows "heap_ok entries s' \<and> st_vm s' = st_vm s \<and> st_wal s' = st_wal s \<and> st_nodeID s' = st_nodeID s"
    and "nil_payload d \<Longrightarrow> err = None"
proof -
  let ?b = "\<lparr>bu_update = u, bu_payload = length (st_heap s)\<rparr>" and ?h = "st_heap s @ [d]"
  have ok: "list_all (\<lambda>(k, b). bu_payload b < length ?h) (entries (st_buffer s))"
    using assms(2) by (auto simp: heap_ok_def list_all_iff)
  note put = rb_Put_heap [OF assms(1) ok, of ?b]
  show "heap_ok entries s' \<and> st_vm s' = st_vm s \<and> st_wal s' = st_wal s \<and> st_nodeID s' = st_nodeID s"
  proof (cases "rb_Put L ?h (st_buffer s) [?b]")
    case (Inl e)
    with assms(2,3) show ?thesis by (simp add: buffer_put_def alloc_def)
  next
    case (Inr r)
    then obtain c' h' where r: "rb_Put L ?h (st_buffer s) [?b] = Inr (c', h')" by (cases r) simp
    then have "s' = s\<lparr>st_buffer := c', st_heap := h'\<rparr>" using assms(3) by (simp add: buffer_put_def alloc_def del: rb_Put.simps)
    with put(1) [OF _ r] show ?thesis by (simp add: heap_ok_def)
  qed
  assume "nil_payload d"
  then obtain c' h' where "rb_Put L ?h (st_buffer s) [?b] = Inr (c', h')" using put(2) by auto
  then show "err = None" using assms(3) by (simp add: buffer_put_def alloc_def)
qed

lemma update_appended:
  assumes "gowal_laws G log room" "wal_inv log us (st_wal s)" and u: "Payload u = Some d" "plain_update u" and ids: "\<forall>v \<in> set us. NodeID v = NodeID u"
  obtains vm ww where "local_update s u = Inr (numbered s u, s\<lparr>st_vm := vm\<rparr>)" "vm_engine vm = st_engine s"
    "vm_seq vm = vm_seq (st_vm s) + 1" "vm_wf hk (st_vm s) \<longrightarrow> vm_wf hk vm"
    "Append G (st_wal s) (numbered s u) = (None, ww)" "wal_inv log (us @ [numbered s u]) ww"
proof -
  have "fset_of_list (map NodeID (us @ [numbered s u])) |\<subseteq>| {|NodeID u|}" using ids by (auto simp: numbered_def fset_of_list_elem)
  then have "fcard (fset_of_list (map NodeID (us @ [numbered s u]))) \<le> fcard {|NodeID u|}" by (rule fcard_mono)
  then have "fcard (fset_of_list (map NodeID (us @ [numbered s u]))) \<le> 2 ^ stringBits"
    by (simp add: fcard_finsert_disjoint fcard_fempty stringBits_def)
  moreover have "plain_update (numbered s u)" using u(2) by (simp add: plain_update_def numbered_def)
  ultimately obtain ww where "Append G (st_wal s) (numbered s u) = (None, ww)" "wal_inv log (us @ [numbered s u]) ww"
    using Append_inv [OF assms(1,2), of "numbered s u"] by blast
  with local_update_ok [OF u(1), of s hk] that show ?thesis by blast
qed

lemma publish_logged:
  assumes laws: "lru_laws L entries cap" "gowal_laws G log room" and s: "heap_ok entries s" "wal_inv log us (st_wal s)"
    and u: "Payload u = Some d" "plain_update u" and ids: "\<forall>v \<in> set us. NodeID v = NodeID u"
  shows "\<exists>err s'. log_then_buffer L G walErr s u d = (err, s') \<and> logged hk entries log us s u s'"
    and "nil_payload d \<Longrightarrow> \<exists>s'. buffer_then_log L G s u d = (None, s') \<and> logged hk entries log us s u s'"
proof -
  obtain vm ww where vm: "local_update s u = Inr (numbered s u, s\<lparr>st_vm := vm\<rparr>)" "vm_engine vm = st_engine s"
      "vm_seq vm = vm_seq (st_vm s) + 1" "vm_wf hk (st_vm s) \<longrightarrow> vm_wf hk vm"
    and ww: "Append G (st_wal s) (numbered s u) = (None, ww)" "wal_inv log (us @ [numbered s u]) ww"
    using update_appended [OF laws(2) s(2) u ids] by metis
  let ?s1 = "s\<lparr>st_vm := vm\<rparr>" and ?s2 = "s\<lparr>st_vm := vm, st_wal := ww\<rparr>"
  have h: "heap_ok entries ?s1" "heap_ok entries ?s2" using s(1) by (simp_all add: heap_ok_def)
  obtain err s' where p: "buffer_put L ?s2 (numbered s u) d = (err, s')" by fastforce
  have "log_then_buffer L G walErr s u d = (err, s')" using vm(1) ww(1) p by (simp add: log_then_buffer_def wal_append_def)
  moreover have "logged hk entries log us s u s'"
    using buffer_put_ok(1) [OF laws(1) h(2) p] vm ww by (simp add: logged_def)
  ultimately show "\<exists>err s'. log_then_buffer L G walErr s u d = (err, s') \<and> logged hk entries log us s u s'" by blast
  assume nil: "nil_payload d"
  obtain s2 where q: "buffer_put L ?s1 (numbered s u) d = (None, s2)"
    using buffer_put_ok(2) [OF laws(1) h(1) _ nil] by (cases "buffer_put L ?s1 (numbered s u) d") auto
  note q' = buffer_put_ok(1) [OF laws(1) h(1) q]
  have "buffer_then_log L G s u d = (None, s2\<lparr>st_wal := ww\<rparr>)" using vm(1) ww(1) q q' by (simp add: buffer_then_log_def wal_append_def)
  moreover have "logged hk entries log us s u (s2\<lparr>st_wal := ww\<rparr>)" using q' vm ww by (simp add: logged_def heap_ok_def)
  ultimately show "\<exists>s'. buffer_then_log L G s u d = (None, s') \<and> logged hk entries log us s u s'" by blast
qed
section \<open>An update carries its operation\<close>

text \<open>The effect of an operation on the entry of its key, with the update it emits: a set creates a fresh entry,
  a delete marks the entry, a delta changes its object. The times of the update lie after the entry it
  changes.\<close>

definition set_effect :: "CRDTEntry option \<Rightarrow> Update \<Rightarrow> CRDTEntry \<Rightarrow> bool" where
  "set_effect old u ent \<longleftrightarrow> UType u = UpdateTypeSet \<and> TimeStamp u = SetTimeStamp u \<and> (\<forall>e. old = Some e \<longrightarrow> entSetTimeStamp e < SetTimeStamp u)
     \<and> entry_view ent = (SetTimeStamp u, map_option fresh_view (Payload u))"

definition delete_effect :: "CRDTEntry option \<Rightarrow> Update \<Rightarrow> CRDTEntry \<Rightarrow> bool" where
  "delete_effect old u ent \<longleftrightarrow> UType u = UpdateTypeDelete \<and> TimeStamp u = SetTimeStamp u
     \<and> (\<exists>e. old = Some e \<and> entSetTimeStamp e < SetTimeStamp u) \<and> entry_view ent = (SetTimeStamp u, None)"

definition delta_effect :: "CRDTEntry option \<Rightarrow> Update \<Rightarrow> CRDTEntry \<Rightarrow> bool" where
  "delta_effect old u ent \<longleftrightarrow> UType u = UpdateTypeDelta
     \<and> (\<exists>e d. old = Some e \<and> Payload u = Some d \<and> \<not> entTombstone e \<and> entSetTimeStamp e = SetTimeStamp u \<and> SetTimeStamp u < TimeStamp u
          \<and> crdt_Type (entObject e) = delta_Type d \<and> entry_view ent = (SetTimeStamp u, Some (view_absorb d (crdt_view (entObject e)))))"

definition effect :: "CRDTEntry option \<Rightarrow> Update \<Rightarrow> CRDTEntry \<Rightarrow> bool" where
  "effect old u ent \<longleftrightarrow> Payload u \<noteq> None \<and> (set_effect old u ent \<or> delete_effect old u ent \<or> delta_effect old u ent)"

lemma view_Type: "crdt_view c = crdt_view c' \<Longrightarrow> crdt_Type c = crdt_Type c'"
  by (cases c; cases c') auto

lemma fresh_entry_view:
  "fabric_New (delta_Type d) nid = Inr c \<Longrightarrow>
   entry_view \<lparr>entObject = c, entTombstone = False, entSetTimeStamp = g\<rparr> = (g, Some (fresh_view d))"
  using fabric_New_delta [of d nid] by (auto simp: entry_view_def)

text \<open>The updater reproduces the effect on any entry that looks like the one the operation changed.\<close>

lemma ApplyUpdate_effect:
  assumes "effect (Some e) u ent" "crdt_ok (entObject r)" "entry_view r = entry_view e"
  shows "\<exists>res r'. ApplyUpdate nid t r u = Inr (res, r') \<and> ResError res = None \<and> Applied res \<and> crdt_ok (entObject r')
    \<and> entry_view r' = entry_view ent"
proof -
  obtain d where d: "Payload u = Some d" using assms(1) by (auto simp: effect_def)
  have g: "entSetTimeStamp r = entSetTimeStamp e" using assms(3) by (simp add: entry_view_def)
  obtain c where c: "fabric_New (delta_Type d) nid = Inr c" "crdt_ok c" using fabric_New_delta by blast
  consider "set_effect (Some e) u ent" | "delete_effect (Some e) u ent" | "delta_effect (Some e) u ent" using assms(1) by (auto simp: effect_def)
  then show ?thesis
  proof cases
    case 1
    with g d c fresh_entry_view [OF c(1), of "SetTimeStamp u"] show ?thesis
      by (auto simp: set_effect_def ApplyUpdate_def applySet_def After_iff)
  next
    case 2
    with g assms(2) show ?thesis
      by (auto simp: delete_effect_def ApplyUpdate_def applyDelete_def After_iff entry_view_def)
  next
    case 3
    then have e: "\<not> entTombstone e" "entSetTimeStamp e = SetTimeStamp u" "SetTimeStamp u < TimeStamp u" "UType u = UpdateTypeDelta"
        "crdt_Type (entObject e) = delta_Type d" "entry_view ent = (SetTimeStamp u, Some (view_absorb d (crdt_view (entObject e))))"
      using d by (auto simp: delta_effect_def)
    then have r: "\<not> entTombstone r" "crdt_view (entObject r) = crdt_view (entObject e)"
      using assms(3) by (auto simp: entry_view_def split: if_splits)
    then have ty: "crdt_Type (entObject r) = delta_Type d" using view_Type e(5) by metis
    obtain c' where c': "crdt_ApplyDelta t (entObject r) d = Inr c'" "crdt_ok c'" "crdt_view c' = view_absorb d (crdt_view (entObject r))"
      using crdt_ApplyDelta_view [OF assms(2) ty] by blast
    have "applyDelta nid t r u d = Inr (res_modified, r\<lparr>entObject := c', entTombstone := False\<rparr>)"
      by (rule applyDelta_current) (use e g ty c' in \<open>auto simp: After_iff\<close>)
    then have "ApplyUpdate nid t r u = Inr (res_modified, r\<lparr>entObject := c', entTombstone := False\<rparr>)"
      using e d g order_less_asym [OF e(3)] by (simp add: ApplyUpdate_def After_iff)
    moreover have "entry_view (r\<lparr>entObject := c', entTombstone := False\<rparr>) = entry_view ent"
      using e(2,6) g c'(3) r(2) by (simp add: entry_view_def)
    ultimately show ?thesis using c'(2) by (intro exI [of _ res_modified] exI [of _ "r\<lparr>entObject := c', entTombstone := False\<rparr>"]) simp
  qed
qed

lemma replay_effect:
  assumes "vm_wf hk R" "effect old u ent" "key_view hk R (Key u) = map_option entry_view old"
  shows "\<exists>R'. apply_to_engine hk R t now u = Inr (True, R') \<and> vm_wf hk R' \<and> vm_nodeID R' = vm_nodeID R \<and> vm_history R' = vm_history R
    \<and> vm_seq R' = vm_seq R \<and> (\<forall>k. key_view hk R' k = (if k = Key u then Some (entry_view ent) else key_view hk R k))"
proof (cases "GetRaw hk (vm_engine R) (Key u)")
  case None
  then have old: "old = None" using assms(3) by (simp add: key_view_def)
  then have set: "set_effect None u ent" using assms(2) by (auto simp: effect_def delete_effect_def delta_effect_def)
  obtain d where d: "Payload u = Some d" using assms(2) by (auto simp: effect_def)
  obtain c where c: "fabric_New (delta_Type d) (vm_nodeID R) = Inr c" using fabric_New_delta by blast
  have "CreateFromUpdate (vm_nodeID R) t u = Inr \<lparr>entObject = c, entTombstone = False, entSetTimeStamp = SetTimeStamp u\<rparr>"
    using set d c by (simp add: CreateFromUpdate_def set_effect_def)
  moreover have "entry_view ent = (SetTimeStamp u, Some (fresh_view d))" using set d by (simp add: set_effect_def)
  ultimately show ?thesis
    using apply_absent [OF assms(1) None d, of t now] set fresh_entry_view [OF c, of "SetTimeStamp u"]
    by (auto simp: key_view_def set_effect_def)
next
  case (Some r)
  then obtain e where e: "old = Some e" "entry_view r = entry_view e" using assms(3) by (cases old) (auto simp: key_view_def)
  have "crdt_ok (entObject r)" using assms(1) Some by (auto simp: vm_wf_def)
  then obtain res r' where a: "ApplyUpdate (vm_nodeID R) t r u = Inr (res, r')" "ResError res = None" "Applied res"
      "crdt_ok (entObject r')" "entry_view r' = entry_view ent"
    using ApplyUpdate_effect [OF assms(2) [unfolded e(1)] _ e(2)] by blast
  from apply_existing [OF assms(1) Some a(1-4), of now] a(5) show ?thesis by (auto simp: key_view_def)
qed
section \<open>The clocks and the objects of a run\<close>

definition clock_covers :: "Time \<Rightarrow> Timestamp \<Rightarrow> bool" where
  "clock_covers h g \<longleftrightarrow> \<not> hlc_less (st_wall h, st_logical h) (WallTime g, Lamport g)"

text \<open>A clock that was read at most \<open>n\<close> times.\<close>

definition clock_ok :: "nat \<Rightarrow> Time \<Rightarrow> bool" where
  "clock_ok n h \<longleftrightarrow> plain (nodeID h) \<and> unat (st_logical h) \<le> n"

lemma hlc_Now_step:
  assumes "clock_ok n h" "n + 1 < 2 ^ 64" "hlc_Now h t = (ts, h')"
  shows "clock_ok (n + 1) h'" "plain (TsID ts)" "clock_covers h' ts" "clock_covers h g \<Longrightarrow> g < ts" "clock_covers h g \<Longrightarrow> clock_covers h' g"
proof -
  let ?p = "(st_wall h, st_logical h)" and ?q = "now_pair (nowNano h t) (st_wall h, st_logical h)"
  have q: "ts = Timestamp (fst ?q) (snd ?q) (nodeID h)" "h' = h\<lparr>st_wall := fst ?q, st_logical := snd ?q\<rparr>"
    using assms(3) by (auto simp: hlc_Now_def Let_def)
  have nm: "st_logical h \<noteq> - 1"
  proof
    assume "st_logical h = - 1"
    then have "unat (st_logical h) = 2 ^ 64 - 1" by (simp add: unsigned_minus_1_eq_mask mask_eq_exp_minus_1)
    with assms show False by (simp add: clock_ok_def)
  qed
  have pq: "hlc_less ?p ?q" using nm by (intro now_hlc_less) simp
  have "unat (snd ?q) \<le> unat (st_logical h) + 1"
    by (auto simp: now_pair_def Let_def unat_word_ariths intro: order_trans [OF mod_less_eq_dividend])
  then show "clock_ok (n + 1) h'" using assms(1) q by (simp add: clock_ok_def)
  show "plain (TsID ts)" using assms(1) q by (simp add: clock_ok_def)
  show "clock_covers h' ts" using q by (simp add: clock_covers_def hlc_less_def)
  assume g: "clock_covers h g"
  then have gq: "hlc_less (WallTime g, Lamport g) ?q" unfolding clock_covers_def using pq by (rule hlc_less_le_trans)
  then show "g < ts" using q(1) hlc_less_remote by simp
  show "clock_covers h' g" using hlc_less_asym [OF gq] q by (simp add: clock_covers_def)
qed

text \<open>Objects that only their own node changed, by increments and decrements of at most \<open>N\<close> in sum.\<close>

definition cnt_ok :: "int \<Rightarrow> PNCounter \<Rightarrow> bool" where
  "cnt_ok N c \<longleftrightarrow> pn_wf c \<and> plain (pn_id c)
     \<and> 0 \<le> sint (fm_get (gm (pP c)) (pn_id c)) \<and> sint (fm_get (gm (pP c)) (pn_id c)) \<le> N
     \<and> 0 \<le> sint (fm_get (gm (pN c)) (pn_id c)) \<and> sint (fm_get (gm (pN c)) (pn_id c)) \<le> N"

fun obj_ok :: "nat \<Rightarrow> int \<Rightarrow> crdt \<Rightarrow> bool" where
  "obj_ok n N (Counter c) \<longleftrightarrow> cnt_ok N c"
| "obj_ok n N (Register r) \<longleftrightarrow> (case reg_clock r of None \<Rightarrow> False | Some h \<Rightarrow> clock_ok n h \<and> clock_covers h (reg_ts r))"

lemma obj_ok_mono: "obj_ok n N x \<Longrightarrow> n \<le> n' \<Longrightarrow> N \<le> N' \<Longrightarrow> obj_ok n' N' x"
  by (cases x) (auto simp: cnt_ok_def clock_ok_def split: option.splits)

lemma obj_ok_crdt_ok: "obj_ok n N x \<Longrightarrow> crdt_ok x"
  by (cases x) (auto simp: cnt_ok_def split: option.splits)

lemma max_fm_raise:
  assumes "sint (fm_get m k) \<le> sint v"
  shows "max_fm (fmupd k v fmempty) m = fmupd k v m"
proof (rule fmap_ext)
  have "max_i64 (fm_get m k) v = v" using assms by (intro sint_eqI) (simp add: sint_max_i64)
  then show "fmlookup (max_fm (fmupd k v fmempty) m) x = fmlookup (fmupd k v m) x" for x by (auto simp: fmlookup_max_fm)
qed

lemma max_fm_empty [simp]: "max_fm fmempty m = m"
  by (rule fmap_ext) (simp add: fmlookup_max_fm)

text \<open>What each operation on an object leaves, and that its delta carries it.\<close>

lemma Increment_effect:
  assumes "cnt_ok N c" "0 \<le> sint x" "N + sint x < 2 ^ 63"
  shows "\<exists>d c'. Increment c x = Inr (d, c') \<and> cnt_ok (N + sint x) c' \<and> plain_delta (CounterDelta d)
    \<and> crdt_view (Counter c') = view_absorb (CounterDelta d) (crdt_view (Counter c))"
proof -
  let ?g = "fm_get (gm (pP c)) (pn_id c)"
  obtain p q where pq: "pP c = Some p" "pN c = Some q" using assms(1) by (auto simp: cnt_ok_def pn_wf_def)
  have s: "sint (?g + x) = sint ?g + sint x" using assms by (intro sint_add_nonneg) (auto simp: cnt_ok_def)
  then have le: "sint (fm_get p (pn_id c)) \<le> sint (?g + x)" using assms(2) pq by simp
  let ?d = "\<lparr>dP = Some (fmupd (pn_id c) (?g + x) fmempty), dN = None\<rparr>" and ?c = "c\<lparr>pP := Some (fmupd (pn_id c) (?g + x) p)\<rparr>"
  have "Increment c x = Inr (?d, ?c)" using pq by (simp add: Increment_def Let_def)
  moreover have "cnt_ok (N + sint x) ?c" using assms s pq by (auto simp: cnt_ok_def pn_wf_def fm_get_fmupd)
  moreover have "plain_delta (CounterDelta ?d)" using assms(1) by (auto simp: cnt_ok_def plain_map_def)
  moreover have "crdt_view (Counter ?c) = view_absorb (CounterDelta ?d) (crdt_view (Counter c))"
    using pq max_fm_raise [OF le] by simp
  ultimately show ?thesis by blast
qed

lemma Decrement_effect:
  assumes "cnt_ok N c" "0 \<le> sint x" "N + sint x < 2 ^ 63"
  shows "\<exists>d c'. Decrement c x = Inr (d, c') \<and> cnt_ok (N + sint x) c' \<and> plain_delta (CounterDelta d)
    \<and> crdt_view (Counter c') = view_absorb (CounterDelta d) (crdt_view (Counter c))"
proof -
  let ?g = "fm_get (gm (pN c)) (pn_id c)"
  obtain p q where pq: "pP c = Some p" "pN c = Some q" using assms(1) by (auto simp: cnt_ok_def pn_wf_def)
  have s: "sint (?g + x) = sint ?g + sint x" using assms by (intro sint_add_nonneg) (auto simp: cnt_ok_def)
  then have le: "sint (fm_get q (pn_id c)) \<le> sint (?g + x)" using assms(2) pq by simp
  let ?d = "\<lparr>dP = None, dN = Some (fmupd (pn_id c) (?g + x) fmempty)\<rparr>" and ?c = "c\<lparr>pN := Some (fmupd (pn_id c) (?g + x) q)\<rparr>"
  have "Decrement c x = Inr (?d, ?c)" using pq by (simp add: Decrement_def Let_def)
  moreover have "cnt_ok (N + sint x) ?c" using assms s pq by (auto simp: cnt_ok_def pn_wf_def fm_get_fmupd)
  moreover have "plain_delta (CounterDelta ?d)" using assms(1) by (auto simp: cnt_ok_def plain_map_def)
  moreover have "crdt_view (Counter ?c) = view_absorb (CounterDelta ?d) (crdt_view (Counter c))"
    using pq max_fm_raise [OF le] by simp
  ultimately show ?thesis by blast
qed

lemma Write_effect:
  assumes "obj_ok n N (Register r)" "n + 1 < 2 ^ 64"
  shows "\<exists>d r'. LWWHLCRegister_Write r t v = Inr (d, r') \<and> obj_ok (n + 1) N (Register r') \<and> plain_delta (RegisterDelta d)
    \<and> crdt_view (Register r') = view_absorb (RegisterDelta d) (crdt_view (Register r))"
proof -
  obtain h where h: "reg_clock r = Some h" "clock_ok n h" "clock_covers h (reg_ts r)" using assms(1) by (auto split: option.splits)
  obtain ts h' where now: "hlc_Now h t = (ts, h')" by fastforce
  note st = hlc_Now_step [OF h(2) assms(2) now]
  have "reg_ts r < ts" using st(4) h(3) by blast
  then show ?thesis using h(1) now st(1-3) by (simp add: LWWHLCRegister_Write_def lww_absorb_def)
qed

lemma fabric_New_ok:
  assumes "plain nid" "fabric_New ty nid = Inr c" "NilDelta ty = Inr d" "0 \<le> N"
  shows "obj_ok n N c \<and> delta_Type d = ty \<and> plain_delta d \<and> nil_payload d \<and> crdt_view c = fresh_view d"
  using assms by (auto simp: fabric_New_def NilDelta_def NewPNCounter_def NewLWWHLCRegister_def cnt_ok_def pn_wf_def NewHLC_def clock_ok_def
      clock_covers_def hlc_less_def zero_ts_def zero_PNCounterDelta_def zero_LWWHLCRegisterDelta_def plain_map_def plain_ascii split: if_splits)
section \<open>Runs\<close>

datatype st_op = OpPut i64 string CRDTType | OpDelete i64 i64 string | OpInc i64 string i64 | OpDec i64 string i64
  | OpWrite i64 i64 string bytes | OpGossip bool | OpFlush

fun st_exec :: "(string \<Rightarrow> u64) \<Rightarrow> 'c lru \<Rightarrow> 'w gowal \<Rightarrow> st_op \<Rightarrow> ('w, 'c) Storage \<Rightarrow> ('w, 'c) Storage" where
  "st_exec hk L G (OpPut t key ty) s = snd (st_Put hk L G s t key ty)"
| "st_exec hk L G (OpDelete t now key) s = snd (st_Delete hk L G s t now key)"
| "st_exec hk L G (OpInc t key x) s = snd (ApplyInc hk L G s t key x)"
| "st_exec hk L G (OpDec t key x) s = snd (ApplyDec hk L G s t key x)"
| "st_exec hk L G (OpWrite tr t key v) s = snd (ApplySetRegister hk L G s tr t key v)"
| "st_exec hk L G (OpGossip sent) s = (case bufferReadRound L s sent of Inl e \<Rightarrow> s | Inr s' \<Rightarrow> s')"
| "st_exec hk L G OpFlush s = s\<lparr>st_wal := flush_tick G (st_wal s)\<rparr>"

fun op_amount :: "st_op \<Rightarrow> int" where
  "op_amount (OpInc t key x) = sint x"
| "op_amount (OpDec t key x) = sint x"
| "op_amount _ = 0"

fun op_plain :: "st_op \<Rightarrow> bool" where
  "op_plain (OpPut t key ty) \<longleftrightarrow> plain key"
| "op_plain (OpDelete t now key) \<longleftrightarrow> plain key"
| "op_plain (OpInc t key x) \<longleftrightarrow> plain key"
| "op_plain (OpDec t key x) \<longleftrightarrow> plain key"
| "op_plain (OpWrite tr t key v) \<longleftrightarrow> plain key"
| "op_plain _ \<longleftrightarrow> True"

definition engine_inv :: "(string \<Rightarrow> u64) \<Rightarrow> nat \<Rightarrow> int \<Rightarrow> Engine \<Rightarrow> bool" where
  "engine_inv hk n N e \<longleftrightarrow> clock_ok n (eng_clock e)
     \<and> (\<forall>key ent. GetRaw hk e key = Some ent \<longrightarrow> clock_covers (eng_clock e) (entSetTimeStamp ent)
          \<and> plain (TsID (entSetTimeStamp ent)) \<and> obj_ok n N (entObject ent))"

definition run_inv ::
    "(string \<Rightarrow> u64) \<Rightarrow> ('c \<Rightarrow> (string \<times> bufupd) list) \<Rightarrow> ('w \<Rightarrow> Record list) \<Rightarrow> nat \<Rightarrow> int \<Rightarrow> Update list \<Rightarrow> ('w, 'c) Storage \<Rightarrow> bool" where
  "run_inv hk entries log n N us s \<longleftrightarrow> vm_wf hk (st_vm s) \<and> plain (st_nodeID s) \<and> 0 \<le> N \<and> engine_inv hk n N (st_engine s)
     \<and> heap_ok entries s \<and> wal_inv log us (st_wal s) \<and> list_all (\<lambda>u. plain_update u \<and> NodeID u = st_nodeID s) us
     \<and> vm_seq (st_vm s) = of_nat (length us)"

text \<open>One step of a run: it logs nothing and changes no entry, or logs the update that carries its effect.\<close>

definition run_step ::
    "(string \<Rightarrow> u64) \<Rightarrow> ('c \<Rightarrow> (string \<times> bufupd) list) \<Rightarrow> ('w \<Rightarrow> Record list) \<Rightarrow> nat \<Rightarrow> int \<Rightarrow> Update list \<Rightarrow> ('w, 'c) Storage \<Rightarrow> ('w, 'c) Storage \<Rightarrow> bool" where
  "run_step hk entries log n N us s s' \<longleftrightarrow> st_nodeID s' = st_nodeID s \<and>
     (run_inv hk entries log n N us s' \<and> (\<forall>k. GetRaw hk (st_engine s') k = GetRaw hk (st_engine s) k)
     \<or> (\<exists>u ent. run_inv hk entries log n N (us @ [u]) s' \<and> Seq u = vm_seq (st_vm s) + 1 \<and> effect (GetRaw hk (st_engine s) (Key u)) u ent
          \<and> (\<forall>k. GetRaw hk (st_engine s') k = (if k = Key u then Some ent else GetRaw hk (st_engine s) k))))"

lemma engine_inv_mono: "engine_inv hk n N e \<Longrightarrow> n \<le> n' \<Longrightarrow> N \<le> N' \<Longrightarrow> engine_inv hk n' N' e"
  unfolding engine_inv_def by (auto simp: clock_ok_def intro: obj_ok_mono)

lemma engine_inv_Now:
  assumes "engine_inv hk n N e" "n + 1 < 2 ^ 64" "N \<le> N'" "hlc_Now (eng_clock e) t = (ts, clk)" "eng_clock e' = clk"
    and "\<And>k. GetRaw hk e' k = (if k = key then Some ent else GetRaw hk e k)" "clock_covers clk (entSetTimeStamp ent)"
    and "plain (TsID (entSetTimeStamp ent))" "obj_ok (n + 1) N' (entObject ent)"
  shows "engine_inv hk (n + 1) N' e'"
proof -
  have "clock_ok n (eng_clock e)" using assms(1) by (simp add: engine_inv_def)
  note st = hlc_Now_step [OF this assms(2,4)]
  show ?thesis using assms st(1,5) obj_ok_mono [of n N _ "n + 1" N'] by (auto simp: engine_inv_def split: if_splits)
qed

lemma run_inv_mono:
  "run_inv hk entries log n N us s \<Longrightarrow> n \<le> n' \<Longrightarrow> N \<le> N' \<Longrightarrow> run_inv hk entries log n' N' us s"
  unfolding run_inv_def by (auto intro: engine_inv_mono)

lemma run_inv_idle:
  "run_inv hk entries log n N us s \<Longrightarrow> n \<le> n' \<Longrightarrow> N \<le> N' \<Longrightarrow> run_step hk entries log n' N' us s s"
  unfolding run_step_def by (auto intro: run_inv_mono)

lemma effect_numbered [simp]: "effect old (numbered s u) ent = effect old u ent" "Key (numbered s u) = Key u"
  by (simp_all add: effect_def set_effect_def delete_effect_def delta_effect_def numbered_def)

lemma run_step_logged:
  assumes "run_inv hk entries log n N us s" "logged hk entries log us (set_engine s e) u s'"
    and "eng_wf e" "\<And>k. GetRaw hk e k = (if k = Key u then Some ent else GetRaw hk (st_engine s) k)"
    and "engine_inv hk n' N' e" "0 \<le> N'" "effect (GetRaw hk (st_engine s) (Key u)) u ent" "plain_update u" "NodeID u = st_nodeID s"
  shows "run_step hk entries log n' N' us s s'"
proof -
  let ?u = "numbered (set_engine s e) u"
  have e: "st_engine (set_engine s e) = e" "vm_seq (st_vm (set_engine s e)) = vm_seq (st_vm s)" "st_nodeID (set_engine s e) = st_nodeID s"
    by (simp_all add: set_engine_def)
  have "GetRaw hk e (Key u) = Some ent" using assms(4) by simp
  then have ok: "crdt_ok (entObject ent)" using assms(5) obj_ok_crdt_ok [of n' N'] by (simp add: engine_inv_def)
  have "vm_wf hk ((st_vm s)\<lparr>vm_engine := e\<rparr>)"
    by (rule vm_wf_store [OF _ assms(3,4) ok]) (use assms(1) in \<open>simp add: run_inv_def\<close>)
  then have "vm_wf hk (st_vm s')" using assms(2) by (simp add: logged_def set_engine_def)
  moreover have "plain_update ?u" "NodeID ?u = st_nodeID s" "Seq ?u = vm_seq (st_vm s) + 1" using assms(8,9) e by (simp_all add: plain_update_def numbered_def)
  ultimately have "run_inv hk entries log n' N' (us @ [?u]) s'"
    using assms(1,2,5,6) e by (simp add: run_inv_def logged_def)
  then show ?thesis using assms(2,4,7) e \<open>Seq ?u = _\<close> unfolding run_step_def logged_def
    by (intro conjI disjI2 exI [of _ ?u] exI [of _ ent]) simp_all
qed
text \<open>The operations, one by one.\<close>

lemma plain_updateI:
  "plain (Key u) \<Longrightarrow> plain (NodeID u) \<Longrightarrow> plain (TsID (TimeStamp u)) \<Longrightarrow> plain (TsID (SetTimeStamp u)) \<Longrightarrow> Payload u = Some d \<Longrightarrow>
   plain_delta d \<Longrightarrow> UType u \<in> {UpdateTypeDelta, UpdateTypeSet, UpdateTypeDelete} \<Longrightarrow> plain_update u"
  by (simp add: plain_update_def)

lemma run_invD:
  assumes "run_inv hk entries log n N us s"
  shows "eng_wf (st_engine s)" "plain (st_nodeID s)" "0 \<le> N" "engine_inv hk n N (st_engine s)" "heap_ok entries s" "wal_inv log us (st_wal s)"
    "\<forall>v \<in> set us. NodeID v = st_nodeID s" "clock_ok n (eng_clock (st_engine s))" "vm_wf hk (st_vm s)"
  using assms by (auto simp: run_inv_def vm_wf_def engine_inv_def list_all_iff)

lemma logged_base:
  "heap_ok entries s \<Longrightarrow> heap_ok entries (set_engine s e)" "st_wal (set_engine s e) = st_wal s" "st_nodeID (set_engine s e) = st_nodeID s"
  by (simp_all add: heap_ok_def set_engine_def)

lemma st_Put_step:
  assumes laws: "lru_laws L entries cap" "gowal_laws G log room" and inv: "run_inv hk entries log n N us s"
    and lim: "n + 1 < 2 ^ 64" and key: "plain key"
  shows "run_step hk entries log (n + 1) N us s (snd (st_Put hk L G s t key ty)) \<and> (isl (fabric_New ty (st_nodeID s)) \<or> fst (st_Put hk L G s t key ty) = None)"
proof (cases "fabric_New ty (st_nodeID s)")
  case (Inl err)
  with run_inv_idle [OF inv, of "n + 1" N] show ?thesis by (simp add: st_Put_def)
next
  case (Inr val)
  note i = run_invD [OF inv]
  obtain d where d: "NilDelta ty = Inr d" using Inr by (auto simp: fabric_New_def NilDelta_def split: if_splits)
  note f = fabric_New_ok [OF i(2) Inr d i(3)]
  obtain ts clk where now: "hlc_Now (eng_clock (st_engine s)) t = (ts, clk)" by fastforce
  note st = hlc_Now_step [OF i(8) lim now]
  let ?ent = "\<lparr>entObject = val, entTombstone = False, entSetTimeStamp = ts\<rparr>"
  let ?e = "snd (PutWithTimeStamp hk ((st_engine s)\<lparr>eng_clock := clk\<rparr>) ts key val)"
  let ?u = "\<lparr>Seq = 0, TimeStamp = ts, SetTimeStamp = ts, Payload = Some d, UType = UpdateTypeSet, TTL = 0, Key = key, NodeID = st_nodeID s\<rparr>"
  have e: "eng_wf ?e" "\<And>k. GetRaw hk ?e k = (if k = key then Some ?ent else GetRaw hk (st_engine s) k)"
    using i(1) by (simp_all add: eng_simps)
  have clk: "eng_clock ?e = clk" by (simp add: PutWithTimeStamp_def eng_store_def Let_def)
  have pl: "plain_update ?u" by (rule plain_updateI) (use key i(2) st(2) f in auto)
  obtain s' where s': "buffer_then_log L G (set_engine s ?e) ?u d = (None, s')" "logged hk entries log us (set_engine s ?e) ?u s'"
    using publish_logged(2) [OF laws, of "set_engine s ?e" us ?u d hk] f pl i(5-7) by (auto simp: logged_base)
  have put: "st_Put hk L G s t key ty = (None, s')"
    using Inr d now s'(1) by (simp add: st_Put_def eng_Put_def Let_def PutWithTimeStamp_def)
  have old: "entSetTimeStamp x < ts" if "GetRaw hk (st_engine s) key = Some x" for x
    using that i(4) st(4) by (auto simp: engine_inv_def)
  have eff: "effect (GetRaw hk (st_engine s) key) ?u ?ent"
    using old f by (auto simp: effect_def set_effect_def entry_view_def)
  have "engine_inv hk (n + 1) N ?e"
    by (rule engine_inv_Now [OF i(4) lim _ now clk e(2)]) (use st(2,3) f obj_ok_mono in auto)
  from run_step_logged [OF inv s'(2) e(1) _ this i(3)] e(2) eff pl show ?thesis unfolding put by simp
qed
lemma st_Delete_step:
  assumes laws: "lru_laws L entries cap" "gowal_laws G log room" and inv: "run_inv hk entries log n N us s"
    and lim: "n + 1 < 2 ^ 64" and key: "plain key"
  shows "run_step hk entries log (n + 1) N us s (snd (st_Delete hk L G s t now key))"
proof -
  note i = run_invD [OF inv]
  obtain ts clk where now: "hlc_Now (eng_clock (st_engine s)) t = (ts, clk)" by fastforce
  note st = hlc_Now_step [OF i(8) lim now]
  let ?base = "(st_engine s)\<lparr>eng_clock := clk\<rparr>"
  show ?thesis
  proof (cases "GetRaw hk (st_engine s) key")
    case None
    then have del: "snd (st_Delete hk L G s t now key) = set_engine s ?base"
      using now by (simp add: st_Delete_def eng_Delete_def DeleteWithTimeStamp_def)
    have "engine_inv hk (n + 1) N ?base" using i(4) st(1,5) obj_ok_mono by (fastforce simp: engine_inv_def)
    moreover have "vm_wf hk ((st_vm s)\<lparr>vm_engine := ?base\<rparr>)" using i(9) by (simp add: vm_wf_def)
    ultimately show ?thesis using inv unfolding del run_step_def run_inv_def by (simp add: set_engine_def heap_ok_def)
  next
    case (Some old)
    let ?ent = "old\<lparr>entTombstone := True, entSetTimeStamp := ts\<rparr>" and ?e = "snd (DeleteWithTimeStamp hk ?base now ts key)"
      and ?d = "CounterDelta zero_PNCounterDelta"
    let ?u = "\<lparr>Seq = 0, TimeStamp = ts, SetTimeStamp = ts, Payload = Some ?d, UType = UpdateTypeDelete, TTL = 0, Key = key, NodeID = st_nodeID s\<rparr>"
    have e: "eng_wf ?e" "\<And>k. GetRaw hk ?e k = (if k = key then Some ?ent else GetRaw hk (st_engine s) k)"
      using i(1) Some by (simp_all add: eng_simps)
    have clk: "eng_clock ?e = clk" using Some by (simp add: DeleteWithTimeStamp_def eng_store_def Let_def)
    have pl: "plain_update ?u" by (rule plain_updateI) (use key i(2) st(2) in \<open>auto simp: zero_PNCounterDelta_def plain_map_def\<close>)
    obtain s' where s': "buffer_then_log L G (set_engine s ?e) ?u ?d = (None, s')" "logged hk entries log us (set_engine s ?e) ?u s'"
      using publish_logged(2) [OF laws, of "set_engine s ?e" us ?u ?d hk] pl i(5-7) by (auto simp: logged_base zero_PNCounterDelta_def)
    have "fst (DeleteWithTimeStamp hk ?base now ts key) = Some ?ent" using Some by (simp add: DeleteWithTimeStamp_def Let_def)
    then have del: "snd (st_Delete hk L G s t now key) = s'" using now s'(1)
      by (cases "DeleteWithTimeStamp hk ?base now ts key") (simp add: st_Delete_def eng_Delete_def Let_def)
    have cov: "entSetTimeStamp old < ts" "obj_ok n N (entObject old)" using Some i(4) st(4) by (auto simp: engine_inv_def)
    have eff: "effect (GetRaw hk (st_engine s) key) ?u ?ent"
      using cov Some by (auto simp: effect_def delete_effect_def entry_view_def)
    have "engine_inv hk (n + 1) N ?e"
      by (rule engine_inv_Now [OF i(4) lim _ now clk e(2)]) (use st(2,3) cov obj_ok_mono in auto)
    from run_step_logged [OF inv s'(2) e(1) _ this i(3)] e(2) eff pl show ?thesis unfolding del by simp
  qed
qed

text \<open>The three operations on objects share their second half.\<close>

lemma publish_delta_step:
  assumes laws: "lru_laws L entries cap" "gowal_laws G log room" and inv: "run_inv hk entries log n N us s"
    and lim: "n + 1 < 2 ^ 64" and key: "plain key" and old: "GetRaw hk (st_engine s) key = Some old" "\<not> entTombstone old"
    and d: "crdt_Type (entObject old) = delta_Type d" "plain_delta d" "crdt_view obj = view_absorb d (crdt_view (entObject old))"
    and N: "N \<le> N'" "obj_ok (n + 1) N' obj"
  shows "run_step hk entries log (n + 1) N' us s (snd (publish_delta hk L G walErr s t key old obj d))"
proof -
  note i = run_invD [OF inv]
  obtain ts clk where now: "hlc_Now (eng_clock (st_engine s)) t = (ts, clk)" by fastforce
  note st = hlc_Now_step [OF i(8) lim now]
  let ?ent = "old\<lparr>entObject := obj\<rparr>" and ?e = "(eng_store hk (st_engine s) key (old\<lparr>entObject := obj\<rparr>))\<lparr>eng_clock := clk\<rparr>"
  let ?u = "\<lparr>Seq = 0, TimeStamp = ts, SetTimeStamp = entSetTimeStamp old, Payload = Some d, UType = UpdateTypeDelta, TTL = 0, Key = key, NodeID = st_nodeID s\<rparr>"
  have e: "eng_wf ?e" "\<And>k. GetRaw hk ?e k = (if k = key then Some ?ent else GetRaw hk (st_engine s) k)"
    using i(1) by (simp_all add: eng_simps)
  have cov: "clock_covers (eng_clock (st_engine s)) (entSetTimeStamp old)" "plain (TsID (entSetTimeStamp old))"
    using old i(4) by (auto simp: engine_inv_def)
  have pl: "plain_update ?u" by (rule plain_updateI) (use key i(2) st(2) d(2) cov in auto)
  obtain err s' where s': "log_then_buffer L G walErr (set_engine s ?e) ?u d = (err, s')" "logged hk entries log us (set_engine s ?e) ?u s'"
    using publish_logged(1) [OF laws, of "set_engine s ?e" us ?u d walErr hk] pl i(5-7) by (auto simp: logged_base)
  have "eng_clock (eng_store hk (st_engine s) key ?ent) = eng_clock (st_engine s)" by (simp add: eng_store_def Let_def)
  then have pub: "snd (publish_delta hk L G walErr s t key old obj d) = s'"
    using now s'(1) by (cases err) (simp_all add: publish_delta_def Let_def)
  have eff: "effect (GetRaw hk (st_engine s) key) ?u ?ent"
    using old d st(4) [OF cov(1)] by (auto simp: effect_def delta_effect_def entry_view_def)
  have "engine_inv hk (n + 1) N' ?e"
    by (rule engine_inv_Now [OF i(4) lim N(1) now _ e(2)]) (use st(5) [OF cov(1)] cov(2) N(2) in auto)
  from run_step_logged [OF inv s'(2) e(1) _ this] e(2) eff pl i(3) N(1) show ?thesis unfolding pub by simp
qed
lemma eng_Get_Some: "eng_Get hk e key = Some ent \<longleftrightarrow> GetRaw hk e key = Some ent \<and> \<not> entTombstone ent"
  by (auto simp: eng_Get_def split: option.splits)

lemma ApplyInc_step:
  assumes laws: "lru_laws L entries cap" "gowal_laws G log room" and inv: "run_inv hk entries log n N us s"
    and lim: "n + 1 < 2 ^ 64" and key: "plain key" and x: "0 \<le> sint x" "N + sint x < 2 ^ 63"
  shows "run_step hk entries log (n + 1) (N + sint x) us s (snd (ApplyInc hk L G s t key x))"
    and "run_step hk entries log (n + 1) (N + sint x) us s (snd (ApplyDec hk L G s t key x))"
proof -
  have idle: "run_step hk entries log (n + 1) (N + sint x) us s s" using run_inv_idle [OF inv] x(1) by simp
  have c: "run_step hk entries log (n + 1) (N + sint x) us s (snd (publish_delta hk L G walErr s t key old (Counter c') (CounterDelta d)))"
    if "GetRaw hk (st_engine s) key = Some old" "\<not> entTombstone old" "entObject old = Counter c" "cnt_ok (N + sint x) c'"
      "plain_delta (CounterDelta d)" "crdt_view (Counter c') = view_absorb (CounterDelta d) (crdt_view (Counter c))" for walErr old c c' d
    using publish_delta_step [OF laws inv lim key that(1,2), of "CounterDelta d" "Counter c'" "N + sint x"] that(3-6) x(1) by simp
  have ok: "cnt_ok N c" if "GetRaw hk (st_engine s) key = Some old" "entObject old = Counter c" for old c
    using run_invD(4) [OF inv] that by (fastforce simp: engine_inv_def)
  show "run_step hk entries log (n + 1) (N + sint x) us s (snd (ApplyInc hk L G s t key x))"
  proof (cases "eng_Get hk (st_engine s) key")
    case (Some old)
    note g = Some [unfolded eng_Get_Some]
    show ?thesis
    proof (cases "entObject old")
      case (Counter k)
      then obtain d c' where dc: "Increment k x = Inr (d, c')" "cnt_ok (N + sint x) c'" "plain_delta (CounterDelta d)"
          "crdt_view (Counter c') = view_absorb (CounterDelta d) (crdt_view (Counter k))"
        using Increment_effect [OF ok x, of old k] g by blast
      with c [OF _ _ Counter dc(2-4)] g Some Counter show ?thesis by (simp add: ApplyInc_def)
    qed (use g Some idle in \<open>simp add: ApplyInc_def\<close>)
  qed (use idle in \<open>simp add: ApplyInc_def\<close>)
  show "run_step hk entries log (n + 1) (N + sint x) us s (snd (ApplyDec hk L G s t key x))"
  proof (cases "eng_Get hk (st_engine s) key")
    case (Some old)
    note g = Some [unfolded eng_Get_Some]
    show ?thesis
    proof (cases "entObject old")
      case (Counter k)
      then obtain d c' where dc: "Decrement k x = Inr (d, c')" "cnt_ok (N + sint x) c'" "plain_delta (CounterDelta d)"
          "crdt_view (Counter c') = view_absorb (CounterDelta d) (crdt_view (Counter k))"
        using Decrement_effect [OF ok x, of old k] g by blast
      with c [OF _ _ Counter dc(2-4)] g Some Counter show ?thesis by (simp add: ApplyDec_def)
    qed (use g Some idle in \<open>simp add: ApplyDec_def\<close>)
  qed (use idle in \<open>simp add: ApplyDec_def\<close>)
qed

lemma ApplySetRegister_step:
  assumes laws: "lru_laws L entries cap" "gowal_laws G log room" and inv: "run_inv hk entries log n N us s"
    and lim: "n + 1 < 2 ^ 64" and key: "plain key"
  shows "run_step hk entries log (n + 1) N us s (snd (ApplySetRegister hk L G s tr t key v))"
proof (cases "eng_Get hk (st_engine s) key")
  case None
  with run_inv_idle [OF inv, of "n + 1" N] show ?thesis by (simp add: ApplySetRegister_def)
next
  case (Some old)
  note g = Some [unfolded eng_Get_Some]
  show ?thesis
  proof (cases "entObject old")
    case (Counter c)
    with run_inv_idle [OF inv, of "n + 1" N] Some g show ?thesis by (simp add: ApplySetRegister_def)
  next
    case (Register r)
    have "obj_ok n N (Register r)" using run_invD(4) [OF inv] g Register by (fastforce simp: engine_inv_def)
    then obtain d r' where w: "LWWHLCRegister_Write r tr v = Inr (d, r')" "obj_ok (n + 1) N (Register r')" "plain_delta (RegisterDelta d)"
        "crdt_view (Register r') = view_absorb (RegisterDelta d) (crdt_view (Register r))"
      using Write_effect [OF _ lim] by blast
    from publish_delta_step [OF laws inv lim key, of old "RegisterDelta d" "Register r'" N] w g Some Register
    show ?thesis by (simp add: ApplySetRegister_def)
  qed
qed

lemma bufferReadRound_step:
  assumes laws: "lru_laws L entries cap" and inv: "run_inv hk entries log n N us s" and r: "bufferReadRound L s b = Inr s'"
  shows "run_step hk entries log (n + 1) N us s s'"
proof -
  have idle: "run_inv hk entries log (n + 1) N us s" by (rule run_inv_mono [OF inv]) simp_all
  from r consider "s' = s" | k where "st_vm s' = st_vm s" "st_wal s' = st_wal s" "st_heap s' = st_heap s" "st_nodeID s' = st_nodeID s"
      "st_buffer s' = snd (rb_RemoveN L (st_buffer s) k)"
    by (auto simp: bufferReadRound_def bind_res_Inr_iff split: if_splits)
  then show ?thesis
  proof cases
    case 2
    obtain m c' where m: "rb_RemoveN L (st_buffer s) k = (m, c')" by fastforce
    have "entries c' = drop m (entries (st_buffer s))" using removeN_loop_drop [OF laws, of "st_buffer s" 0 k m c'] m by (simp add: rb_RemoveN_def)
    with 2 m inv have "heap_ok entries s'" by (auto simp: run_inv_def heap_ok_def list_all_iff dest: in_set_dropD)
    with 2 idle show ?thesis unfolding run_step_def run_inv_def by auto
  qed (use idle in \<open>simp add: run_step_def\<close>)
qed

lemma flush_tick_step:
  assumes laws: "gowal_laws G log room" and inv: "run_inv hk entries log n N us s"
  shows "run_step hk entries log (n + 1) N us s (s\<lparr>st_wal := flush_tick G (st_wal s)\<rparr>)"
proof -
  let ?ww = "st_wal s"
  have w: "wal_inv log us ?ww" using run_invD(6) [OF inv] .
  have "wal_inv log us (flush_tick G ?ww)"
  proof (cases "ww_batchSize ?ww = 0")
    case True
    with w show ?thesis by (simp add: flush_tick_def takeBatch_def)
  next
    case False
    with w show ?thesis
      by (simp add: flush_tick_def takeBatch_def writeBatch_ok [OF laws] wal_inv_def wal_records_def gowal_lawsD(2) [OF laws])
  qed
  moreover have "run_inv hk entries log (n + 1) N us s" by (rule run_inv_mono [OF inv]) simp_all
  ultimately show ?thesis unfolding run_step_def run_inv_def by (simp add: heap_ok_def)
qed
lemma st_exec_step:
  assumes "lru_laws L entries cap" "gowal_laws G log room" "run_inv hk entries log n N us s"
    and "n + 1 < 2 ^ 64" "op_plain op" "0 \<le> op_amount op" "N + op_amount op < 2 ^ 63"
  shows "run_step hk entries log (n + 1) (N + op_amount op) us s (st_exec hk L G op s)"
proof (cases op)
  case (OpPut t key ty)
  then show ?thesis using st_Put_step [OF assms(1-4), THEN conjunct1] assms(5) by simp
next
  case (OpDelete t now key)
  then show ?thesis using st_Delete_step [OF assms(1-4)] assms(5) by simp
next
  case (OpInc t key x)
  then show ?thesis using ApplyInc_step(1) [OF assms(1-4)] assms(5-7) by simp
next
  case (OpDec t key x)
  then show ?thesis using ApplyInc_step(2) [OF assms(1-4)] assms(5-7) by simp
next
  case (OpWrite tr t key v)
  then show ?thesis using ApplySetRegister_step [OF assms(1-4)] assms(5) by simp
next
  case (OpGossip b)
  then show ?thesis using bufferReadRound_step [OF assms(1,3), of b] run_inv_idle [OF assms(3), of "n + 1" N]
    by (auto split: sum.splits)
next
  case OpFlush
  then show ?thesis using flush_tick_step [OF assms(2,3)] by simp
qed

section \<open>Recovery\<close>

text \<open>\<open>restores\<close> says that replaying the updates from the fresh manager \<open>vm\<close> shows what the storage shows.\<close>

definition restores :: "(string \<Rightarrow> u64) \<Rightarrow> VersionManager \<Rightarrow> (nat \<Rightarrow> i64 \<times> i64) \<Rightarrow> Update list \<Rightarrow> Engine \<Rightarrow> bool" where
  "restores hk vm readings us e \<longleftrightarrow>
     (\<exists>R. restore_loop hk (\<lambda>_. False) None vm 0 0 (timed readings 0 us) = Inr (None, of_nat (length us), R) \<and> vm_wf hk R
        \<and> vm_nodeID R = vm_nodeID vm \<and> (\<forall>k. key_view hk R k = map_option entry_view (GetRaw hk e k)))"

lemma timed_append: "timed readings i (us @ [u]) = timed readings i us @ [(fst (readings (i + length us)), snd (readings (i + length us)), u)]"
  by (induction us arbitrary: i) auto

lemma apply_nodeID: "apply_to_engine hk vm t now u = Inr (b, vm') \<Longrightarrow> vm_nodeID vm' = vm_nodeID vm"
  by (auto simp: apply_to_engine_def handleNewEntry_def Let_def vm_simps split: prod.splits sum.splits go_error.splits if_splits)

lemma restore_loop_append:
  "restore_loop hk (\<lambda>_. False) None vm cnt loc xs = Inr (None, loc', R) \<Longrightarrow> \<forall>x \<in> set xs. NodeID (upd x) = nid \<Longrightarrow> vm_nodeID vm = nid \<Longrightarrow>
   vm_nodeID R = nid \<Longrightarrow> NodeID u = nid \<Longrightarrow>
   restore_loop hk (\<lambda>_. False) None vm cnt loc (xs @ [(t, now, u)])
     = bind_res (applyUpdateDuringRestore hk R t now u) (\<lambda>R'. Inr (None, loc' + 1, R'))"
proof (induction xs arbitrary: vm cnt loc)
  case (Cons x xs)
  obtain t' now' w where x: "x = (t', now', w)" by (cases x)
  obtain vm1 where a: "applyUpdateDuringRestore hk vm t' now' w = Inr vm1"
      "restore_loop hk (\<lambda>_. False) None vm1 (cnt + 1) (loc + 1) xs = Inr (None, loc', R)"
    using Cons.prems x by (auto simp: bind_res_Inr_iff)
  have "vm_nodeID vm1 = nid" using a(1) Cons.prems(3) by (auto simp: applyUpdateDuringRestore_def map_sum_Inr_iff dest: apply_nodeID)
  with Cons.IH [OF a(2)] Cons.prems a(1) x show ?case by simp
qed simp
lemma restores_step:
  assumes "restores hk vm readings us e" "effect (GetRaw hk e (Key u)) u ent" "\<forall>v \<in> set us. NodeID v = vm_nodeID vm" "NodeID u = vm_nodeID vm"
    and "\<forall>k. GetRaw hk e' k = (if k = Key u then Some ent else GetRaw hk e k)"
  shows "restores hk vm readings (us @ [u]) e'"
proof -
  obtain R where R: "restore_loop hk (\<lambda>_. False) None vm 0 0 (timed readings 0 us) = Inr (None, of_nat (length us), R)" "vm_wf hk R"
      "vm_nodeID R = vm_nodeID vm" "\<forall>k. key_view hk R k = map_option entry_view (GetRaw hk e k)"
    using assms(1) unfolding restores_def by blast
  let ?t = "fst (readings (length us))" and ?n = "snd (readings (length us))"
  obtain R' where R': "apply_to_engine hk R ?t ?n u = Inr (True, R')" "vm_wf hk R'" "vm_nodeID R' = vm_nodeID R"
      "\<forall>k. key_view hk R' k = (if k = Key u then Some (entry_view ent) else key_view hk R k)"
    using replay_effect [OF R(2) assms(2), of ?t ?n] R(4) by blast
  have "\<forall>x \<in> set (timed readings i us). NodeID (upd x) = vm_nodeID vm" for i
    using assms(3) by (induction us arbitrary: i) auto
  from restore_loop_append [OF R(1) this _ R(3) assms(4)] R'(1)
  have "restore_loop hk (\<lambda>_. False) None vm 0 0 (timed readings 0 (us @ [u])) = Inr (None, of_nat (length (us @ [u])), R')"
    by (simp add: timed_append applyUpdateDuringRestore_def)
  moreover have "\<forall>k. key_view hk R' k = map_option entry_view (GetRaw hk e' k)" using R'(4) R(4) assms(5) by simp
  ultimately show ?thesis unfolding restores_def using R'(2,3) R(3) by auto
qed

text \<open>A property of the logged updates and the data that every effect preserves holds at the end of a run.\<close>

lemma run_follows:
  assumes laws: "lru_laws L entries cap" "gowal_laws G log room"
    and cong: "\<And>us e e'. P us e \<Longrightarrow> (\<And>k. GetRaw hk e' k = GetRaw hk e k) \<Longrightarrow> P us e'"
    and step: "\<And>us e u ent e'. P us e \<Longrightarrow> length us < M \<Longrightarrow> effect (GetRaw hk e (Key u)) u ent \<Longrightarrow> \<forall>v \<in> set (us @ [u]). NodeID v = nid \<Longrightarrow>
      Seq u = of_nat (length us) + 1 \<Longrightarrow> \<forall>k. GetRaw hk e' k = (if k = Key u then Some ent else GetRaw hk e k) \<Longrightarrow> P (us @ [u]) e'"
  shows "run_inv hk entries log n N us s \<Longrightarrow> P us (st_engine s) \<Longrightarrow> st_nodeID s = nid \<Longrightarrow> length us + length ops \<le> M \<Longrightarrow>
    n + length ops < 2 ^ 64 \<Longrightarrow> list_all (\<lambda>op. op_plain op \<and> 0 \<le> op_amount op) ops \<Longrightarrow> N + sum_list (map op_amount ops) < 2 ^ 63 \<Longrightarrow>
    \<exists>us' n' N'. run_inv hk entries log n' N' us' (fold (st_exec hk L G) ops s) \<and> P us' (st_engine (fold (st_exec hk L G) ops s))
      \<and> length us' \<le> length us + length ops"
proof (induction ops arbitrary: n N us s)
  case (Cons op ops)
  let ?s = "st_exec hk L G op s"
  have "0 \<le> sum_list (map op_amount ops)" using Cons.prems(6) by (intro sum_list_nonneg) (auto simp: list_all_iff)
  then have st: "run_step hk entries log (n + 1) (N + op_amount op) us s ?s"
    using Cons.prems by (intro st_exec_step [OF laws]) auto
  then have nid: "st_nodeID ?s = nid" using Cons.prems(3) by (simp add: run_step_def)
  obtain us' where us': "run_inv hk entries log (n + 1) (N + op_amount op) us' ?s" "P us' (st_engine ?s)" "length us' \<le> Suc (length us)"
  proof (cases rule: disjE [OF st [unfolded run_step_def, THEN conjunct2]])
    case 1
    with cong [OF Cons.prems(2)] that [of us] show ?thesis by auto
  next
    case 2
    then obtain u ent where u: "run_inv hk entries log (n + 1) (N + op_amount op) (us @ [u]) ?s" "Seq u = vm_seq (st_vm s) + 1"
        "effect (GetRaw hk (st_engine s) (Key u)) u ent"
        "\<forall>k. GetRaw hk (st_engine ?s) k = (if k = Key u then Some ent else GetRaw hk (st_engine s) k)" by blast
    have "\<forall>v \<in> set (us @ [u]). NodeID v = nid" using run_invD(7) [OF u(1)] nid by simp
    moreover have "Seq u = of_nat (length us) + 1" using u(2) Cons.prems(1) by (simp add: run_inv_def)
    ultimately have "P (us @ [u]) (st_engine ?s)" using step [OF Cons.prems(2) _ u(3) _ _ u(4)] Cons.prems(4) by simp
    with u(1) that [of "us @ [u]"] show ?thesis by simp
  qed
  have "length us' + length ops \<le> M" using us'(3) Cons.prems(4) by simp
  then obtain us2 n2 N2 where "run_inv hk entries log n2 N2 us2 (fold (st_exec hk L G) ops ?s)" "P us2 (st_engine (fold (st_exec hk L G) ops ?s))"
      "length us2 \<le> length us' + length ops"
    using Cons.IH [OF us'(1,2) nid] Cons.prems(5-7) by (auto simp: add.assoc)
  with us'(3) show ?case by (intro exI [of _ us2] exI [of _ n2] exI [of _ N2]) simp
qed (auto simp: exI)

lemma run_restores:
  assumes laws: "lru_laws L entries cap" "gowal_laws G log room"
    and "run_inv hk entries log n N us s" "restores hk vm readings us (st_engine s)" "st_nodeID s = vm_nodeID vm"
    and "n + length ops < 2 ^ 64" "list_all (\<lambda>op. op_plain op \<and> 0 \<le> op_amount op) ops" "N + sum_list (map op_amount ops) < 2 ^ 63"
  shows "\<exists>us' n' N'. run_inv hk entries log n' N' us' (fold (st_exec hk L G) ops s) \<and> restores hk vm readings us' (st_engine (fold (st_exec hk L G) ops s))
    \<and> length us' \<le> length us + length ops"
proof (rule run_follows [where P = "restores hk vm readings" and nid = "vm_nodeID vm" and M = "length us + length ops", OF laws _ _ assms(3,4,5) order_refl assms(6-8)])
  show "restores hk vm readings us e'" if "restores hk vm readings us e" "\<And>k. GetRaw hk e' k = GetRaw hk e k" for us e e'
    using that by (simp add: restores_def)
  show "restores hk vm readings (us @ [u]) e'"
    if "restores hk vm readings us e" "effect (GetRaw hk e (Key u)) u ent" "\<forall>v \<in> set (us @ [u]). NodeID v = vm_nodeID vm"
      "\<forall>k. GetRaw hk e' k = (if k = Key u then Some ent else GetRaw hk e k)" for us e u ent e'
    using restores_step [OF that(1,2) _ _ that(4)] that(3) by auto
qed

text \<open>A node before its first start.\<close>

definition boot :: "string \<Rightarrow> EngineConfig \<Rightarrow> int \<Rightarrow> 'c \<Rightarrow> WalConfig \<Rightarrow> 'w \<Rightarrow> go_error + ('w, 'c) Storage" where
  "boot nid cfg peek c wcfg w =
     bind_res (NewEngineFromConfig nid cfg) (\<lambda>e. bind_res (wal_New wcfg w) (\<lambda>ww.
       Inr (NewStorage nid peek (NewVersionManager nid e) c ww)))"

lemma NewEngineFromConfig_fresh:
  assumes "NewEngineFromConfig nid cfg = Inr e" "ShardsNum cfg < 2 ^ 32"
  shows "eng_wf e" "GetRaw hk e key = None" "eng_clock e = NewHLC nid"
proof -
  have "InitialShards (eng_opts e) < 2 ^ 32" "eng_clock e = NewHLC nid"
    using assms by (auto simp: NewEngineFromConfig_def NewEngine_def Let_def populateDefaults_def WithNodeID_def WithInitialShards_def
        WithDeleteThreshold_def split: if_splits)
  with NewEngine_wf [OF assms(1) [unfolded NewEngineFromConfig_def]] show "eng_wf e" "GetRaw hk e key = None" "eng_clock e = NewHLC nid" by auto
qed

lemma boot_fresh:
  assumes "boot nid cfg peek c wcfg w = Inr s" "ShardsNum cfg < 2 ^ 32"
  shows "vm_wf hk (st_vm s)" "GetRaw hk (st_engine s) key = None" "eng_clock (st_engine s) = NewHLC nid" "st_nodeID s = nid"
    "vm_nodeID (st_vm s) = nid" "vm_seq (st_vm s) = 0" "st_buffer s = c"
    "st_wal s = \<lparr>ww_w = w, ww_keyGen = NewKeyGen, ww_batch = [], ww_batchSize = 0, ww_batchCap = BatchSize wcfg\<rparr>"
proof -
  obtain e ww where e: "NewEngineFromConfig nid cfg = Inr e" "wal_New wcfg w = Inr ww" "s = NewStorage nid peek (NewVersionManager nid e) c ww"
    using assms(1) by (auto simp: boot_def bind_res_Inr_iff)
  note f = NewEngineFromConfig_fresh [OF e(1) assms(2)]
  show "vm_wf hk (st_vm s)" using f e(3) by (simp add: NewStorage_def NewVersionManager_def vm_wf_def kv_wf_def newKeyVersionShards_def DefaultNumBuckets_def)
  show "GetRaw hk (st_engine s) key = None" "eng_clock (st_engine s) = NewHLC nid" "st_nodeID s = nid"
    "vm_nodeID (st_vm s) = nid" "vm_seq (st_vm s) = 0" "st_buffer s = c"
    using f e(3) by (simp_all add: NewStorage_def NewVersionManager_def)
  show "st_wal s = \<lparr>ww_w = w, ww_keyGen = NewKeyGen, ww_batch = [], ww_batchSize = 0, ww_batchCap = BatchSize wcfg\<rparr>"
    using e(2,3) by (auto simp: NewStorage_def wal_New_def split: if_splits)
qed

lemma boot_run_inv:
  assumes "boot nid cfg peek c wcfg w = Inr s" "ShardsNum cfg < 2 ^ 32" "plain nid" "log w = []" "entries c = []"
  shows "run_inv hk entries log 0 0 [] s"
proof -
  note b = boot_fresh [OF assms(1,2)]
  have "engine_inv hk 0 0 (st_engine s)" using b assms(3) by (simp add: engine_inv_def clock_ok_def NewHLC_def)
  moreover have "wal_inv log [] (st_wal s)" using b(8) assms(4) keygen_wf_New by (simp add: wal_inv_def wal_records_def NewKeyGen_def)
  ultimately show ?thesis using b assms(3,5) by (simp add: run_inv_def heap_ok_def)
qed

lemma boot_restores:
  assumes "boot nid cfg peek c wcfg w = Inr s" "ShardsNum cfg < 2 ^ 32" "\<And>k. GetRaw hk e k = None"
  shows "restores hk (st_vm s) readings [] e"
  using boot_fresh [OF assms(1,2)] assms(3) by (simp add: restores_def key_view_def)

lemma replay_collect: "replay_updates (\<lambda>us u. (None, us @ [u])) us acc = (None, acc @ us)"
  by (induction us arbitrary: acc) auto

lemma wal_updates_stopped:
  assumes "gowal_laws G log room" "wal_inv log us ww" "list_all plain_update us" "ww_w ww' = ww_w (snd (wal_Close G ww))" "length us \<le> room"
  shows "wal_updates G ww' = (None, us)"
proof -
  obtain k where "\<forall>fn (s :: Update list). ReplayAll G ww' fn s = replay_updates fn (drop k us) s" "length us \<le> room \<longrightarrow> k = 0"
    by (rule wal_replay_kept [OF assms(1-4)])
  with assms(5) show ?thesis by (simp add: wal_updates_def replay_collect)
qed

lemma crdt_view_reads: "crdt_view c = crdt_view c' \<Longrightarrow> crdt_Value c = crdt_Value c' \<and> crdt_Type c = crdt_Type c'"
  by (cases c; cases c') (auto simp: PNCounter_Value_def LWWHLCRegister_Read_def)

lemma st_Get_view:
  assumes "key_view hl (st_vm r) key = key_view hk (st_vm s) key"
  shows "st_Get hl r key = st_Get hk s key"
proof (cases "GetRaw hk (st_engine s) key"; cases "GetRaw hl (st_engine r) key")
  fix a b assume ab: "GetRaw hk (st_engine s) key = Some a" "GetRaw hl (st_engine r) key = Some b"
  then have "entry_view b = entry_view a" using assms by (simp add: key_view_def)
  then have "entTombstone b = entTombstone a" "\<not> entTombstone a \<longrightarrow> crdt_view (entObject b) = crdt_view (entObject a)"
    by (auto simp: entry_view_def split: if_splits)
  with ab crdt_view_reads [of "entObject b" "entObject a"] show ?thesis by (simp add: st_Get_def eng_Get_def)
qed (use assms in \<open>auto simp: key_view_def st_Get_def eng_Get_def\<close>)
text \<open>C22. A clean shutdown loses nothing. Take a node started on an empty log, and any run of puts, deletes, increments
  and decrements (of non-negative amounts below \<open>2\<^sup>6\<^sup>3\<close> in sum), register writes, gossip rounds and flushes, each
  with its own reading of the clock, successful or not, even if it panicked in the buffer, at most as many of them as records
  fit into the segments that both starts are configured to keep, so that no segment is deleted. After
  \<open>GracefulStop\<close>, starting a new node on the same log succeeds, every read returns what it returned
  before, the timestamps and tombstones of all keys are the same, and the sequence number goes on where it was.\<close>

theorem storage_recovery:
  assumes "lru_laws L entries cap" "gowal_laws G log (min (segment_room wcfg) (segment_room wcfg'))" "boot nid cfg peek c wcfg w = Inr s0" "ShardsNum cfg < 2 ^ 32" "plain nid"
    and "log w = []" "entries c = []" "length ops < 2 ^ 64" "list_all (\<lambda>op. op_plain op \<and> 0 \<le> op_amount op) ops"
    and "sum_list (map op_amount ops) < 2 ^ 63" "s = fold (st_exec hk L G) ops s0"
    and "boot nid cfg' peek' c' wcfg' (ww_w (st_wal (GracefulStop G s))) = Inr fresh" "ShardsNum cfg' < 2 ^ 32"
    and "length ops \<le> min (segment_room wcfg) (segment_room wcfg')"
  shows "\<exists>r. StartUp hk G (\<lambda>_. False) readings None None fresh = Inr (None, r) \<and> (\<forall>key. st_Get hk r key = st_Get hk s key)
    \<and> (\<forall>key. key_view hk (st_vm r) key = key_view hk (st_vm s) key) \<and> vm_seq (st_vm r) = vm_seq (st_vm s)"
proof -
  note b0 = boot_fresh [OF assms(3,4)] and b1 = boot_fresh [OF assms(12,13)]
  have "restores hk (st_vm fresh) readings [] (st_engine s0)" by (rule boot_restores [OF assms(12,13) b0(2)])
  then obtain us n N where us: "run_inv hk entries log n N us s" "restores hk (st_vm fresh) readings us (st_engine s)" "length us \<le> length ops"
    using run_restores [OF assms(1,2) boot_run_inv [where log = log and entries = entries, OF assms(3-7)], of hk "st_vm fresh" readings ops] b0(4) b1(5) assms(8-11) by auto
  obtain R where R: "restore_loop hk (\<lambda>_. False) None (st_vm fresh) 0 0 (timed readings 0 us) = Inr (None, of_nat (length us), R)"
      "\<forall>k. key_view hk R k = map_option entry_view (GetRaw hk (st_engine s) k)"
    using us(2) unfolding restores_def by blast
  have "list_all plain_update us" "vm_seq (st_vm s) = of_nat (length us)" using us(1) by (auto simp: run_inv_def list_all_iff)
  moreover from this have "wal_updates G (st_wal fresh) = (None, us)"
    using wal_updates_stopped [OF assms(2) run_invD(6) [OF us(1)]] b1(8) us(3) assms(14) by (simp add: GracefulStop_def)
  moreover have "key_view hk (R\<lparr>vm_seq := x\<rparr>) k = key_view hk (st_vm s) k" for k x using R(2) by (simp add: key_view_def)
  ultimately show ?thesis using R(1) st_Get_view [of hk "fresh\<lparr>st_vm := R\<lparr>vm_seq := of_nat (length us)\<rparr>\<rparr>" _ hk s]
    by (simp add: StartUp_def restoreFromWAL_def RestoreFromWal_def)
qed
definition sample_ops :: "st_op list" where
  "sample_ops = [OpPut 1 ''k'' CRDTTypePNCounter, OpInc 2 ''k'' 5, OpGossip True, OpDec 3 ''k'' 2, OpPut 4 ''r'' CRDTTypeLWWHLCRegister,
     OpWrite 5 6 ''r'' [7], OpDelete 7 7 ''x'', OpFlush]"

theorem storage_recovery_witness:
  "\<exists>s0 fresh r. boot ''n'' \<lparr>ShardsNum = 4, CfgDeleteThreshold = 0\<rparr> 10 ([] :: (string \<times> bufupd) list) \<lparr>SegmentThreshold = 1000, MaxSegmentsNum = 100000000, BatchSize = 2\<rparr> [] = Inr s0
     \<and> boot ''n'' \<lparr>ShardsNum = 4, CfgDeleteThreshold = 0\<rparr> 10 ([] :: (string \<times> bufupd) list) \<lparr>SegmentThreshold = 1000, MaxSegmentsNum = 100000000, BatchSize = 2\<rparr>
         (ww_w (st_wal (GracefulStop list_gowal (fold (st_exec (\<lambda>_. 0) (list_lru 9) list_gowal) sample_ops s0)))) = Inr fresh
     \<and> StartUp (\<lambda>_. 0) list_gowal (\<lambda>_. False) (\<lambda>_. (0, 0)) None None fresh = Inr (None, r)
     \<and> st_Get (\<lambda>_. 0) r ''k'' = st_Get (\<lambda>_. 0) (fold (st_exec (\<lambda>_. 0) (list_lru 9) list_gowal) sample_ops s0) ''k''"
proof -
  let ?boot = "\<lambda>w. boot ''n'' \<lparr>ShardsNum = 4, CfgDeleteThreshold = 0\<rparr> 10 ([] :: (string \<times> bufupd) list) \<lparr>SegmentThreshold = 1000, MaxSegmentsNum = 100000000, BatchSize = 2\<rparr> w"
  have boot: "\<exists>s. ?boot w = Inr s" for w :: "Record list"
    by (simp add: boot_def NewEngineFromConfig_def NewEngine_def populateDefaults_def WithNodeID_def WithInitialShards_def wal_New_def Let_def)
  obtain s0 where s0: "?boot ([] :: Record list) = Inr s0" using boot [of "[]"] by blast
  let ?s = "fold (st_exec (\<lambda>_. 0) (list_lru 9) list_gowal) sample_ops s0"
  obtain fresh where fresh: "?boot (ww_w (st_wal (GracefulStop list_gowal ?s))) = Inr fresh"
    using boot [of "ww_w (st_wal (GracefulStop list_gowal ?s))"] by blast
  have pl: "plain ''n''" "plain ''k''" "plain ''r''" "plain ''x''" by (auto intro: plain_ascii)
  have "\<exists>r. StartUp (\<lambda>_. 0) list_gowal (\<lambda>_. False) (\<lambda>_. (0, 0)) None None fresh = Inr (None, r) \<and> (\<forall>key. st_Get (\<lambda>_. 0) r key = st_Get (\<lambda>_. 0) ?s key)
    \<and> (\<forall>key. key_view (\<lambda>_. 0) (st_vm r) key = key_view (\<lambda>_. 0) (st_vm ?s) key) \<and> vm_seq (st_vm r) = vm_seq (st_vm ?s)"
    by (rule storage_recovery [OF list_lru_laws list_gowal_laws s0 _ pl(1) refl refl _ _ _ refl fresh])
      (use pl in \<open>simp_all add: sample_ops_def segment_room_def\<close>)
  with s0 fresh show ?thesis by blast
qed

end
