(* ===== verification/Update_Pool.thy ===== *)
theory Update_Pool
  imports Replication
begin

text \<open>
  \<open>updateParallel\<close> and \<open>UpdateRemote\<close> of \<open>v2/version_manager.go\<close>: eight workers take updates from a channel
  and run \<open>handleUpdate\<close> on them. A worker's run of \<open>handleUpdate\<close> is split at the locks that \<open>Engine.Update\<close>,
  \<open>DeleteWithTimeStamp\<close> and \<open>PutWithTimeStamp\<close> take, and a schedule says which worker makes its next step and what its
  clock reads. Lemmas: every schedule ends, and only when all updates were handled or a delete and another update of
  its key wait for each other's lock; when the keys exist, every schedule that ends with all updates handled gives the visible data
  and the applied updates of the sequential loop; when they do not, two workers can both create the entry and one accepted update is lost.
\<close>

section \<open>The pool\<close>

text \<open>Where a worker stands: waiting for a job; before \<open>TryAddRange\<close>; before the \<open>sh.mu.Lock\<close> of \<open>engine.Update\<close>; holding the
  lock of the shard, before \<open>ent.Mu.Lock\<close>; in the callback of a delete, holding the lock of the entry, before the \<open>sh.mu.Lock\<close> of
  \<open>DeleteWithTimeStamp\<close>, with \<open>result.Applied\<close>; before the deferred \<open>ent.Mu.Unlock\<close>, with what comes next; before the creation of the entry;
  before the digest is stored; before the result is sent.\<close>

datatype worker = Idle | Fetched Update | Checked Update | Locked Update | Marking Update bool | Leaving Update worker
  | Creating Update | Hashing Update u64 | Reporting Update bool

record pool =
  pl_vm :: VersionManager
  pl_jobs :: "Update list"
  pl_workers :: "worker list"
  pl_results :: "(Update \<times> bool) list"

definition numWorkers :: nat where "numWorkers = 8"
definition parallelThreshold :: nat where "parallelThreshold = 10"

text \<open>The locks, read off the workers: the key whose shard, and the key whose entry a worker has locked. An entry is never
  replaced by another object while it is in the map, so that its lock is the lock of its key.\<close>

fun holds_shard :: "worker \<Rightarrow> string option" where
  "holds_shard (Locked u) = Some (Key u)"
| "holds_shard _ = None"

fun holds_entry :: "worker \<Rightarrow> string option" where
  "holds_entry (Marking u b) = Some (Key u)"
| "holds_entry (Leaving u w) = Some (Key u)"
| "holds_entry _ = None"

definition shard_unlocked :: "(string \<Rightarrow> u64) \<Rightarrow> pool \<Rightarrow> string \<Rightarrow> bool" where
  "shard_unlocked hk p key \<longleftrightarrow> list_all (\<lambda>w. map_option (shardFor hk (vm_engine (pl_vm p))) (holds_shard w)
     \<noteq> Some (shardFor hk (vm_engine (pl_vm p)) key)) (pl_workers p)"

definition entry_unlocked :: "pool \<Rightarrow> string \<Rightarrow> bool" where
  "entry_unlocked p key \<longleftrightarrow> list_all (\<lambda>w. holds_entry w \<noteq> Some key) (pl_workers p)"

text \<open>What follows \<open>engine.Update\<close> when it returned \<open>updated\<close> and no error.\<close>

definition after_update :: "(string \<Rightarrow> u64) \<Rightarrow> Engine \<Rightarrow> Update \<Rightarrow> bool \<Rightarrow> worker" where
  "after_update hk e u updated =
     (if \<not> updated \<and> UType u \<noteq> UpdateTypeDelete then Creating u else Hashing u (callback_hash hk e (Key u) updated))"

text \<open>The callback of \<open>engine.Update\<close> up to \<open>DeleteWithTimeStamp\<close>, run with the lock of the entry; the lock of the shard is
  released.\<close>

definition worker_apply :: "(string \<Rightarrow> u64) \<Rightarrow> i64 \<Rightarrow> Update \<Rightarrow> pool \<Rightarrow> go_error + worker \<times> pool" where
  "worker_apply hk t u p =
     (let e = vm_engine (pl_vm p) in
      case GetRaw hk e (Key u) of
        None \<Rightarrow> Inr (Leaving u (after_update hk e u False), p)
      | Some ent \<Rightarrow>
          (case ApplyUpdate (vm_nodeID (pl_vm p)) t ent u of
             Inl (Panic q) \<Rightarrow> Inl (Panic q)
           | Inl err \<Rightarrow> Inr (Leaving u (Reporting u False), p)
           | Inr (result, ent') \<Rightarrow>
               let e1 = eng_store hk e (Key u) ent'
               in Inr (case ResError result of
                         Some err \<Rightarrow> Leaving u (Reporting u False)
                       | None \<Rightarrow> if Modified result \<and> UType u = UpdateTypeDelete then Marking u (Applied result)
                                 else Leaving u (after_update hk e1 u (Applied result)),
                       p\<lparr>pl_vm := (pl_vm p)\<lparr>vm_engine := e1\<rparr>\<rparr>)))"

fun worker_step :: "(string \<Rightarrow> u64) \<Rightarrow> i64 \<Rightarrow> i64 \<Rightarrow> worker \<Rightarrow> pool \<Rightarrow> (go_error + worker \<times> pool) option" where
  "worker_step hk t now Idle p =
     (case pl_jobs p of [] \<Rightarrow> None | u # js \<Rightarrow> Some (Inr (Fetched u, p\<lparr>pl_jobs := js\<rparr>)))"
| "worker_step hk t now (Fetched u) p =
     (let (new, h) = TryAddRange (vm_history (pl_vm p)) (NodeID u) \<lparr>Start = Seq u, End = Seq u\<rparr>
      in Some (Inr (if new then Checked u else Reporting u False, p\<lparr>pl_vm := (pl_vm p)\<lparr>vm_history := h\<rparr>\<rparr>)))"
| "worker_step hk t now (Checked u) p =
     (if \<not> shard_unlocked hk p (Key u) then None
      else Some (Inr (case GetRaw hk (vm_engine (pl_vm p)) (Key u) of
                        None \<Rightarrow> after_update hk (vm_engine (pl_vm p)) u False | Some ent \<Rightarrow> Locked u, p)))"
| "worker_step hk t now (Locked u) p = (if \<not> entry_unlocked p (Key u) then None else Some (worker_apply hk t u p))"
| "worker_step hk t now (Marking u applied) p =
     (if \<not> shard_unlocked hk p (Key u) then None
      else let e = snd (DeleteWithTimeStamp hk (vm_engine (pl_vm p)) now (SetTimeStamp u) (Key u))
           in Some (Inr (Leaving u (after_update hk e u applied), p\<lparr>pl_vm := (pl_vm p)\<lparr>vm_engine := e\<rparr>\<rparr>)))"
| "worker_step hk t now (Leaving u w) p = Some (Inr (w, p))"
| "worker_step hk t now (Creating u) p =
     (case CreateFromUpdate (vm_nodeID (pl_vm p)) t u of
        Inl (Panic q) \<Rightarrow> Some (Inl (Panic q))
      | Inl err \<Rightarrow> Some (Inr (Reporting u False, p))
      | Inr ent \<Rightarrow>
          if \<not> shard_unlocked hk p (Key u) then None
          else Some (Inr (Hashing u (stateDigest (crdt_Hash (entObject ent)) False),
            p\<lparr>pl_vm := (pl_vm p)\<lparr>vm_engine := snd (PutWithTimeStamp hk (vm_engine (pl_vm p)) (SetTimeStamp u) (Key u) (entObject ent))\<rparr>\<rparr>)))"
| "worker_step hk t now (Hashing u h) p =
     Some (Inr (Reporting u True, p\<lparr>pl_vm := updateKeyStateHash (pl_vm p) (Key u) h\<rparr>))"
| "worker_step hk t now (Reporting u b) p =
     Some (Inr (Idle, p\<lparr>pl_results := pl_results p @ [(u, b)]\<rparr>))"

definition pool_step :: "(string \<Rightarrow> u64) \<Rightarrow> nat \<times> i64 \<times> i64 \<Rightarrow> pool \<Rightarrow> (go_error + pool) option" where
  "pool_step hk s p =
     (case s of (i, t, now) \<Rightarrow>
        if i < length (pl_workers p)
        then map_option (map_sum id (\<lambda>(w, q). q\<lparr>pl_workers := (pl_workers p)[i := w]\<rparr>))
               (worker_step hk t now (pl_workers p ! i) p)
        else None)"

fun pool_run :: "(string \<Rightarrow> u64) \<Rightarrow> (nat \<times> i64 \<times> i64) list \<Rightarrow> pool \<Rightarrow> (go_error + pool) option" where
  "pool_run hk [] p = Some (Inr p)"
| "pool_run hk (s # ss) p =
     (case pool_step hk s p of Some (Inr q) \<Rightarrow> pool_run hk ss q | r \<Rightarrow> r)"

definition pool_start :: "VersionManager \<Rightarrow> Update list \<Rightarrow> pool" where
  "pool_start vm us = \<lparr>pl_vm = vm, pl_jobs = us, pl_workers = replicate numWorkers Idle, pl_results = []\<rparr>"

definition pool_done :: "pool \<Rightarrow> bool" where
  "pool_done p \<longleftrightarrow> pl_jobs p = [] \<and> list_all (\<lambda>w. w = Idle) (pl_workers p)"

definition pool_applied :: "pool \<Rightarrow> Update list" where
  "pool_applied p = map fst (filter snd (pl_results p))"

text \<open>\<open>UpdateRemote hk vm us applied vm'\<close>: a call of \<open>UpdateRemote\<close> with \<open>us\<close> may return \<open>applied\<close> and leave \<open>vm'\<close>.\<close>

inductive UpdateRemote :: "(string \<Rightarrow> u64) \<Rightarrow> VersionManager \<Rightarrow> Update list \<Rightarrow> Update list \<Rightarrow> VersionManager \<Rightarrow> bool" for hk vm where
  none: "UpdateRemote hk vm [] [] vm"
| sequential: "us \<noteq> [] \<Longrightarrow> length us < parallelThreshold \<Longrightarrow> map (\<lambda>x. snd (snd x)) xs = us \<Longrightarrow>
    updateSequential hk vm xs = Inr (applied, vm') \<Longrightarrow> UpdateRemote hk vm us applied vm'"
| parallel: "length us \<ge> parallelThreshold \<Longrightarrow> pool_run hk ss (pool_start vm us) = Some (Inr p) \<Longrightarrow> pool_done p \<Longrightarrow>
    UpdateRemote hk vm us (pool_applied p) (pl_vm p)"

inductive_cases UpdateRemoteE: "UpdateRemote hk vm us applied vm'"

section \<open>Every schedule ends\<close>

fun worker_work :: "worker \<Rightarrow> nat" where
  "worker_work Idle = 0"
| "worker_work (Fetched u) = 7"
| "worker_work (Checked u) = 6"
| "worker_work (Locked u) = 5"
| "worker_work (Marking u b) = 4"
| "worker_work (Leaving u w) = Suc (worker_work w)"
| "worker_work (Creating u) = 3"
| "worker_work (Hashing u h) = 2"
| "worker_work (Reporting u b) = 1"

definition pool_work :: "pool \<Rightarrow> nat" where
  "pool_work p = 8 * length (pl_jobs p) + sum_list (map worker_work (pl_workers p))"

text \<open>The workers hold updates of the batch, and the callback marks a deletion only for a delete that was applied.\<close>

fun worker_ok :: "Update set \<Rightarrow> worker \<Rightarrow> bool" where
  "worker_ok U Idle \<longleftrightarrow> True"
| "worker_ok U (Fetched u) \<longleftrightarrow> u \<in> U"
| "worker_ok U (Checked u) \<longleftrightarrow> u \<in> U"
| "worker_ok U (Locked u) \<longleftrightarrow> u \<in> U"
| "worker_ok U (Marking u b) \<longleftrightarrow> u \<in> U \<and> UType u = UpdateTypeDelete"
| "worker_ok U (Leaving u w) \<longleftrightarrow> u \<in> U \<and> worker_ok U w"
| "worker_ok U (Creating u) \<longleftrightarrow> u \<in> U"
| "worker_ok U (Hashing u h) \<longleftrightarrow> u \<in> U"
| "worker_ok U (Reporting u b) \<longleftrightarrow> u \<in> U"

definition batch_ok :: "Update set \<Rightarrow> pool \<Rightarrow> bool" where
  "batch_ok U p \<longleftrightarrow> set (pl_jobs p) \<subseteq> U \<and> list_all (worker_ok U) (pl_workers p)"

lemma after_update_ok [simp]: "worker_ok U (after_update hk e u b) \<longleftrightarrow> u \<in> U" "worker_work (after_update hk e u b) \<le> 3"
  by (simp_all add: after_update_def)

lemma after_update_delete: "UType u = UpdateTypeDelete \<Longrightarrow> after_update hk e u b = Hashing u (callback_hash hk e (Key u) b)"
  by (simp add: after_update_def)

lemma worker_apply_ok:
  assumes "worker_apply hk t u p = Inr (w, q)" "u \<in> U"
  shows "worker_ok U w \<and> worker_work w \<le> 4 \<and> pl_jobs q = pl_jobs p \<and> pl_workers q = pl_workers p"
  using assms by (auto simp: worker_apply_def Let_def less_Suc_eq_le split: option.splits sum.splits go_error.splits prod.splits if_splits)

lemma worker_step_ok:
  assumes "worker_step hk t now w p = Some (Inr (w', q))" "worker_ok U w" "set (pl_jobs p) \<subseteq> U"
  shows "worker_ok U w' \<and> set (pl_jobs q) \<subseteq> U \<and> 8 * length (pl_jobs q) + worker_work w' < 8 * length (pl_jobs p) + worker_work w"
proof (cases w)
  case (Checked u)
  then have "w' \<in> {after_update hk (vm_engine (pl_vm p)) u False, Locked u}" "q = p" using assms(1) by (auto split: option.splits if_splits)
  moreover have "worker_work (after_update hk (vm_engine (pl_vm p)) u False) < 6" by (rule order_le_less_trans [OF after_update_ok(2)]) simp
  ultimately show ?thesis using Checked assms(2,3) by auto
next
  case (Locked u)
  then have "worker_apply hk t u p = Inr (w', q)" "u \<in> U" using assms(1,2) by (auto split: if_splits)
  with worker_apply_ok [of hk t u p w' q U] Locked assms(3) show ?thesis by auto
next
  case (Marking u b)
  then show ?thesis using assms by (auto simp: after_update_delete Let_def split: if_splits)
qed (use assms in \<open>auto split: list.splits prod.splits sum.splits go_error.splits if_splits\<close>)

lemma pool_stepD:
  assumes "pool_step hk s p = Some (Inr q)"
  shows "\<exists>t now xs w ys w' r. pl_workers p = xs @ w # ys \<and> worker_step hk t now w p = Some (Inr (w', r))
    \<and> q = r\<lparr>pl_workers := xs @ w' # ys\<rparr> \<and> length xs = fst s"
proof -
  obtain i t now where s: "s = (i, t, now)" by (cases s)
  let ?ws = "pl_workers p"
  have i: "i < length ?ws" using assms s by (auto simp: pool_step_def split: if_splits)
  obtain w' r where w: "worker_step hk t now (?ws ! i) p = Some (Inr (w', r))" "q = r\<lparr>pl_workers := ?ws[i := w']\<rparr>"
    using assms s i
    by (cases "worker_step hk t now (?ws ! i) p"; cases "the (worker_step hk t now (?ws ! i) p)") (auto simp: pool_step_def)
  have "?ws = take i ?ws @ ?ws ! i # drop (Suc i) ?ws" "?ws[i := w'] = take i ?ws @ w' # drop (Suc i) ?ws" "length (take i ?ws) = i"
    using i by (simp_all add: id_take_nth_drop upd_conv_take_nth_drop)
  with w s show ?thesis by (metis fst_conv)
qed

lemma pool_step_ok:
  assumes "pool_step hk s p = Some (Inr q)" "batch_ok U p"
  shows "batch_ok U q \<and> pool_work q < pool_work p \<and> length (pl_workers q) = length (pl_workers p)"
proof -
  obtain t now xs w ys w' r where s: "pl_workers p = xs @ w # ys" "worker_step hk t now w p = Some (Inr (w', r))"
      "q = r\<lparr>pl_workers := xs @ w' # ys\<rparr>"
    using pool_stepD [OF assms(1)] by blast
  with worker_step_ok [OF s(2), of U] assms(2) show ?thesis by (simp add: pool_work_def batch_ok_def)
qed

lemma pool_run_ok:
  "pool_run hk ss p = Some (Inr q) \<Longrightarrow> batch_ok U p \<Longrightarrow>
   batch_ok U q \<and> pool_work q + length ss \<le> pool_work p \<and> length (pl_workers q) = length (pl_workers p)"
proof (induction ss arbitrary: p)
  case (Cons s ss)
  then obtain r where r: "pool_step hk s p = Some (Inr r)" "pool_run hk ss r = Some (Inr q)"
    by (auto split: option.splits sum.splits)
  with Cons.IH [OF r(2)] pool_step_ok [OF r(1) Cons.prems(2)] show ?case by simp
qed simp

text \<open>A worker that handles a delete holds the lock of the entry and waits for the shard, another one holds the shard and waits for the
  entry.\<close>

definition pool_deadlock :: "pool \<Rightarrow> bool" where
  "pool_deadlock p \<longleftrightarrow> list_ex (\<lambda>w. case w of Marking u b \<Rightarrow> list_ex (\<lambda>w'. holds_shard w' = Some (Key u)) (pl_workers p) | _ \<Rightarrow> False) (pl_workers p)"

lemma holds_iff:
  "holds_shard w = Some k \<longleftrightarrow> (\<exists>u. w = Locked u \<and> Key u = k)"
  "holds_entry w = Some k \<longleftrightarrow> (\<exists>u b. w = Marking u b \<and> Key u = k) \<or> (\<exists>u w'. w = Leaving u w' \<and> Key u = k)"
  by (cases w; auto)+

lemma pool_deadlock_iff:
  "pool_deadlock p \<longleftrightarrow> (\<exists>u b v. Marking u b \<in> set (pl_workers p) \<and> Locked v \<in> set (pl_workers p) \<and> Key v = Key u)"
proof -
  have "pool_deadlock p \<longleftrightarrow> (\<exists>w \<in> set (pl_workers p). \<exists>u b. w = Marking u b \<and> (\<exists>w' \<in> set (pl_workers p). holds_shard w' = Some (Key u)))"
    unfolding pool_deadlock_def list_ex_iff by (rule bex_cong [OF refl]) (auto split: worker.split)
  then show ?thesis unfolding holds_iff by blast
qed

text \<open>A pool in which no worker can make a step is done or in a deadlock.\<close>

lemma pool_stuck_workers:
  assumes "\<forall>s. pool_step hk s p = None" "w \<in> set (pl_workers p)"
  shows "worker_step hk 0 0 w p = None"
proof -
  obtain i where i: "i < length (pl_workers p)" "pl_workers p ! i = w" using assms(2) by (auto simp: in_set_conv_nth)
  with spec [OF assms(1), of "(i, 0, 0)"] show ?thesis by (simp add: pool_step_def)
qed

lemma pool_stuck:
  assumes "pl_workers p \<noteq> []" "\<forall>s. pool_step hk s p = None"
  shows "pool_done p \<or> pool_deadlock p"
proof (cases "\<exists>v. Locked v \<in> set (pl_workers p)")
  note stuck = pool_stuck_workers [OF assms(2)]
  case True
  then obtain v where v: "Locked v \<in> set (pl_workers p)" by blast
  have "\<not> entry_unlocked p (Key v)" using stuck [OF v] by (auto split: if_splits)
  then obtain w where w: "w \<in> set (pl_workers p)" "holds_entry w = Some (Key v)" by (auto simp: entry_unlocked_def list_all_iff)
  moreover have "\<not> (\<exists>u w'. w = Leaving u w')" using stuck [OF w(1)] by auto
  ultimately obtain u b where "w = Marking u b" "Key u = Key v" by (auto simp: holds_iff)
  with w(1) v have "pool_deadlock p" unfolding pool_deadlock_iff by metis
  then show ?thesis ..
next
  note stuck = pool_stuck_workers [OF assms(2)]
  case False
  then have free: "shard_unlocked hk p key" for key by (auto simp: shard_unlocked_def list_all_iff holds_iff)
  have idle: "w = Idle \<and> pl_jobs p = []" if "w \<in> set (pl_workers p)" for w
    using stuck [OF that] that False free by (cases w) (auto simp: Let_def split: list.splits prod.splits sum.splits go_error.splits)
  obtain w where "w \<in> set (pl_workers p)" using assms(1) by (cases "pl_workers p") auto
  then have "pl_jobs p = []" using idle by blast
  with idle show ?thesis by (auto simp: pool_done_def list_all_iff)
qed

text \<open>A deadlock lasts.\<close>

lemma deadlock_lasts:
  assumes "pool_step hk s p = Some (Inr q)" "pool_deadlock p"
  shows "pool_deadlock q"
proof -
  obtain u b v where d: "Marking u b \<in> set (pl_workers p)" "Locked v \<in> set (pl_workers p)" "Key v = Key u"
    using assms(2) by (auto simp: pool_deadlock_iff)
  obtain t now xs w ys w' r where st: "pl_workers p = xs @ w # ys" "worker_step hk t now w p = Some (Inr (w', r))"
      "q = r\<lparr>pl_workers := xs @ w' # ys\<rparr>"
    using pool_stepD [OF assms(1)] by blast
  have "\<not> shard_unlocked hk p (Key u)" using d(2,3) by (force simp: shard_unlocked_def list_all_iff)
  then have "w \<noteq> Marking u b" using st(2) by auto
  moreover have "\<not> entry_unlocked p (Key v)" using d(1,3) by (force simp: entry_unlocked_def list_all_iff)
  then have "w \<noteq> Locked v" using st(2) by auto
  ultimately have "Marking u b \<in> set (pl_workers q)" "Locked v \<in> set (pl_workers q)" using d(1,2) st(1,3) by auto
  with d(3) show ?thesis by (auto simp: pool_deadlock_iff)
qed

lemma deadlock_run: "pool_run hk ss p = Some (Inr q) \<Longrightarrow> pool_deadlock p \<Longrightarrow> pool_deadlock q"
  by (induction ss arbitrary: p) (auto split: option.splits sum.splits dest: deadlock_lasts)

lemma deadlock_not_done: "pool_deadlock p \<Longrightarrow> \<not> pool_done p"
  by (auto simp: pool_deadlock_iff pool_done_def list_all_iff)

text \<open>C16. How the worker pool ends: whatever order the scheduler runs the workers in, a pool that was started on a
  batch of updates makes at most eight steps per update. A run that cannot be continued has taken all jobs and all
  workers are idle, or a delete and another update of its key wait for each other: one worker holds the lock of the entry and waits for the
  shard, another holds the shard and waits for the entry. The second can happen only if the batch has a delete, and then no
  continuation of the run ever returns.\<close>

theorem updateParallel_returns:
  assumes "pool_run hk ss (pool_start vm us) = Some (Inr p)"
  shows "length ss \<le> 8 * length us \<and> ((\<forall>s. pool_step hk s p = None) \<longrightarrow> pool_done p \<or> pool_deadlock p)
    \<and> (pool_deadlock p \<longrightarrow> (\<exists>u \<in> set us. UType u = UpdateTypeDelete) \<and> (\<forall>ss' q. pool_run hk ss' p = Some (Inr q) \<longrightarrow> \<not> pool_done q))"
proof -
  have w: "pool_work (pool_start vm us) = 8 * length us" "batch_ok (set us) (pool_start vm us)"
    by (simp_all add: pool_work_def pool_start_def sum_list_replicate batch_ok_def list_all_iff)
  note r = pool_run_ok [OF assms w(2)]
  have "length (pl_workers p) = numWorkers" using r by (simp add: pool_start_def)
  then have "pl_workers p \<noteq> []" by (auto simp: numWorkers_def)
  moreover have "\<exists>u \<in> set us. UType u = UpdateTypeDelete" if "pool_deadlock p"
    using that r unfolding pool_deadlock_iff batch_ok_def list_all_iff by (metis worker_ok.simps(5))
  ultimately show ?thesis using r w(1) pool_stuck [of p hk] deadlock_run deadlock_not_done by fastforce
qed

definition run_value :: "(go_error + pool) option \<Rightarrow> string \<Rightarrow> (bool \<times> (Update \<times> bool) list \<times> crdt_value option) option" where
  "run_value r key = (case r of Some (Inr p) \<Rightarrow>
       Some (pool_done p, pl_results p, map_option (\<lambda>ent. crdt_Value (entObject ent)) (eng_Get (\<lambda>_. 0) (vm_engine (pl_vm p)) key))
     | _ \<Rightarrow> None)"

text \<open>A node that holds the key of the example updates.\<close>

definition sample_holder :: VersionManager where
  "sample_holder = NewVersionManager ''n'' (gc_engine [(''k'', sample_entry)])"

text \<open>Two updates of an existing key, one of them a delete: one schedule handles both, another ends in the deadlock.\<close>

theorem updateParallel_returns_witness:
  "\<exists>p q. pool_run (\<lambda>_. 0) (replicate 15 (0, 0, 0)) (pool_start sample_holder [sample_delete 4 ''a'', sample_delta 5 ''b'' 7]) = Some (Inr p)
     \<and> pool_done p
     \<and> pool_run (\<lambda>_. 0) [(0, 0, 0), (0, 0, 0), (0, 0, 0), (0, 0, 0), (1, 0, 0), (1, 0, 0), (1, 0, 0)]
         (pool_start sample_holder [sample_delete 4 ''a'', sample_delta 5 ''b'' 7]) = Some (Inr q)
     \<and> pool_deadlock q \<and> (\<forall>ss' r. pool_run (\<lambda>_. 0) ss' q = Some (Inr r) \<longrightarrow> \<not> pool_done r)"
proof -
  let ?us = "[sample_delete 4 ''a'', sample_delta 5 ''b'' 7]"
  let ?r = "pool_run (\<lambda>_. 0) (replicate 15 (0, 0, 0)) (pool_start sample_holder ?us)"
    and ?q = "pool_run (\<lambda>_. 0) [(0, 0, 0), (0, 0, 0), (0, 0, 0), (0, 0, 0), (1, 0, 0), (1, 0, 0), (1, 0, 0)] (pool_start sample_holder ?us)"
  have "case ?r of Some (Inr p) \<Rightarrow> pool_done p | _ \<Rightarrow> False" by code_simp
  then obtain p where p: "?r = Some (Inr p)" "pool_done p" by (auto split: option.splits sum.splits simp del: pool_run.simps)
  have "case ?q of Some (Inr p) \<Rightarrow> pool_deadlock p | _ \<Rightarrow> False" by code_simp
  then obtain q where q: "?q = Some (Inr q)" "pool_deadlock q" by (auto split: option.splits sum.splits simp del: pool_run.simps)
  with p updateParallel_returns [OF q(1)] show ?thesis by blast
qed

section \<open>Schedules agree on existing keys\<close>

text \<open>What the workers hold: updates not yet checked, updates checked and not yet applied, and updates
  applied.\<close>

fun worker_accepted :: "worker \<Rightarrow> Update list" where
  "worker_accepted (Checked u) = [msg u]"
| "worker_accepted (Locked u) = [msg u]"
| "worker_accepted _ = []"

fun worker_applied :: "worker \<Rightarrow> Update list" where
  "worker_applied (Marking u b) = [msg u]"
| "worker_applied (Leaving u w) = worker_applied w"
| "worker_applied (Hashing u h) = [msg u]"
| "worker_applied (Reporting u b) = (if b then [msg u] else [])"
| "worker_applied _ = []"

definition waiting :: "pool \<Rightarrow> Update set" where
  "waiting p = msg ` (set (pl_jobs p) \<union> {u. Fetched u \<in> set (pl_workers p)})"

definition accepted :: "pool \<Rightarrow> Update list" where
  "accepted p = concat (map worker_accepted (pl_workers p))"

definition finished :: "pool \<Rightarrow> Update list" where
  "finished p = concat (map worker_applied (pl_workers p)) @ map msg (pool_applied p)"

definition present :: "(string \<Rightarrow> u64) \<Rightarrow> Update list \<Rightarrow> VersionManager \<Rightarrow> bool" where
  "present hk us vm \<longleftrightarrow> list_all (\<lambda>u. GetRaw hk (vm_engine vm) (Key u) \<noteq> None) us"

text \<open>On a ready node no worker creates an entry, and the entry that a delete is about to mark is a tombstone already.\<close>

fun worker_ready :: "(string \<Rightarrow> u64) \<Rightarrow> Engine \<Rightarrow> worker \<Rightarrow> bool" where
  "worker_ready hk e (Creating u) \<longleftrightarrow> False"
| "worker_ready hk e (Leaving u w) \<longleftrightarrow> (\<exists>h. w = Hashing u h)"
| "worker_ready hk e (Marking u b) \<longleftrightarrow> b \<and> UType u = UpdateTypeDelete
     \<and> (\<exists>ent. GetRaw hk e (Key u) = Some ent \<and> entTombstone ent \<and> entSetTimeStamp ent = SetTimeStamp u)"
| "worker_ready hk e _ \<longleftrightarrow> True"

text \<open>\<open>order\<close> lists the updates in the order in which the engine applied them.\<close>

definition pool_inv :: "(string \<Rightarrow> u64) \<Rightarrow> Update list \<Rightarrow> VersionManager \<Rightarrow> Update list \<Rightarrow> pool \<Rightarrow> bool" where
  "pool_inv hk us vm0 order p \<longleftrightarrow> node_ready hk us (pl_vm p) \<and> present hk us (pl_vm p)
     \<and> list_all (worker_ready hk (vm_engine (pl_vm p))) (pl_workers p)
     \<and> waiting p \<subseteq> set us \<and> mset (finished p) = mset order \<and> distinct (accepted p @ order)
     \<and> set (accepted p @ order) \<subseteq> {m \<in> set us. unseen vm0 m}
     \<and> (\<forall>m \<in> set us. m \<in> waiting p \<or> \<not> unseen (pl_vm p) m)
     \<and> (\<forall>m \<in> set us. unseen (pl_vm p) m \<longleftrightarrow> unseen vm0 m \<and> m \<notin> set (accepted p @ order))
     \<and> (\<forall>k. key_view hk (pl_vm p) k = fold ent.opt_absorb (updates_of k order) (key_view hk vm0 k))"

lemma pool_invD:
  assumes "pool_inv hk us vm0 order p"
  shows "node_ready hk us (pl_vm p)" "present hk us (pl_vm p)" "list_all (worker_ready hk (vm_engine (pl_vm p))) (pl_workers p)" "waiting p \<subseteq> set us"
    "mset (finished p) = mset order" "distinct (accepted p @ order)" "set (accepted p @ order) \<subseteq> {m \<in> set us. unseen vm0 m}"
    "\<forall>m \<in> set us. m \<in> waiting p \<or> \<not> unseen (pl_vm p) m"
    "\<forall>m \<in> set us. unseen (pl_vm p) m \<longleftrightarrow> unseen vm0 m \<and> m \<notin> set (accepted p @ order)"
    "\<forall>k. key_view hk (pl_vm p) k = fold ent.opt_absorb (updates_of k order) (key_view hk vm0 k)"
  using assms unfolding pool_inv_def by blast+

lemma node_ready_hash: "node_ready hk us vm \<Longrightarrow> node_ready hk us (updateKeyStateHash vm key h)"
  by (simp add: node_ready_def vm_wf_hash key_ready_def)

lemma node_ready_same_engine:
  "node_ready hk us vm \<Longrightarrow> history_wf h \<Longrightarrow> node_ready hk us (vm\<lparr>vm_history := h\<rparr>)"
  by (simp add: node_ready_def vm_wf_history key_ready_def)

text \<open>The three steps that change the data of the node: the check, the callback, the mark.\<close>

lemma check_step:
  assumes "node_ready hk us vm" "msg u \<in> set us" "TryAddRange (vm_history vm) (NodeID u) \<lparr>Start = Seq u, End = Seq u\<rparr> = (new, h)"
    and "identified us" "m \<in> set us"
  shows "(new \<longleftrightarrow> unseen vm (msg u)) \<and> node_ready hk us (vm\<lparr>vm_history := h\<rparr>)
    \<and> (unseen (vm\<lparr>vm_history := h\<rparr>) m \<longleftrightarrow> unseen vm m \<and> m \<noteq> msg u)"
proof -
  have wf: "history_wf (vm_history vm)" "Seq (msg u) \<noteq> - 1"
    using assms(1,2) unfolding node_ready_def vm_wf_def list_all_iff by blast+
  note s = sharded.try_new [OF wf(1), of "Seq u" "NodeID u"] sharded.try_invar [OF wf(1), of "Seq u" "NodeID u"]
    sharded.try_seqs [OF wf(1), of "Seq u" "NodeID u"]
  have "history_wf h" "new \<longleftrightarrow> Seq u \<notin> history_seqs (vm_history vm) (NodeID u)"
      "history_seqs h n = (if n = NodeID u then insert (Seq u) (history_seqs (vm_history vm) n) else history_seqs (vm_history vm) n)" for n
    using s wf(2) assms(3) by simp_all
  with identifiedD [OF assms(4,5,2)] node_ready_same_engine [OF assms(1)] show ?thesis
    by (auto simp: unseen_def)
qed

lemma apply_step:
  assumes "node_ready hk us (pl_vm p)" "present hk us (pl_vm p)" "msg u \<in> set us"
  shows "\<exists>w e. worker_apply hk t u p = Inr (w, p\<lparr>pl_vm := (pl_vm p)\<lparr>vm_engine := e\<rparr>\<rparr>) \<and> worker_ready hk e w \<and> worker_applied w = [msg u]
    \<and> worker_accepted w = [] \<and> (\<forall>v. w \<noteq> Fetched v)
    \<and> node_ready hk us ((pl_vm p)\<lparr>vm_engine := e\<rparr>) \<and> (\<forall>k. k \<noteq> Key u \<longrightarrow> GetRaw hk e k = GetRaw hk (vm_engine (pl_vm p)) k) \<and> GetRaw hk e (Key u) \<noteq> None
    \<and> (\<forall>k. key_view hk ((pl_vm p)\<lparr>vm_engine := e\<rparr>) k = (if k = Key u then ent.opt_absorb (msg u) (key_view hk (pl_vm p) k) else key_view hk (pl_vm p) k))"
proof -
  let ?U = "updates_of (Key u) us" and ?vm = "pl_vm p"
  have kr: "key_ready hk us ?vm (Key (msg u))" and wf: "vm_wf hk ?vm"
    using assms(1,3) unfolding node_ready_def list_all_iff by blast+
  have "GetRaw hk (vm_engine ?vm) (Key (msg u)) \<noteq> None" using assms(2,3) unfolding present_def list_all_iff by blast
  then obtain ent where g: "GetRaw hk (vm_engine ?vm) (Key u) = Some ent" by auto
  have c: "coherent ?U" "msg u \<in> set ?U" "entry_ready ?U ent" using kr g assms(3) by (auto simp: key_ready_def)
  obtain res ent' where a: "ApplyUpdate (vm_nodeID ?vm) t ent u = Inr (res, ent')" "ResError res = None" "Applied res"
      "entry_ready ?U ent'" "entry_view ent' = ent.gen_absorb (msg u) (entry_view ent)"
    using ApplyUpdate_ready [OF c, of "vm_nodeID ?vm" t] by (auto simp: ApplyUpdate_msg)
  let ?e = "eng_store hk (vm_engine ?vm) (Key u) ent'"
  define w where "w = (if Modified res \<and> UType u = UpdateTypeDelete then Marking u True else Leaving u (Hashing u (callback_hash hk ?e (Key u) True)))"
  have ew: "eng_wf (vm_engine ?vm)" using wf by (simp add: vm_wf_def)
  then have k: "eng_wf ?e" "\<And>k. GetRaw hk ?e k = (if k = Key u then Some ent' else GetRaw hk (vm_engine ?vm) k)" by (simp_all add: eng_simps)
  have "worker_apply hk t u p = Inr (w, p\<lparr>pl_vm := ?vm\<lparr>vm_engine := ?e\<rparr>\<rparr>)"
    using g a(1-3) by (simp add: worker_apply_def Let_def after_update_def w_def)
  moreover have "worker_ready hk ?e w" using ApplyUpdate_delete [OF a(1)] k(2) by (auto simp: w_def)
  moreover have "crdt_ok (entObject ent')" using a(4) by (simp add: entry_ready_def)
  then have "vm_wf hk (?vm\<lparr>vm_engine := ?e\<rparr>)" using vm_wf_store [OF wf k(1,2)] by blast
  then have "node_ready hk us (?vm\<lparr>vm_engine := ?e\<rparr>)"
    using node_ready_step [OF assms(1,3), of "?vm\<lparr>vm_engine := ?e\<rparr>" ent'] a(4) k by simp
  ultimately show ?thesis using k a(5) g by (intro exI [of _ w] exI [of _ ?e]) (auto simp: key_view_def w_def)
qed

lemma mark_step:
  assumes "eng_wf e" "GetRaw hk e (Key u) = Some ent" "entTombstone ent" "entSetTimeStamp ent = SetTimeStamp u"
  shows "eng_wf (snd (DeleteWithTimeStamp hk e now (SetTimeStamp u) (Key u)))
    \<and> GetRaw hk (snd (DeleteWithTimeStamp hk e now (SetTimeStamp u) (Key u))) k = GetRaw hk e k"
proof -
  have "ent\<lparr>entTombstone := True, entSetTimeStamp := SetTimeStamp u\<rparr> = ent" using assms(3,4) by simp
  with assms(1,2) show ?thesis by (auto simp: eng_simps)
qed

lemma worker_ready_cong: "(\<And>k. GetRaw hk e' k = GetRaw hk e k) \<Longrightarrow> worker_ready hk e' w = worker_ready hk e w"
  by (cases w) simp_all

lemma worker_ready_other:
  "worker_ready hk e w \<Longrightarrow> holds_entry w \<noteq> Some key \<Longrightarrow> (\<And>k. k \<noteq> key \<Longrightarrow> GetRaw hk e' k = GetRaw hk e k) \<Longrightarrow> worker_ready hk e' w"
  by (cases w) auto

lemmas pool_sets = waiting_def accepted_def finished_def pool_applied_def

text \<open>Each step of a worker keeps the invariant; the callback extends the order.\<close>

lemma pool_inv_check:
  assumes "identified us" "pool_inv hk us vm0 order p" "pl_workers p = xs @ Fetched u # ys"
    and "TryAddRange (vm_history (pl_vm p)) (NodeID u) \<lparr>Start = Seq u, End = Seq u\<rparr> = (new, h)"
  shows "pool_inv hk us vm0 order (p\<lparr>pl_vm := (pl_vm p)\<lparr>vm_history := h\<rparr>,
    pl_workers := xs @ (if new then Checked u else Reporting u False) # ys\<rparr>)" (is "pool_inv _ _ _ _ ?q")
proof -
  note i = pool_invD [OF assms(2)]
  have u: "msg u \<in> set us" using i(4) assms(3) by (auto simp: waiting_def)
  note c = check_step [OF i(1) u assms(4,1)]
  have w: "waiting p = insert (msg u) (waiting ?q)" "finished ?q = finished p"
      "set (accepted ?q) = (if new then insert (msg u) (set (accepted p)) else set (accepted p))"
      "distinct (accepted ?q) \<longleftrightarrow> (new \<longrightarrow> msg u \<notin> set (accepted p)) \<and> distinct (accepted p)"
    using assms(3) by (auto simp: pool_sets)
  have un: "unseen (pl_vm ?q) m \<longleftrightarrow> unseen (pl_vm p) m \<and> m \<noteq> msg u" if "m \<in> set us" for m using c [OF that] by simp
  have n: "new \<longleftrightarrow> unseen (pl_vm p) (msg u)" and r: "node_ready hk us (pl_vm ?q)" using c [OF u] by simp_all
  have fresh: "unseen vm0 (msg u)" "msg u \<notin> set (accepted p @ order)" if new using that n i(9) u by auto
  show ?thesis unfolding pool_inv_def
  proof (intro conjI)
    show "node_ready hk us (pl_vm ?q)" by (rule r)
    show "present hk us (pl_vm ?q)" using i(2) by (simp add: present_def)
    show "list_all (worker_ready hk (vm_engine (pl_vm ?q))) (pl_workers ?q)" using i(3) assms(3) by auto
    show "waiting ?q \<subseteq> set us" "mset (finished ?q) = mset order" using i(4,5) w by auto
    show "distinct (accepted ?q @ order)" using i(6) w(3,4) fresh by auto
    show "set (accepted ?q @ order) \<subseteq> {m \<in> set us. unseen vm0 m}" using i(7) w(3) u fresh by auto
    show "\<forall>m \<in> set us. m \<in> waiting ?q \<or> \<not> unseen (pl_vm ?q) m" using i(8) un w(1) by auto
    show "\<forall>m \<in> set us. unseen (pl_vm ?q) m \<longleftrightarrow> unseen vm0 m \<and> m \<notin> set (accepted ?q @ order)"
      using i(9) un w(3) n by auto
    show "\<forall>k. key_view hk (pl_vm ?q) k = fold ent.opt_absorb (updates_of k order) (key_view hk vm0 k)"
      using i(10) by (simp add: key_view_def)
  qed
qed

lemma pool_inv_apply:
  assumes "pool_inv hk us vm0 order p" "pl_workers p = xs @ Locked u # ys" "entry_unlocked p (Key u)"
  shows "\<exists>w r. worker_apply hk t u p = Inr (w, r) \<and> pool_inv hk us vm0 (order @ [msg u]) (r\<lparr>pl_workers := xs @ w # ys\<rparr>)"
proof -
  note i = pool_invD [OF assms(1)]
  have u: "msg u \<in> set us" using i(7) assms(2) by (auto simp: accepted_def)
  obtain w e where c: "worker_apply hk t u p = Inr (w, p\<lparr>pl_vm := (pl_vm p)\<lparr>vm_engine := e\<rparr>\<rparr>)" "worker_ready hk e w" "worker_applied w = [msg u]"
      "worker_accepted w = []" "\<forall>v. w \<noteq> Fetched v" "node_ready hk us ((pl_vm p)\<lparr>vm_engine := e\<rparr>)"
      "\<forall>k. k \<noteq> Key u \<longrightarrow> GetRaw hk e k = GetRaw hk (vm_engine (pl_vm p)) k" "GetRaw hk e (Key u) \<noteq> None"
      "\<forall>k. key_view hk ((pl_vm p)\<lparr>vm_engine := e\<rparr>) k = (if k = Key u then ent.opt_absorb (msg u) (key_view hk (pl_vm p) k) else key_view hk (pl_vm p) k)"
    using apply_step [OF i(1,2) u, of t] by blast
  let ?q = "p\<lparr>pl_vm := (pl_vm p)\<lparr>vm_engine := e\<rparr>, pl_workers := xs @ w # ys\<rparr>"
  have w: "waiting ?q = waiting p" "mset (finished ?q) = add_mset (msg u) (mset (finished p))"
      "set (accepted p) = insert (msg u) (set (accepted ?q))" "distinct (accepted p) \<longrightarrow> distinct (accepted ?q) \<and> msg u \<notin> set (accepted ?q)"
    using assms(2) c(3-5) by (auto simp: pool_sets)
  have un: "unseen (pl_vm ?q) m = unseen (pl_vm p) m" for m by (simp add: unseen_def)
  have other: "worker_ready hk e x" if "x \<in> set xs \<union> set ys" for x
    by (rule worker_ready_other [of hk "vm_engine (pl_vm p)" x "Key u" e]) (use that i(3) assms(2,3) c(7) in \<open>auto simp: entry_unlocked_def list_all_iff\<close>)
  have "pool_inv hk us vm0 (order @ [msg u]) ?q" unfolding pool_inv_def
  proof (intro conjI)
    show "node_ready hk us (pl_vm ?q)" using c(6) by simp
    show "present hk us (pl_vm ?q)" using i(2) c(7,8) by (auto simp: present_def list_all_iff) metis
    show "list_all (worker_ready hk (vm_engine (pl_vm ?q))) (pl_workers ?q)" using other c(2) by (auto simp: list_all_iff)
    show "waiting ?q \<subseteq> set us" "mset (finished ?q) = mset (order @ [msg u])" using i(4,5) w(1,2) by auto
    show "distinct (accepted ?q @ order @ [msg u])" using i(6) w(3,4) by auto
    show "set (accepted ?q @ order @ [msg u]) \<subseteq> {m \<in> set us. unseen vm0 m}" using i(7) w(3) by auto
    show "\<forall>m \<in> set us. m \<in> waiting ?q \<or> \<not> unseen (pl_vm ?q) m" using i(8) w(1) un by simp
    show "\<forall>m \<in> set us. unseen (pl_vm ?q) m \<longleftrightarrow> unseen vm0 m \<and> m \<notin> set (accepted ?q @ order @ [msg u])"
      using i(9) un w(3) by auto
    show "\<forall>k. key_view hk (pl_vm ?q) k = fold ent.opt_absorb (updates_of k (order @ [msg u])) (key_view hk vm0 k)"
      using c(9) i(10) by (simp add: updates_of_def)
  qed
  with c(1) show ?thesis by (intro exI [of _ w] exI [of _ "p\<lparr>pl_vm := (pl_vm p)\<lparr>vm_engine := e\<rparr>\<rparr>"]) simp
qed

lemma pool_inv_cong:
  assumes "pool_inv hk us vm0 order p" "waiting q = waiting p" "accepted q = accepted p" "mset (finished q) = mset (finished p)"
    and "list_all (worker_ready hk (vm_engine (pl_vm q))) (pl_workers q)" "node_ready hk us (pl_vm q)"
    and "\<And>k. GetRaw hk (vm_engine (pl_vm q)) k = GetRaw hk (vm_engine (pl_vm p)) k" "vm_history (pl_vm q) = vm_history (pl_vm p)"
  shows "pool_inv hk us vm0 order q"
  using assms(1,5,6) unfolding pool_inv_def present_def unseen_def key_view_def assms(2-4,7,8) by blast

lemma pool_inv_mark:
  assumes "pool_inv hk us vm0 order p" "pl_workers p = xs @ Marking u b # ys"
  shows "pool_inv hk us vm0 order (p\<lparr>pl_vm := (pl_vm p)\<lparr>vm_engine := snd (DeleteWithTimeStamp hk (vm_engine (pl_vm p)) now (SetTimeStamp u) (Key u))\<rparr>,
    pl_workers := xs @ Leaving u (Hashing u h) # ys\<rparr>)" (is "pool_inv _ _ _ _ ?q")
proof -
  note i = pool_invD [OF assms(1)]
  have wf: "vm_wf hk (pl_vm p)" using i(1) by (simp add: node_ready_def)
  obtain ent where ent: "GetRaw hk (vm_engine (pl_vm p)) (Key u) = Some ent" "entTombstone ent" "entSetTimeStamp ent = SetTimeStamp u"
    using i(3) assms(2) by auto
  have m: "eng_wf (vm_engine (pl_vm ?q))" "\<And>k. GetRaw hk (vm_engine (pl_vm ?q)) k = GetRaw hk (vm_engine (pl_vm p)) k"
    using mark_step [OF _ ent] wf by (simp_all add: vm_wf_def)
  then have "node_ready hk us (pl_vm ?q)" using i(1) by (auto simp: node_ready_def vm_wf_def kv_wf_def key_ready_def)
  moreover have "list_all (worker_ready hk (vm_engine (pl_vm ?q))) (pl_workers ?q)"
    using i(3) assms(2) worker_ready_cong [of hk "vm_engine (pl_vm ?q)" "vm_engine (pl_vm p)", OF m(2)] by (simp add: list_all_iff)
  ultimately show ?thesis using assms(2) m(2) by (intro pool_inv_cong [OF assms(1)]) (auto simp: pool_sets)
qed

lemma pool_inv_step:
  assumes "identified us" "pool_inv hk us vm0 order p" "pool_step hk s p = Some (Inr q)"
  shows "\<exists>order'. pool_inv hk us vm0 order' q"
proof -
  obtain t now xs w ys w' r where s: "pl_workers p = xs @ w # ys" "worker_step hk t now w p = Some (Inr (w', r))"
      "q = r\<lparr>pl_workers := xs @ w' # ys\<rparr>"
    using pool_stepD [OF assms(3)] by blast
  note i = pool_invD [OF assms(2)]
  have move: "pool_inv hk us vm0 order q"
    if "waiting q = waiting p" "accepted q = accepted p" "mset (finished q) = mset (finished p)" "worker_ready hk (vm_engine (pl_vm p)) w'"
      "pl_vm q = pl_vm p \<or> (\<exists>key h. pl_vm q = updateKeyStateHash (pl_vm p) key h)"
  proof (rule pool_inv_cong [OF assms(2) that(1-3)])
    have eng: "vm_engine (pl_vm q) = vm_engine (pl_vm p)" using that(5) by auto
    show "list_all (worker_ready hk (vm_engine (pl_vm q))) (pl_workers q)" using i(3) s(1,3) that(4) eng by simp
    show "node_ready hk us (pl_vm q)" using that(5) i(1) node_ready_hash by auto
    show "GetRaw hk (vm_engine (pl_vm q)) k = GetRaw hk (vm_engine (pl_vm p)) k" for k using eng by simp
    show "vm_history (pl_vm q) = vm_history (pl_vm p)" using that(5) by auto
  qed
  show ?thesis
  proof (cases w)
    case (Fetched u)
    then show ?thesis using s pool_inv_check [OF assms(1,2), of xs u ys] by (auto split: prod.splits)
  next
    case (Checked u)
    have "msg u \<in> set us" using i(7) s(1) Checked by (auto simp: accepted_def)
    then have "GetRaw hk (vm_engine (pl_vm p)) (Key (msg u)) \<noteq> None" using i(2) unfolding present_def list_all_iff by blast
    then have "w' = Locked u" "r = p" using s(2) Checked by (auto split: if_splits)
    with s Checked have "pool_inv hk us vm0 order q" by (intro move) (auto simp: pool_sets)
    then show ?thesis ..
  next
    case (Locked u)
    then have "entry_unlocked p (Key u)" "worker_apply hk t u p = Inr (w', r)" using s(2) by (auto split: if_splits)
    with pool_inv_apply [OF assms(2), of xs u ys t] s(1,3) Locked show ?thesis by auto
  next
    case (Marking u b)
    then have "UType u = UpdateTypeDelete" using i(3) s(1) by simp
    then show ?thesis using s Marking pool_inv_mark [OF assms(2), where now = now, of xs u b ys]
      by (auto simp: after_update_delete Let_def split: if_splits)
  next
    case (Creating u)
    with i(3) s(1) show ?thesis by simp
  next
    case (Leaving u w0)
    then obtain h where "w0 = Hashing u h" using i(3) s(1) by auto
    with s Leaving have "pool_inv hk us vm0 order q" by (intro move) (auto simp: pool_sets)
    then show ?thesis ..
  next
    case Idle
    with s have "pool_inv hk us vm0 order q" by (intro move) (auto simp: pool_sets split: list.splits)
    then show ?thesis ..
  next
    case (Hashing u h)
    have vm: "pl_vm q = pl_vm p \<or> (\<exists>key h. pl_vm q = updateKeyStateHash (pl_vm p) key h)" using s Hashing by (intro disjI2 exI [of _ "Key u"] exI [of _ h]) auto
    have "pool_inv hk us vm0 order q" by (rule move [OF _ _ _ _ vm]) (use s Hashing in \<open>auto simp: pool_sets\<close>)
    then show ?thesis ..
  next
    case (Reporting u b)
    with s have "pool_inv hk us vm0 order q" by (intro move) (auto simp: pool_sets)
    then show ?thesis ..
  qed
qed

lemma pool_inv_no_panic:
  assumes "pool_inv hk us vm0 order p"
  shows "pool_step hk s p \<noteq> Some (Inl err)"
proof
  assume st: "pool_step hk s p = Some (Inl err)"
  obtain i t now where s: "s = (i, t, now)" by (cases s)
  let ?w = "pl_workers p ! i"
  have i: "i < length (pl_workers p)" using st s by (auto simp: pool_step_def split: if_splits)
  then have w: "worker_step hk t now ?w p = Some (Inl err)" "?w \<in> set (pl_workers p)" using st s
    by (cases "worker_step hk t now ?w p"; cases "the (worker_step hk t now ?w p)"; auto simp: pool_step_def)+
  show False
  proof (cases ?w)
    case (Locked u)
    obtain xs ys where "pl_workers p = xs @ Locked u # ys" using w(2) Locked by (metis split_list)
    with pool_inv_apply [OF assms, of xs u ys t] w(1) Locked show False by (auto split: if_splits)
  next
    case (Creating u)
    with w(2) pool_invD(3) [OF assms] show False by (auto simp: list_all_iff)
  qed (use w(1) in \<open>auto simp: Let_def split: list.splits prod.splits if_splits\<close>)
qed

lemma pool_inv_run:
  "identified us \<Longrightarrow> pool_inv hk us vm0 order p \<Longrightarrow> pool_run hk ss p = Some r \<Longrightarrow>
   \<exists>q order'. r = Inr q \<and> pool_inv hk us vm0 order' q"
proof (induction ss arbitrary: p order)
  case (Cons s ss)
  then obtain q where q: "pool_step hk s p = Some (Inr q)" "pool_run hk ss q = Some r"
    using pool_inv_no_panic [OF Cons.prems(2), of s] by (auto split: option.splits sum.splits)
  with pool_inv_step [OF Cons.prems(1,2) q(1)] Cons.IH Cons.prems(1) show ?case by blast
qed auto

lemma pool_inv_start:
  assumes "node_ready hk us vm" "present hk us vm" "msg ` set js = set us"
  shows "pool_inv hk us vm [] (pool_start vm js)"
  using assms by (auto simp: pool_inv_def pool_start_def pool_sets updates_of_def numWorkers_def list_all_iff)

text \<open>What a call leaves, and what it reports: the unseen updates, each once.\<close>

definition applies_unseen :: "(string \<Rightarrow> u64) \<Rightarrow> Update list \<Rightarrow> VersionManager \<Rightarrow> Update list \<Rightarrow> Update list \<Rightarrow> VersionManager \<Rightarrow> bool" where
  "applies_unseen hk us vm order applied vm' \<longleftrightarrow> set order = {m \<in> set us. unseen vm m} \<and> distinct order \<and> mset (map msg applied) = mset order
    \<and> (\<forall>k. key_view hk vm' k = fold ent.opt_absorb (updates_of k order) (key_view hk vm k))
    \<and> node_ready hk us vm' \<and> (\<forall>m \<in> set us. \<not> unseen vm' m)"

lemma applies_unseenD:
  assumes "applies_unseen hk us vm order applied vm'"
  shows "set order = {m \<in> set us. unseen vm m}" "distinct (map msg applied)" "msg ` set applied = {m \<in> set us. unseen vm m}"
    "\<forall>k. key_view hk vm' k = fold ent.opt_absorb (updates_of k order) (key_view hk vm k)" "node_ready hk us vm'" "\<forall>m \<in> set us. \<not> unseen vm' m"
proof -
  have m: "mset (map msg applied) = mset order" "distinct order" using assms by (simp_all add: applies_unseen_def)
  show "distinct (map msg applied)" using m mset_eq_imp_distinct_iff by blast
  have "set (map msg applied) = set order" by (rule mset_eq_setD [OF m(1)])
  then show "set order = {m \<in> set us. unseen vm m}" "msg ` set applied = {m \<in> set us. unseen vm m}" using assms by (simp_all add: applies_unseen_def)
  show "\<forall>k. key_view hk vm' k = fold ent.opt_absorb (updates_of k order) (key_view hk vm k)" "node_ready hk us vm'" "\<forall>m \<in> set us. \<not> unseen vm' m"
    using assms unfolding applies_unseen_def by blast+
qed

lemma pool_final:
  assumes "identified us" "node_ready hk us vm" "present hk us vm" "msg ` set js = set us"
    and "pool_run hk ss (pool_start vm js) = Some (Inr p)" "pool_done p"
  shows "\<exists>order. applies_unseen hk us vm order (pool_applied p) (pl_vm p) \<and> present hk us (pl_vm p)"
proof -
  obtain order where inv: "pool_inv hk us vm order p"
    using pool_inv_run [OF assms(1) pool_inv_start [OF assms(2-4)] assms(5)] by auto
  have idle: "\<forall>w \<in> set (pl_workers p). w = Idle" "pl_jobs p = []" using assms(6) by (auto simp: pool_done_def list_all_iff)
  have none: "concat (map f (pl_workers p)) = []" if "f Idle = []" for f :: "worker \<Rightarrow> Update list" using idle(1) that by auto
  have "waiting p = {}" "accepted p = []" "finished p = map msg (pool_applied p)"
    using idle by (auto simp: waiting_def accepted_def finished_def none)
  with pool_invD [OF inv] show ?thesis by (intro exI [of _ order]) (auto simp: applies_unseen_def)
qed

text \<open>Both branches of \<open>UpdateRemote\<close> apply the unseen updates, each once, in some order, and leave a node that has
  seen all of them.\<close>

lemma UpdateRemote_order:
  assumes "UpdateRemote hk vm js applied vm'" "identified us" "node_ready hk us vm"
    and "length js < parallelThreshold \<or> present hk us vm" "msg ` set js = set us"
  shows "\<exists>order. applies_unseen hk us vm order applied vm' \<and> (length js < parallelThreshold \<or> present hk us vm')"
  using assms(1)
proof (cases rule: UpdateRemote.cases)
  case none
  with assms(3,5) show ?thesis by (intro exI [of _ "[]"]) (simp add: applies_unseen_def updates_of_def parallelThreshold_def)
next
  case (sequential xs)
  have xs: "msg ` upd ` set xs = set us" using sequential(3) assms(5) by (metis list.set_map)
  with updateSequential_ready [OF assms(3,2), of xs] updateSequential_seen [OF assms(3), of xs] updateSequential_distinct [OF assms(3,2), of xs]
    sequential(2,4) show ?thesis
    by (intro exI [of _ "map msg applied"]) (auto simp: applies_unseen_def)
next
  case (parallel ss p)
  with pool_final [OF assms(2,3) _ assms(5)] assms(4) show ?thesis by auto
qed

text \<open>C8. The schedule does not matter for keys that exist, when the updates of each key are coherent with each other and with its entry, so that their
  generations do not cross. Take two calls of \<open>UpdateRemote\<close> that return, on the same node, with
  batches that carry the same updates, whether they are handled by the sequential loop or by the worker
  pool under any two schedules, in any order and with any duplicates. Both report the updates that were not seen before, each
  once, and leave the same visible data under every key. No schedule panics.\<close>

theorem UpdateRemote_schedule_free:
  assumes "UpdateRemote hk vm js a vm'" "UpdateRemote hk vm ks b wm'"
    and "msg ` set js = set us" "msg ` set ks = set us" "identified us" "node_ready hk us vm" "present hk us vm"
  shows "msg ` set a = {m \<in> set us. unseen vm m} \<and> distinct (map msg a) \<and> mset (map msg b) = mset (map msg a)
    \<and> (\<forall>k. key_view hk vm' k = key_view hk wm' k)
    \<and> (\<forall>ss err. pool_run hk ss (pool_start vm js) \<noteq> Some (Inl err))"
proof -
  obtain oa where "applies_unseen hk us vm oa a vm'"
    using UpdateRemote_order [OF assms(1,5,6) disjI2 [OF assms(7)] assms(3)] by blast
  note a = applies_unseenD [OF this]
  obtain ob where "applies_unseen hk us vm ob b wm'"
    using UpdateRemote_order [OF assms(2,5,6) disjI2 [OF assms(7)] assms(4)] by blast
  note b = applies_unseenD [OF this]
  have "fold ent.opt_absorb (updates_of k oa) (key_view hk vm k) = fold ent.opt_absorb (updates_of k ob) (key_view hk vm k)" for k
    by (rule key_fold_cong [OF assms(6)]) (use a(1) b(1) in auto)
  moreover have "pool_run hk ss (pool_start vm js) \<noteq> Some (Inl err)" for ss err
    using pool_inv_run [OF assms(5) pool_inv_start [OF assms(6,7,3)], of ss "Inl err"] by auto
  moreover have "mset (map msg b) = mset (map msg a)"
    using a(2,3) b(2,3) set_eq_iff_mset_eq_distinct [of "map msg b" "map msg a"] by simp
  ultimately show ?thesis using a(2-4) b(4) by simp
qed

lemma sample_holder_ready:
  "node_ready (\<lambda>_. 0) [msg (sample_delta 2 ''a'' 5), msg (sample_delta 3 ''b'' 7)] sample_holder" (is "node_ready ?hk ?us _")
proof -
  have g: "GetRaw ?hk (vm_engine sample_holder) key = (if key = ''k'' then Some sample_entry else None)" for key
    by (simp add: sample_holder_def NewVersionManager_def gc_engine_def GetRaw_def shardFor_def)
  have c: "crdt_ok (entObject sample_entry)" by (simp add: sample_entry_def NewPNCounter_def pn_wf_def)
  have "vm_wf ?hk sample_holder" using kv_wf_New [of "''n''" "gc_engine [(''k'', sample_entry)]"] g c
    by (simp add: vm_wf_def sample_holder_def NewVersionManager_def gc_engine_def eng_wf_def)
  moreover have "updates_of ''k'' ?us = ?us" by (simp add: updates_of_def)
  moreover have "coherent ?us" "view_ok ?us (entSetTimeStamp sample_entry) (snd (entry_view sample_entry))"
      "no_crossing ?us (entSetTimeStamp sample_entry)" by code_simp+
  ultimately show ?thesis using g c by (simp add: node_ready_def key_ready_def entry_ready_def)
qed

theorem UpdateRemote_schedule_free_witness:
  "\<exists>a vm' b wm'. UpdateRemote (\<lambda>_. 0) sample_holder [sample_delta 2 ''a'' 5, sample_delta 3 ''b'' 7] a vm'
     \<and> UpdateRemote (\<lambda>_. 0) sample_holder (replicate 5 (sample_delta 3 ''b'' 7) @ replicate 5 (sample_delta 2 ''a'' 5)) b wm'
     \<and> mset (map msg a) = mset (map msg b) \<and> (\<forall>k. key_view (\<lambda>_. 0) vm' k = key_view (\<lambda>_. 0) wm' k)"
proof -
  let ?js = "[sample_delta 2 ''a'' 5, sample_delta 3 ''b'' 7]"
  let ?ks = "replicate 5 (sample_delta 3 ''b'' 7) @ replicate 5 (sample_delta 2 ''a'' 5)"
  let ?us = "[msg (sample_delta 2 ''a'' 5), msg (sample_delta 3 ''b'' 7)]"
  let ?s = "updateSequential (\<lambda>_. 0) sample_holder [(0, 0, sample_delta 2 ''a'' 5), (0, 0, sample_delta 3 ''b'' 7)]"
  let ?r = "pool_run (\<lambda>_. 0) (replicate 38 (3, 0, 0)) (pool_start sample_holder ?ks)"
  have "isl ?s = False" by code_simp
  then obtain a vm' where s: "?s = Inr (a, vm')" by (cases ?s) auto
  have ua: "UpdateRemote (\<lambda>_. 0) sample_holder ?js a vm'"
    by (rule UpdateRemote.sequential [OF _ _ _ s]) (simp_all add: parallelThreshold_def)
  have "map_option (\<lambda>x. fst x) (run_value ?r ''k'') = Some True" by code_simp
  then obtain p where p: "?r = Some (Inr p)" "pool_done p"
    by (auto simp: run_value_def split: option.splits sum.splits simp del: pool_run.simps)
  have ub: "UpdateRemote (\<lambda>_. 0) sample_holder ?ks (pool_applied p) (pl_vm p)"
    by (rule UpdateRemote.parallel [OF _ p]) (simp add: parallelThreshold_def)
  have "identified ?us" "present (\<lambda>_. 0) ?us sample_holder" by code_simp+
  with UpdateRemote_schedule_free [OF ua ub, of ?us] sample_holder_ready
  have "mset (map msg a) = mset (map msg (pool_applied p))" "\<forall>k. key_view (\<lambda>_. 0) vm' k = key_view (\<lambda>_. 0) (pl_vm p) k" by auto
  with ua ub show ?thesis by blast
qed

section \<open>The race between creations\<close>

lemma pool_run_append: "pool_run hk (xs @ ys) p = (case pool_run hk xs p of Some (Inr q) \<Rightarrow> pool_run hk ys q | r \<Rightarrow> r)"
  by (induction xs arbitrary: p) (auto split: option.split sum.split)

text \<open>One worker drops updates that were seen before.\<close>

lemma drop_seen:
  assumes "list_all (\<lambda>w. w = Idle) (pl_workers p)" "pl_workers p \<noteq> []" "vm_wf hk (pl_vm p)"
    and "list_all (\<lambda>j. Seq j \<noteq> - 1 \<and> \<not> unseen (pl_vm p) j) (pl_jobs p)"
  shows "\<exists>ss q. pool_run hk ss p = Some (Inr q) \<and> pool_done q \<and> pool_applied q = pool_applied p \<and> vm_engine (pl_vm q) = vm_engine (pl_vm p)
    \<and> (\<forall>u. unseen (pl_vm q) u = unseen (pl_vm p) u)"
  using assms
proof (induction "pl_jobs p" arbitrary: p)
  case Nil
  then show ?case by (intro exI [of _ "[]"] exI [of _ p]) (simp add: pool_done_def)
next
  case (Cons j js)
  obtain ws where ws: "pl_workers p = Idle # ws" using Cons.prems(1,2) by (cases "pl_workers p") auto
  obtain new h where h: "TryAddRange (vm_history (pl_vm p)) (NodeID j) \<lparr>Start = Seq j, End = Seq j\<rparr> = (new, h)" by fastforce
  have wf: "history_wf (vm_history (pl_vm p))" "Seq j \<noteq> - 1" "\<not> unseen (pl_vm p) j" using Cons.prems(3,4) Cons.hyps(2) [symmetric] by (auto simp: vm_wf_def)
  note t = sharded.try_new [OF wf(1), of "Seq j" "NodeID j"] sharded.try_invar [OF wf(1), of "Seq j" "NodeID j"] sharded.try_seqs [OF wf(1), of "Seq j" "NodeID j"]
  have new: "\<not> new" "history_wf h" "\<And>n. history_seqs h n = history_seqs (vm_history (pl_vm p)) n" using t wf(2,3) h by (auto simp: unseen_def)
  let ?q = "p\<lparr>pl_jobs := js, pl_vm := (pl_vm p)\<lparr>vm_history := h\<rparr>, pl_workers := Idle # ws, pl_results := pl_results p @ [(j, False)]\<rparr>"
  have run: "pool_run hk [(0, 0, 0), (0, 0, 0), (0, 0, 0)] p = Some (Inr ?q)"
    using ws Cons.hyps(2) [symmetric] h new(1) by (simp add: pool_step_def)
  have un: "unseen (pl_vm ?q) u = unseen (pl_vm p) u" for u using new(3) by (simp add: unseen_def)
  have "\<exists>ss q. pool_run hk ss ?q = Some (Inr q) \<and> pool_done q \<and> pool_applied q = pool_applied ?q \<and> vm_engine (pl_vm q) = vm_engine (pl_vm ?q)
      \<and> (\<forall>u. unseen (pl_vm q) u = unseen (pl_vm ?q) u)"
  proof (rule Cons.hyps(1))
    show "list_all (\<lambda>w. w = Idle) (pl_workers ?q)" using Cons.prems(1) ws by simp
    show "vm_wf hk (pl_vm ?q)" using Cons.prems(3) new(2) by (simp add: vm_wf_history)
    show "list_all (\<lambda>j. Seq j \<noteq> - 1 \<and> \<not> unseen (pl_vm ?q) j) (pl_jobs ?q)" using Cons.prems(4) Cons.hyps(2) [symmetric] un by (simp add: list_all_iff)
  qed simp_all
  then obtain ss q where q: "pool_run hk ss ?q = Some (Inr q)" "pool_done q" "pool_applied q = pool_applied ?q" "vm_engine (pl_vm q) = vm_engine (pl_vm ?q)"
      "\<forall>u. unseen (pl_vm q) u = unseen (pl_vm ?q) u" by blast
  have "pool_run hk ([(0, 0, 0), (0, 0, 0), (0, 0, 0)] @ ss) p = Some (Inr q)" unfolding pool_run_append run using q(1) by simp
  with q(2-5) un show ?case by (intro exI [of _ "[(0, 0, 0), (0, 0, 0), (0, 0, 0)] @ ss"] exI [of _ q]) (simp add: pool_applied_def)
qed

text \<open>Two workers find the key missing, and both create it.\<close>

lemma create_race_run:
  assumes wf: "vm_wf hk vm" and none: "GetRaw hk (vm_engine vm) (Key u) = None" and key: "Key v = Key u"
    and ty: "UType u \<noteq> UpdateTypeDelete" "UType v \<noteq> UpdateTypeDelete" and sq: "Seq u \<noteq> - 1" "Seq v \<noteq> - 1"
    and un: "unseen vm u" "unseen vm v" "NodeID u \<noteq> NodeID v \<or> Seq u \<noteq> Seq v"
    and cr: "CreateFromUpdate (vm_nodeID vm) t u = Inr eu" "CreateFromUpdate (vm_nodeID vm) t v = Inr ev" "crdt_ok (entObject eu)" "crdt_ok (entObject ev)"
  shows "\<exists>ss p. pool_run hk ss (pool_start vm (u # v # js)) = Some (Inr p) \<and> pl_workers p = replicate numWorkers Idle \<and> pl_jobs p = js
    \<and> pl_results p = [(u, True), (v, True)] \<and> vm_wf hk (pl_vm p)
    \<and> GetRaw hk (vm_engine (pl_vm p)) (Key u) = Some \<lparr>entObject = entObject ev, entTombstone = False, entSetTimeStamp = SetTimeStamp v\<rparr>
    \<and> (\<forall>w. unseen (pl_vm p) w \<longleftrightarrow> unseen vm w \<and> \<not> (NodeID w = NodeID u \<and> Seq w = Seq u) \<and> \<not> (NodeID w = NodeID v \<and> Seq w = Seq v))"
proof -
  obtain n1 h1 where h1: "TryAddRange (vm_history vm) (NodeID u) \<lparr>Start = Seq u, End = Seq u\<rparr> = (n1, h1)" by fastforce
  have hw: "history_wf (vm_history vm)" using wf by (simp add: vm_wf_def)
  note t1 = sharded.try_new [OF hw, of "Seq u" "NodeID u"] sharded.try_invar [OF hw, of "Seq u" "NodeID u"] sharded.try_seqs [OF hw, of "Seq u" "NodeID u"]
  have n1: "n1" "history_wf h1" "\<And>n. history_seqs h1 n = (if n = NodeID u then insert (Seq u) (history_seqs (vm_history vm) n) else history_seqs (vm_history vm) n)"
    using t1 sq(1) un(1) h1 by (auto simp: unseen_def)
  obtain n2 h2 where h2: "TryAddRange h1 (NodeID v) \<lparr>Start = Seq v, End = Seq v\<rparr> = (n2, h2)" by fastforce
  note t2 = sharded.try_new [OF n1(2), of "Seq v" "NodeID v"] sharded.try_invar [OF n1(2), of "Seq v" "NodeID v"] sharded.try_seqs [OF n1(2), of "Seq v" "NodeID v"]
  have n2: "n2" "history_wf h2" "\<And>n. history_seqs h2 n = (if n = NodeID v then insert (Seq v) (history_seqs h1 n) else history_seqs h1 n)"
    using t2 sq(2) un(2,3) h2 n1(3) by (auto simp: unseen_def)
  let ?ent = "\<lambda>w x. \<lparr>entObject = entObject x, entTombstone = False, entSetTimeStamp = SetTimeStamp w\<rparr>"
  let ?e1 = "eng_store hk (vm_engine vm) (Key u) (?ent u eu)" let ?e2 = "eng_store hk ?e1 (Key u) (?ent v ev)"
  let ?ws = "replicate 6 Idle" and ?d = "\<lambda>x. stateDigest (crdt_Hash (entObject x)) False"
  let ?vm = "vm\<lparr>vm_history := h2, vm_engine := ?e2\<rparr>"
  have ew: "eng_wf (vm_engine vm)" using wf by (simp add: vm_wf_def)
  then have g: "eng_wf ?e2" "\<And>k. GetRaw hk ?e2 k = (if k = Key u then Some (?ent v ev) else GetRaw hk (vm_engine vm) k)" by (simp_all add: eng_simps)
  have "vm_wf hk (vm\<lparr>vm_history := h2\<rparr>)" using wf n2(2) by (simp add: vm_wf_history)
  from vm_wf_store [OF this g(1), of "Key u" "?ent v ev"] g(2) cr(4) have wf2: "vm_wf hk ?vm" by simp
  have ws: "replicate numWorkers Idle = Idle # Idle # ?ws" by (simp add: numWorkers_def numeral_eq_Suc)
  have ids: "list_all (\<lambda>w. w = Idle) ?ws" by (simp add: list_all_iff)
  let ?vm' = "updateKeyStateHash (updateKeyStateHash ?vm (Key u) (?d eu)) (Key u) (?d ev)"
  let ?p = "\<lparr>pl_vm = ?vm', pl_jobs = js, pl_workers = Idle # Idle # ?ws, pl_results = [(u, True), (v, True)]\<rparr>"
  define q1 where "q1 = \<lparr>pl_vm = vm\<lparr>vm_history := h2\<rparr>, pl_jobs = js, pl_workers = Creating u # Creating v # ?ws, pl_results = []\<rparr>"
  define q2 where "q2 = \<lparr>pl_vm = ?vm, pl_jobs = js, pl_workers = Hashing u (?d eu) # Hashing v (?d ev) # ?ws, pl_results = []\<rparr>"
  have r1: "pool_run hk [(0, t, 0), (1, t, 0), (0, t, 0), (1, t, 0), (0, t, 0), (1, t, 0)] (pool_start vm (u # v # js)) = Some (Inr q1)"
    using h1 h2 n1(1) n2(1) none key ty by (simp add: pool_step_def pool_start_def ws shard_unlocked_def after_update_def q1_def list_all_iff)
  have r2: "pool_run hk [(0, t, 0), (1, t, 0)] q1 = Some (Inr q2)"
    using cr(1,2) key by (simp add: pool_step_def shard_unlocked_def q1_def q2_def list_all_iff PutWithTimeStamp_def)
  have r3: "pool_run hk [(0, t, 0), (1, t, 0), (0, t, 0), (1, t, 0)] q2 = Some (Inr ?p)"
    using key by (simp add: pool_step_def q2_def)
  have "pool_run hk ([(0, t, 0), (1, t, 0), (0, t, 0), (1, t, 0), (0, t, 0), (1, t, 0)] @ [(0, t, 0), (1, t, 0)] @ [(0, t, 0), (1, t, 0), (0, t, 0), (1, t, 0)])
      (pool_start vm (u # v # js)) = Some (Inr ?p)"
    unfolding pool_run_append r1 option.case sum.case r2 r3 ..
  moreover have "vm_wf hk ?vm'" using wf2 by (intro vm_wf_hash)
  moreover have "unseen ?vm' w \<longleftrightarrow> unseen vm w \<and> \<not> (NodeID w = NodeID u \<and> Seq w = Seq u) \<and> \<not> (NodeID w = NodeID v \<and> Seq w = Seq v)" for w
    using n1(3) n2(3) by (auto simp: unseen_def)
  ultimately show ?thesis using g(2) ws by (intro exI conjI) (assumption, simp_all)
qed

text \<open>C18. Two workers that handle updates of a key that is not there yet can both find it missing and both create
  it. Take any node without the key, any two unseen updates of it that are not deletes, and a batch that holds them and
  enough updates that were seen before, or are copies of the two, to be handled by the worker pool. Then there is a call of \<open>UpdateRemote\<close> that
  returns and reports both updates as applied, after which the entry of the key is the one that the second update alone would have created: the
  first is lost, and since both are recorded in the history no later delivery brings it back.\<close>

theorem parallel_create_race:
  assumes "vm_wf hk vm" "GetRaw hk (vm_engine vm) (Key u) = None" "Key v = Key u" "Payload u \<noteq> None" "Payload v \<noteq> None"
    and "UType u \<noteq> UpdateTypeDelete" "UType v \<noteq> UpdateTypeDelete" "Seq u \<noteq> - 1" "Seq v \<noteq> - 1"
    and "unseen vm u" "unseen vm v" "NodeID u \<noteq> NodeID v \<or> Seq u \<noteq> Seq v" "8 \<le> length js"
    and "list_all (\<lambda>j. Seq j \<noteq> - 1 \<and> (\<not> unseen vm j \<or> j \<in> {u, v})) js"
  shows "\<exists>vm' wm. UpdateRemote hk vm (u # v # js) [u, v] vm' \<and> \<not> unseen vm' u \<and> \<not> unseen vm' v
    \<and> handleUpdate hk vm t now v = Inr (True, wm) \<and> GetRaw hk (vm_engine vm') (Key u) = GetRaw hk (vm_engine wm) (Key u)"
proof -
  obtain h where h: "handleUpdate hk vm t now v = apply_to_engine hk (vm\<lparr>vm_history := h\<rparr>) t now v" "history_wf h"
    using handleUpdate_new [OF assms(1), of v t now] assms(9,11) by (auto simp: unseen_def)
  have wf: "vm_wf hk (vm\<lparr>vm_history := h\<rparr>)" using assms(1) h(2) by (simp add: vm_wf_history)
  have create: "\<exists>e vm'. CreateFromUpdate (vm_nodeID vm) t w = Inr e \<and> apply_to_engine hk (vm\<lparr>vm_history := h\<rparr>) t now w = Inr (True, vm') \<and> vm_wf hk vm'
      \<and> GetRaw hk (vm_engine vm') (Key u) = Some e" if w: "Payload w \<noteq> None" "UType w \<noteq> UpdateTypeDelete" "Key w = Key u" for w
  proof -
    obtain d where "Payload w = Some d" using w(1) by blast
    from apply_absent [OF wf, of w d t now] this w(2,3) assms(2) show ?thesis by auto
  qed
  obtain eu vu where eu: "CreateFromUpdate (vm_nodeID vm) t u = Inr eu" "vm_wf hk vu" "GetRaw hk (vm_engine vu) (Key u) = Some eu"
    using create [OF assms(4,6) refl] by blast
  obtain ev wm where ev: "CreateFromUpdate (vm_nodeID vm) t v = Inr ev" "apply_to_engine hk (vm\<lparr>vm_history := h\<rparr>) t now v = Inr (True, wm)"
      "vm_wf hk wm" "GetRaw hk (vm_engine wm) (Key u) = Some ev"
    using create [OF assms(5,7,3)] by blast
  have ok: "crdt_ok (entObject eu)" "crdt_ok (entObject ev)" using eu(2,3) ev(3,4) by (auto simp: vm_wf_def)
  have same: "\<lparr>entObject = entObject ev, entTombstone = False, entSetTimeStamp = SetTimeStamp v\<rparr> = ev"
    using ev(1) by (auto simp: CreateFromUpdate_def split: option.splits sum.splits go_error.splits)
  obtain ss p where p: "pool_run hk ss (pool_start vm (u # v # js)) = Some (Inr p)" "pl_workers p = replicate numWorkers Idle" "pl_jobs p = js"
      "pl_results p = [(u, True), (v, True)]" "vm_wf hk (pl_vm p)" "GetRaw hk (vm_engine (pl_vm p)) (Key u) = Some ev"
      "\<forall>w. unseen (pl_vm p) w \<longleftrightarrow> unseen vm w \<and> \<not> (NodeID w = NodeID u \<and> Seq w = Seq u) \<and> \<not> (NodeID w = NodeID v \<and> Seq w = Seq v)"
    using create_race_run [OF assms(1-3,6-12) eu(1) ev(1) ok, of js] same by auto
  have "\<exists>ss q. pool_run hk ss p = Some (Inr q) \<and> pool_done q \<and> pool_applied q = pool_applied p \<and> vm_engine (pl_vm q) = vm_engine (pl_vm p)
      \<and> (\<forall>u. unseen (pl_vm q) u = unseen (pl_vm p) u)"
    by (rule drop_seen) (use p assms(14) in \<open>auto simp: list_all_iff numWorkers_def\<close>)
  then obtain ss' q where q: "pool_run hk ss' p = Some (Inr q)" "pool_done q" "pool_applied q = pool_applied p" "vm_engine (pl_vm q) = vm_engine (pl_vm p)"
      "\<forall>u. unseen (pl_vm q) u = unseen (pl_vm p) u" by blast
  have "pool_run hk (ss @ ss') (pool_start vm (u # v # js)) = Some (Inr q)" unfolding pool_run_append p(1) using q(1) by simp
  from UpdateRemote.parallel [OF _ this q(2)] assms(13) have "UpdateRemote hk vm (u # v # js) (pool_applied q) (pl_vm q)" by (simp add: parallelThreshold_def)
  moreover have "pool_applied q = [u, v]" using q(3) p(4) by (simp add: pool_applied_def)
  ultimately show ?thesis using p(6,7) q(4,5) h(1) ev(2,4) by (intro exI [of _ "pl_vm q"] exI [of _ wm]) simp
qed

text \<open>A batch of ten on an empty node: the counter shows 7 after the race and 12 after the sequential loop on the same two updates.\<close>

theorem parallel_create_race_witness:
  "\<exists>vm'. UpdateRemote (\<lambda>_. 0) (sample_vm ''n'') (sample_delta 2 ''a'' 5 # sample_delta 3 ''b'' 7 # replicate 8 (sample_delta 2 ''a'' 5))
         [sample_delta 2 ''a'' 5, sample_delta 3 ''b'' 7] vm'
     \<and> map_option (\<lambda>ent. crdt_Value (entObject ent)) (GetRaw (\<lambda>_. 0) (vm_engine vm') ''k'') = Some (IntValue 7)
     \<and> (\<exists>applied wm. updateSequential (\<lambda>_. 0) (sample_vm ''n'') [(0, 0, sample_delta 2 ''a'' 5), (0, 0, sample_delta 3 ''b'' 7)]
            = Inr (applied, wm)
          \<and> map_option (\<lambda>ent. crdt_Value (entObject ent)) (GetRaw (\<lambda>_. 0) (vm_engine wm) ''k'') = Some (IntValue 12))"
proof -
  let ?u = "sample_delta 2 ''a'' 5" and ?v = "sample_delta 3 ''b'' 7"
  let ?s = "updateSequential (\<lambda>_. 0) (sample_vm ''n'') [(0, 0, ?u), (0, 0, ?v)]" and ?h = "handleUpdate (\<lambda>_. 0) (sample_vm ''n'') 0 0 ?v"
  have h: "(case ?h of Inl _ \<Rightarrow> None | Inr (a, vm) \<Rightarrow> map_option (\<lambda>ent. crdt_Value (entObject ent)) (GetRaw (\<lambda>_. 0) (vm_engine vm) ''k'')) = Some (IntValue 7)"
    by code_simp
  have s: "(case ?s of Inl _ \<Rightarrow> None | Inr (a, vm) \<Rightarrow> map_option (\<lambda>ent. crdt_Value (entObject ent)) (GetRaw (\<lambda>_. 0) (vm_engine vm) ''k'')) = Some (IntValue 12)"
    by code_simp
  have "\<exists>vm' wm. UpdateRemote (\<lambda>_. 0) (sample_vm ''n'') (?u # ?v # replicate 8 ?u) [?u, ?v] vm' \<and> \<not> unseen vm' ?u \<and> \<not> unseen vm' ?v
      \<and> ?h = Inr (True, wm) \<and> GetRaw (\<lambda>_. 0) (vm_engine vm') (Key ?u) = GetRaw (\<lambda>_. 0) (vm_engine wm) (Key ?u)"
    by (rule parallel_create_race) (simp_all add: unseen_def sample_delta_def UpdateTypes list_all_iff)
  then obtain vm' wm where r: "UpdateRemote (\<lambda>_. 0) (sample_vm ''n'') (?u # ?v # replicate 8 ?u) [?u, ?v] vm'"
      "?h = Inr (True, wm)" "GetRaw (\<lambda>_. 0) (vm_engine vm') ''k'' = GetRaw (\<lambda>_. 0) (vm_engine wm) ''k''" by (auto simp: sample_delta_def)
  with h have "map_option (\<lambda>ent. crdt_Value (entObject ent)) (GetRaw (\<lambda>_. 0) (vm_engine vm') ''k'') = Some (IntValue 7)" by simp
  moreover from s obtain a vm where "?s = Inr (a, vm)"
      "map_option (\<lambda>ent. crdt_Value (entObject ent)) (GetRaw (\<lambda>_. 0) (vm_engine vm) ''k'') = Some (IntValue 12)"
    by (auto split: sum.splits prod.splits simp del: updateSequential.simps)
  ultimately show ?thesis using r(1) by blast
qed

end
