(* ===== verification/Anti_Entropy.thy ===== *)
theory Anti_Entropy
  imports Replication
begin

text \<open>
  The exchange of whole key states, \<open>pkg/storage/anti_entropy/anti_entropy.go\<close>. The service has no state of its
  own: its engine is the one of the version manager it is given. A loop over a Go map is a list in any
  range order of the map. Lemmas: what the digests of a bucket are, what merging the state of a key does
  to its entry, that an exchange in both directions makes two counters agree, and that it brings back what a
  later put had reset.
\<close>

section \<open>The service\<close>

definition ae_KeyDigests :: "VersionManager \<Rightarrow> u32 \<Rightarrow> (string, u64) fmap" where
  "ae_KeyDigests vm bucket = KeyDigests vm bucket"

definition key_state :: "string \<Rightarrow> CRDTEntry \<Rightarrow> KeyState" where
  "key_state key entry = \<lparr>ksKey = key, ksCRDTType = crdt_Type (entObject entry), ksState = crdt_MarshalJSON (entObject entry),
     ksTombstone = entTombstone entry, ksSetTimeStamp = entSetTimeStamp entry\<rparr>"

fun CollectKeyStates :: "(string \<Rightarrow> u64) \<Rightarrow> VersionManager \<Rightarrow> string list \<Rightarrow> KeyState list" where
  "CollectKeyStates hk vm [] = []"
| "CollectKeyStates hk vm (key # keys) =
     (case GetRaw hk (vm_engine vm) key of
        None \<Rightarrow> CollectKeyStates hk vm keys
      | Some entry \<Rightarrow> key_state key entry # CollectKeyStates hk vm keys)"

fun FindStaleKeys :: "(string, u64) fmap \<Rightarrow> (string \<times> u64) list \<Rightarrow> string list" where
  "FindStaleKeys localDigests [] = []"
| "FindStaleKeys localDigests ((key, remoteHash) # remoteDigests) =
     (case fmlookup localDigests key of
        None \<Rightarrow> key # FindStaleKeys localDigests remoteDigests
      | Some localHash \<Rightarrow>
          if localHash \<noteq> remoteHash then key # FindStaleKeys localDigests remoteDigests
          else FindStaleKeys localDigests remoteDigests)"

text \<open>Each state comes with the two clock readings of its merge. A failed merge is logged and skipped.\<close>

fun MergeKeyStates ::
    "(string \<Rightarrow> u64) \<Rightarrow> VersionManager \<Rightarrow> (i64 \<times> i64 \<times> KeyState) list \<Rightarrow> go_error + string list \<times> VersionManager" where
  "MergeKeyStates hk vm [] = Inr ([], vm)"
| "MergeKeyStates hk vm ((t, now, ks) # states) =
     (case MergeKeyState hk vm t now ks of
        Inl (Panic p) \<Rightarrow> Inl (Panic p)
      | Inl err \<Rightarrow> MergeKeyStates hk vm states
      | Inr vm1 \<Rightarrow> bind_res (MergeKeyStates hk vm1 states) (\<lambda>(merged, vm2). Inr (ksKey ks # merged, vm2)))"

section \<open>Digests\<close>

lemma FindStaleKeys_filter: "FindStaleKeys local es = map fst (filter (\<lambda>(k, h). fmlookup local k \<noteq> Some h) es)"
  by (induction local es rule: FindStaleKeys.induct) (auto split: option.splits)

lemma map_of_fm_entries: "map_of (fm_entries m) = fmlookup m"
  using range_order_fm_entries [of m] by (simp add: range_order_def)

lemma digests_fold:
  "distinct (map fst es) \<Longrightarrow>
   fmlookup (fold (\<lambda>(key, km) result. if km_bucket km \<noteq> b then result else fmupd key (km_hash km) result) es m) k =
     (case map_of es k of Some km \<Rightarrow> if km_bucket km = b then Some (km_hash km) else fmlookup m k | None \<Rightarrow> fmlookup m k)"
proof (induction es arbitrary: m)
  case (Cons x es)
  obtain key km where x: "x = (key, km)" by fastforce
  from Cons.prems x have "map_of es key = None" by (auto simp: map_of_eq_None_iff)
  with Cons x show ?case by (auto split: option.splits)
qed simp

lemma KeyDigests_lookup:
  assumes "kv_wf vm"
  shows "fmlookup (KeyDigests vm b) k = (case key_meta vm k of Some km \<Rightarrow> if km_bucket km = b then Some (km_hash km) else None | None \<Rightarrow> None)"
proof -
  let ?s = "vm_keyVersions vm"
  have len: "length ?s = numVersionShards" using assms by (simp add: kv_wf_def)
  have own: "kv_shardFor key = i" if "i < length ?s" "(key, km) \<in> set (fm_entries (?s ! i))" for i key km
    using assms that len set_fm_entries [of "?s ! i"] unfolding kv_wf_def by fastforce
  have sub: "distinct (map fst (concat (map fm_entries xs))) \<and> (\<forall>k. map_of (concat (map fm_entries xs)) k
      = (if n \<le> kv_shardFor k \<and> kv_shardFor k < n + length xs then fmlookup (?s ! kv_shardFor k) k else None))"
    if "xs = drop n ?s" "n \<le> length ?s" for xs n
    using that
  proof (induction xs arbitrary: n)
    case (Cons m xs)
    then have n: "n < length ?s" by (metis drop_all list.distinct(1) not_le)
    then have "m # xs = ?s ! n # drop (Suc n) ?s" using Cons.prems(1) Cons_nth_drop_Suc [OF n] by simp
    then have m: "m = ?s ! n" and xs: "xs = drop (Suc n) ?s" by simp_all
    note ih = Cons.IH [OF xs Suc_leI [OF n]]
    have k: "kv_shardFor key = n" if "(key, km) \<in> set (fm_entries m)" for key km using own [OF n] that m by simp
    have rest: "n < kv_shardFor key" if "(key, km) \<in> set (concat (map fm_entries xs))" for key km
    proof -
      from that obtain x where "x \<in> set xs" "(key, km) \<in> set (fm_entries x)" by auto
      then obtain j where "j < length xs" "(key, km) \<in> set (fm_entries (xs ! j))" by (metis in_set_conv_nth)
      then show ?thesis using own [of "Suc n + j" key km] xs by simp
    qed
    have "key \<notin> fst ` set (concat (map fm_entries xs))" if "key \<in> fst ` set (fm_entries m)" for key
    proof
      assume "key \<in> fst ` set (concat (map fm_entries xs))"
      then obtain x where x: "key = fst x" "x \<in> set (concat (map fm_entries xs))" by (rule imageE)
      from that obtain y where y: "key = fst y" "y \<in> set (fm_entries m)" by (rule imageE)
      have "kv_shardFor key = n" using k [of key "snd y"] y by simp
      moreover have "n < kv_shardFor key" using rest [of key "snd x"] x by simp
      ultimately show False by simp
    qed
    then have "set (map fst (fm_entries m)) \<inter> set (map fst (concat (map fm_entries xs))) = {}" unfolding set_map by blast
    then have "distinct (map fst (concat (map fm_entries (m # xs))))"
      using ih distinct_fm_entries [of m] unfolding list.map concat.simps map_append distinct_append by blast
    moreover have "map_of (concat (map fm_entries (m # xs))) key =
        (if n \<le> kv_shardFor key \<and> kv_shardFor key < n + length (m # xs) then fmlookup (?s ! kv_shardFor key) key else None)" for key
    proof -
      have "fmlookup m key = None" if "kv_shardFor key \<noteq> n"
        using that k [of key] by (cases "fmlookup m key") (auto simp: set_fm_entries)
      then show ?thesis using ih m
        by (cases "kv_shardFor key = n") (auto simp: map_add_def map_of_fm_entries split: option.splits)
    qed
    ultimately show ?case by blast
  qed auto
  from sub [of ?s 0] len digests_fold [of "kv_Range ?s" b fmempty k] show ?thesis
    by (simp add: KeyDigests_def kv_Range_def key_meta_def split: option.split)
qed
section \<open>Merging the state of a key\<close>

text \<open>What an entry holds: its timestamp, whether it is a tombstone, and the data of its object.\<close>

definition entry_state :: "CRDTEntry \<Rightarrow> Timestamp \<times> bool \<times> obj_view" where
  "entry_state ent = (entSetTimeStamp ent, entTombstone ent, crdt_view (entObject ent))"

definition key_entry :: "(string \<Rightarrow> u64) \<Rightarrow> VersionManager \<Rightarrow> string \<Rightarrow> (Timestamp \<times> bool \<times> obj_view) option" where
  "key_entry hk vm key = map_option entry_state (GetRaw hk (vm_engine vm) key)"

text \<open>The data of an object after the trip as JSON: a counter is unchanged, the value of a register becomes the text that its
  \<open>MarshalJSON\<close> writes for it.\<close>

fun wire_view :: "obj_view \<Rightarrow> obj_view" where
  "wire_view (CounterView p n) = CounterView p n"
| "wire_view (RegisterView v ts) = RegisterView (register_raw v) ts"

text \<open>\<open>Merge\<close> of an object with the data of another one of the same type.\<close>

fun view_merge :: "obj_view \<Rightarrow> obj_view \<Rightarrow> obj_view" where
  "view_merge (CounterView p n) (CounterView p' n') = CounterView (raise_fm p p') (raise_fm n n')"
| "view_merge (RegisterView v ts) (RegisterView v' ts') = (let r = lww_absorb (v, ts) (v', ts') in RegisterView (fst r) (snd r))"
| "view_merge v v' = v'"

fun same_kind :: "obj_view \<Rightarrow> obj_view \<Rightarrow> bool" where
  "same_kind (CounterView p n) (CounterView p' n') \<longleftrightarrow> True"
| "same_kind (RegisterView v ts) (RegisterView v' ts') \<longleftrightarrow> True"
| "same_kind v v' \<longleftrightarrow> False"

text \<open>What a pull leaves, as a function of the local state and of the remote one. Without a local entry the remote one is adopted. A tombstone loses
  against a live state that is at least as late, and a live object becomes a tombstone when that is at least as late; a live
  object that is later than the remote tombstone absorbs the data of it. Two tombstones keep the later timestamp. Two live
  objects of one type are merged under the later timestamp, and of two live objects of different types the later one stays.\<close>

fun pulled_state :: "(Timestamp \<times> bool \<times> obj_view) option \<Rightarrow> Timestamp \<times> bool \<times> obj_view \<Rightarrow> Timestamp \<times> bool \<times> obj_view" where
  "pulled_state None (ts, dead, v) = (ts, dead, wire_view v)"
| "pulled_state (Some (ts', dead', v')) (ts, dead, v) =
     (if dead' \<and> \<not> dead then (if ts < ts' then (ts', True, v') else (ts, False, wire_view v))
      else if \<not> dead' \<and> dead then (if ts < ts' then (ts', False, view_merge (wire_view v) v') else (ts, True, v'))
      else if dead' \<and> dead then (max ts' ts, True, v')
      else if same_kind v v' then (max ts' ts, False, view_merge (wire_view v) v')
      else if ts' < ts then (ts, False, wire_view v) else (ts', False, v'))"

text \<open>Objects whose names are valid text, as they survive the trip as JSON.\<close>

definition plain_counter :: "PNCounter \<Rightarrow> bool" where
  "plain_counter c \<longleftrightarrow> pn_wf c \<and> plain (pn_id c) \<and> plain_map (pP c) \<and> plain_map (pN c)"

fun plain_object :: "crdt \<Rightarrow> bool" where
  "plain_object (Counter c) \<longleftrightarrow> plain_counter c"
| "plain_object (Register r) \<longleftrightarrow> plain (reg_id r) \<and> plain (TsID (reg_ts r))"

definition plain_node :: "(string \<Rightarrow> u64) \<Rightarrow> VersionManager \<Rightarrow> bool" where
  "plain_node hk vm \<longleftrightarrow> (\<forall>key ent. GetRaw hk (vm_engine vm) key = Some ent \<longrightarrow> plain_object (entObject ent))"

definition counters_only :: "(string \<Rightarrow> u64) \<Rightarrow> VersionManager \<Rightarrow> bool" where
  "counters_only hk vm \<longleftrightarrow> (\<forall>key ent. GetRaw hk (vm_engine vm) key = Some ent \<longrightarrow> (\<exists>c. entObject ent = Counter c \<and> plain_counter c))"

lemma decode_object:
  assumes "plain_object (entObject r)"
  shows "\<exists>blank obj. fabric_New (ksCRDTType (key_state key r)) nid = Inr blank
    \<and> crdt_UnmarshalJSON t blank (ksState (key_state key r)) = Inr obj \<and> crdt_ok obj \<and> crdt_view obj = wire_view (crdt_view (entObject r))
    \<and> crdt_Type obj = crdt_Type (entObject r) \<and> (\<forall>c. entObject r = Counter c \<longrightarrow> obj = Counter c)"
proof (cases "entObject r")
  case (Counter c)
  with assms have "crdt_UnmarshalJSON t (Counter other) (crdt_MarshalJSON (Counter c)) = Inr (Counter c)" for other
    using crdt_codec_roundtrip [of c "NewLWWHLCRegister []"] by (simp add: plain_counter_def NewLWWHLCRegister_def plain_ascii zero_ts_def)
  with Counter assms show ?thesis by (simp add: key_state_def fabric_New_def plain_counter_def)
next
  case (Register q)
  obtain q' where "crdt_UnmarshalJSON t (Register (NewLWWHLCRegister nid)) (crdt_MarshalJSON (Register q)) = Inr (Register q')"
      "reg_ts q' = reg_ts q" "reg_clock q' \<noteq> None" "LWWHLCRegister_Read q' = register_raw (LWWHLCRegister_Read q)"
    using crdt_codec_roundtrip [of "NewPNCounter []" q t "NewPNCounter []" "NewLWWHLCRegister nid"] assms Register
    by (auto simp: NewPNCounter_def plain_ascii plain_map_def simp del: crdt_UnmarshalJSON.simps crdt_MarshalJSON.simps)
  with Register show ?thesis by (simp add: key_state_def fabric_New_def LWWHLCRegister_Read_def)
qed

lemma crdt_Type_kind: "crdt_Type c = crdt_Type d \<longleftrightarrow> same_kind (crdt_view c) (crdt_view d)" "same_kind (wire_view v) w = same_kind v w"
  "\<not> same_kind v w \<Longrightarrow> view_merge v w = w"
  by (cases c; cases d; simp) (cases v; cases w; simp)+

lemma crdt_Merge_view:
  assumes "crdt_ok c" "crdt_Type c = crdt_Type d"
  shows "\<exists>obj. crdt_Merge t c d = Inr obj \<and> crdt_ok obj \<and> crdt_view obj = view_merge (crdt_view d) (crdt_view c)"
proof (cases c; cases d)
  fix a b assume "c = Counter a" "d = Counter b"
  with assms(1) show ?thesis by (auto simp: mergePNCounter_wf pn_wf_def)
next
  fix a b assume cd: "c = Register a" "d = Register b"
  with assms(1) obtain r' where "reg_adopt a t (reg_value b) (reg_ts b) = Inr r'" "reg_clock r' \<noteq> None" "lww_view r' = lww_absorb (reg_value b, reg_ts b) (lww_view a)"
    using reg_adopt_clock [of a t "reg_value b" "reg_ts b"] by auto
  with cd show ?thesis by (simp add: LWWHLCRegister_Merge_def lww_view_def Let_def) (metis fst_conv snd_conv)
qed (use assms(2) in auto)

lemma mergePNCounter_plain:
  assumes "plain_counter c" "plain_counter d" "mergePNCounter c d = Inr c'"
  shows "plain_counter c'"
proof -
  have "plain_map (Some (raise_fm s m))" if "plain_map (Some s)" "plain_map (Some m)" for s m
    using that by (auto simp: plain_map_def fmlookup_raise_fm fmlookup_dom_iff split: option.splits if_splits)
  then show ?thesis using assms by (auto simp: plain_counter_def mergePNCounter_wf pn_wf_def)
qed
text \<open>The cases of \<open>MergeKeyState\<close> on a key that has an entry.\<close>

lemma merge_existing_state:
  assumes "eng_wf e" "GetRaw hk e key = Some a" "crdt_ok (entObject a)" "crdt_ok obj"
    and obj: "crdt_view obj = wire_view (crdt_view (entObject r))" "crdt_Type obj = crdt_Type (entObject r)"
  shows "\<exists>h e' a'. merge_existing hk e t now (key_state key r) obj a = Inr (h, e') \<and> eng_wf e'
    \<and> (\<forall>k. GetRaw hk e' k = (if k = key then Some a' else GetRaw hk e k)) \<and> crdt_ok (entObject a')
    \<and> entry_state a' = pulled_state (Some (entry_state a)) (entry_state r)"
proof -
  let ?P = "\<lambda>x. \<exists>h e' a'. x = Inr (h, e') \<and> eng_wf e' \<and> (\<forall>k. GetRaw hk e' k = (if k = key then Some a' else GetRaw hk e k)) \<and> crdt_ok (entObject a')
    \<and> entry_state a' = pulled_state (Some (entry_state a)) (entry_state r)"
  have keep: "?P (Inr (entry_digest x, eng_store hk e key x))"
    if "crdt_ok (entObject x)" "entry_state x = pulled_state (Some (entry_state a)) (entry_state r)" for x
    using that assms(1) by (intro exI [of _ "entry_digest x"] exI [of _ "eng_store hk e key x"] exI [of _ x]) (simp add: eng_simps)
  have ks: "ksSetTimeStamp (key_state key r) = entSetTimeStamp r" "ksTombstone (key_state key r) = entTombstone r"
      "ksKey (key_state key r) = key" "ksCRDTType (key_state key r) = crdt_Type (entObject r)"
    by (simp_all add: key_state_def)
  have kind: "crdt_Type (entObject a) = crdt_Type (entObject r) \<longleftrightarrow> same_kind (crdt_view (entObject r)) (crdt_view (entObject a))"
    using crdt_Type_kind(1) [of "entObject r" "entObject a"] by auto
  have m: "\<exists>x. crdt_Merge t (entObject a) obj = Inr x \<and> crdt_ok x \<and> crdt_view x = view_merge (wire_view (crdt_view (entObject r))) (crdt_view (entObject a))"
    if "same_kind (crdt_view (entObject r)) (crdt_view (entObject a))"
    using crdt_Merge_view [OF assms(3), of obj t] obj kind that by simp
  have unmerged: "view_merge (wire_view (crdt_view (entObject r))) (crdt_view (entObject a)) = crdt_view (entObject a)"
    if "\<not> same_kind (crdt_view (entObject r)) (crdt_view (entObject a))"
    using that crdt_Type_kind(2,3) by blast
  show ?thesis
  proof (cases "entTombstone a"; cases "entTombstone r")
    assume t: "\<not> entTombstone a" "\<not> entTombstone r"
    show ?thesis
    proof (cases "same_kind (crdt_view (entObject r)) (crdt_view (entObject a))")
      case True
      from m [OF True] obtain x where x: "crdt_Merge t (entObject a) obj = Inr x" "crdt_ok x"
        "crdt_view x = view_merge (wire_view (crdt_view (entObject r))) (crdt_view (entObject a))" by blast
      let ?x = "if After (entSetTimeStamp r) (entSetTimeStamp a) then a\<lparr>entObject := x, entSetTimeStamp := entSetTimeStamp r\<rparr> else a\<lparr>entObject := x\<rparr>"
      have "merge_existing hk e t now (key_state key r) obj a = Inr (entry_digest ?x, eng_store hk e key ?x)"
        using t x(1) True kind by (simp add: merge_existing_def ks Let_def)
      moreover have "entry_state ?x = pulled_state (Some (entry_state a)) (entry_state r)"
        using t x(3) True by (auto simp: entry_state_def After_iff max_def)
      ultimately show ?thesis using keep [of ?x] x(2) by simp
    next
      case False
      let ?x = "if \<not> IsZero (entSetTimeStamp r) \<and> (IsZero (entSetTimeStamp a) \<or> Before (entSetTimeStamp a) (entSetTimeStamp r))
        then a\<lparr>entObject := obj, entSetTimeStamp := entSetTimeStamp r\<rparr> else a"
      have "merge_existing hk e t now (key_state key r) obj a = Inr (entry_digest ?x, eng_store hk e key ?x)"
        using t False kind by (simp add: merge_existing_def ks Let_def)
      moreover have "entry_state ?x = pulled_state (Some (entry_state a)) (entry_state r)"
        using t False obj(1) by (auto simp: entry_state_def ts_simps)
      ultimately show ?thesis using keep [of ?x] assms(3,4) by simp
    qed
  next
    assume t: "\<not> entTombstone a" "entTombstone r"
    consider (late) "\<not> Before (entSetTimeStamp r) (entSetTimeStamp a)"
      | (merge) "Before (entSetTimeStamp r) (entSetTimeStamp a)" "same_kind (crdt_view (entObject r)) (crdt_view (entObject a))"
      | (skip) "Before (entSetTimeStamp r) (entSetTimeStamp a)" "\<not> same_kind (crdt_view (entObject r)) (crdt_view (entObject a))" by blast
    then show ?thesis
    proof cases
      case late
      then have "merge_existing hk e t now (key_state key r) obj a = Inr (stateDigest (crdt_Hash obj) True, snd (DeleteWithTimeStamp hk e now (entSetTimeStamp r) key))"
        using t by (simp add: merge_existing_def ks Let_def)
      with t late assms(1-3) show ?thesis
        by (intro exI [of _ "stateDigest (crdt_Hash obj) True"] exI [of _ "snd (DeleteWithTimeStamp hk e now (entSetTimeStamp r) key)"]
            exI [of _ "a\<lparr>entTombstone := True, entSetTimeStamp := entSetTimeStamp r\<rparr>"]) (auto simp: eng_simps entry_state_def Before_iff)
    next
      case merge
      from m [OF merge(2)] obtain x where x: "crdt_Merge t (entObject a) obj = Inr x" "crdt_ok x"
        "crdt_view x = view_merge (wire_view (crdt_view (entObject r))) (crdt_view (entObject a))" by blast
      have "merge_existing hk e t now (key_state key r) obj a = Inr (entry_digest (a\<lparr>entObject := x\<rparr>), eng_store hk e key (a\<lparr>entObject := x\<rparr>))"
        using t merge x(1) kind by (simp add: merge_existing_def ks Let_def)
      moreover have "entry_state (a\<lparr>entObject := x\<rparr>) = pulled_state (Some (entry_state a)) (entry_state r)"
        using t merge(1) x(3) by (simp add: entry_state_def Before_iff)
      ultimately show ?thesis using keep [of "a\<lparr>entObject := x\<rparr>"] x(2) by simp
    next
      case skip
      then have "merge_existing hk e t now (key_state key r) obj a = Inr (entry_digest a, eng_store hk e key a)"
        using t kind by (simp add: merge_existing_def ks Let_def)
      moreover have "entry_state a = pulled_state (Some (entry_state a)) (entry_state r)"
        using t skip unmerged by (simp add: entry_state_def Before_iff)
      ultimately show ?thesis using keep [of a] assms(3) by simp
    qed
  next
    assume t: "entTombstone a" "\<not> entTombstone r"
    let ?x = "if \<not> Before (entSetTimeStamp r) (entSetTimeStamp a)
      then \<lparr>entObject = obj, entTombstone = False, entSetTimeStamp = entSetTimeStamp r\<rparr> else a"
    have "merge_existing hk e t now (key_state key r) obj a = Inr (entry_digest ?x, eng_store hk e key ?x)"
      using t by (simp add: merge_existing_def ks Let_def)
    moreover have "entry_state ?x = pulled_state (Some (entry_state a)) (entry_state r)" using t obj(1) by (simp add: entry_state_def Before_iff)
    ultimately show ?thesis using keep [of ?x] assms(3,4) by simp
  next
    assume t: "entTombstone a" "entTombstone r"
    let ?x = "if After (entSetTimeStamp r) (entSetTimeStamp a) then a\<lparr>entSetTimeStamp := entSetTimeStamp r\<rparr> else a"
    have "merge_existing hk e t now (key_state key r) obj a = Inr (entry_digest ?x, eng_store hk e key ?x)"
      using t by (simp add: merge_existing_def ks Let_def)
    moreover have "entry_state ?x = pulled_state (Some (entry_state a)) (entry_state r)" using t by (auto simp: entry_state_def After_iff max_def)
    ultimately show ?thesis using keep [of ?x] assms(3) by simp
  qed
qed

lemma MergeKeyState_split:
  assumes "fabric_New (ksCRDTType (key_state key r)) (vm_nodeID vm) = Inr blank" "crdt_UnmarshalJSON t blank (ksState (key_state key r)) = Inr obj"
    and "GetRaw hk (vm_engine vm) key = Some a" "merge_existing hk (vm_engine vm) t now (key_state key r) obj a = Inr (h, e')"
  shows "MergeKeyState hk vm t now (key_state key r) = Inr (updateKeyStateHash (vm\<lparr>vm_engine := e'\<rparr>) key h)"
proof -
  have "ksKey (key_state key r) = key" by (simp add: key_state_def)
  with assms show ?thesis by (simp add: MergeKeyState_def)
qed

lemma MergeKeyState_state:
  assumes "vm_wf hk vm" "plain_object (entObject r)"
  shows "\<exists>vm' a'. MergeKeyState hk vm t now (key_state key r) = Inr vm' \<and> vm_wf hk vm'
    \<and> (\<forall>k. GetRaw hk (vm_engine vm') k = (if k = key then Some a' else GetRaw hk (vm_engine vm) k))
    \<and> entry_state a' = pulled_state (key_entry hk vm key) (entry_state r)"
proof -
  have e: "eng_wf (vm_engine vm)" using assms(1) by (simp add: vm_wf_def)
  obtain blank obj where b: "fabric_New (ksCRDTType (key_state key r)) (vm_nodeID vm) = Inr blank"
      "crdt_UnmarshalJSON t blank (ksState (key_state key r)) = Inr obj" "crdt_ok obj" "crdt_view obj = wire_view (crdt_view (entObject r))"
      "crdt_Type obj = crdt_Type (entObject r)"
    using decode_object [OF assms(2)] by blast
  have fin: "\<exists>vm' a'. Inr (updateKeyStateHash (vm\<lparr>vm_engine := e'\<rparr>) key h) = Inr vm' \<and> vm_wf hk vm'
      \<and> (\<forall>k. GetRaw hk (vm_engine vm') k = (if k = key then Some a' else GetRaw hk (vm_engine vm) k)) \<and> entry_state a' = s"
    if "eng_wf e'" "\<forall>k. GetRaw hk e' k = (if k = key then Some a' else GetRaw hk (vm_engine vm) k)" "crdt_ok (entObject a')" "entry_state a' = s" for e' h a' s
  proof -
    have "vm_wf hk (vm\<lparr>vm_engine := e'\<rparr>)" by (rule vm_wf_store [OF assms(1) that(1) _ that(3)]) (use that(2) in simp)
    with that show ?thesis by (intro exI [of _ "updateKeyStateHash (vm\<lparr>vm_engine := e'\<rparr>) key h"] exI [of _ a']) (simp add: vm_wf_hash)
  qed
  show ?thesis
  proof (cases "GetRaw hk (vm_engine vm) key")
    case None
    let ?put = "snd (PutWithTimeStamp hk (vm_engine vm) (entSetTimeStamp r) key obj)"
    let ?e = "if entTombstone r then snd (DeleteWithTimeStamp hk ?put now (entSetTimeStamp r) key) else ?put"
      and ?a = "\<lparr>entObject = obj, entTombstone = entTombstone r, entSetTimeStamp = entSetTimeStamp r\<rparr>"
    have "MergeKeyState hk vm t now (key_state key r) = Inr (updateKeyStateHash (vm\<lparr>vm_engine := ?e\<rparr>) key (stateDigest (crdt_Hash obj) (entTombstone r)))"
    proof -
      have "ksSetTimeStamp (key_state key r) = entSetTimeStamp r" "ksTombstone (key_state key r) = entTombstone r" "ksKey (key_state key r) = key"
        by (simp_all add: key_state_def)
      with b(1,2) None show ?thesis by (simp add: MergeKeyState_def Let_def)
    qed
    moreover have "eng_wf ?e" "\<forall>k. GetRaw hk ?e k = (if k = key then Some ?a else GetRaw hk (vm_engine vm) k)" using e by (auto simp: eng_simps)
    ultimately show ?thesis using fin [of ?e ?a] b(3,4) None by (simp add: key_entry_def entry_state_def)
  next
    case (Some a)
    have "crdt_ok (entObject a)" using assms(1) Some by (auto simp: vm_wf_def)
    from merge_existing_state [OF e Some this b(3-5), of t now] obtain h e' a' where
      "merge_existing hk (vm_engine vm) t now (key_state key r) obj a = Inr (h, e')" "eng_wf e'"
      "\<forall>k. GetRaw hk e' k = (if k = key then Some a' else GetRaw hk (vm_engine vm) k)" "crdt_ok (entObject a')"
      "entry_state a' = pulled_state (Some (entry_state a)) (entry_state r)" by blast
    with MergeKeyState_split [OF b(1,2) Some] fin Some show ?thesis by (simp add: key_entry_def)
  qed
qed

text \<open>Two live counters: the merged counter, under the later timestamp.\<close>

lemma MergeKeyState_counters:
  assumes "vm_wf hk vm" "GetRaw hk (vm_engine vm) key = Some a" "\<not> entTombstone a" "entObject a = Counter c" "plain_counter c"
    and "\<not> entTombstone r" "entObject r = Counter d" "plain_counter d" "mergePNCounter c d = Inr c'"
  shows "\<exists>vm'. MergeKeyState hk vm t now (key_state key r) = Inr vm' \<and> vm_wf hk vm' \<and> plain_counter c'
    \<and> (\<forall>k. GetRaw hk (vm_engine vm') k = (if k = key
         then Some \<lparr>entObject = Counter c', entTombstone = False, entSetTimeStamp = max (entSetTimeStamp a) (entSetTimeStamp r)\<rparr> else GetRaw hk (vm_engine vm) k))"
proof -
  have e: "eng_wf (vm_engine vm)" using assms(1) by (simp add: vm_wf_def)
  obtain blank where b: "fabric_New (ksCRDTType (key_state key r)) (vm_nodeID vm) = Inr blank"
      "crdt_UnmarshalJSON t blank (ksState (key_state key r)) = Inr (Counter d)"
    using decode_object [of r] assms(7,8) by fastforce
  let ?a = "\<lparr>entObject = Counter c', entTombstone = False, entSetTimeStamp = max (entSetTimeStamp a) (entSetTimeStamp r)\<rparr>"
  let ?e = "eng_store hk (vm_engine vm) key ?a"
  have m: "merge_existing hk (vm_engine vm) t now (key_state key r) (Counter d) a = Inr (entry_digest ?a, ?e)"
    using assms(3,4,6,7,9) by (cases a) (auto simp: merge_existing_def key_state_def Let_def After_iff max_def)
  have p: "plain_counter c'" by (rule mergePNCounter_plain [OF assms(5,8,9)])
  have g: "eng_wf ?e" "\<And>k. GetRaw hk ?e k = (if k = key then Some ?a else GetRaw hk (vm_engine vm) k)" using e by (simp_all add: eng_simps)
  have "vm_wf hk (vm\<lparr>vm_engine := ?e\<rparr>)" by (rule vm_wf_store [OF assms(1) g]) (use p in \<open>simp add: plain_counter_def\<close>)
  then have "vm_wf hk (updateKeyStateHash (vm\<lparr>vm_engine := ?e\<rparr>) key (entry_digest ?a))" by (rule vm_wf_hash)
  with MergeKeyState_split [OF b assms(2) m] p g(2) show ?thesis by simp
qed

text \<open>Merging the collected states of a list of keys touches exactly these keys.\<close>

lemma CollectKeyStates_filter:
  "CollectKeyStates hk vm keys = map (\<lambda>k. key_state k (the (GetRaw hk (vm_engine vm) k))) (filter (\<lambda>k. GetRaw hk (vm_engine vm) k \<noteq> None) keys)"
  by (induction keys) (auto split: option.splits)

lemma MergeKeyStates_pulls:
  assumes "plain_node hk R"
  shows "vm_wf hk vm \<Longrightarrow> distinct keys \<Longrightarrow> map (\<lambda>x. snd (snd x)) xs = CollectKeyStates hk R keys \<Longrightarrow>
    \<exists>vm'. MergeKeyStates hk vm xs = Inr (filter (\<lambda>k. GetRaw hk (vm_engine R) k \<noteq> None) keys, vm') \<and> vm_wf hk vm'
      \<and> (\<forall>k. key_entry hk vm' k = (case if k \<in> set keys then key_entry hk R k else None of
           None \<Rightarrow> key_entry hk vm k | Some s \<Rightarrow> Some (pulled_state (key_entry hk vm k) s)))"
proof (induction keys arbitrary: vm xs)
  case (Cons key keys)
  show ?case
  proof (cases "GetRaw hk (vm_engine R) key")
    case None
    then obtain vm' where v: "MergeKeyStates hk vm xs = Inr (filter (\<lambda>k. GetRaw hk (vm_engine R) k \<noteq> None) keys, vm')" "vm_wf hk vm'"
      "\<forall>k. key_entry hk vm' k = (case if k \<in> set keys then key_entry hk R k else None of
           None \<Rightarrow> key_entry hk vm k | Some s \<Rightarrow> Some (pulled_state (key_entry hk vm k) s))"
      using Cons.IH [OF Cons.prems(1), of xs] Cons.prems(2,3) by auto
    moreover have "(if k \<in> set (key # keys) then key_entry hk R k else None) = (if k \<in> set keys then key_entry hk R k else None)" for k
      using None by (simp add: key_entry_def)
    ultimately show ?thesis using None by (intro exI [of _ vm']) simp
  next
    case (Some r)
    then have p: "plain_object (entObject r)" using assms by (auto simp: plain_node_def)
    obtain t now xs' where xs: "xs = (t, now, key_state key r) # xs'" "map (\<lambda>x. snd (snd x)) xs' = CollectKeyStates hk R keys"
      using Cons.prems(3) Some by (cases xs) auto
    obtain vm1 a' where m: "MergeKeyState hk vm t now (key_state key r) = Inr vm1" "vm_wf hk vm1"
        "\<forall>k. GetRaw hk (vm_engine vm1) k = (if k = key then Some a' else GetRaw hk (vm_engine vm) k)"
        "entry_state a' = pulled_state (key_entry hk vm key) (entry_state r)"
      using MergeKeyState_state [OF Cons.prems(1) p, of t now key] by blast
    obtain vm' where r: "MergeKeyStates hk vm1 xs' = Inr (filter (\<lambda>k. GetRaw hk (vm_engine R) k \<noteq> None) keys, vm')" "vm_wf hk vm'"
        "\<forall>k. key_entry hk vm' k = (case if k \<in> set keys then key_entry hk R k else None of
           None \<Rightarrow> key_entry hk vm1 k | Some s \<Rightarrow> Some (pulled_state (key_entry hk vm1 k) s))"
      using Cons.IH [OF m(2) _ xs(2)] Cons.prems(2) by auto
    have "MergeKeyStates hk vm xs = Inr (filter (\<lambda>k. GetRaw hk (vm_engine R) k \<noteq> None) (key # keys), vm')"
      using xs(1) m(1) r(1) Some by (simp add: key_state_def)
    moreover have "key_entry hk vm1 k = (if k = key then Some (pulled_state (key_entry hk vm key) (entry_state r)) else key_entry hk vm k)" for k
      using m(3,4) by (simp add: key_entry_def)
    moreover have "key_entry hk R key = Some (entry_state r)" using Some by (simp add: key_entry_def)
    ultimately show ?thesis using r(2,3) Cons.prems(2) by (intro exI [of _ vm']) (auto split: option.split)
  qed
qed auto

section \<open>Agreement and resets\<close>

lemma plain_counter_nonneg_merge:
  assumes "pn_wf a" "pn_wf b" "\<And>k. 0 \<le> sint (fm_get (gm (pP a)) k) \<and> 0 \<le> sint (fm_get (gm (pN a)) k)"
    and "\<And>k. 0 \<le> sint (fm_get (gm (pP b)) k) \<and> 0 \<le> sint (fm_get (gm (pN b)) k)" "mergePNCounter a b = Inr c"
  shows "fm_get (gm (pP c)) k = max_i64 (fm_get (gm (pP a)) k) (fm_get (gm (pP b)) k)"
    "fm_get (gm (pN c)) k = max_i64 (fm_get (gm (pN a)) k) (fm_get (gm (pN b)) k)"
proof -
  have zero: "max_i64 x 0 = x" if "0 \<le> sint x" for x using that by (intro sint_eqI) (simp add: sint_max_i64)
  have abs: "fm_get m k = 0" if "k \<notin> fmdom' m" for m :: "(string, i64) fmap" using that by (simp add: fm_get_def fmdom'_notD)
  have c: "pP c = Some (raise_fm (gm (pP b)) (gm (pP a)))" "pN c = Some (raise_fm (gm (pN b)) (gm (pN a)))"
    using assms(5) mergePNCounter_wf [OF assms(1), of b] by auto
  show "fm_get (gm (pP c)) k = max_i64 (fm_get (gm (pP a)) k) (fm_get (gm (pP b)) k)"
    "fm_get (gm (pN c)) k = max_i64 (fm_get (gm (pN a)) k) (fm_get (gm (pN b)) k)"
    using assms(3) [of k] by (simp_all add: c fm_get_raise_fm abs zero)
qed
definition counter_at :: "(string \<Rightarrow> u64) \<Rightarrow> VersionManager \<Rightarrow> string \<Rightarrow> CRDTEntry \<Rightarrow> PNCounter \<Rightarrow> bool" where
  "counter_at hk vm key ent c \<longleftrightarrow> GetRaw hk (vm_engine vm) key = Some ent \<and> \<not> entTombstone ent \<and> entObject ent = Counter c
     \<and> plain_counter c \<and> (\<forall>k. 0 \<le> sint (fm_get (gm (pP c)) k) \<and> 0 \<le> sint (fm_get (gm (pN c)) k))"

lemma pull_counter:
  assumes "vm_wf hk A" "counters_only hk A" "counter_at hk A key a c" "counter_at hk B key b d"
  shows "\<exists>A' a' c'. MergeKeyState hk A t now (key_state key b) = Inr A' \<and> vm_wf hk A' \<and> counters_only hk A' \<and> counter_at hk A' key a' c'
    \<and> entSetTimeStamp a' = max (entSetTimeStamp a) (entSetTimeStamp b)
    \<and> (\<forall>k. fm_get (gm (pP c')) k = max_i64 (fm_get (gm (pP c)) k) (fm_get (gm (pP d)) k))
    \<and> (\<forall>k. fm_get (gm (pN c')) k = max_i64 (fm_get (gm (pN c)) k) (fm_get (gm (pN d)) k))"
proof -
  have c: "GetRaw hk (vm_engine A) key = Some a" "\<not> entTombstone a" "entObject a = Counter c" "plain_counter c"
    and d: "\<not> entTombstone b" "entObject b = Counter d" "plain_counter d"
    using assms(3,4) by (auto simp: counter_at_def)
  obtain c' where c': "mergePNCounter c d = Inr c'" using mergePNCounter_wf [of c d] c(4) by (simp add: plain_counter_def)
  let ?a = "\<lparr>entObject = Counter c', entTombstone = False, entSetTimeStamp = max (entSetTimeStamp a) (entSetTimeStamp b)\<rparr>"
  obtain A' where m: "MergeKeyState hk A t now (key_state key b) = Inr A'" "vm_wf hk A'" "plain_counter c'"
      "\<forall>k. GetRaw hk (vm_engine A') k = (if k = key then Some ?a else GetRaw hk (vm_engine A) k)"
    using MergeKeyState_counters [OF assms(1) c d c', of t now] by blast
  have g: "fm_get (gm (pP c')) k = max_i64 (fm_get (gm (pP c)) k) (fm_get (gm (pP d)) k)"
      "fm_get (gm (pN c')) k = max_i64 (fm_get (gm (pN c)) k) (fm_get (gm (pN d)) k)" for k
    using plain_counter_nonneg_merge [OF _ _ _ _ c', of k] assms(3,4) by (auto simp: counter_at_def plain_counter_def)
  have "counter_at hk A' key ?a c'" using m(3,4) assms(3,4) by (simp add: counter_at_def g sint_max_i64 le_max_iff_disj)
  moreover have "counters_only hk A'" using assms(2) m(3,4) by (auto simp: counters_only_def split: if_splits)
  ultimately show ?thesis using m(1,2) g by (intro exI [of _ A'] exI [of _ ?a] exI [of _ c']) simp
qed

lemma counter_value_cong:
  assumes "\<And>k. fm_get (gm (pP c)) k = fm_get (gm (pP d)) k" "\<And>k. fm_get (gm (pN c)) k = fm_get (gm (pN d)) k"
  shows "PNCounter_Value c = PNCounter_Value d"
  unfolding PNCounter_Value_def by (intro arg_cong2 [of _ _ _ _ "(-)"] sum_entries_cong assms)

text \<open>Anti-entropy makes two nodes agree on a counter: if both have the key alive, and first one node merges the
  state of the other and then the other merges the result, both show the same value under the same
  timestamp, and this is the join: the larger total of every node, and the later of the two timestamps.\<close>

lemma anti_entropy_agree:
  assumes "vm_wf hk A" "counters_only hk A" "counter_at hk A key a c" "vm_wf hk B" "counters_only hk B" "counter_at hk B key b d"
  shows "\<exists>A' a' c' B' b' d'. MergeKeyState hk A t now (key_state key b) = Inr A' \<and> counter_at hk A' key a' c'
    \<and> MergeKeyState hk B t' now' (key_state key a') = Inr B' \<and> counter_at hk B' key b' d'
    \<and> PNCounter_Value c' = PNCounter_Value d' \<and> entSetTimeStamp a' = max (entSetTimeStamp a) (entSetTimeStamp b)
    \<and> entSetTimeStamp b' = entSetTimeStamp a'
    \<and> (\<forall>k. fm_get (gm (pP c')) k = max_i64 (fm_get (gm (pP c)) k) (fm_get (gm (pP d)) k))
    \<and> (\<forall>k. fm_get (gm (pN c')) k = max_i64 (fm_get (gm (pN c)) k) (fm_get (gm (pN d)) k))"
proof -
  obtain A' a' c' where A: "MergeKeyState hk A t now (key_state key b) = Inr A'" "counter_at hk A' key a' c'"
      "entSetTimeStamp a' = max (entSetTimeStamp a) (entSetTimeStamp b)"
      "\<forall>k. fm_get (gm (pP c')) k = max_i64 (fm_get (gm (pP c)) k) (fm_get (gm (pP d)) k)"
      "\<forall>k. fm_get (gm (pN c')) k = max_i64 (fm_get (gm (pN c)) k) (fm_get (gm (pN d)) k)"
    using pull_counter [OF assms(1-3,6), of t now] by blast
  obtain B' b' d' where B: "MergeKeyState hk B t' now' (key_state key a') = Inr B'" "counter_at hk B' key b' d'"
      "entSetTimeStamp b' = max (entSetTimeStamp b) (entSetTimeStamp a')"
      "\<forall>k. fm_get (gm (pP d')) k = max_i64 (fm_get (gm (pP d)) k) (fm_get (gm (pP c')) k)"
      "\<forall>k. fm_get (gm (pN d')) k = max_i64 (fm_get (gm (pN d)) k) (fm_get (gm (pN c')) k)"
    using pull_counter [OF assms(4-6) A(2), of t' now'] by blast
  have "max_i64 y (max_i64 x y) = max_i64 x y" for x y by (simp add: max_i64_ac)
  then have "PNCounter_Value d' = PNCounter_Value c'" using A(4,5) B(4,5) by (intro counter_value_cong) auto
  with A B show ?thesis by (intro exI [of _ A'] exI [of _ a'] exI [of _ c'] exI [of _ B'] exI [of _ b'] exI [of _ d']) simp
qed

text \<open>C37. Anti-entropy undoes a reset: a put replaces a counter by a fresh one with a later timestamp, but merging the
  state of a peer that still has the counter of before the put brings all its increments back, under the
  timestamp of the put, although every update of that older counter would be refused.\<close>

theorem reset_undone:
  assumes "vm_wf hk A" "counters_only hk A" "counter_at hk A key a (NewPNCounter nid)" "counter_at hk B key b d"
    and "entSetTimeStamp b < entSetTimeStamp a"
  shows "\<exists>A' a' c'. MergeKeyState hk A t now (key_state key b) = Inr A' \<and> counter_at hk A' key a' c'
    \<and> entSetTimeStamp a' = entSetTimeStamp a \<and> PNCounter_Value c' = PNCounter_Value d"
proof -
  obtain A' a' c' where A: "MergeKeyState hk A t now (key_state key b) = Inr A'" "counter_at hk A' key a' c'"
      "entSetTimeStamp a' = max (entSetTimeStamp a) (entSetTimeStamp b)"
      "\<forall>k. fm_get (gm (pP c')) k = max_i64 0 (fm_get (gm (pP d)) k)" "\<forall>k. fm_get (gm (pN c')) k = max_i64 0 (fm_get (gm (pN d)) k)"
    using pull_counter [OF assms(1-4), of t now] by (auto simp: NewPNCounter_def)
  have "max_i64 0 x = x" if "0 \<le> sint x" for x using that by (intro sint_eqI) (simp add: sint_max_i64)
  then have "PNCounter_Value c' = PNCounter_Value d" using A(4,5) assms(4) by (intro counter_value_cong) (auto simp: counter_at_def)
  moreover have "entSetTimeStamp a' = entSetTimeStamp a" using A(3) assms(5) by simp
  ultimately show ?thesis using A(1,2) by blast
qed
text \<open>Two nodes that hold a counter each.\<close>

definition counter_node :: "string \<Rightarrow> Timestamp \<Rightarrow> PNCounter \<Rightarrow> VersionManager" where
  "counter_node nid g c = NewVersionManager nid (gc_engine [(''k'', \<lparr>entObject = Counter c, entTombstone = False, entSetTimeStamp = g\<rparr>)])"

lemma counter_node_ok:
  assumes "plain_counter c" "\<And>k. 0 \<le> sint (fm_get (gm (pP c)) k) \<and> 0 \<le> sint (fm_get (gm (pN c)) k)"
  shows "vm_wf (\<lambda>_. 0) (counter_node nid g c)" "counters_only (\<lambda>_. 0) (counter_node nid g c)"
    "counter_at (\<lambda>_. 0) (counter_node nid g c) ''k'' \<lparr>entObject = Counter c, entTombstone = False, entSetTimeStamp = g\<rparr> c"
proof -
  have look: "GetRaw (\<lambda>_. 0) (vm_engine (counter_node nid g c)) key
      = (if key = ''k'' then Some \<lparr>entObject = Counter c, entTombstone = False, entSetTimeStamp = g\<rparr> else None)" for key
    by (simp add: counter_node_def NewVersionManager_def gc_engine_def GetRaw_def shardFor_def)
  show "counters_only (\<lambda>_. 0) (counter_node nid g c)" using assms(1) look by (auto simp: counters_only_def split: if_splits)
  show "vm_wf (\<lambda>_. 0) (counter_node nid g c)" using assms(1) look unfolding vm_wf_def
    by (auto simp: counter_node_def NewVersionManager_def gc_engine_def eng_wf_def plain_counter_def kv_wf_def newKeyVersionShards_def DefaultNumBuckets_def
        split: if_splits)
  show "counter_at (\<lambda>_. 0) (counter_node nid g c) ''k'' \<lparr>entObject = Counter c, entTombstone = False, entSetTimeStamp = g\<rparr> c"
    using assms look by (simp add: counter_at_def)
qed

definition counted :: "string \<Rightarrow> i64 \<Rightarrow> PNCounter" where
  "counted nid n = \<lparr>pn_id = nid, pP = Some (fmupd nid n fmempty), pN = Some fmempty\<rparr>"

lemma counted_node_ok:
  assumes "plain nid" "0 \<le> sint n"
  shows "vm_wf (\<lambda>_. 0) (counter_node node g (counted nid n))" "counters_only (\<lambda>_. 0) (counter_node node g (counted nid n))"
    "counter_at (\<lambda>_. 0) (counter_node node g (counted nid n)) ''k'' \<lparr>entObject = Counter (counted nid n), entTombstone = False, entSetTimeStamp = g\<rparr> (counted nid n)"
  by (rule counter_node_ok; use assms in \<open>auto simp: plain_counter_def counted_def pn_wf_def plain_map_def fm_get_fmupd\<close>)+

theorem reset_undone_witness:
  "\<exists>A' a' c'. MergeKeyState (\<lambda>_. 0) (counter_node ''a'' (Timestamp 9 0 ''a'') (NewPNCounter ''a'')) 0 0
       (key_state ''k'' \<lparr>entObject = Counter (counted ''b'' 4), entTombstone = False, entSetTimeStamp = Timestamp 2 0 ''b''\<rparr>) = Inr A'
     \<and> counter_at (\<lambda>_. 0) A' ''k'' a' c' \<and> entSetTimeStamp a' = Timestamp 9 0 ''a'' \<and> PNCounter_Value c' = 4"
proof -
  have pl: "plain ''a''" "plain ''b''" by (auto intro: plain_ascii)
  have new: "plain_counter (NewPNCounter ''a'')"
      "0 \<le> sint (fm_get (gm (pP (NewPNCounter ''a''))) k) \<and> 0 \<le> sint (fm_get (gm (pN (NewPNCounter ''a''))) k)" for k
    using pl by (simp_all add: plain_counter_def NewPNCounter_def pn_wf_def plain_map_def)
  have four: "0 \<le> sint (4 :: i64)" by simp
  have lt: "entSetTimeStamp \<lparr>entObject = Counter (counted ''b'' 4), entTombstone = False, entSetTimeStamp = Timestamp 2 0 ''b''\<rparr>
      < entSetTimeStamp \<lparr>entObject = Counter (NewPNCounter ''a''), entTombstone = False, entSetTimeStamp = Timestamp 9 0 ''a''\<rparr>"
    by (simp add: less_Timestamp_def)
  have "PNCounter_Value (counted ''b'' 4) = 4" by code_simp
  with reset_undone [OF counter_node_ok [OF new, of "''a''" "Timestamp 9 0 ''a''"]
      counted_node_ok(3) [OF pl(2) four, of "''b''" "Timestamp 2 0 ''b''"] lt, of 0 0]
  show ?thesis by simp
qed

end
