(* ===== verification/Transport.thy ===== *)
theory Transport
  imports Update_Pool Anti_Entropy
begin

text \<open>
  The client side of the exchange between nodes, \<open>pkg/transport/grpc\<close>: the converters between the domain
  types and the messages (\<open>converters.go\<close>), the pool of connections and the calls (\<open>transport.go\<close>). An update
  travels as a JSON document, and the converters of versions and key states build the messages of
  \<open>api.proto\<close>. The library behind the generated stubs is the parameter \<open>g\<close>, with the state \<open>n\<close> of the network.
  Lemmas: what is converted and converted back is unchanged; under every interleaving of the two critical
  sections of \<open>GetClient\<close> the callers of a peer share one open connection, and a connection that failed the
  state check is never closed.
\<close>

section \<open>Messages and converters\<close>

record RangePb =
  pbStart :: u64
  pbEnd :: u64

record KeyStateProto =
  pbKey :: string
  pbCrdtType :: string
  pbState :: json
  pbTombstone :: bool
  pbSetTimeStampWall :: u64
  pbSetTimeStampLamport :: u64
  pbSetTimeStampId :: string

definition fromDomainUpdate :: "Update \<Rightarrow> go_error + json" where
  "fromDomainUpdate update =
     (case Update_MarshalJSON update of
        Inl (Panic p) \<Rightarrow> Inl (Panic p)
      | Inl err \<Rightarrow> Inl ErrCannotConvert
      | Inr jsonPayload \<Rightarrow> Inr jsonPayload)"

fun fromDomainUpdates :: "Update list \<Rightarrow> go_error + json list" where
  "fromDomainUpdates [] = Inr []"
| "fromDomainUpdates (update # updates) =
     (case fromDomainUpdate update of
        Inl err \<Rightarrow> Inl err
      | Inr u \<Rightarrow> bind_res (fromDomainUpdates updates) (\<lambda>result. Inr (u # result)))"

definition toDomainUpdate :: "json \<Rightarrow> go_error + Update" where
  "toDomainUpdate update = (case Update_UnmarshalJSON update of Inl err \<Rightarrow> Inl err | Inr u \<Rightarrow> Inr u)"

fun toDomainUpdates :: "json list \<Rightarrow> go_error + Update list" where
  "toDomainUpdates [] = Inr []"
| "toDomainUpdates (update # updates) =
     (case toDomainUpdate update of
        Inl err \<Rightarrow> Inl err
      | Inr u \<Rightarrow> bind_res (toDomainUpdates updates) (\<lambda>result. Inr (u # result)))"

definition fromDomainVersions :: "(string, Range list) fmap \<Rightarrow> (string, RangePb list) fmap" where
  "fromDomainVersions versions =
     fold (\<lambda>(k, v) result. fmupd k (map (\<lambda>r. \<lparr>pbStart = Start r, pbEnd = End r\<rparr>) v) result) (fm_entries versions) fmempty"

definition toDomainVersions :: "(string, RangePb list) fmap \<Rightarrow> (string, Range list) fmap" where
  "toDomainVersions versions =
     fold (\<lambda>(k, v) result. fmupd k (map (\<lambda>r. \<lparr>Start = pbStart r, End = pbEnd r\<rparr>) v) result) (fm_entries versions) fmempty"

text \<open>\<open>None\<close> is the nil pointer.\<close>

definition fromKeyState :: "KeyState option \<Rightarrow> KeyStateProto option" where
  "fromKeyState ks0 =
     (case ks0 of
        None \<Rightarrow> None
      | Some ks \<Rightarrow>
          let pb = \<lparr>pbKey = ksKey ks, pbCrdtType = ksCRDTType ks, pbState = ksState ks, pbTombstone = ksTombstone ks,
                pbSetTimeStampWall = 0, pbSetTimeStampLamport = 0, pbSetTimeStampId = ''''\<rparr>
          in Some (if \<not> IsZero (ksSetTimeStamp ks)
                   then pb\<lparr>pbSetTimeStampWall := WallTime (ksSetTimeStamp ks), pbSetTimeStampLamport := Lamport (ksSetTimeStamp ks),
                           pbSetTimeStampId := TsID (ksSetTimeStamp ks)\<rparr>
                   else pb))"

definition toKeyState :: "KeyStateProto option \<Rightarrow> KeyState option" where
  "toKeyState pb0 =
     (case pb0 of
        None \<Rightarrow> None
      | Some pb \<Rightarrow>
          let ks = \<lparr>ksKey = pbKey pb, ksCRDTType = pbCrdtType pb, ksState = pbState pb, ksTombstone = pbTombstone pb,
                ksSetTimeStamp = zero_ts\<rparr>
          in Some (if pbSetTimeStampWall pb \<noteq> 0 \<or> pbSetTimeStampLamport pb \<noteq> 0 \<or> pbSetTimeStampId pb \<noteq> ''''
                   then ks\<lparr>ksSetTimeStamp := Timestamp (pbSetTimeStampWall pb) (pbSetTimeStampLamport pb) (pbSetTimeStampId pb)\<rparr>
                   else ks))"

primrec fromKeyStates :: "KeyState option list \<Rightarrow> KeyStateProto option list" where
  "fromKeyStates [] = []"
| "fromKeyStates (ks # states) = fromKeyState ks # fromKeyStates states"

primrec toKeyStates :: "KeyStateProto option list \<Rightarrow> KeyState option list" where
  "toKeyStates [] = []"
| "toKeyStates (pb # pbs) = toKeyState pb # toKeyStates pbs"

section \<open>The pool of connections\<close>

datatype ConnState = ConnReady | ConnIdle | ConnConnecting | ConnTransientFailure | ConnShutdown

text \<open>The two critical sections of \<open>GetClient\<close>. The first returns the pooled connection if its state is good and
  drops it from the pool otherwise; the second returns the connection to use and, if another caller was
  faster, leaves the new one to be closed.\<close>

definition good_state :: "ConnState \<Rightarrow> bool" where
  "good_state st \<longleftrightarrow> st = ConnReady \<or> st = ConnIdle \<or> st = ConnConnecting"

definition GetClient_lookup :: "('conn \<Rightarrow> ConnState) \<Rightarrow> (string, 'conn) fmap \<Rightarrow> string \<Rightarrow> 'conn option \<times> (string, 'conn) fmap" where
  "GetClient_lookup state clients peer =
     (case fmlookup clients peer of
        Some conn \<Rightarrow> if good_state (state conn) then (Some conn, clients) else (None, fmdrop peer clients)
      | None \<Rightarrow> (None, clients))"

definition GetClient_install :: "(string, 'conn) fmap \<Rightarrow> string \<Rightarrow> 'conn \<Rightarrow> 'conn \<times> 'conn option \<times> (string, 'conn) fmap" where
  "GetClient_install clients peer newConn =
     (case fmlookup clients peer of
        Some existing \<Rightarrow> (existing, Some newConn, clients)
      | None \<Rightarrow> (newConn, None, fmupd peer newConn clients))"

text \<open>What the generated client and the connections of the library do.\<close>

record ('n, 'conn) grpc =
  g_GetState :: "'n \<Rightarrow> 'conn \<Rightarrow> ConnState"
  g_NewClient :: "'n \<Rightarrow> string \<Rightarrow> int \<Rightarrow> (go_error + 'conn) \<times> 'n"
  g_Close :: "'n \<Rightarrow> 'conn \<Rightarrow> go_error option \<times> 'n"
  g_Publish :: "'n \<Rightarrow> 'conn \<Rightarrow> json list \<Rightarrow> go_error option \<times> 'n"
  g_Get :: "'n \<Rightarrow> 'conn \<Rightarrow> (string, RangePb list) fmap \<Rightarrow> (go_error + json list) \<times> 'n"
  g_GetVersionVector :: "'n \<Rightarrow> 'conn \<Rightarrow> (go_error + (string, u64) fmap) \<times> 'n"
  g_GetKeyDigests :: "'n \<Rightarrow> 'conn \<Rightarrow> u32 \<Rightarrow> (go_error + (string, u64) fmap) \<times> 'n"
  g_PullKeyStates :: "'n \<Rightarrow> 'conn \<Rightarrow> string list \<Rightarrow> (go_error + KeyStateProto option list) \<times> 'n"

record 'conn ClientPool =
  clients :: "(string, 'conn) fmap"
  maxMessageSize :: int

definition NewClientPool :: "int \<Rightarrow> 'conn ClientPool" where
  "NewClientPool maxSize = \<lparr>clients = fmempty, maxMessageSize = maxSize\<rparr>"

definition GetClient :: "('n, 'conn) grpc \<Rightarrow> 'conn ClientPool \<Rightarrow> 'n \<Rightarrow> string \<Rightarrow> string \<Rightarrow> (go_error + 'conn) \<times> 'conn ClientPool \<times> 'n" where
  "GetClient g p n peer addr =
     (case GetClient_lookup (g_GetState g n) (clients p) peer of
        (Some conn, cs) \<Rightarrow> (Inr conn, p, n)
      | (None, cs) \<Rightarrow>
          (case g_NewClient g n addr (maxMessageSize p) of
             (Inl err, n1) \<Rightarrow> (Inl err, p\<lparr>clients := cs\<rparr>, n1)
           | (Inr newConn, n1) \<Rightarrow>
               (case GetClient_install cs peer newConn of
                  (conn, None, cs') \<Rightarrow> (Inr conn, p\<lparr>clients := cs'\<rparr>, n1)
                | (conn, Some extra, cs') \<Rightarrow> (Inr conn, p\<lparr>clients := cs'\<rparr>, snd (g_Close g n1 extra)))))"

definition CloseAll :: "('n, 'conn) grpc \<Rightarrow> 'conn ClientPool \<Rightarrow> 'n \<Rightarrow> 'conn ClientPool \<times> 'n" where
  "CloseAll g p n = (p\<lparr>clients := fmempty\<rparr>, fold (\<lambda>(peer, conn) m. snd (g_Close g m conn)) (fm_entries (clients p)) n)"

section \<open>The calls\<close>

definition tr_Send :: "('n, 'conn) grpc \<Rightarrow> 'conn ClientPool \<Rightarrow> 'n \<Rightarrow> string \<Rightarrow> Update list \<Rightarrow> go_error option \<times> 'conn ClientPool \<times> 'n" where
  "tr_Send g p n addr updates =
     (case GetClient g p n addr addr of
        (Inl err, p1, n1) \<Rightarrow> (Some err, p1, n1)
      | (Inr client, p1, n1) \<Rightarrow>
          (case fromDomainUpdates updates of
             Inl err \<Rightarrow> (Some err, p1, n1)
           | Inr docs \<Rightarrow> let (err, n2) = g_Publish g n1 client docs in (err, p1, n2)))"

definition tr_Pull ::
    "('n, 'conn) grpc \<Rightarrow> 'conn ClientPool \<Rightarrow> 'n \<Rightarrow> string \<Rightarrow> (string, Range list) fmap \<Rightarrow> (go_error + Update list) \<times> 'conn ClientPool \<times> 'n" where
  "tr_Pull g p n addr versions =
     (case GetClient g p n addr addr of
        (Inl err, p1, n1) \<Rightarrow> (Inl err, p1, n1)
      | (Inr client, p1, n1) \<Rightarrow>
          (case g_Get g n1 client (fromDomainVersions versions) of
             (Inl err, n2) \<Rightarrow> (Inl err, p1, n2)
           | (Inr res, n2) \<Rightarrow> (toDomainUpdates res, p1, n2)))"

definition tr_GetVersion :: "('n, 'conn) grpc \<Rightarrow> 'conn ClientPool \<Rightarrow> 'n \<Rightarrow> string \<Rightarrow> (go_error + (string, u64) fmap) \<times> 'conn ClientPool \<times> 'n" where
  "tr_GetVersion g p n addr =
     (case GetClient g p n addr addr of
        (Inl err, p1, n1) \<Rightarrow> (Inl err, p1, n1)
      | (Inr client, p1, n1) \<Rightarrow> let (resp, n2) = g_GetVersionVector g n1 client in (resp, p1, n2))"

definition tr_GetKeyDigests ::
    "('n, 'conn) grpc \<Rightarrow> 'conn ClientPool \<Rightarrow> 'n \<Rightarrow> string \<Rightarrow> u32 \<Rightarrow> (go_error + (string, u64) fmap) \<times> 'conn ClientPool \<times> 'n" where
  "tr_GetKeyDigests g p n addr bucket =
     (case GetClient g p n addr addr of
        (Inl err, p1, n1) \<Rightarrow> (Inl err, p1, n1)
      | (Inr client, p1, n1) \<Rightarrow> let (resp, n2) = g_GetKeyDigests g n1 client bucket in (resp, p1, n2))"

definition tr_PullKeyStates ::
    "('n, 'conn) grpc \<Rightarrow> 'conn ClientPool \<Rightarrow> 'n \<Rightarrow> string \<Rightarrow> string list \<Rightarrow> (go_error + KeyState option list) \<times> 'conn ClientPool \<times> 'n" where
  "tr_PullKeyStates g p n addr keys =
     (case GetClient g p n addr addr of
        (Inl err, p1, n1) \<Rightarrow> (Inl err, p1, n1)
      | (Inr client, p1, n1) \<Rightarrow>
          (case g_PullKeyStates g n1 client keys of
             (Inl err, n2) \<Rightarrow> (Inl err, p1, n2)
           | (Inr resp, n2) \<Rightarrow> (Inr (toKeyStates resp), p1, n2)))"
section \<open>Round trips\<close>

lemma fromDomainUpdates_plain:
  assumes "list_all plain_update us"
  shows "\<exists>docs. fromDomainUpdates us = Inr docs \<and> toDomainUpdates docs = Inr us"
  using assms
proof (induction us)
  case (Cons u us)
  obtain doc where "Update_MarshalJSON u = Inr doc" "Update_UnmarshalJSON doc = Inr u"
    using Update_Unmarshal_enc [of u zero_Update] Cons.prems by (auto simp: Update_UnmarshalJSON_def)
  with Cons show ?case by (auto simp: fromDomainUpdate_def toDomainUpdate_def)
qed simp

lemma toKeyState_fromKeyState: "toKeyState (fromKeyState ks) = ks"
proof (cases ks)
  case (Some k)
  have "ksSetTimeStamp k = zero_ts" if "IsZero (ksSetTimeStamp k)"
    using that by (cases "ksSetTimeStamp k") (simp add: IsZero_def zero_ts_def)
  with Some show ?thesis
    by (cases "ksSetTimeStamp k") (auto simp: toKeyState_def fromKeyState_def Let_def IsZero_def)
qed (simp add: toKeyState_def fromKeyState_def)

lemma toKeyStates_fromKeyStates: "toKeyStates (fromKeyStates states) = states"
  by (induction states) (simp_all add: toKeyState_fromKeyState)

lemma fold_entries_map: "fold (\<lambda>(k, v) m. fmupd k (f v) m) (fm_entries versions) fmempty = fmmap f versions"
  by (rule fmap_ext) (use fold_upd_lookup [OF range_order_fm_entries, where f = "\<lambda>k x. Some (f x)"] in
    \<open>simp add: map_conv_bind_option comp_def\<close>)

lemma toDomainVersions_fromDomainVersions: "toDomainVersions (fromDomainVersions versions) = versions"
proof -
  have "map (\<lambda>r. \<lparr>Start = pbStart r, End = pbEnd r\<rparr>) (map (\<lambda>r. \<lparr>pbStart = Start r, pbEnd = End r\<rparr>) v) = v" for v :: "Range list"
    by (auto intro: map_idI)
  then show ?thesis unfolding toDomainVersions_def fromDomainVersions_def fold_entries_map
    by (intro fmap_ext) (simp add: option.map_comp comp_def option.map_ident)
qed

text \<open>C24. The wire is transparent: a batch of well-formed updates is converted without error, and the receiver reads
  back the same updates in the same order; key states, nil ones and ones without a timestamp included, and
  the ranges of a request are read back as they were sent.\<close>

theorem wire_roundtrip:
  assumes "list_all plain_update us"
  shows "(\<exists>docs. fromDomainUpdates us = Inr docs \<and> toDomainUpdates docs = Inr us)
    \<and> toKeyStates (fromKeyStates states) = states \<and> toDomainVersions (fromDomainVersions versions) = versions"
  using fromDomainUpdates_plain [OF assms] toKeyStates_fromKeyStates toDomainVersions_fromDomainVersions by blast

theorem wire_roundtrip_witness:
  "\<exists>docs. fromDomainUpdates [zero_Update\<lparr>Payload := Some (CounterDelta zero_PNCounterDelta), UType := UpdateTypeDelete\<rparr>] = Inr docs
     \<and> toDomainUpdates docs = Inr [zero_Update\<lparr>Payload := Some (CounterDelta zero_PNCounterDelta), UType := UpdateTypeDelete\<rparr>]"
proof -
  have "plain ''''" by (auto intro: plain_ascii)
  then have "list_all plain_update [zero_Update\<lparr>Payload := Some (CounterDelta zero_PNCounterDelta), UType := UpdateTypeDelete\<rparr>]"
    by (simp add: plain_update_def zero_Update_def zero_ts_def zero_PNCounterDelta_def plain_map_def)
  from wire_roundtrip [OF this] show ?thesis by blast
qed
section \<open>Concurrent callers\<close>

text \<open>
  Callers interleave between the critical sections. Connections are numbered in the order in which they are
  dialed; \<open>cp_pending\<close> are those dialed by callers that have not reached the second section yet, and
  \<open>cp_closed\<close> those that were closed. The states of connections change at will.
\<close>

record conn_pool =
  cp_clients :: "(string, nat) fmap"
  cp_dialed :: nat
  cp_closed :: "nat set"
  cp_pending :: "(string \<times> nat) list"

inductive pool_conn_step :: "conn_pool \<Rightarrow> (string \<times> nat) option \<Rightarrow> conn_pool \<Rightarrow> bool" where
  hit: "GetClient_lookup state (cp_clients p) peer = (Some conn, cs) \<Longrightarrow> pool_conn_step p (Some (peer, conn)) (p\<lparr>cp_clients := cs\<rparr>)"
| miss: "GetClient_lookup state (cp_clients p) peer = (None, cs) \<Longrightarrow> pool_conn_step p None (p\<lparr>cp_clients := cs\<rparr>)"
| dial: "pool_conn_step p None (p\<lparr>cp_dialed := Suc (cp_dialed p), cp_pending := (peer, cp_dialed p) # cp_pending p\<rparr>)"
| install: "(peer, new) \<in> set (cp_pending p) \<Longrightarrow> GetClient_install (cp_clients p) peer new = (conn, extra, cs) \<Longrightarrow>
    pool_conn_step p (Some (peer, conn)) (p\<lparr>cp_clients := cs, cp_pending := remove1 (peer, new) (cp_pending p),
      cp_closed := cp_closed p \<union> set_option extra\<rparr>)"
| close_all: "pool_conn_step p None (p\<lparr>cp_clients := fmempty, cp_closed := cp_closed p \<union> fmran' (cp_clients p)\<rparr>)"

inductive_cases pool_conn_stepE: "pool_conn_step p r q"

inductive pool_conn_reach :: "conn_pool \<Rightarrow> conn_pool \<Rightarrow> bool" for p where
  start: "pool_conn_reach p p"
| step: "pool_conn_reach p q \<Longrightarrow> pool_conn_step q r q' \<Longrightarrow> pool_conn_reach p q'"

definition new_conn_pool :: conn_pool where
  "new_conn_pool = \<lparr>cp_clients = fmempty, cp_dialed = 0, cp_closed = {}, cp_pending = []\<rparr>"

text \<open>Every connection in use has one place: the pool under one peer, or one caller.\<close>

definition conns_ok :: "(string, nat) fmap \<Rightarrow> nat \<Rightarrow> nat set \<Rightarrow> nat set \<Rightarrow> bool" where
  "conns_ok cs n closed pending \<longleftrightarrow> closed \<subseteq> {..<n} \<and> pending \<subseteq> {..<n} - closed
     \<and> (\<forall>peer c. fmlookup cs peer = Some c \<longrightarrow> c < n \<and> c \<notin> closed \<and> c \<notin> pending)
     \<and> (\<forall>peer peer' c. fmlookup cs peer = Some c \<longrightarrow> fmlookup cs peer' = Some c \<longrightarrow> peer = peer')"

definition conn_pool_wf :: "conn_pool \<Rightarrow> bool" where
  "conn_pool_wf p \<longleftrightarrow> distinct (map snd (cp_pending p))
     \<and> conns_ok (cp_clients p) (cp_dialed p) (cp_closed p) (snd ` set (cp_pending p))"

lemma GetClient_lookup_sub: "GetClient_lookup state cs peer = (r, cs') \<Longrightarrow> fmlookup cs' k = Some c \<Longrightarrow> fmlookup cs k = Some c"
  by (auto simp: GetClient_lookup_def split: option.splits if_splits)

lemma GetClient_lookup_hit: "GetClient_lookup state cs peer = (Some conn, cs') \<Longrightarrow> cs' = cs \<and> fmlookup cs peer = Some conn"
  by (auto simp: GetClient_lookup_def split: option.splits if_splits)

lemma conns_ok_sub:
  "conns_ok cs n closed pending \<Longrightarrow> (\<And>k c. fmlookup cs' k = Some c \<Longrightarrow> fmlookup cs k = Some c) \<Longrightarrow> conns_ok cs' n closed pending"
  unfolding conns_ok_def by blast

lemma conns_ok_dial: "conns_ok cs n closed pending \<Longrightarrow> conns_ok cs (Suc n) closed (insert n pending)"
  unfolding conns_ok_def by force

lemma conns_ok_enter:
  assumes "conns_ok cs n closed pending" "new \<in> pending" "fmlookup cs peer = None"
  shows "conns_ok (fmupd peer new cs) n closed (pending - {new})"
proof -
  have "fmlookup cs k \<noteq> Some new" for k using assms(1,2) by (auto simp: conns_ok_def)
  with assms show ?thesis by (auto simp: conns_ok_def)
qed

lemma conns_ok_close: "conns_ok cs n closed pending \<Longrightarrow> new \<in> pending \<Longrightarrow> conns_ok cs n (insert new closed) (pending - {new})"
  unfolding conns_ok_def by blast

lemma pending_remove:
  assumes "distinct (map snd ps)" "(peer, new) \<in> set ps"
  shows "snd ` set (remove1 (peer, new) ps) = snd ` set ps - {new}" "distinct (map snd (remove1 (peer, new) ps))"
proof -
  have d: "distinct ps" "inj_on snd (set ps)" using assms(1) by (auto simp: distinct_map)
  have s: "set (remove1 (peer, new) ps) = set ps - {(peer, new)}" using d(1) by (rule set_remove1_eq)
  then show "snd ` set (remove1 (peer, new) ps) = snd ` set ps - {new}" using inj_on_image_set_diff [OF d(2), of "set ps" "{(peer, new)}"] assms(2) by simp
  show "distinct (map snd (remove1 (peer, new) ps))"
    using d inj_on_subset [OF d(2), of "set (remove1 (peer, new) ps)"] s by (auto simp: distinct_map)
qed

lemma install_wf:
  assumes "conn_pool_wf p" "(peer, new) \<in> set (cp_pending p)" "GetClient_install (cp_clients p) peer new = (conn, extra, cs)"
  shows "conn_pool_wf (p\<lparr>cp_clients := cs, cp_pending := remove1 (peer, new) (cp_pending p), cp_closed := cp_closed p \<union> set_option extra\<rparr>)
    \<and> fmlookup cs peer = Some conn \<and> conn \<notin> cp_closed p \<union> set_option extra"
proof -
  let ?P = "snd ` set (cp_pending p)"
  have d: "distinct (map snd (cp_pending p))" and ok: "conns_ok (cp_clients p) (cp_dialed p) (cp_closed p) ?P"
    using assms(1) by (simp_all add: conn_pool_wf_def)
  note r = pending_remove [OF d assms(2)]
  have new: "new \<in> ?P" using assms(2) by force
  show ?thesis
  proof (cases "fmlookup (cp_clients p) peer")
    case None
    with assms(3) have e: "extra = None" "cs = fmupd peer new (cp_clients p)" "conn = new" by (auto simp: GetClient_install_def)
    have "new \<notin> cp_closed p" using ok new by (auto simp: conns_ok_def)
    with conns_ok_enter [OF ok new None] r e show ?thesis by (simp add: conn_pool_wf_def)
  next
    case (Some c)
    with assms(3) have e: "extra = Some new" "cs = cp_clients p" "conn = c" by (auto simp: GetClient_install_def)
    have "c \<notin> cp_closed p" "c \<noteq> new" using ok new Some unfolding conns_ok_def by blast+
    with conns_ok_close [OF ok new] r e Some show ?thesis by (simp add: conn_pool_wf_def)
  qed
qed

lemma pool_conn_step_wf:
  assumes "pool_conn_step p r q" "conn_pool_wf p"
  shows "conn_pool_wf q \<and> (\<forall>peer conn. r = Some (peer, conn) \<longrightarrow> fmlookup (cp_clients q) peer = Some conn \<and> conn \<notin> cp_closed q)"
  using assms(1)
proof cases
  case (hit state peer conn cs)
  have "fmlookup (cp_clients p) peer = Some conn \<Longrightarrow> conn \<notin> cp_closed p" using assms(2) by (auto simp: conn_pool_wf_def conns_ok_def)
  then show ?thesis using GetClient_lookup_hit [OF hit(3)] assms(2) hit(1,2) by simp
next
  case (miss state peer cs)
  have "conns_ok cs (cp_dialed p) (cp_closed p) (snd ` set (cp_pending p))"
    by (rule conns_ok_sub [of "cp_clients p"]) (use assms(2) GetClient_lookup_sub [OF miss(3)] in \<open>simp_all add: conn_pool_wf_def\<close>)
  then show ?thesis using miss assms(2) by (simp add: conn_pool_wf_def)
next
  case (dial peer)
  have "cp_dialed p \<notin> snd ` set (cp_pending p)" using assms(2) by (auto simp: conn_pool_wf_def conns_ok_def)
  then show ?thesis using dial conns_ok_dial assms(2) by (auto simp: conn_pool_wf_def)
next
  case (install peer new conn extra cs)
  then show ?thesis using install_wf [OF assms(2) install(3,4)] by simp
next
  case close_all
  have "conns_ok fmempty (cp_dialed p) (cp_closed p \<union> fmran' (cp_clients p)) (snd ` set (cp_pending p))"
    using assms(2) unfolding conn_pool_wf_def conns_ok_def by (auto 0 3 simp: fmran'_def ran_def)
  then show ?thesis using close_all assms(2) by (simp add: conn_pool_wf_def)
qed
lemma pool_conn_reach_wf: "pool_conn_reach p q \<Longrightarrow> conn_pool_wf p \<Longrightarrow> conn_pool_wf q"
  by (induction rule: pool_conn_reach.induct) (auto dest: pool_conn_step_wf)

lemma new_conn_pool_wf [simp]: "conn_pool_wf new_conn_pool"
  by (simp add: conn_pool_wf_def conns_ok_def new_conn_pool_def)

lemma pool_conn_step_same:
  assumes "pool_conn_step p (Some (peer, conn)) q" "fmlookup (cp_clients p) peer = Some c"
  shows "conn = c"
  using assms by (auto elim!: pool_conn_stepE simp: GetClient_lookup_def GetClient_install_def split: option.splits if_splits)

text \<open>C25. Callers share connections: whatever the interleaving of lookups, dials, installations, failures of
  connections and shutdowns, the connection that \<open>GetClient\<close> returns is open and is the one the pool holds for
  the peer, no two peers share it, and the next caller for the peer gets the same one.\<close>

theorem pool_shares_connection:
  assumes "pool_conn_reach new_conn_pool p" "pool_conn_step p (Some (peer, conn)) q"
  shows "conn < cp_dialed q \<and> conn \<notin> cp_closed q \<and> fmlookup (cp_clients q) peer = Some conn
    \<and> (\<forall>other. fmlookup (cp_clients q) other = Some conn \<longrightarrow> other = peer)
    \<and> (\<forall>conn' r. pool_conn_step q (Some (peer, conn')) r \<longrightarrow> conn' = conn)"
proof -
  have q: "conn_pool_wf q" "fmlookup (cp_clients q) peer = Some conn" "conn \<notin> cp_closed q"
    using pool_conn_step_wf [OF assms(2) pool_conn_reach_wf [OF assms(1)]] by auto
  then have "conn < cp_dialed q" "\<forall>other. fmlookup (cp_clients q) other = Some conn \<longrightarrow> other = peer"
    unfolding conn_pool_wf_def conns_ok_def by blast+
  with q pool_conn_step_same show ?thesis by blast
qed

theorem pool_shares_connection_witness:
  "\<exists>q. pool_conn_step (new_conn_pool\<lparr>cp_dialed := 1, cp_pending := [(''a:1'', 0)]\<rparr>) (Some (''a:1'', 0)) q \<and> 0 \<notin> cp_closed q"
proof -
  let ?p = "new_conn_pool\<lparr>cp_dialed := 1, cp_pending := [(''a:1'', 0)]\<rparr>"
  have "pool_conn_step new_conn_pool None ?p" using dial [of new_conn_pool "''a:1''"] by (simp add: new_conn_pool_def)
  then have p: "pool_conn_reach new_conn_pool ?p" by (blast intro: pool_conn_reach.intros)
  have "GetClient_install (cp_clients ?p) ''a:1'' 0 = (0, None, fmupd ''a:1'' 0 fmempty)" by (simp add: GetClient_install_def new_conn_pool_def)
  from install [OF _ this] obtain q where q: "pool_conn_step ?p (Some (''a:1'', 0)) q" by auto
  from pool_shares_connection [OF p this] q show ?thesis by blast
qed

text \<open>A connection that is open, but that neither the pool nor a caller knows.\<close>

definition abandoned :: "nat \<Rightarrow> conn_pool \<Rightarrow> bool" where
  "abandoned c p \<longleftrightarrow> c < cp_dialed p \<and> c \<notin> cp_closed p \<and> c \<notin> snd ` set (cp_pending p) \<and> (\<forall>peer. fmlookup (cp_clients p) peer \<noteq> Some c)"

lemma abandoned_step:
  assumes "pool_conn_step p r q" "abandoned c p"
  shows "abandoned c q \<and> (\<forall>peer. r \<noteq> Some (peer, c))"
  using assms(1)
proof cases
  case (hit state peer conn cs)
  then show ?thesis using GetClient_lookup_hit [OF hit(3)] assms(2) by (auto simp: abandoned_def)
next
  case (miss state peer cs)
  then show ?thesis using GetClient_lookup_sub [OF miss(3), of _ c] assms(2) by (auto simp: abandoned_def)
next
  case (install peer new conn extra cs)
  have "new \<noteq> c" using install(3) assms(2) by (force simp: abandoned_def)
  moreover have "c \<notin> snd ` set (remove1 (peer, new) (cp_pending p))" using assms(2) set_remove1_subset [of "(peer, new)" "cp_pending p"] by (auto simp: abandoned_def)
  ultimately show ?thesis using install assms(2) by (auto simp: abandoned_def GetClient_install_def split: option.splits if_splits)
qed (use assms(2) in \<open>auto simp: abandoned_def fmran'_def ran_def\<close>)

lemma abandoned_reach: "pool_conn_reach p q \<Longrightarrow> abandoned c p \<Longrightarrow> abandoned c q"
  by (induction rule: pool_conn_reach.induct) (auto dest: abandoned_step)

text \<open>A failed connection leaks: when \<open>GetClient\<close> finds the connection of a peer in a bad state, it drops it from
  the pool without closing it. Whatever happens afterwards, \<open>CloseAll\<close> included, the connection is never
  closed and never returned to a caller.\<close>

lemma failed_connection_leaks:
  assumes "pool_conn_reach new_conn_pool p" "fmlookup (cp_clients p) peer = Some c" "\<not> good_state (state c)"
    and "pool_conn_reach (p\<lparr>cp_clients := snd (GetClient_lookup state (cp_clients p) peer)\<rparr>) q"
  shows "c < cp_dialed q \<and> c \<notin> cp_closed q \<and> (\<forall>other r. \<not> pool_conn_step q (Some (other, c)) r)"
proof -
  have "conns_ok (cp_clients p) (cp_dialed p) (cp_closed p) (snd ` set (cp_pending p))"
    using pool_conn_reach_wf [OF assms(1) new_conn_pool_wf] by (simp add: conn_pool_wf_def)
  then have "abandoned c (p\<lparr>cp_clients := snd (GetClient_lookup state (cp_clients p) peer)\<rparr>)"
    using assms(2,3) unfolding conns_ok_def abandoned_def GetClient_lookup_def by auto
  then have "abandoned c q" by (rule abandoned_reach [OF assms(4)])
  then have "\<not> pool_conn_step q (Some (other, c)) r" for other r using abandoned_step by blast
  with \<open>abandoned c q\<close> show ?thesis by (simp add: abandoned_def)
qed

end
