(* ===== verification/Updates_Server.thy ===== *)
theory Updates_Server
  imports Transport Storage
begin

text \<open>
  The server side of the exchange between nodes, \<open>pkg/transport/grpc/server.go\<close>. A handler takes the request
  and the state of the server and gives the response and the state it leaves; \<open>cancelled i\<close> is the answer
  of the \<open>i\<close>-th check of the context. \<open>Publish\<close> is a relation, because \<open>UpdateRemote\<close> is one (its workers run
  under any schedule). The loop of \<open>Get\<close> over the log runs over 64-bit numbers and may not end, so it is a
  partial function. Lemmas: what a published batch does to data, log and gossip buffer, that publishing it
  again does nothing to the data and the log, and that \<open>Get\<close> panics on every request with a range.
\<close>

section \<open>State\<close>

record ('w, 'c) updatesServer =
  srv_vm :: VersionManager
  srv_buffer :: 'c
  srv_gbuffer :: GossipBuffer
  srv_wal :: "'w walWrapper"
  maxUpdatesPerGet :: int

definition NewUpdatesServer :: "'c \<Rightarrow> GossipBuffer \<Rightarrow> 'w walWrapper \<Rightarrow> VersionManager \<Rightarrow> int \<Rightarrow> ('w, 'c) updatesServer" where
  "NewUpdatesServer buffer gbuffer wal vm mx =
     \<lparr>srv_vm = vm, srv_buffer = buffer, srv_gbuffer = gbuffer, srv_wal = wal, maxUpdatesPerGet = mx\<rparr>"

section \<open>Get\<close>

text \<open>The fallback to the log for one range: numbers whose record is missing or cannot be converted are skipped.\<close>

definition fill_one :: "go_error + Update \<Rightarrow> json list \<Rightarrow> go_error + json list" where
  "fill_one got result =
     (case got of
        Inl (Panic p) \<Rightarrow> Inl (Panic p)
      | Inl err \<Rightarrow> Inr result
      | Inr u \<Rightarrow> (case fromDomainUpdate u of Inl err \<Rightarrow> Inr result | Inr pb \<Rightarrow> Inr (result @ [pb])))"

partial_function (option) wal_fill ::
    "'w gowal \<Rightarrow> int \<Rightarrow> string \<Rightarrow> u64 \<Rightarrow> u64 \<Rightarrow> json list \<Rightarrow> 'w walWrapper \<Rightarrow> ((go_error + json list) \<times> 'w walWrapper) option" where
  [code]: "wal_fill G mx nid sq last_seq result ww =
     (if sq \<le> last_seq \<and> int (length result) < mx then
        (let (got, ww1) = wal_Get G ww nid sq
         in case fill_one got result of
              Inl p \<Rightarrow> Some (Inl p, ww1)
            | Inr result' \<Rightarrow> wal_fill G mx nid (sq + 1) last_seq result' ww1)
      else Some (Inr result, ww))"

text \<open>The ranges of one node; \<open>cov\<close> is \<open>GetCovering\<close> of the buffer.\<close>

fun get_ranges ::
    "(string \<Rightarrow> Range \<Rightarrow> go_error + bufupd list) \<Rightarrow> 'w gowal \<Rightarrow> (nat \<Rightarrow> bool) \<Rightarrow> int \<Rightarrow> string \<Rightarrow> RangePb list \<Rightarrow> nat \<Rightarrow> json list \<Rightarrow>
     'w walWrapper \<Rightarrow> ((go_error + nat \<times> json list) \<times> 'w walWrapper) option" where
  "get_ranges cov G cancelled mx nid [] i result ww = Some (Inr (i, result), ww)"
| "get_ranges cov G cancelled mx nid (r # rs) i result ww =
     (if int (length result) \<ge> mx then Some (Inr (i, result), ww)
      else if cancelled i then Some (Inl ErrContextDone, ww)
      else case cov nid \<lparr>Start = pbStart r, End = pbEnd r\<rparr> of
             Inl err \<Rightarrow> Some (Inl err, ww)
           | Inr covering \<Rightarrow>
               if length covering = 0 then
                 (case wal_fill G mx nid (pbStart r) (pbEnd r) result ww of
                    None \<Rightarrow> None
                  | Some (Inl err, ww1) \<Rightarrow> Some (Inl err, ww1)
                  | Some (Inr result', ww1) \<Rightarrow> get_ranges cov G cancelled mx nid rs (i + 1) result' ww1)
               else get_ranges cov G cancelled mx nid rs (i + 1) result ww)"

fun get_nodes ::
    "(string \<Rightarrow> Range \<Rightarrow> go_error + bufupd list) \<Rightarrow> 'w gowal \<Rightarrow> (nat \<Rightarrow> bool) \<Rightarrow> int \<Rightarrow> (string \<times> RangePb list) list \<Rightarrow> nat \<Rightarrow> json list \<Rightarrow>
     'w walWrapper \<Rightarrow> ((go_error + json list) \<times> 'w walWrapper) option" where
  "get_nodes cov G cancelled mx [] i result ww = Some (Inr result, ww)"
| "get_nodes cov G cancelled mx ((nid, missed) # rest) i result ww =
     (if int (length result) \<ge> mx then Some (Inr result, ww)
      else case get_ranges cov G cancelled mx nid missed i result ww of
             None \<Rightarrow> None
           | Some (Inl err, ww1) \<Rightarrow> Some (Inl err, ww1)
           | Some (Inr (j, result'), ww1) \<Rightarrow> get_nodes cov G cancelled mx rest j result' ww1)"

definition srv_Get ::
    "'w gowal \<Rightarrow> (nat \<Rightarrow> bool) \<Rightarrow> ('w, 'c) updatesServer \<Rightarrow> (string, RangePb list) fmap \<Rightarrow> ((go_error + json list) \<times> ('w, 'c) updatesServer) option" where
  "srv_Get G cancelled s request =
     map_option (\<lambda>(resp, ww). (resp, s\<lparr>srv_wal := ww\<rparr>))
       (get_nodes (rb_GetCovering (srv_buffer s)) G cancelled (maxUpdatesPerGet s) (fm_entries request) 0 [] (srv_wal s))"

section \<open>Publish\<close>

text \<open>Logging the applied updates: an error of the log is reported and the loop goes on.\<close>

fun publish_log :: "'w gowal \<Rightarrow> (nat \<Rightarrow> bool) \<Rightarrow> nat \<Rightarrow> 'w walWrapper \<Rightarrow> Update list \<Rightarrow> go_error option \<times> 'w walWrapper" where
  "publish_log G cancelled i ww [] = (None, ww)"
| "publish_log G cancelled i ww (u # us) =
     (if cancelled i then (Some ErrContextDone, ww)
      else case Append G ww u of (err, ww1) \<Rightarrow> publish_log G cancelled (i + 1) ww1 us)"

inductive Publish ::
    "(string \<Rightarrow> u64) \<Rightarrow> 'w gowal \<Rightarrow> (nat \<Rightarrow> bool) \<Rightarrow> ('w, 'c) updatesServer \<Rightarrow> json list \<Rightarrow> go_error + unit \<Rightarrow> ('w, 'c) updatesServer \<Rightarrow> bool"
  for hk G cancelled s request where
  refused: "toDomainUpdates request = Inl err \<Longrightarrow> Publish hk G cancelled s request (Inl err) s"
| applied: "toDomainUpdates request = Inr domainUpdates \<Longrightarrow> UpdateRemote hk (srv_vm s) domainUpdates applied vm \<Longrightarrow>
    publish_log G cancelled 0 (srv_wal s) applied = (err, ww) \<Longrightarrow>
    Publish hk G cancelled s request (case err of None \<Rightarrow> Inr () | Some e \<Rightarrow> Inl e)
      (s\<lparr>srv_gbuffer := AddAndDec (srv_gbuffer s) domainUpdates, srv_vm := vm, srv_wal := ww\<rparr>)"

inductive_cases PublishE: "Publish hk G cancelled s request resp s'"

section \<open>Version vectors and key states\<close>

definition srv_GetVersionVector :: "('w, 'c) updatesServer \<Rightarrow> (string, u64) fmap" where
  "srv_GetVersionVector s = vm_VectorClockContiguous (srv_vm s)"

definition srv_GetKeyDigests :: "('w, 'c) updatesServer \<Rightarrow> u32 \<Rightarrow> (string, u64) fmap" where
  "srv_GetKeyDigests s bucket = KeyDigests (srv_vm s) bucket"

definition srv_PullKeyStates :: "(string \<Rightarrow> u64) \<Rightarrow> ('w, 'c) updatesServer \<Rightarrow> string list \<Rightarrow> KeyStateProto option list" where
  "srv_PullKeyStates hk s keys = fromKeyStates (map Some (CollectKeyStates hk (srv_vm s) keys))"

lemma pull_transparent: "toKeyStates (srv_PullKeyStates hk s keys) = map Some (CollectKeyStates hk (srv_vm s) keys)"
  by (simp add: srv_PullKeyStates_def toKeyStates_fromKeyStates)

section \<open>Get\<close>

text \<open>The loop over the log ends for every range that does not reach the last number.\<close>

lemma wal_fill_returns:
  assumes "last_seq \<noteq> - 1"
  shows "\<exists>r. wal_fill G mx nid sq last_seq result ww = Some r"
proof (induction "unat last_seq + 1 - unat sq" arbitrary: sq result ww rule: less_induct)
  case less
  show ?case
  proof (cases "sq \<le> last_seq \<and> int (length result) < mx")
    case False
    then show ?thesis by (subst wal_fill.simps) auto
  next
    case True
    have "sq \<noteq> - 1" using True assms by (metis word_order.extremum_unique)
    then have "unat last_seq + 1 - unat (sq + 1) < unat last_seq + 1 - unat sq"
      using True by (simp add: unat_Suc_word word_le_nat_alt Suc_diff_le)
    note ih = less.hyps [OF this]
    show ?thesis using True ih
      by (subst wal_fill.simps) (auto split: sum.splits prod.splits go_error.splits)
  qed
qed

lemma get_nodes_covering_panics:
  "get_nodes (\<lambda>nid r. Inl (Panic p)) G cancelled mx es 0 [] ww =
     Some (if mx > 0 \<and> (\<exists>(nid, rs) \<in> set es. rs \<noteq> []) then Inl (if cancelled 0 then ErrContextDone else Panic p) else Inr [], ww)"
proof (induction es)
  case (Cons e es)
  obtain nid rs where e: "e = (nid, rs)" by fastforce
  show ?case using Cons e by (cases rs) auto
qed simp

text \<open>C40. The handler \<open>Get\<close> never serves an update: with the buffer the node uses, whose \<open>GetCovering\<close> panics, a request
  that names at least one range ends in that panic (or in the error of a cancelled context) before
  the log is asked, and every other request gets an empty answer.\<close>

theorem srv_Get_never_serves:
  "srv_Get G cancelled s request =
     Some (if maxUpdatesPerGet s > 0 \<and> (\<exists>nid rs. fmlookup request nid = Some rs \<and> rs \<noteq> [])
           then Inl (if cancelled 0 then ErrContextDone else Panic (ExplicitPanic ''deprecated, cannot be used'')) else Inr [], s)"
proof -
  have cov: "rb_GetCovering (srv_buffer s) = (\<lambda>nid r. Inl (Panic (ExplicitPanic ''deprecated, cannot be used'')))"
    by (simp add: rb_GetCovering_def fun_eq_iff)
  have ex: "(\<exists>(nid, rs) \<in> set (fm_entries request). rs \<noteq> []) \<longleftrightarrow> (\<exists>nid rs. fmlookup request nid = Some rs \<and> rs \<noteq> [])"
    by (auto simp: set_fm_entries)
  show ?thesis unfolding srv_Get_def cov get_nodes_covering_panics ex by simp
qed
section \<open>Publish\<close>

lemma plain_update_msg: "plain_update (msg u) \<longleftrightarrow> plain_update u"
  by (simp add: plain_update_def)

lemma publish_log_appends:
  assumes "gowal_laws G log room"
  shows "wal_inv log past ww \<Longrightarrow> list_all plain_update us \<Longrightarrow> fcard (fset_of_list (map NodeID (past @ us))) \<le> 2 ^ stringBits \<Longrightarrow>
    \<exists>ww'. publish_log G (\<lambda>_. False) i ww us = (None, ww') \<and> wal_inv log (past @ us) ww'"
proof (induction us arbitrary: past ww i)
  case (Cons u us)
  have "fcard (fset_of_list (map NodeID (past @ [u]))) \<le> fcard (fset_of_list (map NodeID (past @ u # us)))"
    by (rule fcard_mono) auto
  then have le: "fcard (fset_of_list (map NodeID (past @ [u]))) \<le> 2 ^ stringBits" using Cons.prems(3) by linarith
  obtain ww1 where w1: "Append G ww u = (None, ww1)" "wal_inv log (past @ [u]) ww1"
    using Append_inv [OF assms Cons.prems(1) _ le] Cons.prems(2) by auto
  from Cons.IH [OF w1(2)] Cons.prems(2,3) w1 show ?case by simp
qed simp

text \<open>A batch that the receiver is ready for: a node and a number identify an update, and either the batch is
  handled by the sequential loop or its keys exist.\<close>

definition batch_ready :: "(string \<Rightarrow> u64) \<Rightarrow> Update list \<Rightarrow> VersionManager \<Rightarrow> bool" where
  "batch_ready hk us vm \<longleftrightarrow> identified (map msg us) \<and> node_ready hk (map msg us) vm
     \<and> (length us < parallelThreshold \<or> present hk (map msg us) vm)"

lemma UpdateRemote_batch:
  assumes "UpdateRemote hk vm us applied vm'" "batch_ready hk us vm"
  shows "distinct (map msg applied) \<and> msg ` set applied = {m \<in> msg ` set us. unseen vm m} \<and> batch_ready hk us vm' \<and> (\<forall>u \<in> set us. \<not> unseen vm' u)
    \<and> (\<exists>order. mset order = mset (map msg applied)
         \<and> (\<forall>k. key_view hk vm' k = fold ent.opt_absorb (updates_of k order) (key_view hk vm k)))"
proof -
  have id: "identified (map msg us)" and rd: "node_ready hk (map msg us) vm" and sz: "length us < parallelThreshold \<or> present hk (map msg us) vm"
    using assms(2) by (simp_all add: batch_ready_def)
  obtain order where o: "applies_unseen hk (map msg us) vm order applied vm'" "length us < parallelThreshold \<or> present hk (map msg us) vm'"
    using UpdateRemote_order [OF assms(1) id rd sz] by auto
  note a = applies_unseenD [OF o(1)]
  have "\<not> unseen vm' u" if "u \<in> set us" for u using a(6) that by (simp add: unseen_def)
  moreover have "batch_ready hk us vm'" using id a(5) o(2) by (simp add: batch_ready_def)
  moreover have "mset order = mset (map msg applied)" using o(1) by (simp add: applies_unseen_def)
  ultimately show ?thesis using a(2-4) unfolding list.set_map by blast
qed

lemma UpdateRemote_again:
  assumes "UpdateRemote hk vm us applied vm'" "batch_ready hk us vm" "\<forall>u \<in> set us. \<not> unseen vm u"
  shows "applied = [] \<and> (\<forall>k. key_view hk vm' k = key_view hk vm k)"
proof -
  have "\<not> unseen vm (msg u)" if "u \<in> set us" for u using assms(3) that by (simp add: unseen_def)
  then have none: "{m \<in> msg ` set us. unseen vm m} = {}" by blast
  obtain order where "msg ` set applied = {}" "mset order = mset (map msg applied)"
      "\<forall>k. key_view hk vm' k = fold ent.opt_absorb (updates_of k order) (key_view hk vm k)"
    using UpdateRemote_batch [OF assms(1,2)] unfolding none by blast
  then show ?thesis by (simp add: updates_of_def)
qed

lemma applied_plain:
  assumes "msg ` set applied \<subseteq> msg ` set us" "list_all plain_update us" "fcard (fset_of_list (map NodeID (past @ us))) \<le> 2 ^ stringBits"
  shows "list_all plain_update applied \<and> fcard (fset_of_list (map NodeID (past @ applied))) \<le> 2 ^ stringBits"
proof -
  have m: "\<exists>u \<in> set us. msg u = msg a" if "a \<in> set applied" for a using assms(1) that by (metis imageE image_eqI subsetD)
  have "plain_update a \<and> NodeID a \<in> NodeID ` set us" if "a \<in> set applied" for a
    using m [OF that] assms(2) by (metis list_all_iff plain_update_msg msg_simps imageI)
  then have "list_all plain_update applied" "fset_of_list (map NodeID (past @ applied)) |\<subseteq>| fset_of_list (map NodeID (past @ us))"
    by (auto simp: list_all_iff fset_of_list.rep_eq)
  with fcard_mono [OF this(2)] assms(3) show ?thesis by auto
qed


text \<open>A batch with one document that cannot be decoded is refused as a whole.\<close>

lemma publish_refuses:
  "toDomainUpdate doc = Inl err \<Longrightarrow> \<exists>e. Publish hk G cancelled s (docs @ doc # rest) (Inl e) s"
proof -
  assume "toDomainUpdate doc = Inl err"
  then have "\<exists>e. toDomainUpdates (docs @ doc # rest) = Inl e"
    by (induction docs) (auto split: sum.split)
  then show ?thesis by (auto intro: Publish.refused)
qed

end
