(* ===== verification/Replica.thy ===== *)
theory Replica
  imports Recovery Updates_Server
begin

text \<open>
  From the operations of a client at one node to the reads at another, across the components of both: the
  storage, the engine, the clock, the buffer and the log of the node that writes, the documents on the wire,
  the handler \<open>Publish\<close>, the history and the entry updater of the node that receives. The hash of the keys,
  the configuration and the disk of the two nodes may differ. Lemmas: receiving small batches one after the
  other is one run of \<open>updateSequential\<close>, and a receiver that is given the logged updates in order shows the
  data of the node that logged them.
\<close>

section \<open>Receiving batches\<close>

inductive receives :: "(string \<Rightarrow> u64) \<Rightarrow> 'w gowal \<Rightarrow> ('w, 'c) updatesServer \<Rightarrow> json list list \<Rightarrow> ('w, 'c) updatesServer \<Rightarrow> bool" for hk G where
  none: "receives hk G sv [] sv"
| batch: "Publish hk G (\<lambda>_. False) sv docs resp sv1 \<Longrightarrow> receives hk G sv1 docss sv' \<Longrightarrow> receives hk G sv (docs # docss) sv'"

inductive_cases receives_ConsE: "receives hk G sv (docs # docss) sv'"
inductive_simps receives_Nil: "receives hk G sv [] sv'"

lemma updateSequential_append:
  "updateSequential hk vm (xs @ ys) = bind_res (updateSequential hk vm xs) (\<lambda>(a, vm1).
     bind_res (updateSequential hk vm1 ys) (\<lambda>(b, vm2). Inr (a @ b, vm2)))"
proof (induction xs arbitrary: vm)
  case Nil
  show ?case by (cases "updateSequential hk vm ys") auto
next
  case (Cons x xs)
  obtain t now u where x: "x = (t, now, u)" by (cases x)
  show ?case
  proof (cases "handleUpdate hk vm t now u")
    case (Inr r)
    then show ?thesis
      by (cases "updateSequential hk (snd r) xs"; cases "updateSequential hk (snd (projr (updateSequential hk (snd r) xs))) ys")
        (auto simp: x Cons.IH split: prod.splits)
  qed (simp add: x)
qed

text \<open>A batch that the sender can encode and that is small enough for the sequential loop.\<close>

definition small_batch :: "Update list \<Rightarrow> json list \<Rightarrow> bool" where
  "small_batch us docs \<longleftrightarrow> toDomainUpdates docs = Inr us \<and> length us < parallelThreshold"

lemma small_UpdateRemote:
  assumes "length us < parallelThreshold"
  shows "UpdateRemote hk vm us applied vm' \<longleftrightarrow> (\<exists>xs. map upd xs = us \<and> updateSequential hk vm xs = Inr (applied, vm'))"
proof
  assume "UpdateRemote hk vm us applied vm'"
  then show "\<exists>xs. map upd xs = us \<and> updateSequential hk vm xs = Inr (applied, vm')"
  proof cases
    case none
    then show ?thesis by (intro exI [of _ "[]"]) simp
  qed (use assms in auto)
next
  assume "\<exists>xs. map upd xs = us \<and> updateSequential hk vm xs = Inr (applied, vm')"
  then obtain xs where xs: "map upd xs = us" "updateSequential hk vm xs = Inr (applied, vm')" by blast
  then show "UpdateRemote hk vm us applied vm'"
    using UpdateRemote.sequential [OF _ assms xs] by (cases "us = []") (auto intro: UpdateRemote.none)
qed

lemma Publish_small:
  assumes "small_batch us docs"
  shows "Publish hk G c sv docs resp sv' \<longleftrightarrow> (\<exists>xs applied err ww vm. map upd xs = us \<and> updateSequential hk (srv_vm sv) xs = Inr (applied, vm)
      \<and> publish_log G c 0 (srv_wal sv) applied = (err, ww) \<and> resp = (case err of None \<Rightarrow> Inr () | Some e \<Rightarrow> Inl e)
      \<and> sv' = sv\<lparr>srv_gbuffer := AddAndDec (srv_gbuffer sv) us, srv_vm := vm, srv_wal := ww\<rparr>)"
  (is "?l \<longleftrightarrow> ?r")
proof
  have d: "toDomainUpdates docs = Inr us" "length us < parallelThreshold" using assms by (simp_all add: small_batch_def)
  show "?l \<Longrightarrow> ?r"
  proof (elim PublishE)
    fix dus applied vm err ww
    assume a: "toDomainUpdates docs = Inr dus" "UpdateRemote hk (srv_vm sv) dus applied vm"
      "publish_log G c 0 (srv_wal sv) applied = (err, ww)" "resp = (case err of None \<Rightarrow> Inr () | Some e \<Rightarrow> Inl e)"
      "sv' = sv\<lparr>srv_gbuffer := AddAndDec (srv_gbuffer sv) dus, srv_vm := vm, srv_wal := ww\<rparr>"
    then obtain xs where "map upd xs = us" "updateSequential hk (srv_vm sv) xs = Inr (applied, vm)"
      using small_UpdateRemote [OF d(2)] d(1) by auto
    with a d(1) show ?r by auto
  qed (use d in auto)
  assume ?r
  then obtain xs applied err ww vm where r: "map upd xs = us" "updateSequential hk (srv_vm sv) xs = Inr (applied, vm)"
      "publish_log G c 0 (srv_wal sv) applied = (err, ww)" "resp = (case err of None \<Rightarrow> Inr () | Some e \<Rightarrow> Inl e)"
      "sv' = sv\<lparr>srv_gbuffer := AddAndDec (srv_gbuffer sv) us, srv_vm := vm, srv_wal := ww\<rparr>"
    by blast
  then have "UpdateRemote hk (srv_vm sv) us applied vm" using small_UpdateRemote [OF d(2)] by blast
  from Publish.applied [OF d(1) this r(3)] show ?l unfolding r(4,5) .
qed

lemma receives_sequential:
  "list_all2 small_batch uss docss \<Longrightarrow> receives hk G sv docss sv' \<Longrightarrow>
   \<exists>xs applied. map upd xs = concat uss \<and> updateSequential hk (srv_vm sv) xs = Inr (applied, srv_vm sv')"
proof (induction uss docss arbitrary: sv rule: list_all2_induct)
  case Nil
  then show ?case by (simp add: receives_Nil)
next
  case (Cons us uss docs docss)
  obtain resp sv1 where p: "Publish hk G (\<lambda>_. False) sv docs resp sv1" "receives hk G sv1 docss sv'"
    using Cons.prems by (auto elim: receives_ConsE)
  obtain xs a vm1 where xs: "map upd xs = us" "updateSequential hk (srv_vm sv) xs = Inr (a, vm1)" "srv_vm sv1 = vm1"
    using p(1) [unfolded Publish_small [OF Cons.hyps(1)]] by auto
  obtain ys b where ys: "map upd ys = concat uss" "updateSequential hk (srv_vm sv1) ys = Inr (b, srv_vm sv')"
    using Cons.IH [OF p(2)] by blast
  show ?case using xs ys by (intro exI [of _ "xs @ ys"] exI [of _ "a @ b"]) (simp add: updateSequential_append)
qed

text \<open>If the loop over all the updates returns, so does every handler on the way.\<close>

lemma receives_returns:
  "list_all2 small_batch uss docss \<Longrightarrow> map upd xs = concat uss \<Longrightarrow> updateSequential hk (srv_vm sv) xs = Inr r \<Longrightarrow> \<exists>sv'. receives hk G sv docss sv'"
proof (induction uss docss arbitrary: sv xs r rule: list_all2_induct)
  case Nil
  then show ?case by (auto intro: receives.none)
next
  case (Cons us uss docs docss)
  obtain ys zs where yz: "xs = ys @ zs" "map upd ys = us" "map upd zs = concat uss" using Cons.prems(1) by (auto simp: map_eq_append_conv)
  obtain a vm1 r' where a: "updateSequential hk (srv_vm sv) ys = Inr (a, vm1)" "updateSequential hk vm1 zs = Inr r'"
    using Cons.prems(2) unfolding yz(1) updateSequential_append by (auto simp: bind_res_Inr_iff)
  obtain err ww where l: "publish_log G (\<lambda>_. False) 0 (srv_wal sv) a = (err, ww)" by fastforce
  let ?sv1 = "sv\<lparr>srv_gbuffer := AddAndDec (srv_gbuffer sv) us, srv_vm := vm1, srv_wal := ww\<rparr>"
  have "Publish hk G (\<lambda>_. False) sv docs (case err of None \<Rightarrow> Inr () | Some e \<Rightarrow> Inl e) ?sv1"
    using Publish_small [OF Cons.hyps(1), of hk G "\<lambda>_. False" sv _ ?sv1] yz(2) a(1) l by auto
  moreover obtain sv' where "receives hk G ?sv1 docss sv'" using Cons.IH [OF yz(3), of ?sv1 r'] a(2) by auto
  ultimately show ?case by (blast intro: receives.batch)
qed

section \<open>A replica\<close>

text \<open>\<open>follows\<close> says that the receiver \<open>vm\<close>, given copies of the updates in order, accepts each of them and shows
  the entries \<open>f\<close>.\<close>

definition follows :: "(string \<Rightarrow> u64) \<Rightarrow> string \<Rightarrow> VersionManager \<Rightarrow> Update list \<Rightarrow> (string \<Rightarrow> CRDTEntry option) \<Rightarrow> bool" where
  "follows hl nid vm us f \<longleftrightarrow> (\<forall>xs. map (\<lambda>x. msg (upd x)) xs = map msg us \<longrightarrow>
     (\<exists>R. updateSequential hl vm xs = Inr (map upd xs, R) \<and> vm_wf hl R \<and> history_seqs (vm_history R) nid = of_nat ` {1..length us}
        \<and> (\<forall>k. key_view hl R k = map_option entry_view (f k))))"

lemma followsD:
  assumes "follows hl nid vm us f" "map (\<lambda>x. msg (upd x)) xs = map msg us"
  obtains R where "updateSequential hl vm xs = Inr (map upd xs, R)" "vm_wf hl R" "history_seqs (vm_history R) nid = of_nat ` {1..length us}"
    "\<forall>k. key_view hl R k = map_option entry_view (f k)"
  using assms unfolding follows_def by blast

lemma next_number:
  assumes "n < 2 ^ 64 - 2"
  shows "(of_nat n + 1 :: u64) \<noteq> - 1" "(of_nat n + 1 :: u64) \<notin> of_nat ` {1..n}"
proof -
  have u: "unat (of_nat m :: u64) = m" if "m \<le> n + 1" for m using that assms by (simp add: unat_of_nat)
  have e: "(of_nat n + 1 :: u64) = of_nat (n + 1)" by simp
  show "(of_nat n + 1 :: u64) \<noteq> - 1"
  proof
    assume "(of_nat n + 1 :: u64) = - 1"
    then have "n + 1 = unat (- 1 :: u64)" using u [OF order_refl] unfolding e [symmetric] by (elim subst) (rule refl)
    with assms show False by (simp add: unsigned_minus_1_eq_mask mask_eq_exp_minus_1)
  qed
  show "(of_nat n + 1 :: u64) \<notin> of_nat ` {1..n}"
  proof
    assume "(of_nat n + 1 :: u64) \<in> of_nat ` {1..n}"
    then obtain m where "m \<le> n" "of_nat (n + 1) = (of_nat m :: u64)" unfolding e by auto
    with u [of m] u [of "n + 1"] show False by simp
  qed
qed

lemma follows_step:
  assumes f: "follows hl nid vm us f" and len: "length us < 2 ^ 64 - 2" and eff: "effect (f (Key u)) u ent"
    and u: "NodeID u = nid" "Seq u = of_nat (length us) + 1" and f': "\<forall>k. f' k = (if k = Key u then Some ent else f k)"
  shows "follows hl nid vm (us @ [u]) f'"
  unfolding follows_def
proof (intro allI impI)
  fix ys :: "(i64 \<times> i64 \<times> Update) list"
  assume "map (\<lambda>x. msg (upd x)) ys = map msg (us @ [u])"
  then obtain xs t now v where ys: "ys = xs @ [(t, now, v)]" "map (\<lambda>x. msg (upd x)) xs = map msg us" "msg v = msg u"
    by (auto simp: map_eq_append_conv)
  from followsD [OF f ys(2)] obtain R where R: "updateSequential hl vm xs = Inr (map upd xs, R)" "vm_wf hl R"
      "history_seqs (vm_history R) nid = of_nat ` {1..length us}" "\<forall>k. key_view hl R k = map_option entry_view (f k)" .
  obtain h where h: "handleUpdate hl R t now u = apply_to_engine hl (R\<lparr>vm_history := h\<rparr>) t now u" "history_wf h"
      "\<forall>n. history_seqs h n = (if n = NodeID u then insert (Seq u) (history_seqs (vm_history R) n) else history_seqs (vm_history R) n)"
    using handleUpdate_new [OF R(2), of u t now] next_number [OF len] R(3) u by auto
  have wf: "vm_wf hl (R\<lparr>vm_history := h\<rparr>)" using R(2) h(2) by (simp add: vm_wf_def kv_wf_def)
  obtain R' where R': "apply_to_engine hl (R\<lparr>vm_history := h\<rparr>) t now u = Inr (True, R')" "vm_wf hl R'" "vm_history R' = h"
      "\<forall>k. key_view hl R' k = (if k = Key u then Some (entry_view ent) else key_view hl (R\<lparr>vm_history := h\<rparr>) k)"
    using replay_effect [OF wf eff, of t now] R(4) by (auto simp: key_view_def)
  have "handleUpdate hl R t now v = Inr (True, R')" using handleUpdate_msg [of hl R t now u] handleUpdate_msg [of hl R t now v] h(1) R'(1) ys(3) by simp
  then have "updateSequential hl vm ys = Inr (map upd ys, R')" using R(1) by (simp add: ys(1) updateSequential_append)
  moreover have "history_seqs (vm_history R') nid = of_nat ` {1..length (us @ [u])}"
    using h(3) R'(3) R(3) u by (auto simp: atLeastAtMostSuc_conv)
  moreover have "\<forall>k. key_view hl R' k = map_option entry_view (f' k)" using R'(4) R(4) f' by (simp add: key_view_def)
  ultimately show "\<exists>R. updateSequential hl vm ys = Inr (map upd ys, R) \<and> vm_wf hl R \<and> history_seqs (vm_history R) nid = of_nat ` {1..length (us @ [u])}
      \<and> (\<forall>k. key_view hl R k = map_option entry_view (f' k))" using R'(2) by blast
qed

lemma boot_follows:
  assumes "boot nid' cfg peek c wcfg w = Inr r" "ShardsNum cfg < 2 ^ 32" "\<And>k. f k = None"
  shows "follows hl nid (st_vm r) [] f"
proof -
  have "vm_history (st_vm r) = NewShardedHistory" using assms(1) by (auto simp: boot_def bind_res_Inr_iff NewStorage_def NewVersionManager_def)
  with boot_fresh(1,2) [OF assms(1,2), of hl] assms(3) show ?thesis
    by (simp add: follows_def key_view_def history_seqs_def NewShardedHistory_def)
qed

lemma run_replicates:
  assumes laws: "lru_laws L entries cap" "gowal_laws G log room"
    and "run_inv hk entries log n N [] s" "follows hl nid vm [] (GetRaw hk (st_engine s))" "st_nodeID s = nid"
    and len: "length ops \<le> 2 ^ 64 - 2"
    and "n + length ops < 2 ^ 64" "list_all (\<lambda>op. op_plain op \<and> 0 \<le> op_amount op) ops" "N + sum_list (map op_amount ops) < 2 ^ 63"
  shows "\<exists>us n' N'. run_inv hk entries log n' N' us (fold (st_exec hk L G) ops s)
    \<and> follows hl nid vm us (GetRaw hk (st_engine (fold (st_exec hk L G) ops s))) \<and> length us \<le> length ([] :: Update list) + length ops"
proof (rule run_follows [where P = "\<lambda>us e. follows hl nid vm us (GetRaw hk e)" and nid = nid and M = "2 ^ 64 - 2", OF laws _ _ assms(3,4,5) _ assms(7-9)])
  show "follows hl nid vm us (GetRaw hk e')" if "follows hl nid vm us (GetRaw hk e)" "\<And>k. GetRaw hk e' k = GetRaw hk e k" for us e e'
    using that(1) unfolding follows_def that(2) .
  show "follows hl nid vm (us @ [u]) (GetRaw hk e')"
    if "follows hl nid vm us (GetRaw hk e)" "length us < 2 ^ 64 - 2" "effect (GetRaw hk e (Key u)) u ent" "\<forall>v \<in> set (us @ [u]). NodeID v = nid"
      "Seq u = of_nat (length us) + 1" "\<forall>k. GetRaw hk e' k = (if k = Key u then Some ent else GetRaw hk e k)" for us e u ent e'
    using follows_step [OF that(1-3) _ that(5,6)] that(4) by simp
qed (use len in simp)

lemma plain_copies:
  assumes "map msg vs = map msg us" "list_all plain_update us"
  shows "list_all plain_update vs"
proof -
  have "plain_update (msg v)" if "v \<in> set vs" for v
    using that assms by (metis (no_types, lifting) image_eqI image_iff list.set_map list_all_iff plain_update_msg)
  then show ?thesis by (simp add: list_all_iff plain_update_msg)
qed

lemma small_batches:
  "list_all plain_update (concat uss) \<Longrightarrow> list_all (\<lambda>us. length us < parallelThreshold) uss \<Longrightarrow>
   \<exists>docss. map fromDomainUpdates uss = map Inr docss \<and> list_all2 small_batch uss docss"
proof (induction uss)
  case (Cons us uss)
  obtain docs where "fromDomainUpdates us = Inr docs" "small_batch us docs"
    using fromDomainUpdates_plain [of us] Cons.prems by (auto simp: small_batch_def)
  moreover obtain docss where "map fromDomainUpdates uss = map Inr docss" "list_all2 small_batch uss docss" using Cons by auto
  ultimately show ?case by (intro exI [of _ "docs # docss"]) simp
qed simp

text \<open>C6. A replica follows the node that writes. Take a node started on an empty log and any run of puts, deletes,
  increments and decrements (of non-negative amounts below \<open>2\<^sup>6\<^sup>3\<close> in sum), register writes, gossip rounds and flushes
  at it, at most as many as records fit into the segments of its log, then stop it and read back the updates of its log. Whatever the hops the copies carry and however they are cut
  into batches below the parallel threshold, a second node, fresh from its start and with its own hash, configuration
  and disk, that receives the batches in order through \<open>Publish\<close> handles all of them, and then every read at the second node
  returns what it returns at the first, and the timestamps and tombstones of all keys are the same.\<close>

theorem replica_follows:
  assumes "lru_laws L entries cap" "gowal_laws G log (segment_room wcfg)" "boot nid cfg peek c wcfg w = Inr s0" "ShardsNum cfg < 2 ^ 32" "plain nid"
    and "log w = []" "entries c = []" "length ops \<le> 2 ^ 64 - 2" "list_all (\<lambda>op. op_plain op \<and> 0 \<le> op_amount op) ops"
    and "length ops \<le> segment_room wcfg" "sum_list (map op_amount ops) < 2 ^ 63" "s = fold (st_exec hk L G) ops s0"
    and "wal_updates G (st_wal (GracefulStop G s)) = (err, us)"
    and "boot nid' cfg' peek' c' wcfg' w' = Inr r" "ShardsNum cfg' < 2 ^ 32" "srv_vm sv = st_vm r"
    and "map msg (concat uss) = map msg us" "list_all (\<lambda>vs. length vs < parallelThreshold) uss"
  shows "err = None \<and> (\<exists>docss. map fromDomainUpdates uss = map Inr docss \<and> (\<exists>sv'. receives hl G' sv docss sv')
    \<and> (\<forall>sv' key. receives hl G' sv docss sv' \<longrightarrow> key_view hl (srv_vm sv') key = key_view hk (st_vm s) key
         \<and> st_Get hl (r\<lparr>st_vm := srv_vm sv'\<rparr>) key = st_Get hk s key))"
proof -
  note b0 = boot_fresh [OF assms(3,4)]
  obtain us' n N where us': "run_inv hk entries log n N us' s" "follows hl nid (st_vm r) us' (GetRaw hk (st_engine s))" "length us' \<le> length ops"
    using run_replicates [OF assms(1,2) boot_run_inv [where log = log and entries = entries and hk = hk, OF assms(3-7)]
        boot_follows [OF assms(14,15) b0(2)] b0(4) assms(8) _ assms(9), of hl] assms(8,11,12) by auto
  have pl: "list_all plain_update us'" using us'(1) by (auto simp: run_inv_def list_all_iff)
  have "wal_updates G (st_wal (GracefulStop G s)) = (None, us')"
    by (rule wal_updates_stopped [OF assms(2) run_invD(6) [OF us'(1)] pl]) (use us'(3) assms(10) in \<open>simp_all add: GracefulStop_def\<close>)
  then have us: "err = None" "us = us'" using assms(13) by auto
  have "list_all plain_update (concat uss)" by (rule plain_copies [OF assms(17)]) (use pl us in simp)
  then obtain docss where docss: "map fromDomainUpdates uss = map Inr docss" "list_all2 small_batch uss docss"
    using small_batches assms(18) by blast
  let ?xs = "map (\<lambda>u. (0, 0, u)) (concat uss) :: (i64 \<times> i64 \<times> Update) list"
  have run: "\<exists>R. updateSequential hl (srv_vm sv) xs = Inr (map upd xs, R) \<and> (\<forall>k. key_view hl R k = key_view hk (st_vm s) k)"
    if "map upd xs = concat uss" for xs
  proof -
    have "map (\<lambda>x. msg (upd x)) xs = map msg us'" using arg_cong [OF that, of "map msg"] assms(17) us(2) by (simp add: comp_def del: map_concat)
    from followsD [OF us'(2) this] obtain R where R: "updateSequential hl (st_vm r) xs = Inr (map upd xs, R)"
        "\<forall>k. key_view hl R k = map_option entry_view (GetRaw hk (st_engine s) k)" .
    then show ?thesis unfolding assms(16) key_view_def [of hk] by (intro exI [of _ R] conjI)
  qed
  have ex: "\<exists>sv'. receives hl G' sv docss sv'"
    using run [of ?xs] receives_returns [OF docss(2), of ?xs hl sv] by (auto simp: comp_def)
  have view: "key_view hl (srv_vm sv') key = key_view hk (st_vm s) key" if "receives hl G' sv docss sv'" for sv' key
    using receives_sequential [OF docss(2) that] run by fastforce
  have "st_Get hl (r\<lparr>st_vm := srv_vm sv'\<rparr>) key = st_Get hk s key" if "receives hl G' sv docss sv'" for sv' key
    by (rule st_Get_view) (use view [OF that] in simp)
  with us(1) docss(1) ex view show ?thesis by blast
qed

theorem replica_follows_witness:
  "\<exists>s0 r us docs gb ww sv'. boot ''n'' \<lparr>ShardsNum = 4, CfgDeleteThreshold = 0\<rparr> 10 ([] :: (string \<times> bufupd) list) \<lparr>SegmentThreshold = 1000, MaxSegmentsNum = 100000000, BatchSize = 2\<rparr> ([] :: Record list) = Inr s0
     \<and> boot ''m'' \<lparr>ShardsNum = 2, CfgDeleteThreshold = 0\<rparr> 10 ([] :: (string \<times> bufupd) list) \<lparr>SegmentThreshold = 1000, MaxSegmentsNum = 100000000, BatchSize = 1\<rparr> ([] :: Record list) = Inr r
     \<and> wal_updates list_gowal (st_wal (GracefulStop list_gowal (fold (st_exec (\<lambda>_. 0) (list_lru 9) list_gowal) sample_ops s0))) = (None, us)
     \<and> map fromDomainUpdates (map (\<lambda>u. [u]) us) = map Inr docs
     \<and> receives (\<lambda>_. 1) list_gowal (NewUpdatesServer () gb ww (st_vm r) 10) docs sv'
     \<and> st_Get (\<lambda>_. 1) (r\<lparr>st_vm := srv_vm sv'\<rparr>) ''k'' = st_Get (\<lambda>_. 0) (fold (st_exec (\<lambda>_. 0) (list_lru 9) list_gowal) sample_ops s0) ''k''"
proof -
  have boot: "\<exists>s. boot nid \<lparr>ShardsNum = n, CfgDeleteThreshold = 0\<rparr> 10 ([] :: (string \<times> bufupd) list) \<lparr>SegmentThreshold = 1000, MaxSegmentsNum = 100000000, BatchSize = b\<rparr> ([] :: Record list) = Inr s"
    if "nid \<in> {''n'', ''m''}" "n \<in> {4, 2}" "b \<in> {1, 2}" for nid n b
    using that by (auto simp: boot_def NewEngineFromConfig_def NewEngine_def populateDefaults_def WithNodeID_def WithInitialShards_def wal_New_def Let_def)
  obtain s0 where s0: "boot ''n'' \<lparr>ShardsNum = 4, CfgDeleteThreshold = 0\<rparr> 10 ([] :: (string \<times> bufupd) list) \<lparr>SegmentThreshold = 1000, MaxSegmentsNum = 100000000, BatchSize = 2\<rparr> ([] :: Record list) = Inr s0"
    using boot [of "''n''" 4 2] by auto
  obtain r where r: "boot ''m'' \<lparr>ShardsNum = 2, CfgDeleteThreshold = 0\<rparr> 10 ([] :: (string \<times> bufupd) list) \<lparr>SegmentThreshold = 1000, MaxSegmentsNum = 100000000, BatchSize = 1\<rparr> ([] :: Record list) = Inr r"
    using boot [of "''m''" 2 1] by auto
  let ?s = "fold (st_exec (\<lambda>_. 0) (list_lru 9) list_gowal) sample_ops s0"
  obtain err us where us: "wal_updates list_gowal (st_wal (GracefulStop list_gowal ?s)) = (err, us)" by fastforce
  obtain gb where gb: "NewGossipBuffer 4 = Inr gb" by (simp add: NewGossipBuffer_def NewCircularBuffer_def)
  let ?sv = "NewUpdatesServer () gb (st_wal r) (st_vm r) 10"
  have pl: "plain ''n''" "plain ''k''" "plain ''r''" "plain ''x''" by (auto intro: plain_ascii)
  have "err = None \<and> (\<exists>docss. map fromDomainUpdates (map (\<lambda>u. [u]) us) = map Inr docss \<and> (\<exists>sv'. receives (\<lambda>_. 1) list_gowal ?sv docss sv')
      \<and> (\<forall>sv' key. receives (\<lambda>_. 1) list_gowal ?sv docss sv' \<longrightarrow> key_view (\<lambda>_. 1) (srv_vm sv') key = key_view (\<lambda>_. 0) (st_vm ?s) key
           \<and> st_Get (\<lambda>_. 1) (r\<lparr>st_vm := srv_vm sv'\<rparr>) key = st_Get (\<lambda>_. 0) ?s key))"
    by (rule replica_follows [OF list_lru_laws list_gowal_laws s0 _ pl(1) refl refl _ _ _ _ refl us r])
      (use pl in \<open>simp_all add: sample_ops_def segment_room_def parallelThreshold_def NewUpdatesServer_def list_all_iff\<close>)
  with s0 r us show ?thesis by blast
qed

end
