(* ===== verification/Membership.thy ===== *)
theory Membership
  imports Lume_Prelude
begin

text \<open>
  The members of the cluster as the node sees them, \<open>pkg/membership/v1\<close>: the ports that a node announces in the
  metadata of the membership protocol and the addresses its peers compute from them. The protocol itself
  (\<open>hashicorp/memberlist\<close>) is not modelled; its list of members is an argument. Lemmas: peers compute the
  announced addresses, different ports give different addresses, and short metadata makes them panic.
\<close>

section \<open>Metadata\<close>

record meta =
  GossipPort :: u16
  ExternalPort :: u16

definition meta_toBytes :: "meta \<Rightarrow> bytes" where
  "meta_toBytes m = [ucast (drop_bit 8 (GossipPort m)), ucast (GossipPort m), ucast (drop_bit 8 (ExternalPort m)), ucast (ExternalPort m)]"

text \<open>\<open>binary.BigEndian.Uint16\<close>.\<close>

definition be_u16 :: "u8 \<Rightarrow> u8 \<Rightarrow> u16" where
  "be_u16 hi lo = ucast lo OR push_bit 8 (ucast hi)"

text \<open>The argument is the backing array of the slice, up to its capacity, which is what a slice expression checks.\<close>

definition metaFromBytes :: "bytes \<Rightarrow> go_error + meta" where
  "metaFromBytes b =
     (if length b < 4 then Inl (Panic IndexOutOfRange)
      else Inr \<lparr>GossipPort = be_u16 (b ! 0) (b ! 1), ExternalPort = be_u16 (b ! 2) (b ! 3)\<rparr>)"

text \<open>The delegate announces its metadata whatever the limit is.\<close>

definition NodeMeta :: "meta \<Rightarrow> int \<Rightarrow> bytes" where
  "NodeMeta d limit = meta_toBytes d"

section \<open>Nodes\<close>

text \<open>\<open>mAddr\<close> is the text of the IP address.\<close>

record Node =
  mName :: string
  mAddr :: string
  mPort :: u16
  mMeta :: bytes

text \<open>\<open>strconv.Itoa\<close> on a number that is not negative.\<close>

fun Itoa :: "nat \<Rightarrow> string" where
  "Itoa n = (if n < 10 then [char_of (48 + n)] else Itoa (n div 10) @ [char_of (48 + n mod 10)])"

definition node_ID :: "Node \<Rightarrow> string" where
  "node_ID n = mName n"

definition MembershipAddr :: "Node \<Rightarrow> string" where
  "MembershipAddr n = mAddr n @ '':'' @ Itoa (unat (mPort n))"

definition ExternalAddr :: "Node \<Rightarrow> go_error + string" where
  "ExternalAddr n = bind_res (metaFromBytes (mMeta n)) (\<lambda>m. Inr (mAddr n @ '':'' @ Itoa (unat (ExternalPort m))))"

definition GossipAddr :: "Node \<Rightarrow> go_error + string" where
  "GossipAddr n = bind_res (metaFromBytes (mMeta n)) (\<lambda>m. Inr (mAddr n @ '':'' @ Itoa (unat (GossipPort m))))"

text \<open>\<open>Members\<close> wraps every node of the list of the protocol.\<close>

primrec Members :: "Node list \<Rightarrow> Node list" where
  "Members [] = []"
| "Members (n # nodes) = n # Members nodes"

section \<open>Lemmas\<close>

lemma be_u16_split: "be_u16 (ucast (drop_bit 8 x)) (ucast x) = x"
  unfolding be_u16_def by (rule bit_word_eqI) (auto simp: bit_simps)

lemma metaFromBytes_toBytes: "metaFromBytes (meta_toBytes m) = Inr m"
  by (simp add: metaFromBytes_def meta_toBytes_def be_u16_split)

declare Itoa.simps [simp del]

lemma Itoa_digits: "c \<in> set (Itoa n) \<Longrightarrow> of_char c \<in> {48..57 :: nat}"
proof (induction n rule: Itoa.induct)
  case (1 n)
  then show ?case by (subst (asm) Itoa.simps) (auto split: if_splits)
qed

fun digits_value :: "string \<Rightarrow> nat \<Rightarrow> nat" where
  "digits_value [] acc = acc"
| "digits_value (c # cs) acc = digits_value cs (acc * 10 + (of_char c - 48))"

lemma digits_value_append: "digits_value (xs @ ys) acc = digits_value ys (digits_value xs acc)"
  by (induction xs arbitrary: acc) auto

lemma digits_value_Itoa: "digits_value (Itoa n) 0 = n"
proof (induction n rule: Itoa.induct)
  case (1 n)
  then show ?case by (subst Itoa.simps) (auto simp: digits_value_append)
qed

text \<open>The colon before the port is the last one.\<close>

lemma host_port_inject:
  assumes "h @ CHR '':'' # Itoa p = h' @ CHR '':'' # Itoa p'"
  shows "h = h' \<and> p = p'"
proof -
  have colon: "CHR '':'' \<notin> set (Itoa n)" for n using Itoa_digits [of "CHR '':''" n] by auto
  have "rev (Itoa p) @ CHR '':'' # rev h = rev (Itoa p') @ CHR '':'' # rev h'" using arg_cong [OF assms, of rev] by simp
  moreover have "takeWhile (\<lambda>c. c \<noteq> CHR '':'') (rev (Itoa n) @ CHR '':'' # xs) = rev (Itoa n)" for n xs
    using colon [of n] by (subst takeWhile_append2) auto
  ultimately have "rev (Itoa p) = rev (Itoa p')" by metis
  moreover from this have "h = h'" using assms by simp
  ultimately have "Itoa p = Itoa p' \<and> h = h'" by simp
  then show ?thesis using digits_value_Itoa by metis
qed

text \<open>Peers compute the addresses a node announced: a node that carries the metadata of a delegate with two
  ports has the gossip address and the external address made of its host and these ports, and two such nodes
  have the same gossip address only if they have the same host and the same gossip port. Metadata of less than
  four bytes makes both methods panic.\<close>

lemma announced_addresses:
  "GossipAddr \<lparr>mName = nm, mAddr = host, mPort = p, mMeta = NodeMeta m limit\<rparr> = Inr (host @ '':'' @ Itoa (unat (GossipPort m)))
   \<and> ExternalAddr \<lparr>mName = nm, mAddr = host, mPort = p, mMeta = NodeMeta m limit\<rparr> = Inr (host @ '':'' @ Itoa (unat (ExternalPort m)))
   \<and> (GossipAddr \<lparr>mName = nm, mAddr = host, mPort = p, mMeta = NodeMeta m limit\<rparr>
        = GossipAddr \<lparr>mName = nm', mAddr = host', mPort = p', mMeta = NodeMeta m' limit'\<rparr>
      \<longleftrightarrow> host = host' \<and> GossipPort m = GossipPort m')
   \<and> (is_panic (GossipAddr n) \<longleftrightarrow> length (mMeta n) < 4) \<and> (is_panic (ExternalAddr n) \<longleftrightarrow> length (mMeta n) < 4)"
proof -
  have g: "GossipAddr \<lparr>mName = nm, mAddr = host, mPort = p, mMeta = NodeMeta m limit\<rparr> = Inr (host @ '':'' @ Itoa (unat (GossipPort m)))"
    for nm host p m limit by (simp add: GossipAddr_def NodeMeta_def metaFromBytes_toBytes)
  have "host @ '':'' @ Itoa (unat (GossipPort m)) = host' @ '':'' @ Itoa (unat (GossipPort m')) \<longleftrightarrow> host = host' \<and> GossipPort m = GossipPort m'"
    using host_port_inject [of host "unat (GossipPort m)" host' "unat (GossipPort m')"] by (auto simp: word_unat_eq_iff)
  moreover have "is_panic (GossipAddr n) \<longleftrightarrow> length (mMeta n) < 4" "is_panic (ExternalAddr n) \<longleftrightarrow> length (mMeta n) < 4"
    by (simp_all add: GossipAddr_def ExternalAddr_def metaFromBytes_def)
  ultimately show ?thesis unfolding g by (simp add: ExternalAddr_def NodeMeta_def metaFromBytes_toBytes)
qed

section \<open>The membership protocol\<close>

text \<open>The library as a record: creating a list of members that takes part in the protocol, and the calls on it. The delegate of the
  configuration is the metadata it announces; its other callbacks do nothing.\<close>

record memConfig =
  ml_Name :: string
  ml_BindAddr :: string
  ml_BindPort :: int
  ml_AdvertiseAddr :: string
  ml_AdvertisePort :: int
  ml_Delegate :: meta

record 'm memberlist =
  ml_Create :: "memConfig \<Rightarrow> go_error + 'm"
  ml_Join :: "'m \<Rightarrow> string list \<Rightarrow> (go_error + int) \<times> 'm"
  ml_NumMembers :: "'m \<Rightarrow> int"
  ml_LocalNode :: "'m \<Rightarrow> Node"
  ml_Members :: "'m \<Rightarrow> Node list"
  ml_Leave :: "'m \<Rightarrow> int \<Rightarrow> go_error option \<times> 'm"

record mem_Config =
  mc_NodeName :: string
  mc_AdvertiseAddr :: string
  mc_BindAddr :: string
  mc_GossipPort :: u16
  mc_MembershipPort :: u16
  mc_ExternalPort :: u16

definition mem_New :: "'m memberlist \<Rightarrow> mem_Config \<Rightarrow> go_error + 'm" where
  "mem_New Mb cfg = ml_Create Mb \<lparr>ml_Name = mc_NodeName cfg, ml_BindAddr = mc_BindAddr cfg, ml_BindPort = uint (mc_MembershipPort cfg),
     ml_AdvertiseAddr = mc_AdvertiseAddr cfg, ml_AdvertisePort = uint (mc_MembershipPort cfg),
     ml_Delegate = \<lparr>GossipPort = mc_GossipPort cfg, ExternalPort = mc_ExternalPort cfg\<rparr>\<rparr>"

definition mem_Join :: "'m memberlist \<Rightarrow> 'm \<Rightarrow> string list \<Rightarrow> go_error option \<times> 'm" where
  "mem_Join Mb m seeds = (case ml_Join Mb m seeds of (Inl err, m1) \<Rightarrow> (Some err, m1) | (Inr n, m1) \<Rightarrow> (None, m1))"

definition mem_Num :: "'m memberlist \<Rightarrow> 'm \<Rightarrow> int" where
  "mem_Num Mb m = ml_NumMembers Mb m"

definition mem_LocalNode :: "'m memberlist \<Rightarrow> 'm \<Rightarrow> Node" where
  "mem_LocalNode Mb m = ml_LocalNode Mb m"

definition mem_Leave :: "'m memberlist \<Rightarrow> 'm \<Rightarrow> int \<Rightarrow> go_error option \<times> 'm" where
  "mem_Leave Mb m timeout = ml_Leave Mb m timeout"

definition mem_Members :: "'m memberlist \<Rightarrow> 'm \<Rightarrow> Node list" where
  "mem_Members Mb m = Members (ml_Members Mb m)"

end
