(* ===== verification/Structs_Set.thy ===== *)
theory Structs_Set
  imports Lume_Prelude
begin

text \<open>
  The set of \<open>pkg/structs/set.go\<close>, a Go map with empty values. Its mutating methods return the changed map; a
  loop over the map runs over its elements in sorted order (Go leaves the order open), and the results are
  sets, which do not depend on it. The locale \<open>finite_set\<close> is what a client relies on that marks indices as
  done; the gossip loop uses it. Lemmas: every method computes the operation on sets it is named after.
\<close>

section \<open>The set\<close>

type_synonym 'a gset = "('a, unit) fmap"

definition set_range :: "'a::linorder gset \<Rightarrow> 'a list" where
  "set_range s = map fst (fm_entries s)"

primrec insert_values :: "'a list \<Rightarrow> 'a gset \<Rightarrow> 'a gset" where
  "insert_values [] res = res"
| "insert_values (v # values) res = insert_values values (fmupd v () res)"

definition NewSet :: "'a list \<Rightarrow> 'a gset" where
  "NewSet values = insert_values values fmempty"

definition set_Delete :: "'a gset \<Rightarrow> 'a \<Rightarrow> 'a gset" where
  "set_Delete s v = fmdrop v s"

definition set_Add :: "'a gset \<Rightarrow> 'a \<Rightarrow> 'a gset" where
  "set_Add s v = fmupd v () s"

definition set_Remove :: "'a gset \<Rightarrow> 'a \<Rightarrow> 'a gset" where
  "set_Remove s v = fmdrop v s"

definition set_Contains :: "'a gset \<Rightarrow> 'a \<Rightarrow> bool" where
  "set_Contains s v = (case fmlookup s v of None \<Rightarrow> False | Some _ \<Rightarrow> True)"

definition set_Size :: "'a gset \<Rightarrow> nat" where
  "set_Size s = fcard (fmdom s)"

definition set_Slice :: "'a::linorder gset \<Rightarrow> 'a list" where
  "set_Slice s = fold (\<lambda>v values. values @ [v]) (set_range s) []"

text \<open>\<open>All\<close> hands the elements to \<open>yield\<close> until it returns false. The effects of \<open>yield\<close> are a state that it returns.\<close>

primrec all_loop :: "('a \<Rightarrow> 'st \<Rightarrow> bool \<times> 'st) \<Rightarrow> 'a list \<Rightarrow> 'st \<Rightarrow> 'st" where
  "all_loop yield [] st = st"
| "all_loop yield (v # vs) st = (case yield v st of (more, st') \<Rightarrow> if \<not> more then st' else all_loop yield vs st')"

definition set_All :: "'a::linorder gset \<Rightarrow> ('a \<Rightarrow> 'st \<Rightarrow> bool \<times> 'st) \<Rightarrow> 'st \<Rightarrow> 'st" where
  "set_All s yield st = all_loop yield (set_range s) st"

definition set_Clear :: "'a::linorder gset \<Rightarrow> 'a gset" where
  "set_Clear s = fold (\<lambda>k m. fmdrop k m) (set_range s) s"

definition set_Clone :: "'a::linorder gset \<Rightarrow> 'a gset" where
  "set_Clone s = fold (\<lambda>v clone. fmupd v () clone) (set_range s) (NewSet [])"

definition set_Union :: "'a::linorder gset \<Rightarrow> 'a gset \<Rightarrow> 'a gset" where
  "set_Union s other = fold (\<lambda>v result. fmupd v () result) (set_range other) (set_Clone s)"

definition set_Intersect :: "'a::linorder gset \<Rightarrow> 'a gset \<Rightarrow> 'a gset" where
  "set_Intersect s other =
     fold (\<lambda>v result. if fmlookup other v \<noteq> None then fmupd v () result else result) (set_range s) (NewSet [])"

definition set_Difference :: "'a::linorder gset \<Rightarrow> 'a gset \<Rightarrow> 'a gset" where
  "set_Difference s other =
     fold (\<lambda>v result. if fmlookup other v = None then fmupd v () result else result) (set_range s) (NewSet [])"

primrec subset_loop :: "'a gset \<Rightarrow> 'a list \<Rightarrow> bool" where
  "subset_loop other [] = True"
| "subset_loop other (v # vs) = (if fmlookup other v = None then False else subset_loop other vs)"

definition IsSubsetOf :: "'a::linorder gset \<Rightarrow> 'a gset \<Rightarrow> bool" where
  "IsSubsetOf s other = subset_loop other (set_range s)"

section \<open>What a client relies on\<close>

locale finite_set =
  fixes empty :: 's and add :: "'s \<Rightarrow> 'a \<Rightarrow> 's" and contains :: "'s \<Rightarrow> 'a \<Rightarrow> bool" and size_of :: "'s \<Rightarrow> nat" and elems :: "'s \<Rightarrow> 'a set"
  assumes empty: "elems empty = {}"
    and add: "elems (add s v) = insert v (elems s)"
    and contains: "contains s v \<longleftrightarrow> v \<in> elems s"
    and size_of: "size_of s = card (elems s)"
    and finite: "finite (elems s)"
begin

lemma size_add: "size_of (add s v) = (if contains s v then size_of s else Suc (size_of s))"
  by (simp add: size_of add contains finite card_insert_if)

text \<open>A set of elements of a finite set that has as many elements is all of it.\<close>

lemma all_marked:
  assumes "finite U" "elems s \<subseteq> U"
  shows "size_of s = card U \<longleftrightarrow> elems s = U"
  using card_subset_eq [OF assms] by (auto simp: size_of)

lemma size_le: "finite U \<Longrightarrow> elems s \<subseteq> U \<Longrightarrow> size_of s \<le> card U"
  by (simp add: size_of card_mono)

end

abbreviation elems :: "'a gset \<Rightarrow> 'a set" where
  "elems s \<equiv> fset (fmdom s)"

lemma elems_fmupd: "elems (fmupd v () s) = insert v (elems s)"
  by simp

lemma lookup_elems: "fmlookup s v = None \<longleftrightarrow> v \<notin> elems s"
  by (cases "fmlookup s v") (auto simp: fmlookup_dom_iff)

interpretation go_set: finite_set "NewSet []" set_Add set_Contains set_Size elems
  by unfold_locales
    (auto simp: NewSet_def set_Add_def set_Contains_def set_Size_def fcard.rep_eq fmlookup_dom_iff split: option.splits)

section \<open>The methods are the operations on sets\<close>

lemma set_set_range: "set (set_range s) = elems s"
  by (simp add: set_range_def)

lemma distinct_set_range: "distinct (set_range s)"
  unfolding set_range_def by (rule distinct_fm_entries)

lemma gset_eqI: "elems s = elems t \<Longrightarrow> s = (t :: 'a gset)"
  by (rule fmap_ext) (metis lookup_elems option.exhaust old.unit.exhaust)

lemma elems_insert_values: "elems (insert_values vs s) = set vs \<union> elems s"
  by (induction vs arbitrary: s) auto

lemma elems_fold_if: "elems (fold (\<lambda>v r. if P v then fmupd v () r else r) vs s) = {v \<in> set vs. P v} \<union> elems s"
  by (induction vs arbitrary: s) auto

lemma elems_fold: "elems (fold (\<lambda>v r. fmupd v () r) vs s) = set vs \<union> elems s"
  using elems_fold_if [of "\<lambda>_. True"] by simp

lemma elems_fold_drop: "elems (fold (\<lambda>k m. fmdrop k m) ks s) = elems s - set ks"
  by (induction ks arbitrary: s) auto

lemma fold_snoc: "fold (\<lambda>v vs. vs @ [v]) xs acc = acc @ xs"
  by (induction xs arbitrary: acc) auto

lemma subset_loop_iff: "subset_loop other vs \<longleftrightarrow> set vs \<subseteq> elems other"
  by (induction vs) (auto simp: lookup_elems)

lemma all_loop_prefix:
  "all_loop (\<lambda>v seen. (P v, seen @ [v])) vs acc = acc @ takeWhile P vs @ take 1 (dropWhile P vs)"
  by (induction vs arbitrary: acc) auto

text \<open>The set implements finite sets: two sets with the same elements are the same map, and each method computes
  the operation on the elements that its name says; \<open>Slice\<close> lists every element once, and \<open>All\<close> visits that
  list up to and including the first element for which \<open>yield\<close> returns false.\<close>

lemma Set_refines_sets:
  fixes s t :: "('a::linorder) gset" and v :: "'a"
  shows
  "(elems s = elems t \<longleftrightarrow> s = t) \<and> elems (NewSet (vs :: 'a list)) = set vs \<and> elems (set_Add s v) = insert v (elems s)
   \<and> elems (set_Delete s v) = elems s - {v} \<and> elems (set_Remove s v) = elems s - {v} \<and> (set_Contains s v \<longleftrightarrow> v \<in> elems s)
   \<and> set_Size s = card (elems s) \<and> set (set_Slice s) = elems s \<and> distinct (set_Slice s) \<and> set_Clear s = NewSet []
   \<and> set_Clone s = s \<and> elems (set_Union s t) = elems s \<union> elems t \<and> elems (set_Intersect s t) = elems s \<inter> elems t
   \<and> elems (set_Difference s t) = elems s - elems t \<and> (IsSubsetOf s t \<longleftrightarrow> elems s \<subseteq> elems t)
   \<and> set_All s (\<lambda>v seen. (P v, seen @ [v])) [] = takeWhile P (set_Slice s) @ take 1 (dropWhile P (set_Slice s))"
proof -
  have new: "elems (NewSet vs) = set vs" for vs :: "'a list" by (simp add: NewSet_def elems_insert_values)
  have clone: "set_Clone s = s" by (rule gset_eqI) (simp add: set_Clone_def elems_fold new set_set_range)
  have clear: "set_Clear s = NewSet []" by (rule gset_eqI) (simp add: set_Clear_def elems_fold_drop new set_set_range)
  have slice: "set_Slice s = set_range s" by (simp add: set_Slice_def fold_snoc)
  have "elems (set_Union s t) = elems s \<union> elems t" by (simp add: set_Union_def elems_fold clone set_set_range Un_commute)
  moreover have "elems (set_Intersect s t) = elems s \<inter> elems t"
    by (auto simp: set_Intersect_def elems_fold_if lookup_elems set_set_range new)
  moreover have "elems (set_Difference s t) = elems s - elems t"
    by (auto simp: set_Difference_def elems_fold_if lookup_elems set_set_range new)
  moreover have "elems s = elems t \<longleftrightarrow> s = t" using gset_eqI by blast
  moreover have "elems (set_Delete s v) = elems s - {v}" "elems (set_Remove s v) = elems s - {v}"
    by (auto simp: set_Delete_def set_Remove_def)
  moreover have "set (set_Slice s) = elems s" "distinct (set_Slice s)" using set_set_range distinct_set_range by (simp_all add: slice)
  moreover have "set_All s (\<lambda>v seen. (P v, seen @ [v])) [] = takeWhile P (set_Slice s) @ take 1 (dropWhile P (set_Slice s))"
    by (simp add: set_All_def all_loop_prefix slice)
  moreover have "IsSubsetOf s t \<longleftrightarrow> elems s \<subseteq> elems t" by (simp add: IsSubsetOf_def subset_loop_iff set_set_range)
  ultimately show ?thesis using new [of vs] clone clear go_set.add [of s v] go_set.contains [of s v] go_set.size_of [of s]
    by (intro conjI) assumption+
qed

end
