(* ===== verification/Gossip.thy ===== *)
theory Gossip
  imports Membership Structs_Set Updates_Server
begin

text \<open>
  The gossip of a node, \<open>pkg/gossip/gossip/gossip.go\<close>: sending a batch to random peers, the batches made from new
  and forwarded updates, and the rounds of anti-entropy. The transport is a record of functions on the state of the
  network, as the Go interface is; \<open>grpc_transport\<close> is the one the program uses. The list of members, the random
  numbers and the readings of the clocks are arguments. The loop of \<open>Send\<close> ends when the random numbers have
  named enough peers, so it takes the list of the numbers drawn and has no result when that runs out.
  Lemmas: \<open>Send\<close> returns once every peer was drawn and reaches as many different peers as it should, or all that
  can be reached; a batch never exceeds its size; a round merges exactly the keys that differ, and the buckets
  take turns.
\<close>

section \<open>State\<close>

text \<open>\<open>AntiEntropyInterval\<close> is a duration, in nanoseconds.\<close>

record GossipConfig =
  Fanout :: int
  Retries :: int
  MaxBatchSize :: int
  AntiEntropyInterval :: int
  WorkerPoolSize :: int

record DefaultGossip =
  gs_config :: GossipConfig
  gs_vm :: VersionManager
  gs_gbuffer :: GossipBuffer
  antiEntropyBucket :: u32
  numBuckets :: u32

definition NewDefaultGossip :: "GossipConfig \<Rightarrow> int \<Rightarrow> VersionManager \<Rightarrow> u32 \<Rightarrow> go_error + DefaultGossip" where
  "NewDefaultGossip config bufferSize vm rnd =
     bind_res (NewGossipBuffer bufferSize) (\<lambda>gb. Inr \<lparr>gs_config = config, gs_vm = vm, gs_gbuffer = gb,
       antiEntropyBucket = rnd mod DefaultNumBuckets, numBuckets = DefaultNumBuckets\<rparr>)"

text \<open>The interface \<open>transport.Transport\<close> and the transport of the program.\<close>

record 'n transport =
  t_Send :: "'n \<Rightarrow> string \<Rightarrow> Update list \<Rightarrow> go_error option \<times> 'n"
  t_Pull :: "'n \<Rightarrow> string \<Rightarrow> (string, Range list) fmap \<Rightarrow> (go_error + Update list) \<times> 'n"
  t_GetVersion :: "'n \<Rightarrow> string \<Rightarrow> (go_error + (string, u64) fmap) \<times> 'n"
  t_GetKeyDigests :: "'n \<Rightarrow> string \<Rightarrow> u32 \<Rightarrow> (go_error + (string, u64) fmap) \<times> 'n"
  t_PullKeyStates :: "'n \<Rightarrow> string \<Rightarrow> string list \<Rightarrow> (go_error + KeyState option list) \<times> 'n"

definition grpc_transport :: "('n, 'conn) grpc \<Rightarrow> ('conn ClientPool \<times> 'n) transport" where
  "grpc_transport g = \<lparr>t_Send = (\<lambda>(p, n). tr_Send g p n), t_Pull = (\<lambda>(p, n). tr_Pull g p n),
     t_GetVersion = (\<lambda>(p, n). tr_GetVersion g p n), t_GetKeyDigests = (\<lambda>(p, n). tr_GetKeyDigests g p n),
     t_PullKeyStates = (\<lambda>(p, n). tr_PullKeyStates g p n)\<rparr>"

section \<open>Sending\<close>

text \<open>\<open>filterOutSelf\<close> swaps the node with the last member and cuts it off.\<close>

fun filter_self_loop :: "Node list \<Rightarrow> Node \<Rightarrow> nat \<Rightarrow> nat list \<Rightarrow> Node list" where
  "filter_self_loop peers ourSelf n [] = peers"
| "filter_self_loop peers ourSelf n (ind # inds) =
     (if node_ID (peers ! ind) = node_ID ourSelf then take n (peers[ind := peers ! n, n := peers ! ind])
      else filter_self_loop peers ourSelf n inds)"

definition filterOutSelf :: "Node list \<Rightarrow> Node \<Rightarrow> Node list" where
  "filterOutSelf peers ourSelf = filter_self_loop peers ourSelf (length peers - 1) [0..<length peers]"

text \<open>The attempts for one peer: whether one succeeded.\<close>

fun send_try :: "'n transport \<Rightarrow> Node \<Rightarrow> Update list \<Rightarrow> nat \<Rightarrow> 'n \<Rightarrow> go_error + bool \<times> 'n" where
  "send_try T peer data 0 n = Inr (False, n)"
| "send_try T peer data (Suc retries) n =
     bind_res (GossipAddr peer) (\<lambda>addr.
       case t_Send T n addr data of
         (Some err, n1) \<Rightarrow> send_try T peer data retries n1
       | (None, n1) \<Rightarrow> Inr (True, n1))"

text \<open>The loop also returns the indices of the peers that took the data, which the program writes to its trace.\<close>

fun send_loop ::
    "'n transport \<Rightarrow> Node list \<Rightarrow> int \<Rightarrow> int \<Rightarrow> Update list \<Rightarrow> nat list \<Rightarrow> nat gset \<Rightarrow> int \<Rightarrow> nat list \<Rightarrow> 'n \<Rightarrow>
     (go_error option \<times> nat list \<times> 'n) option" where
  "send_loop T peers fanout retries data draws picked successNum sent n =
     (if successNum < fanout then
        if set_Size picked = length peers then Some (Some ErrTooFewPeers, sent, n)
        else (case draws of
                [] \<Rightarrow> None
              | ind # rest \<Rightarrow>
                  if set_Contains picked ind then send_loop T peers fanout retries data rest picked successNum sent n
                  else (case send_try T (peers ! ind) data (nat retries) n of
                          Inl err \<Rightarrow> Some (Some err, sent, n)
                        | Inr (ok, n1) \<Rightarrow>
                            send_loop T peers fanout retries data rest (set_Add picked ind)
                              (if ok then successNum + 1 else successNum) (if ok then sent @ [ind] else sent) n1))
      else Some (None, sent, n))"

definition gs_Send ::
    "'n transport \<Rightarrow> DefaultGossip \<Rightarrow> Node list \<Rightarrow> Node \<Rightarrow> nat list \<Rightarrow> Update list \<Rightarrow> 'n \<Rightarrow> (go_error option \<times> nat list \<times> 'n) option" where
  "gs_Send T g members self draws data n =
     (let peers = filterOutSelf members self
      in send_loop T peers (min (int (length peers)) (Fanout (gs_config g))) (Retries (gs_config g)) data draws (NewSet []) 0 [] n)"

section \<open>Batches\<close>

text \<open>The number of hops: the logarithms are floating-point and stay a parameter.\<close>

definition getTTLNumForAsync :: "(int \<Rightarrow> int \<Rightarrow> u8) \<Rightarrow> int \<Rightarrow> int \<Rightarrow> int \<Rightarrow> u8" where
  "getTTLNumForAsync hops clusterSize fanout interval = (if clusterSize \<le> 1 then 1 else hops clusterSize fanout)"

text \<open>\<open>processUpdates\<close>: the batch that is sent, if any, and the gossip buffer it leaves.\<close>

definition batch_to_send ::
    "(int \<Rightarrow> int \<Rightarrow> u8) \<Rightarrow> DefaultGossip \<Rightarrow> Node list \<Rightarrow> Update list \<Rightarrow> go_error + Update list \<times> DefaultGossip" where
  "batch_to_send hops g members u =
     (let ttl = getTTLNumForAsync hops (int (length members)) (Fanout (gs_config g)) (AntiEntropyInterval (gs_config g) div 1000000000);
          u1 = map (\<lambda>x. x\<lparr>TTL := ttl\<rparr>) u
      in bind_res (PeekN (gs_gbuffer g) (MaxBatchSize (gs_config g) - int (length u1)))
           (\<lambda>(ttlUpds, gb). Inr (u1 @ ttlUpds, g\<lparr>gs_gbuffer := gb\<rparr>)))"

definition processUpdates ::
    "(int \<Rightarrow> int \<Rightarrow> u8) \<Rightarrow> 'n transport \<Rightarrow> DefaultGossip \<Rightarrow> Node list \<Rightarrow> Node \<Rightarrow> nat list \<Rightarrow> Update list \<Rightarrow> 'n \<Rightarrow>
     (go_error option \<times> DefaultGossip \<times> 'n) option" where
  "processUpdates hops T g members self draws u n =
     (case batch_to_send hops g members u of
        Inl err \<Rightarrow> Some (Some err, g, n)
      | Inr (u', g1) \<Rightarrow>
          if length u' = 0 then Some (None, g1, n)
          else map_option (\<lambda>(err, sent, n1). (err, g1, n1)) (gs_Send T g1 members self draws u' n))"

section \<open>Pulling\<close>

definition getRandomPeer :: "Node list \<Rightarrow> Node \<Rightarrow> nat \<Rightarrow> go_error + Node" where
  "getRandomPeer members self ind =
     (let peers = filterOutSelf members self in if length peers = 0 then Inl ErrNoPeers else Inr (peers ! ind))"

definition gs_Pull ::
    "'n transport \<Rightarrow> Node list \<Rightarrow> Node \<Rightarrow> nat \<Rightarrow> Node option \<Rightarrow> (string, Range list) fmap \<Rightarrow> 'n \<Rightarrow> (go_error + Update list) \<times> 'n" where
  "gs_Pull T members self ind peer version n =
     (case bind_res (case peer of None \<Rightarrow> getRandomPeer members self ind | Some p \<Rightarrow> Inr p) GossipAddr of
        Inl err \<Rightarrow> (Inl err, n)
      | Inr addr \<Rightarrow> t_Pull T n addr version)"

definition gs_GetVersionVector ::
    "'n transport \<Rightarrow> Node list \<Rightarrow> Node \<Rightarrow> nat \<Rightarrow> Node option \<Rightarrow> 'n \<Rightarrow> (go_error + string \<times> (string, u64) fmap) \<times> 'n" where
  "gs_GetVersionVector T members self ind peer n =
     (case (case peer of None \<Rightarrow> getRandomPeer members self ind | Some p \<Rightarrow> Inr p) of
        Inl err \<Rightarrow> (Inl err, n)
      | Inr p \<Rightarrow>
          (case GossipAddr p of
             Inl err \<Rightarrow> (Inl err, n)
           | Inr addr \<Rightarrow>
               (case t_GetVersion T n addr of
                  (Inl err, n1) \<Rightarrow> (Inl err, n1)
                | (Inr version, n1) \<Rightarrow> (Inr (node_ID p, version), n1))))"

section \<open>Anti-entropy\<close>

text \<open>Step 4 of the round: each state comes with the two clock readings of its merge.\<close>

fun merge_states :: "(string \<Rightarrow> u64) \<Rightarrow> VersionManager \<Rightarrow> (i64 \<times> i64 \<times> KeyState option) list \<Rightarrow> go_error + VersionManager" where
  "merge_states hk vm [] = Inr vm"
| "merge_states hk vm ((t, now, None) # states) = Inl (Panic NilDereference)"
| "merge_states hk vm ((t, now, Some ks) # states) =
     (case MergeKeyState hk vm t now ks of
        Inl (Panic p) \<Rightarrow> Inl (Panic p)
      | Inl err \<Rightarrow> merge_states hk vm states
      | Inr vm1 \<Rightarrow> merge_states hk vm1 states)"

definition antiEntropyRound ::
    "(string \<Rightarrow> u64) \<Rightarrow> 'n transport \<Rightarrow> DefaultGossip \<Rightarrow> Node list \<Rightarrow> Node \<Rightarrow> nat \<Rightarrow> (nat \<Rightarrow> i64 \<times> i64) \<Rightarrow> 'n \<Rightarrow>
     go_error + DefaultGossip \<times> 'n" where
  "antiEntropyRound hk T g0 members self ind readings n =
     (let bucket = antiEntropyBucket g0;
          g = g0\<lparr>antiEntropyBucket := (antiEntropyBucket g0 + 1) mod numBuckets g0\<rparr>
      in case getRandomPeer members self ind of
           Inl err \<Rightarrow> Inr (g, n)
         | Inr peer \<Rightarrow> bind_res (GossipAddr peer) (\<lambda>addr.
             case t_GetKeyDigests T n addr bucket of
               (Inl err, n1) \<Rightarrow> Inr (g, n1)
             | (Inr remoteDigests, n1) \<Rightarrow>
                 let localDigests = KeyDigests (gs_vm g) bucket;
                     staleKeys = FindStaleKeys localDigests (fm_entries remoteDigests)
                 in if length staleKeys = 0 then Inr (g, n1)
                    else (case t_PullKeyStates T n1 addr staleKeys of
                            (Inl err, n2) \<Rightarrow> Inr (g, n2)
                          | (Inr keyStates, n2) \<Rightarrow>
                              bind_res (merge_states hk (gs_vm g) (map (\<lambda>(i, ks). (fst (readings i), snd (readings i), ks)) (enumerate 0 keyStates)))
                                (\<lambda>vm. Inr (g\<lparr>gs_vm := vm\<rparr>, n2)))))"
declare send_loop.simps [simp del]

section \<open>The peers\<close>

lemma filter_self_loop_mset:
  assumes "inds = [k..<length peers]" "n = length peers - 1"
  shows "filter_self_loop peers self n inds = peers \<and> (\<forall>i \<in> set inds. node_ID (peers ! i) \<noteq> node_ID self)
    \<or> (\<exists>m \<in> set peers. node_ID m = node_ID self \<and> add_mset m (mset (filter_self_loop peers self n inds)) = mset peers)"
  using assms(1)
proof (induction inds arbitrary: k)
  case (Cons ind inds)
  have ind: "ind = k" "inds = [Suc k..<length peers]" "k < length peers"
    using Cons.prems by (cases "k < length peers"; simp add: upt_conv_Cons)+
  show ?case
  proof (cases "node_ID (peers ! k) = node_ID self")
    case True
    let ?swapped = "peers[k := peers ! n, n := peers ! k]"
    have n: "n < length peers" "length ?swapped = Suc n" using ind(3) assms(2) by auto
    have last: "?swapped ! n = peers ! k" using n by simp
    have "?swapped = take n ?swapped @ [peers ! k]" using n(2) take_Suc_conv_app_nth [of n ?swapped, unfolded last] by simp
    then have "mset ?swapped = mset (take n ?swapped @ [peers ! k])" by (rule arg_cong)
    moreover have "mset ?swapped = mset peers" using mset_swap [OF n(1) ind(3)] by simp
    ultimately have "add_mset (peers ! k) (mset (take n ?swapped)) = mset peers" by simp
    with True ind(1,3) show ?thesis by (intro disjI2 bexI [of _ "peers ! k"]) auto
  next
    case False
    with Cons.IH [OF ind(2)] ind(1) show ?thesis by auto
  qed
qed simp

lemma filterOutSelf_peers:
  assumes "distinct (map node_ID members)"
  shows "set (filterOutSelf members self) = {m \<in> set members. node_ID m \<noteq> node_ID self}" "distinct (map node_ID (filterOutSelf members self))"
proof -
  let ?f = "filterOutSelf members self"
  note r = filter_self_loop_mset [OF refl refl, of members self 0, folded filterOutSelf_def]
  consider "?f = members" "\<forall>m \<in> set members. node_ID m \<noteq> node_ID self"
    | m where "m \<in> set members" "node_ID m = node_ID self" "add_mset m (mset ?f) = mset members"
    using r by (auto simp: all_set_conv_all_nth)
  then have "set ?f = {m \<in> set members. node_ID m \<noteq> node_ID self} \<and> distinct (map node_ID ?f)"
  proof cases
    case 1
    with assms show ?thesis by auto
  next
    case (2 m)
    then have "mset (map node_ID (m # ?f)) = mset (map node_ID members)" by (metis mset.simps(2) mset_map)
    then have d: "distinct (map node_ID (m # ?f))" using assms mset_eq_imp_distinct_iff by blast
    have "set members = insert m (set ?f)" by (metis 2(3) set_mset_add_mset_insert set_mset_mset)
    with 2 d show ?thesis by (auto simp: image_iff)
  qed
  then show "set ?f = {m \<in> set members. node_ID m \<noteq> node_ID self}" "distinct (map node_ID ?f)" by blast+
qed

section \<open>Sending reaches enough peers\<close>

text \<open>Whether a peer takes the data: it has an address, and sending to that address succeeds or fails, the same
  at every attempt.\<close>

definition takes :: "'n transport \<Rightarrow> Update list \<Rightarrow> (Node \<Rightarrow> bool) \<Rightarrow> Node \<Rightarrow> bool" where
  "takes T data up peer \<longleftrightarrow> (\<exists>addr. GossipAddr peer = Inr addr \<and> (\<forall>n. fst (t_Send T n addr data) = None \<longleftrightarrow> up peer))"

lemma send_try_takes:
  assumes "takes T data up peer" "0 < retries"
  shows "\<exists>n'. send_try T peer data retries n = Inr (up peer, n')"
proof -
  obtain addr where a: "GossipAddr peer = Inr addr" "\<And>n. fst (t_Send T n addr data) = None \<longleftrightarrow> up peer" using assms(1) by (auto simp: takes_def)
  have fail: "\<exists>n'. send_try T peer data k n = Inr (False, n')" if down: "\<not> up peer" for k n
  proof (induction k arbitrary: n)
    case (Suc k)
    obtain err n1 where "t_Send T n addr data = (Some err, n1)" using a(2) [of n] down by (cases "t_Send T n addr data") auto
    with Suc a(1) show ?case by simp
  qed simp
  show ?thesis
  proof (cases "up peer")
    case True
    then have "fst (t_Send T n addr data) = None" using a(2) by simp
    then obtain n1 where "t_Send T n addr data = (None, n1)" by (metis prod.collapse)
    with a(1) True assms(2) show ?thesis by (cases retries) auto
  next
    case False
    with fail show ?thesis by simp
  qed
qed

text \<open>What \<open>Send\<close> promises, for the peers \<open>ups\<close> that take the data.\<close>

definition sent_well :: "nat set \<Rightarrow> int \<Rightarrow> go_error option \<Rightarrow> nat list \<Rightarrow> bool" where
  "sent_well ups fanout err sent \<longleftrightarrow> distinct sent \<and> set sent \<subseteq> ups
     \<and> (case err of None \<Rightarrow> int (length sent) = max 0 fanout
        | Some e \<Rightarrow> e = ErrTooFewPeers \<and> set sent = ups \<and> int (card ups) < fanout)"

lemma send_loop_done:
  "fanout \<le> successNum \<Longrightarrow> send_loop T peers fanout retries data draws picked successNum sent n = Some (None, sent, n)"
  "successNum < fanout \<Longrightarrow> set_Size picked = length peers \<Longrightarrow>
    send_loop T peers fanout retries data draws picked successNum sent n = Some (Some ErrTooFewPeers, sent, n)"
  by (simp_all add: send_loop.simps [of T peers fanout])

lemma sent_well_done:
  assumes "distinct sent" "set sent \<subseteq> ups" "int (length sent) \<le> max 0 fanout" "set sent = ups \<or> fanout \<le> int (length sent)"
  shows "sent_well ups fanout (if fanout \<le> int (length sent) then None else Some ErrTooFewPeers) sent"
  using assms distinct_card [OF assms(1)] by (auto simp: sent_well_def)

lemma send_loop_reaches:
  assumes "\<And>i. i < length peers \<Longrightarrow> takes T data up (peers ! i)" "0 < retries"
  shows "elems picked \<subseteq> {..<length peers} \<Longrightarrow> set draws \<subseteq> {..<length peers} \<Longrightarrow> {..<length peers} - elems picked \<subseteq> set draws \<Longrightarrow>
    distinct sent \<Longrightarrow> set sent = {i \<in> elems picked. up (peers ! i)} \<Longrightarrow> int (length sent) \<le> max 0 fanout \<Longrightarrow>
    \<exists>err sent' n'. send_loop T peers fanout retries data draws picked (int (length sent)) sent n = Some (err, sent', n')
      \<and> sent_well {i. i < length peers \<and> up (peers ! i)} fanout err sent'"
proof (induction draws arbitrary: picked sent n)
  case Nil
  let ?ups = "{i. i < length peers \<and> up (peers ! i)}"
  have full: "elems picked = {..<length peers}" using Nil.prems(1,3) by auto
  then have "set_Size picked = length peers" by (simp add: go_set.size_of)
  moreover have "set sent = ?ups" using Nil.prems(5) full by auto
  ultimately show ?case using sent_well_done [of sent ?ups fanout] Nil.prems(4,6)
    by (cases "fanout \<le> int (length sent)") (simp_all add: send_loop_done)
next
  case (Cons ind draws)
  let ?ups = "{i. i < length peers \<and> up (peers ! i)}"
  have ind: "ind < length peers" using Cons.prems(2) by simp
  consider "int (length sent) \<ge> fanout" | "int (length sent) < fanout" "set_Size picked = length peers"
    | "int (length sent) < fanout" "set_Size picked \<noteq> length peers" "ind \<in> elems picked"
    | "int (length sent) < fanout" "set_Size picked \<noteq> length peers" "ind \<notin> elems picked" by linarith
  then show ?case
  proof cases
    case 1
    then show ?thesis using sent_well_done [of sent ?ups fanout] Cons.prems(1,4,5,6) by (auto simp: send_loop_done)
  next
    case 2
    then have "elems picked = {..<length peers}" using go_set.all_marked [of "{..<length peers}" picked] Cons.prems(1) by simp
    then have "set sent = ?ups" using Cons.prems(5) by auto
    with 2 show ?thesis using sent_well_done [of sent ?ups fanout] Cons.prems(4,6) by (simp add: send_loop_done)
  next
    case 3
    have "\<exists>err sent' n'. send_loop T peers fanout retries data draws picked (int (length sent)) sent n = Some (err, sent', n')
        \<and> sent_well ?ups fanout err sent'"
      by (rule Cons.IH) (use Cons.prems 3 in auto)
    with 3 show ?thesis by (simp add: send_loop.simps [of T peers fanout retries data "ind # draws"] go_set.contains)
  next
    case 4
    obtain n1 where t: "send_try T (peers ! ind) data (nat retries) n = Inr (up (peers ! ind), n1)"
      using send_try_takes [OF assms(1) [OF ind], of "nat retries" n] assms(2) by auto
    let ?sent = "if up (peers ! ind) then sent @ [ind] else sent"
    have "\<exists>err sent' n'. send_loop T peers fanout retries data draws (set_Add picked ind) (int (length ?sent)) ?sent n1 = Some (err, sent', n')
        \<and> sent_well ?ups fanout err sent'"
      by (rule Cons.IH) (use Cons.prems 4 ind in \<open>auto simp: go_set.add\<close>)
    moreover have "int (length ?sent) = (if up (peers ! ind) then int (length sent) + 1 else int (length sent))" by simp
    ultimately show ?thesis using 4 t
      by (simp add: send_loop.simps [of T peers fanout retries data "ind # draws"] go_set.contains split del: if_split)
  qed
qed
text \<open>C11. \<open>Send\<close> ends once the random numbers have named every peer, and does its job: it hands the data to different
  peers, never to the node itself, exactly as many as the fan-out asks for when there are that many peers. It fails
  if and only if fewer than that take the data, and then every peer that takes the data has got it.\<close>

theorem Send_reaches_peers:
  assumes "distinct (map node_ID members)" "peers = filterOutSelf members self" "set draws = {..<length peers}"
    and "\<And>peer. peer \<in> set peers \<Longrightarrow> takes T data up peer" "0 < Retries (gs_config g)"
    and "fanout = min (int (length peers)) (Fanout (gs_config g))"
  shows "\<exists>err sent n'. gs_Send T g members self draws data n = Some (err, sent, n') \<and> distinct sent
    \<and> (\<forall>i \<in> set sent. peers ! i \<in> set members \<and> node_ID (peers ! i) \<noteq> node_ID self \<and> up (peers ! i))
    \<and> (err = None \<longleftrightarrow> fanout \<le> int (card {m \<in> set members. node_ID m \<noteq> node_ID self \<and> up m}))
    \<and> (err = None \<longrightarrow> int (length sent) = max 0 fanout)
    \<and> (err \<noteq> None \<longrightarrow> err = Some ErrTooFewPeers \<and> (!) peers ` set sent = {m \<in> set members. node_ID m \<noteq> node_ID self \<and> up m})"
proof -
  let ?ups = "{i. i < length peers \<and> up (peers ! i)}" and ?members = "{m \<in> set members. node_ID m \<noteq> node_ID self \<and> up m}"
  have f: "set peers = {m \<in> set members. node_ID m \<noteq> node_ID self}" "distinct (map node_ID peers)"
    using filterOutSelf_peers [OF assms(1), of self] assms(2) by simp_all
  have img: "(!) peers ` ?ups = ?members"
  proof -
    have "(!) peers ` ?ups = {p \<in> set peers. up p}" by (auto simp: in_set_conv_nth)
    then show ?thesis using f(1) by auto
  qed
  have "inj_on ((!) peers) ?ups" using f(2) by (intro inj_on_nth) (auto simp: distinct_map)
  then have card: "card ?ups = card ?members" using card_image [of "(!) peers" ?ups] unfolding img by simp
  have t: "takes T data up (peers ! i)" if "i < length peers" for i using assms(4) that by simp
  obtain err sent n' where s: "send_loop T peers fanout (Retries (gs_config g)) data draws (NewSet []) 0 [] n = Some (err, sent, n')"
      "sent_well ?ups fanout err sent"
    using send_loop_reaches [OF t assms(5), where picked = "NewSet []" and draws = draws and sent = "[]" and fanout = fanout and n = n] assms(3)
    by (auto simp: go_set.empty)
  have "length sent = card (set sent)" "set sent \<subseteq> ?ups" using s(2) distinct_card [of sent] by (auto simp: sent_well_def)
  moreover from this(2) have "card (set sent) \<le> card ?ups" by (rule card_mono [rotated]) simp
  ultimately have ok: "err = None \<longleftrightarrow> fanout \<le> int (card ?ups)" using s(2) by (cases err) (auto simp: sent_well_def)
  have "gs_Send T g members self draws data n = Some (err, sent, n')" using s(1) assms(2,6) by (simp add: gs_Send_def Let_def)
  moreover have "peers ! i \<in> set members \<and> node_ID (peers ! i) \<noteq> node_ID self \<and> up (peers ! i)" if "i \<in> set sent" for i
    using img s(2) that by (auto simp: sent_well_def)
  moreover have "err \<noteq> None \<longrightarrow> err = Some ErrTooFewPeers \<and> (!) peers ` set sent = ?members"
    using s(2) img by (auto simp: sent_well_def)
  ultimately show ?thesis using s(2) ok card by (intro exI [of _ err] exI [of _ sent] exI [of _ n']) (auto simp: sent_well_def)
qed

text \<open>Three members of a cluster, the first of which sends; the third one is down.\<close>

definition sample_member :: "string \<Rightarrow> string \<Rightarrow> Node" where
  "sample_member nm host = \<lparr>mName = nm, mAddr = host, mPort = 1, mMeta = [0, 2, 0, 3]\<rparr>"

definition sample_transport :: "string list transport" where
  "sample_transport = \<lparr>t_Send = (\<lambda>n addr data. if addr = ''h3:2'' then (Some ErrTransport, n) else (None, addr # n)),
     t_Pull = (\<lambda>n addr v. (Inl ErrTransport, n)), t_GetVersion = (\<lambda>n addr. (Inl ErrTransport, n)),
     t_GetKeyDigests = (\<lambda>n addr b. (Inl ErrTransport, n)), t_PullKeyStates = (\<lambda>n addr ks. (Inl ErrTransport, n))\<rparr>"

definition sample_gossip :: "DefaultGossip" where
  "sample_gossip = projr (NewDefaultGossip \<lparr>Fanout = 2, Retries = 3, MaxBatchSize = 2, AntiEntropyInterval = 5000000000, WorkerPoolSize = 2\<rparr> 4 (sample_vm ''n'') 7)"

lemma sample_gossip_simps [simp]:
  "gs_config sample_gossip = \<lparr>Fanout = 2, Retries = 3, MaxBatchSize = 2, AntiEntropyInterval = 5000000000, WorkerPoolSize = 2\<rparr>"
  "NewGossipBuffer 4 = Inr (gs_gbuffer sample_gossip)" "cb_overwrite (gs_gbuffer sample_gossip)"
  by (simp_all add: sample_gossip_def NewDefaultGossip_def NewGossipBuffer_def NewCircularBuffer_def)

theorem Send_reaches_peers_witness:
  "\<exists>sent n'. gs_Send sample_transport sample_gossip [sample_member ''n'' ''h1'', sample_member ''b'' ''h2'', sample_member ''c'' ''h3'']
       (sample_member ''n'' ''h1'') [1, 0, 1] [zero_Update] [] = Some (Some ErrTooFewPeers, sent, n')
     \<and> (!) [sample_member ''c'' ''h3'', sample_member ''b'' ''h2''] ` set sent = {sample_member ''b'' ''h2''}"
proof -
  let ?ms = "[sample_member ''n'' ''h1'', sample_member ''b'' ''h2'', sample_member ''c'' ''h3'']"
  let ?peers = "[sample_member ''c'' ''h3'', sample_member ''b'' ''h2'']" and ?up = "\<lambda>m. mAddr m \<noteq> ''h3''"
  have d: "distinct (map node_ID ?ms)" by (simp add: node_ID_def sample_member_def)
  have p: "?peers = filterOutSelf ?ms (sample_member ''n'' ''h1'')" by code_simp
  have a: "GossipAddr (sample_member nm host) = Inr (host @ '':2'')" for nm host
  proof -
    have "Itoa 2 = ''2''" by code_simp
    then show ?thesis by (simp add: GossipAddr_def sample_member_def metaFromBytes_def be_u16_def)
  qed
  have t: "takes sample_transport [zero_Update] ?up peer" if "peer \<in> set ?peers" for peer
  proof -
    have "takes sample_transport [zero_Update] ?up (sample_member nm host)" for nm host
      unfolding takes_def a by (auto simp: sample_transport_def sample_member_def)
    with that show ?thesis by auto
  qed
  have draws: "set [1, 0, 1] = {..<length ?peers}" by auto
  have ups: "{m \<in> set ?ms. node_ID m \<noteq> node_ID (sample_member ''n'' ''h1'') \<and> ?up m} = {sample_member ''b'' ''h2''}"
    by (auto simp: node_ID_def sample_member_def)
  have r: "0 < Retries (gs_config sample_gossip)" and fo: "2 = min (int (length ?peers)) (Fanout (gs_config sample_gossip))" by simp_all
  obtain err sent n' where s: "gs_Send sample_transport sample_gossip ?ms (sample_member ''n'' ''h1'') [1, 0, 1] [zero_Update] [] = Some (err, sent, n')"
      "err = None \<longleftrightarrow> 2 \<le> int (card {sample_member ''b'' ''h2''})"
      "err \<noteq> None \<longrightarrow> err = Some ErrTooFewPeers \<and> (!) ?peers ` set sent = {sample_member ''b'' ''h2''}"
    using Send_reaches_peers [OF d p draws t r fo, where n = "[]"] unfolding ups by blast
  from s(2) have "err \<noteq> None" by simp
  with s show ?thesis by blast
qed
section \<open>Batches\<close>

text \<open>C26. A batch never exceeds its size: as long as the new updates fit, \<open>processUpdates\<close> sends all of them, with the time
  to live for this cluster, followed by the oldest updates waiting to be forwarded, as many as there is room
  for, and takes exactly those out of the gossip buffer. More new updates than that make it panic.\<close>

theorem batch_fits:
  assumes "cb_wf (gs_gbuffer g)" "cb_overwrite (gs_gbuffer g)" "mx = MaxBatchSize (gs_config g)"
    and "ttl = getTTLNumForAsync hops (int (length members)) (Fanout (gs_config g)) (AntiEntropyInterval (gs_config g) div 1000000000)"
  shows "if int (length u) \<le> mx
    then \<exists>g'. batch_to_send hops g members u
           = Inr (map (\<lambda>x. x\<lparr>TTL := ttl\<rparr>) u @ take (nat (mx - int (length u))) (cb_list (gs_gbuffer g)), g')
         \<and> int (length (map (\<lambda>x. x\<lparr>TTL := ttl\<rparr>) u @ take (nat (mx - int (length u))) (cb_list (gs_gbuffer g)))) \<le> mx
         \<and> cb_list (gs_gbuffer g') = drop (nat (mx - int (length u))) (cb_list (gs_gbuffer g)) \<and> cb_wf (gs_gbuffer g')
    else processUpdates hops T g members self draws u n = Some (Some (Panic MakeNegativeLen), g, n)"
proof (cases "int (length u) \<le> mx")
  case True
  then have "\<exists>gb'. PeekN (gs_gbuffer g) (mx - int (length u)) = Inr (take (nat (mx - int (length u))) (cb_list (gs_gbuffer g)), gb')
      \<and> cb_list gb' = drop (nat (mx - int (length u))) (cb_list (gs_gbuffer g)) \<and> cb_wf gb' \<and> cb_overwrite gb'"
    by (intro PeekN_takes assms) simp
  then show ?thesis using True assms(3,4) by (auto simp: batch_to_send_def Let_def)
next
  case False
  then have "PeekN (gs_gbuffer g) (mx - int (length u)) = Inl (Panic MakeNegativeLen)" by (intro PeekN_negative) simp
  then show ?thesis using False assms(3) by (simp add: processUpdates_def batch_to_send_def Let_def)
qed

theorem batch_fits_witness:
  "\<exists>g'. batch_to_send (\<lambda>n f. 3) sample_gossip [sample_member ''n'' ''h1'', sample_member ''b'' ''h2''] [zero_Update] = Inr ([zero_Update\<lparr>TTL := 3\<rparr>], g')"
proof -
  have w: "cb_wf (gs_gbuffer sample_gossip)" "cb_list (gs_gbuffer sample_gossip) = []"
    using cb_wf_New [of zero_Update 4 True "gs_gbuffer sample_gossip"] sample_gossip_simps(2) by (simp_all add: NewGossipBuffer_def)
  from batch_fits [OF w(1) sample_gossip_simps(3) refl refl, of "[zero_Update]" "\<lambda>n f. 3" "[sample_member ''n'' ''h1'', sample_member ''b'' ''h2'']"] w(2)
  show ?thesis by (auto simp: getTTLNumForAsync_def)
qed

section \<open>Anti-entropy\<close>

text \<open>The transport reaches the server of a peer whose version manager is \<open>R\<close>; \<open>I\<close> holds of the network in between.\<close>

definition answers :: "(string \<Rightarrow> u64) \<Rightarrow> 'n transport \<Rightarrow> string \<Rightarrow> VersionManager \<Rightarrow> ('n \<Rightarrow> bool) \<Rightarrow> bool" where
  "answers hk T addr R I \<longleftrightarrow> (\<forall>n. I n \<longrightarrow>
     (\<forall>b. \<exists>n'. t_GetKeyDigests T n addr b = (Inr (KeyDigests R b), n') \<and> I n')
     \<and> (\<forall>keys. \<exists>n'. t_PullKeyStates T n addr keys = (Inr (map Some (CollectKeyStates hk R keys)), n') \<and> I n'))"

text \<open>The transport of the program answers if new connections to the address can be made and calls on a connection
  run the handlers of the server it leads to.\<close>

definition runs_handlers :: "(string \<Rightarrow> u64) \<Rightarrow> ('n, 'conn) grpc \<Rightarrow> ('conn \<Rightarrow> string) \<Rightarrow> string \<Rightarrow> ('w, 'c) updatesServer \<Rightarrow> bool" where
  "runs_handlers hk g target addr s \<longleftrightarrow>
     (\<forall>n mx. \<exists>conn n'. g_NewClient g n addr mx = (Inr conn, n') \<and> target conn = addr)
     \<and> (\<forall>n conn b. target conn = addr \<longrightarrow> fst (g_GetKeyDigests g n conn b) = Inr (srv_GetKeyDigests s b))
     \<and> (\<forall>n conn keys. target conn = addr \<longrightarrow> fst (g_PullKeyStates g n conn keys) = Inr (srv_PullKeyStates hk s keys))"

lemma GetClient_target:
  assumes "\<forall>n mx. \<exists>conn n'. g_NewClient g n addr mx = (Inr conn, n') \<and> target conn = addr"
    and "\<forall>c. fmlookup (clients p) addr = Some c \<longrightarrow> target c = addr"
  shows "\<exists>conn p' n'. GetClient g p n addr addr = (Inr conn, p', n') \<and> target conn = addr
    \<and> (\<forall>c. fmlookup (clients p') addr = Some c \<longrightarrow> target c = addr)"
proof -
  obtain conn n' where "g_NewClient g n addr (maxMessageSize p) = (Inr conn, n')" "target conn = addr" using assms(1) by blast
  with assms(2) show ?thesis
    by (auto simp: GetClient_def GetClient_lookup_def GetClient_install_def split: option.splits if_splits)
qed

lemma grpc_answers:
  fixes g :: "('n, 'conn) grpc"
  assumes "runs_handlers hk g target addr s"
  shows "answers hk (grpc_transport g) addr (srv_vm s) (\<lambda>(p, n). \<forall>c. fmlookup (clients p) addr = Some c \<longrightarrow> target c = addr)"
  unfolding answers_def
proof (intro allI impI conjI)
  fix pn :: "'conn ClientPool \<times> 'n" and b keys
  assume I: "case pn of (p, n) \<Rightarrow> \<forall>c. fmlookup (clients p) addr = Some c \<longrightarrow> target c = addr"
  obtain p n where pn: "pn = (p, n)" by fastforce
  have new: "\<forall>n mx. \<exists>conn n'. g_NewClient g n addr mx = (Inr conn, n') \<and> target conn = addr" using assms by (simp add: runs_handlers_def)
  obtain conn p' n' where c: "GetClient g p n addr addr = (Inr conn, p', n')" "target conn = addr"
      "\<forall>c. fmlookup (clients p') addr = Some c \<longrightarrow> target c = addr"
    using GetClient_target [where p = p and n = n, OF new] I pn by blast
  have "fst (g_GetKeyDigests g n' conn b) = Inr (KeyDigests (srv_vm s) b)" "fst (g_PullKeyStates g n' conn keys) = Inr (srv_PullKeyStates hk s keys)"
    using assms c(2) by (auto simp: runs_handlers_def srv_GetKeyDigests_def)
  then obtain n1 n2 where "g_GetKeyDigests g n' conn b = (Inr (KeyDigests (srv_vm s) b), n1)"
      "g_PullKeyStates g n' conn keys = (Inr (srv_PullKeyStates hk s keys), n2)" by (metis prod.collapse)
  with c pn show "\<exists>n'. t_GetKeyDigests (grpc_transport g) pn addr b = (Inr (KeyDigests (srv_vm s) b), n')
        \<and> (case n' of (p, n) \<Rightarrow> \<forall>c. fmlookup (clients p) addr = Some c \<longrightarrow> target c = addr)"
      "\<exists>n'. t_PullKeyStates (grpc_transport g) pn addr keys = (Inr (map Some (CollectKeyStates hk (srv_vm s) keys)), n')
        \<and> (case n' of (p, n) \<Rightarrow> \<forall>c. fmlookup (clients p) addr = Some c \<longrightarrow> target c = addr)"
    by (simp_all add: grpc_transport_def tr_GetKeyDigests_def tr_PullKeyStates_def pull_transparent)
qed

lemma merge_states_MergeKeyStates:
  "merge_states hk vm (map (\<lambda>(t, now, ks). (t, now, Some ks)) xs) = bind_res (MergeKeyStates hk vm xs) (\<lambda>(merged, vm'). Inr vm')"
proof (induction hk vm xs rule: MergeKeyStates.induct)
  case (2 hk vm t now ks states)
  have fst: "bind_res (bind_res r (\<lambda>(m, v). Inr (k # m, v))) (\<lambda>(m, v). Inr v) = bind_res r (\<lambda>(m, v). Inr v)"
    for r :: "go_error + string list \<times> VersionManager" and k by (cases r) auto
  show ?case
  proof (cases "MergeKeyState hk vm t now ks")
    case (Inl err)
    with 2 show ?thesis by (cases err) simp_all
  next
    case (Inr vm1)
    with 2 show ?thesis by (simp add: fst)
  qed
qed simp
lemma merge_collected:
  assumes "plain_node hk R" "vm_wf hk vm" "distinct keys"
  shows "\<exists>vm'. merge_states hk vm (map (\<lambda>(i, ks). (fst (readings i), snd (readings i), ks)) (enumerate 0 (map Some (CollectKeyStates hk R keys)))) = Inr vm'
    \<and> vm_wf hk vm' \<and> (\<forall>k. key_entry hk vm' k = (case if k \<in> set keys then key_entry hk R k else None of
         None \<Rightarrow> key_entry hk vm k | Some s \<Rightarrow> Some (pulled_state (key_entry hk vm k) s)))"
proof -
  let ?xs = "map (\<lambda>(i, ks). (fst (readings i), snd (readings i), ks)) (enumerate 0 (CollectKeyStates hk R keys))"
  have "map (\<lambda>(i, ks). (fst (readings i), snd (readings i), ks)) (enumerate 0 (map Some (CollectKeyStates hk R keys)))
      = map (\<lambda>(t, now, ks). (t, now, Some ks)) ?xs"
    by (rule nth_equalityI) (simp_all add: nth_enumerate_eq)
  moreover have "map (\<lambda>x. snd (snd x)) ?xs = CollectKeyStates hk R keys" by (rule nth_equalityI) (simp_all add: nth_enumerate_eq)
  ultimately show ?thesis using MergeKeyStates_pulls [OF assms, of ?xs] merge_states_MergeKeyStates [of hk vm ?xs] by auto
qed

text \<open>C10. A round of anti-entropy with a peer that answers, and whose objects carry names of valid text: it never fails, moves on to the next bucket, and
  leaves the node well-formed. A key of the bucket for which the peer reports a digest that the node does not have, and has an entry, gets what
  \<open>pulled_state\<close> says for counters, registers and tombstones: the peer's state if the node had none, the join of two live objects of one type under the later
  timestamp, otherwise the later of a live object and a tombstone or of two objects of different types; the value of a register arrives as the
  text that its \<open>MarshalJSON\<close> wrote. Every other key is untouched: keys of other buckets, keys whose digests
  agree, and keys that only this node has, which the round does not send to the peer.\<close>

theorem anti_entropy_round:
  assumes "vm_wf hk (gs_vm g)" "plain_node hk R" "answers hk T addr R I" "I n"
    and "ind < length (filterOutSelf members self)" "GossipAddr (filterOutSelf members self ! ind) = Inr addr" "b = antiEntropyBucket g"
  shows "\<exists>g' n'. antiEntropyRound hk T g members self ind readings n = Inr (g', n') \<and> I n' \<and> vm_wf hk (gs_vm g')
    \<and> antiEntropyBucket g' = (b + 1) mod numBuckets g
    \<and> (\<forall>k. key_entry hk (gs_vm g') k
         = (case if fmlookup (KeyDigests R b) k \<in> {None, fmlookup (KeyDigests (gs_vm g) b) k} then None else key_entry hk R k of
              None \<Rightarrow> key_entry hk (gs_vm g) k
            | Some s \<Rightarrow> Some (pulled_state (key_entry hk (gs_vm g) k) s)))"
proof -
  let ?D = "KeyDigests R b" and ?L = "KeyDigests (gs_vm g) b" and ?g = "g\<lparr>antiEntropyBucket := (b + 1) mod numBuckets g\<rparr>"
  let ?stale = "FindStaleKeys ?L (fm_entries ?D)"
  have stale: "k \<in> set ?stale \<longleftrightarrow> fmlookup ?D k \<notin> {None, fmlookup ?L k}" for k
    by (auto simp: FindStaleKeys_filter set_fm_entries image_iff)
  have dist: "distinct ?stale" unfolding FindStaleKeys_filter
    using distinct_fm_entries [of ?D] distinct_map_filter by blast
  have peer: "getRandomPeer members self ind = Inr (filterOutSelf members self ! ind)" using assms(5) by (auto simp: getRandomPeer_def Let_def)
  obtain n1 where n1: "t_GetKeyDigests T n addr b = (Inr ?D, n1)" "I n1" using assms(3,4) unfolding answers_def by blast
  obtain n2 where n2: "t_PullKeyStates T n1 addr ?stale = (Inr (map Some (CollectKeyStates hk R ?stale)), n2)" "I n2"
    using assms(3) n1(2) unfolding answers_def by blast
  obtain vm' where v: "merge_states hk (gs_vm g) (map (\<lambda>(i, ks). (fst (readings i), snd (readings i), ks)) (enumerate 0 (map Some (CollectKeyStates hk R ?stale)))) = Inr vm'"
      "vm_wf hk vm'" "\<forall>k. key_entry hk vm' k = (case if k \<in> set ?stale then key_entry hk R k else None of
         None \<Rightarrow> key_entry hk (gs_vm g) k | Some s \<Rightarrow> Some (pulled_state (key_entry hk (gs_vm g) k) s))"
    using merge_collected [OF assms(2,1) dist] by blast
  define g' where "g' = ?g\<lparr>gs_vm := if ?stale = [] then gs_vm g else vm'\<rparr>"
  have run: "antiEntropyRound hk T g members self ind readings n = Inr (g', if ?stale = [] then n1 else n2)"
    using peer assms(6,7) n1(1) n2(1) v(1) by (simp add: antiEntropyRound_def Let_def g'_def)
  have "(if fmlookup ?D k \<in> {None, fmlookup ?L k} then None else key_entry hk R k) = (if k \<in> set ?stale then key_entry hk R k else None)" for k
    unfolding stale by simp
  then have "key_entry hk (gs_vm g') k = (case if fmlookup ?D k \<in> {None, fmlookup ?L k} then None else key_entry hk R k of
         None \<Rightarrow> key_entry hk (gs_vm g) k | Some s \<Rightarrow> Some (pulled_state (key_entry hk (gs_vm g) k) s))" for k
    using spec [OF v(3), of k] by (cases "?stale = []") (simp_all add: g'_def)
  moreover have "vm_wf hk (gs_vm g')" "antiEntropyBucket g' = (b + 1) mod numBuckets g" using assms(1) v(2) by (simp_all add: g'_def)
  moreover have "I (if ?stale = [] then n1 else n2)" using n1(2) n2(2) by simp
  ultimately show ?thesis using run by blast
qed

text \<open>A library that makes every connection and runs the handlers of one server.\<close>

definition sample_grpc :: "(nat, nat) updatesServer \<Rightarrow> (unit, string) grpc" where
  "sample_grpc s = \<lparr>g_GetState = (\<lambda>n c. ConnReady), g_NewClient = (\<lambda>n addr mx. (Inr addr, n)), g_Close = (\<lambda>n c. (None, n)),
     g_Publish = (\<lambda>n c us. (Some ErrTransport, n)), g_Get = (\<lambda>n c v. (Inl ErrTransport, n)),
     g_GetVersionVector = (\<lambda>n c. (Inr (srv_GetVersionVector s), n)), g_GetKeyDigests = (\<lambda>n c b. (Inr (srv_GetKeyDigests s b), n)),
     g_PullKeyStates = (\<lambda>n c keys. (Inr (srv_PullKeyStates (\<lambda>_. 0) s keys), n))\<rparr>"

lemma sample_grpc_runs: "runs_handlers (\<lambda>_. 0) (sample_grpc s) (\<lambda>c. c) addr s"
  by (simp add: runs_handlers_def sample_grpc_def)

definition sample_remote :: "(nat, nat) updatesServer" where
  "sample_remote = \<lparr>srv_vm = updateKeyStateHash (counter_node ''b'' (Timestamp 2 0 ''b'') (counted ''b'' 4)) ''k'' 5, srv_buffer = 0,
     srv_gbuffer = gs_gbuffer sample_gossip, srv_wal = \<lparr>ww_w = 0, ww_keyGen = NewKeyGen, ww_batch = [], ww_batchSize = 0, ww_batchCap = 1\<rparr>,
     maxUpdatesPerGet = 1\<rparr>"

theorem anti_entropy_round_witness:
  "\<exists>g' n'. antiEntropyRound (\<lambda>_. 0) (grpc_transport (sample_grpc sample_remote))
        (sample_gossip\<lparr>gs_vm := counter_node ''n'' (Timestamp 1 0 ''n'') (counted ''n'' 3), antiEntropyBucket := keyBucket ''k'' 4\<rparr>)
        [sample_member ''n'' ''h1'', sample_member ''b'' ''h2''] (sample_member ''n'' ''h1'') 0 (\<lambda>_. (0, 0)) (NewClientPool 1, ()) = Inr (g', n')
     \<and> key_entry (\<lambda>_. 0) (gs_vm g') ''k''
       = Some (Timestamp 2 0 ''b'', False, CounterView (fmupd ''b'' 4 (fmupd ''n'' 3 fmempty)) fmempty)"
proof -
  let ?R = "srv_vm sample_remote" and ?A = "counter_node ''n'' (Timestamp 1 0 ''n'') (counted ''n'' 3)" and ?b = "keyBucket ''k'' 4"
  let ?g = "sample_gossip\<lparr>gs_vm := ?A, antiEntropyBucket := ?b\<rparr>"
  let ?ms = "[sample_member ''n'' ''h1'', sample_member ''b'' ''h2'']" and ?self = "sample_member ''n'' ''h1''"
  let ?I = "\<lambda>(p, n). \<forall>c. fmlookup (clients p) ''h2:2'' = Some c \<longrightarrow> c = ''h2:2''"
  have pl: "plain ''n''" "plain ''b''" by (auto intro: plain_ascii)
  have n: "0 \<le> sint (3 :: i64)" "0 \<le> sint (4 :: i64)" by simp_all
  note A = counted_node_ok [OF pl(1) n(1), of "''n''" "Timestamp 1 0 ''n''"] and B = counted_node_ok [OF pl(2) n(2), of "''b''" "Timestamp 2 0 ''b''"]
  have "vm_engine ?R = vm_engine (counter_node ''b'' (Timestamp 2 0 ''b'') (counted ''b'' 4))" by (simp add: sample_remote_def)
  with B(2) have "plain_object (entObject ent)" if "GetRaw (\<lambda>_. 0) (vm_engine ?R) key = Some ent" for key ent
    using that unfolding counters_only_def by (metis plain_object.simps(1))
  then have R: "plain_node (\<lambda>_. 0) ?R" by (auto simp: plain_node_def)
  have p: "filterOutSelf ?ms ?self = [sample_member ''b'' ''h2'']" by code_simp
  have a: "GossipAddr (filterOutSelf ?ms ?self ! 0) = Inr ''h2:2''" unfolding p by code_simp
  have d: "fmlookup (KeyDigests ?R ?b) ''k'' = Some 5" "fmlookup (KeyDigests ?A ?b) ''k'' = None" by code_simp+
  have e: "key_entry (\<lambda>_. 0) ?R ''k'' = Some (Timestamp 2 0 ''b'', False, CounterView (fmupd ''b'' 4 fmempty) fmempty)"
      "key_entry (\<lambda>_. 0) ?A ''k'' = Some (Timestamp 1 0 ''n'', False, CounterView (fmupd ''n'' 3 fmempty) fmempty)"
    using A(3) B(3) by (simp_all add: counter_at_def sample_remote_def key_entry_def entry_state_def counted_def)
  have later: "max (Timestamp 1 0 ''n'') (Timestamp 2 0 ''b'') = Timestamp 2 0 ''b''" by (simp add: max_def less_eq_Timestamp_def)
  have sum: "raise_fm (fmupd ''b'' 4 fmempty) (fmupd ''n'' 3 fmempty) = fmupd ''b'' 4 (fmupd ''n'' 3 fmempty)" "raise_fm fmempty fmempty = fmempty"
    by code_simp+
  have g: "gs_vm ?g = ?A" "antiEntropyBucket ?g = ?b" by simp_all
  have pre: "vm_wf (\<lambda>_. 0) (gs_vm ?g)" "?I (NewClientPool 1, ())" "0 < length (filterOutSelf ?ms ?self)"
    using A(1) p by (simp_all add: NewClientPool_def)
  have ans: "answers (\<lambda>_. 0) (grpc_transport (sample_grpc sample_remote)) ''h2:2'' ?R ?I"
    using grpc_answers [OF sample_grpc_runs, of sample_remote "''h2:2''"] by simp
  note round = anti_entropy_round [where g = ?g and I = ?I and readings = "\<lambda>_. (0, 0)", OF pre(1) R ans pre(2,3) a refl]
  from round obtain g' n' where r: "antiEntropyRound (\<lambda>_. 0) (grpc_transport (sample_grpc sample_remote)) ?g ?ms ?self 0 (\<lambda>_. (0, 0)) (NewClientPool 1, ()) = Inr (g', n')"
      "\<forall>k. key_entry (\<lambda>_. 0) (gs_vm g') k
         = (case if fmlookup (KeyDigests ?R (antiEntropyBucket ?g)) k \<in> {None, fmlookup (KeyDigests (gs_vm ?g) (antiEntropyBucket ?g)) k} then None else key_entry (\<lambda>_. 0) ?R k of
              None \<Rightarrow> key_entry (\<lambda>_. 0) (gs_vm ?g) k
            | Some s \<Rightarrow> Some (pulled_state (key_entry (\<lambda>_. 0) (gs_vm ?g) k) s))" by blast
  have "key_entry (\<lambda>_. 0) (gs_vm g') ''k'' = Some (Timestamp 2 0 ''b'', False, CounterView (fmupd ''b'' 4 (fmupd ''n'' 3 fmempty)) fmempty)"
    using spec [OF r(2), of "''k''", unfolded g] d e later sum by simp
  with r(1) show ?thesis by blast
qed

text \<open>The buckets take turns: as many rounds as there are buckets visit every bucket.\<close>

lemma buckets_take_turns:
  assumes "b < DefaultNumBuckets" "c < DefaultNumBuckets"
  shows "\<exists>i < unat DefaultNumBuckets. ((\<lambda>b. (b + 1) mod DefaultNumBuckets) ^^ i) b = c"
proof -
  have four: "x \<in> {0, 1, 2, 3}" if "x < DefaultNumBuckets" for x
  proof -
    from that have "unat x \<in> {0, 1, 2, 3}" by (auto simp: DefaultNumBuckets_def word_less_nat_alt)
    then have "(of_nat (unat x) :: u32) \<in> of_nat ` {0, 1, 2, 3}" by (rule imageI)
    then show ?thesis by simp
  qed
  let ?next = "\<lambda>b :: u32. (b + 1) mod DefaultNumBuckets"
  have "list_all (\<lambda>b. list_all (\<lambda>c. list_ex (\<lambda>i. (?next ^^ i) b = c) [0, 1, 2, 3]) [0, 1, 2, 3]) [0, 1, 2, 3]" by code_simp
  then have "\<exists>i \<in> {0, 1, 2, 3}. (?next ^^ i) b = c"
    using four [OF assms(1)] four [OF assms(2)] unfolding list_all_iff list_ex_iff by (simp only: list.set)
  then obtain i where "i \<in> {0, 1, 2, 3}" "(?next ^^ i) b = c" by blast
  then show ?thesis by (intro exI [of _ i]) (auto simp: DefaultNumBuckets_def)
qed

end
