(* ===== verification/Node_Server.thy ===== *)
theory Node_Server
  imports Storage
begin

text \<open>
  The server of the clients, \<open>cmd/grpc/app\<close>: the types of the API and their conversion (\<open>converters.go\<close>) and the
  handlers (\<open>server.go\<close>), which call the storage, behind the interceptor that turns a panic into an error. The server
  has no state besides its storage. Lemmas: \<open>Get\<close> always answers, with data of the type it announces; what a
  client reads after each of its writes.
\<close>

section \<open>Types and converters\<close>

text \<open>An enumeration of the API is open: it may hold any 32-bit number.\<close>

type_synonym lume_Type = "32 word"

definition TYPE_NOT_SPECIFIED :: lume_Type where "TYPE_NOT_SPECIFIED = 0"
definition TYPE_PN_COUNTER :: lume_Type where "TYPE_PN_COUNTER = 1"
definition TYPE_LWW_REGISTER :: lume_Type where "TYPE_LWW_REGISTER = 2"

lemmas lume_Types = TYPE_NOT_SPECIFIED_def TYPE_PN_COUNTER_def TYPE_LWW_REGISTER_def

definition toDomainTypeMapping :: "(lume_Type \<times> CRDTType) list" where
  "toDomainTypeMapping = [(TYPE_PN_COUNTER, CRDTTypePNCounter), (TYPE_LWW_REGISTER, CRDTTypeLWWHLCRegister)]"

definition fromDomainTypeMapping :: "(CRDTType \<times> lume_Type) list" where
  "fromDomainTypeMapping = [(CRDTTypePNCounter, TYPE_PN_COUNTER), (CRDTTypeLWWHLCRegister, TYPE_LWW_REGISTER)]"

definition toDomainCRDTType :: "lume_Type \<Rightarrow> go_error + CRDTType" where
  "toDomainCRDTType t = (case map_of toDomainTypeMapping t of None \<Rightarrow> Inl ErrUnsupportedType | Some domainType \<Rightarrow> Inr domainType)"

definition fromDomainCRDTType :: "CRDTType \<Rightarrow> go_error + lume_Type" where
  "fromDomainCRDTType t = (case map_of fromDomainTypeMapping t of None \<Rightarrow> Inl ErrUnsupportedType | Some domainType \<Rightarrow> Inr domainType)"

datatype response_data = CounterData i64 | RegisterData bytes

record GetResponse =
  respCrdtType :: lume_Type
  respOk :: bool
  respData :: "response_data option"

text \<open>The type assertions on the dynamic value.\<close>

fun as_int64 :: "crdt_value option \<Rightarrow> go_error + i64" where
  "as_int64 (Some (IntValue v)) = Inr v"
| "as_int64 _ = Inl (Panic (ExplicitPanic ''interface conversion''))"

fun as_RawMessage :: "crdt_value option \<Rightarrow> go_error + bytes" where
  "as_RawMessage (Some (RawValue v)) = Inr v"
| "as_RawMessage _ = Inl (Panic (ExplicitPanic ''interface conversion''))"

definition toGetResponse :: "crdt_value option \<Rightarrow> CRDTType \<Rightarrow> bool \<Rightarrow> go_error + GetResponse" where
  "toGetResponse val typ ok =
     (if \<not> ok then Inr \<lparr>respCrdtType = TYPE_NOT_SPECIFIED, respOk = False, respData = None\<rparr>
      else bind_res (fromDomainCRDTType typ) (\<lambda>convertedType.
        if typ = CRDTTypePNCounter then
          bind_res (as_int64 val) (\<lambda>v. Inr \<lparr>respCrdtType = convertedType, respOk = ok, respData = Some (CounterData v)\<rparr>)
        else if typ = CRDTTypeLWWHLCRegister then
          bind_res (as_RawMessage val) (\<lambda>v. Inr \<lparr>respCrdtType = convertedType, respOk = ok, respData = Some (RegisterData v)\<rparr>)
        else Inl ErrUnsupportedType))"

section \<open>Handlers\<close>

definition ns_Set ::
    "(string \<Rightarrow> u64) \<Rightarrow> 'c lru \<Rightarrow> 'w gowal \<Rightarrow> ('w, 'c) Storage \<Rightarrow> i64 \<Rightarrow> string \<Rightarrow> lume_Type \<Rightarrow> (go_error + unit) \<times> ('w, 'c) Storage" where
  "ns_Set hk L G s t key ty =
     (case toDomainCRDTType ty of
        Inl err \<Rightarrow> (Inl err, s)
      | Inr domainType \<Rightarrow>
          (case st_Put hk L G s t key domainType of
             (Some err, s') \<Rightarrow> (Inl err, s')
           | (None, s') \<Rightarrow> (Inr (), s')))"

definition ns_Get :: "(string \<Rightarrow> u64) \<Rightarrow> ('w, 'c) Storage \<Rightarrow> string \<Rightarrow> go_error + GetResponse" where
  "ns_Get hk s key =
     (case st_Get hk s key of
        None \<Rightarrow> toGetResponse None '''' False
      | Some (val, typ) \<Rightarrow> toGetResponse (Some val) typ True)"

definition ns_Delete ::
    "(string \<Rightarrow> u64) \<Rightarrow> 'c lru \<Rightarrow> 'w gowal \<Rightarrow> ('w, 'c) Storage \<Rightarrow> i64 \<Rightarrow> i64 \<Rightarrow> string \<Rightarrow> (go_error + bool) \<times> ('w, 'c) Storage" where
  "ns_Delete hk L G s t now key =
     (case st_Delete hk L G s t now key of
        ((ok, Some err), s') \<Rightarrow> (Inl err, s')
      | ((ok, None), s') \<Rightarrow> (Inr ok, s'))"

text \<open>\<open>NoOperation\<close> is a request without operation.\<close>

datatype operation = CounterOperationInc i64 | CounterOperationDec i64 | RegisterOperation bytes | NoOperation

fun ns_Apply ::
    "(string \<Rightarrow> u64) \<Rightarrow> 'c lru \<Rightarrow> 'w gowal \<Rightarrow> ('w, 'c) Storage \<Rightarrow> i64 \<Rightarrow> i64 \<Rightarrow> string \<Rightarrow> operation \<Rightarrow> (go_error + unit) \<times> ('w, 'c) Storage" where
  "ns_Apply hk L G s tr t key (CounterOperationInc v) =
     (case ApplyInc hk L G s t key v of ((ok, Some err), s') \<Rightarrow> (Inl err, s') | ((ok, None), s') \<Rightarrow> (Inr (), s'))"
| "ns_Apply hk L G s tr t key (CounterOperationDec v) =
     (case ApplyDec hk L G s t key v of ((ok, Some err), s') \<Rightarrow> (Inl err, s') | ((ok, None), s') \<Rightarrow> (Inr (), s'))"
| "ns_Apply hk L G s tr t key (RegisterOperation v) =
     (case ApplySetRegister hk L G s tr t key v of ((ok, Some err), s') \<Rightarrow> (Inl err, s') | ((ok, None), s') \<Rightarrow> (Inr (), s'))"
| "ns_Apply hk L G s tr t key NoOperation = (Inl ErrUnknownOperation, s)"

text \<open>The interceptor in front of every handler.\<close>

fun UnaryPanicRecovery :: "(go_error + 'a) \<Rightarrow> go_error + 'a" where
  "UnaryPanicRecovery (Inl (Panic p)) = Inl ErrInternal"
| "UnaryPanicRecovery resp = resp"

section \<open>Answers are well typed\<close>

lemma type_mappings:
  "toDomainCRDTType ty = (if ty = TYPE_PN_COUNTER then Inr CRDTTypePNCounter else if ty = TYPE_LWW_REGISTER then Inr CRDTTypeLWWHLCRegister
     else Inl ErrUnsupportedType)"
  "fromDomainCRDTType CRDTTypePNCounter = Inr TYPE_PN_COUNTER" "fromDomainCRDTType CRDTTypeLWWHLCRegister = Inr TYPE_LWW_REGISTER"
  "CRDTTypePNCounter \<noteq> CRDTTypeLWWHLCRegister"
  by (auto simp: toDomainCRDTType_def toDomainTypeMapping_def fromDomainCRDTType_def fromDomainTypeMapping_def CRDTTypePNCounter_def
      CRDTTypeLWWHLCRegister_def)

text \<open>The response that shows an object.\<close>

fun response_of :: "crdt \<Rightarrow> GetResponse" where
  "response_of (Counter c) = \<lparr>respCrdtType = TYPE_PN_COUNTER, respOk = True, respData = Some (CounterData (PNCounter_Value c))\<rparr>"
| "response_of (Register r) = \<lparr>respCrdtType = TYPE_LWW_REGISTER, respOk = True, respData = Some (RegisterData (LWWHLCRegister_Read r))\<rparr>"

abbreviation absent :: GetResponse where
  "absent \<equiv> \<lparr>respCrdtType = TYPE_NOT_SPECIFIED, respOk = False, respData = None\<rparr>"

lemma ns_Get_shows: "ns_Get hk s key = Inr (case eng_Get hk (st_engine s) key of None \<Rightarrow> absent | Some ent \<Rightarrow> response_of (entObject ent))"
proof (cases "eng_Get hk (st_engine s) key")
  case None
  then show ?thesis by (simp add: ns_Get_def st_Get_def toGetResponse_def)
next
  case (Some ent)
  then have "\<not> entTombstone ent" by (auto simp: eng_Get_def split: option.splits if_splits)
  with Some show ?thesis using type_mappings
    by (cases "entObject ent") (simp_all add: ns_Get_def st_Get_def toGetResponse_def CRDTTypePNCounter_def CRDTTypeLWWHLCRegister_def)
qed

text \<open>C27. Reads are total and well typed: in every state of the storage and for every key, \<open>Get\<close> answers without error and
  without panic, and the data of the answer is of the announced type: a counter value with the type of counters,
  bytes with the type of registers, and no data with the unspecified type, which marks an absent key.\<close>

theorem Get_well_typed:
  "\<exists>resp. UnaryPanicRecovery (ns_Get hk s key) = Inr resp \<and> ns_Get hk s key = Inr resp
     \<and> (case respData resp of
          None \<Rightarrow> respCrdtType resp = TYPE_NOT_SPECIFIED \<and> \<not> respOk resp
        | Some (CounterData v) \<Rightarrow> respCrdtType resp = TYPE_PN_COUNTER \<and> respOk resp
        | Some (RegisterData v) \<Rightarrow> respCrdtType resp = TYPE_LWW_REGISTER \<and> respOk resp)"
proof (cases "eng_Get hk (st_engine s) key")
  case (Some ent)
  then show ?thesis by (cases "entObject ent") (simp_all add: ns_Get_shows)
qed (simp add: ns_Get_shows)

section \<open>What a client reads\<close>

lemma buffer_put_engine: "buffer_put L s u d = (err, s') \<Longrightarrow> st_engine s' = st_engine s"
  by (auto simp: buffer_put_def Let_def split: prod.splits sum.splits)

lemma log_engine:
  "buffer_then_log L G s u d = (err, s') \<Longrightarrow> st_engine s' = st_engine s"
  "log_then_buffer L G walErr s u d = (err, s') \<Longrightarrow> st_engine s' = st_engine s"
  by (auto simp: buffer_then_log_def log_then_buffer_def split: sum.splits prod.splits option.splits
      dest!: buffer_put_engine wal_append_rest local_update_buffer(5))
lemma log_engine_snd [simp]:
  "st_engine (snd (buffer_then_log L G s u d)) = st_engine s" "st_engine (snd (log_then_buffer L G walErr s u d)) = st_engine s"
  using log_engine by (metis prod.collapse)+

text \<open>The abstract server: a map from keys to answers, and what each request makes of the answer of its key.\<close>

datatype client_op = ClientSet lume_Type | ClientDelete | ClientApply operation

fun expected :: "client_op \<Rightarrow> GetResponse \<Rightarrow> GetResponse" where
  "expected (ClientSet ty) old =
     (if ty = TYPE_PN_COUNTER then \<lparr>respCrdtType = ty, respOk = True, respData = Some (CounterData 0)\<rparr>
      else if ty = TYPE_LWW_REGISTER then \<lparr>respCrdtType = ty, respOk = True, respData = Some (RegisterData [])\<rparr> else old)"
| "expected ClientDelete old = absent"
| "expected (ClientApply (CounterOperationInc x)) old =
     (case respData old of Some (CounterData v) \<Rightarrow> old\<lparr>respData := Some (CounterData (v + x))\<rparr> | _ \<Rightarrow> old)"
| "expected (ClientApply (CounterOperationDec x)) old =
     (case respData old of Some (CounterData v) \<Rightarrow> old\<lparr>respData := Some (CounterData (v - x))\<rparr> | _ \<Rightarrow> old)"
| "expected (ClientApply (RegisterOperation b)) old =
     (case respData old of Some (RegisterData v) \<Rightarrow> old\<lparr>respData := Some (RegisterData b)\<rparr> | _ \<Rightarrow> old)"
| "expected (ClientApply NoOperation) old = old"

text \<open>A request with its readings of the clocks, and the storage it leaves, whether it succeeded or not.\<close>

type_synonym client_request = "i64 \<times> i64 \<times> i64 \<times> string \<times> client_op"

fun serve :: "(string \<Rightarrow> u64) \<Rightarrow> 'c lru \<Rightarrow> 'w gowal \<Rightarrow> client_request \<Rightarrow> ('w, 'c) Storage \<Rightarrow> ('w, 'c) Storage" where
  "serve hk L G (tr, t, now, key, ClientSet ty) s = snd (ns_Set hk L G s t key ty)"
| "serve hk L G (tr, t, now, key, ClientDelete) s = snd (ns_Delete hk L G s t now key)"
| "serve hk L G (tr, t, now, key, ClientApply oper) s = snd (ns_Apply hk L G s tr t key oper)"

definition answer :: "(string \<Rightarrow> u64) \<Rightarrow> Engine \<Rightarrow> string \<Rightarrow> GetResponse" where
  "answer hk e key = (case eng_Get hk e key of None \<Rightarrow> absent | Some ent \<Rightarrow> response_of (entObject ent))"

definition engine_ok :: "(string \<Rightarrow> u64) \<Rightarrow> Engine \<Rightarrow> bool" where
  "engine_ok hk e \<longleftrightarrow> eng_wf e \<and> (\<forall>key ent. GetRaw hk e key = Some ent \<longrightarrow> crdt_ok (entObject ent))"

lemma answer_cong: "GetRaw hk e k = GetRaw hk e' k \<Longrightarrow> answer hk e k = answer hk e' k"
  by (simp add: answer_def eng_Get_def)

lemma live_entry: "engine_ok hk e \<Longrightarrow> eng_Get hk e key = Some ent \<Longrightarrow> \<not> entTombstone ent \<and> crdt_ok (entObject ent)"
  by (fastforce simp: engine_ok_def eng_Get_def split: option.splits if_splits)

text \<open>A request that stores one good entry under its key, or none.\<close>

definition one_write :: "(string \<Rightarrow> u64) \<Rightarrow> Engine \<Rightarrow> string \<Rightarrow> Engine \<Rightarrow> GetResponse \<Rightarrow> bool" where
  "one_write hk e key e' resp \<longleftrightarrow> engine_ok hk e' \<and> answer hk e' key = resp \<and> (\<forall>k. k \<noteq> key \<longrightarrow> answer hk e' k = answer hk e k)"

lemma one_write_same: "engine_ok hk e \<Longrightarrow> resp = answer hk e key \<Longrightarrow> one_write hk e key e resp"
  by (simp add: one_write_def)

lemma one_write_entry:
  assumes "engine_ok hk e" "eng_wf e'" "\<And>k. GetRaw hk e' k = (if k = key then Some ent else GetRaw hk e k)" "crdt_ok (entObject ent)"
    and "resp = (if entTombstone ent then absent else response_of (entObject ent))"
  shows "one_write hk e key e' resp"
  using assms by (auto simp: one_write_def engine_ok_def answer_def eng_Get_def)

lemma publish_delta_write:
  assumes "engine_ok hk (st_engine s)" "eng_Get hk (st_engine s) key = Some entry" "crdt_ok obj" "response_of obj = resp"
  shows "one_write hk (st_engine s) key (st_engine (snd (publish_delta hk L G walErr s t key entry obj d))) resp"
proof -
  have wf: "eng_wf (st_engine s)" and live: "\<not> entTombstone entry"
    using assms(1,2) by (auto simp: engine_ok_def eng_Get_def split: option.splits if_splits)
  let ?e = "eng_store hk (st_engine s) key (entry\<lparr>entObject := obj\<rparr>)"
  obtain ts clk where now: "hlc_Now (eng_clock ?e) t = (ts, clk)" by fastforce
  have "st_engine (snd (publish_delta hk L G walErr s t key entry obj d)) = ?e\<lparr>eng_clock := clk\<rparr>"
    using now by (auto simp: publish_delta_def Let_def set_engine_def split: prod.splits option.splits dest: log_engine)
  moreover have "one_write hk (st_engine s) key (?e\<lparr>eng_clock := clk\<rparr>) resp"
    by (rule one_write_entry [OF assms(1), of _ key "entry\<lparr>entObject := obj\<rparr>"]) (use wf live assms(3,4) in \<open>auto simp: eng_simps\<close>)
  ultimately show ?thesis by simp
qed
lemma st_Put_write:
  assumes "engine_ok hk (st_engine s)" "fabric_New ty (st_nodeID s) = Inr val"
  shows "one_write hk (st_engine s) key (st_engine (snd (st_Put hk L G s t key ty))) (response_of val)"
proof -
  obtain nilDelta where d: "NilDelta ty = Inr nilDelta" using assms(2) by (auto simp: fabric_New_def NilDelta_def split: if_splits)
  obtain ts clk where now: "hlc_Now (eng_clock (st_engine s)) t = (ts, clk)" by fastforce
  let ?base = "(st_engine s)\<lparr>eng_clock := clk\<rparr>"
  have eng: "st_engine (snd (st_Put hk L G s t key ty)) = snd (PutWithTimeStamp hk ?base ts key val)"
    using assms(2) d now by (auto simp: st_Put_def eng_Put_def set_engine_def Let_def split: prod.splits dest: log_engine)
  have wf: "eng_wf ?base" using assms(1) by (simp add: engine_ok_def)
  have "crdt_ok val" using assms(2) by (auto simp: fabric_New_def NewPNCounter_def NewLWWHLCRegister_def pn_wf_def split: if_splits)
  then show ?thesis unfolding eng
    by (intro one_write_entry [OF assms(1), of _ key "\<lparr>entObject = val, entTombstone = False, entSetTimeStamp = ts\<rparr>"])
      (use wf in \<open>auto simp: eng_simps\<close>)
qed

lemma st_Delete_write:
  assumes "engine_ok hk (st_engine s)"
  shows "one_write hk (st_engine s) key (st_engine (snd (st_Delete hk L G s t now key))) absent"
proof -
  obtain ts clk where now: "hlc_Now (eng_clock (st_engine s)) t = (ts, clk)" by fastforce
  let ?base = "(st_engine s)\<lparr>eng_clock := clk\<rparr>"
  have wf: "eng_wf ?base" using assms by (simp add: engine_ok_def)
  have eng: "st_engine (snd (st_Delete hk L G s t now key)) = snd (DeleteWithTimeStamp hk ?base now ts key)"
    using now by (auto simp: st_Delete_def eng_Delete_def set_engine_def Let_def split: prod.splits option.splits dest: log_engine)
  show ?thesis
  proof (cases "GetRaw hk (st_engine s) key")
    case None
    then have "snd (DeleteWithTimeStamp hk ?base now ts key) = ?base" by (simp add: DeleteWithTimeStamp_def)
    moreover have "answer hk ?base k = answer hk (st_engine s) k" for k by (rule answer_cong) simp
    ultimately show ?thesis unfolding eng using assms None by (simp add: one_write_def engine_ok_def answer_def eng_Get_def)
  next
    case (Some ent)
    have "crdt_ok (entObject ent)" using assms Some by (auto simp: engine_ok_def)
    then show ?thesis unfolding eng
      by (intro one_write_entry [OF assms, of _ key "ent\<lparr>entTombstone := True, entSetTimeStamp := ts\<rparr>"]) (use wf Some in \<open>auto simp: eng_simps\<close>)
  qed
qed

lemma ns_Apply_snd:
  "snd (ns_Apply hk L G s tr t key (CounterOperationInc x)) = snd (ApplyInc hk L G s t key x)"
  "snd (ns_Apply hk L G s tr t key (CounterOperationDec x)) = snd (ApplyDec hk L G s t key x)"
  "snd (ns_Apply hk L G s tr t key (RegisterOperation b)) = snd (ApplySetRegister hk L G s tr t key b)"
  "snd (ns_Apply hk L G s tr t key NoOperation) = s"
  by (simp_all split: prod.split option.split)

lemma ns_Apply_counter:
  assumes "engine_ok hk (st_engine s)" "eng_Get hk (st_engine s) key = Some entry" "entObject entry = Counter c"
  shows "one_write hk (st_engine s) key (st_engine (snd (ns_Apply hk L G s tr t key oper))) (expected (ClientApply oper) (response_of (Counter c)))"
proof -
  have live: "\<not> entTombstone entry" "pn_wf c" using live_entry [OF assms(1,2)] assms(3) by simp_all
  note pd = publish_delta_write [OF assms(1,2)]
  have same: "one_write hk (st_engine s) key (st_engine s) (response_of (Counter c))"
    using assms by (intro one_write_same) (simp_all add: answer_def)
  show ?thesis
  proof (cases oper)
    case (CounterOperationInc x)
    obtain d c' where "Increment c x = Inr (d, c')" "pn_wf c'" "PNCounter_Value c' = PNCounter_Value c + x" using Increment_value [OF live(2), of x] by blast
    with CounterOperationInc assms(2,3) live(1) pd [of "Counter c'"] show ?thesis unfolding CounterOperationInc ns_Apply_snd by (simp add: ApplyInc_def)
  next
    case (CounterOperationDec x)
    obtain d c' where "Decrement c x = Inr (d, c')" "pn_wf c'" "PNCounter_Value c' = PNCounter_Value c - x" using Decrement_value [OF live(2), of x] by blast
    with CounterOperationDec assms(2,3) live(1) pd [of "Counter c'"] show ?thesis unfolding CounterOperationDec ns_Apply_snd by (simp add: ApplyDec_def)
  next
    case (RegisterOperation b)
    with assms(2,3) live(1) same show ?thesis unfolding RegisterOperation ns_Apply_snd by (simp add: ApplySetRegister_def)
  qed (use same in simp)
qed

lemma ns_Apply_register:
  assumes "engine_ok hk (st_engine s)" "eng_Get hk (st_engine s) key = Some entry" "entObject entry = Register r"
  shows "one_write hk (st_engine s) key (st_engine (snd (ns_Apply hk L G s tr t key oper))) (expected (ClientApply oper) (response_of (Register r)))"
proof -
  have live: "\<not> entTombstone entry" "reg_clock r \<noteq> None" using live_entry [OF assms(1,2)] assms(3) by simp_all
  have same: "one_write hk (st_engine s) key (st_engine s) (response_of (Register r))"
    using assms by (intro one_write_same) (simp_all add: answer_def)
  show ?thesis
  proof (cases oper)
    case (RegisterOperation b)
    obtain d r' where w: "LWWHLCRegister_Write r tr b = Inr (d, r')" "reg_clock r' \<noteq> None" "LWWHLCRegister_Read r' = b"
      using live(2) by (cases "hlc_Now (the (reg_clock r)) tr") (auto simp: LWWHLCRegister_Write_def LWWHLCRegister_Read_def)
    with assms(2,3) live(1) publish_delta_write [OF assms(1,2), of "Register r'"] show ?thesis unfolding RegisterOperation ns_Apply_snd
      by (simp add: ApplySetRegister_def)
  qed (use assms(2,3) live(1) same in \<open>simp_all only: ns_Apply_snd\<close>, simp_all add: ApplyInc_def ApplyDec_def)
qed

lemma ns_Apply_write:
  assumes "engine_ok hk (st_engine s)"
  shows "one_write hk (st_engine s) key (st_engine (snd (ns_Apply hk L G s tr t key oper))) (expected (ClientApply oper) (answer hk (st_engine s) key))"
proof (cases "eng_Get hk (st_engine s) key")
  case None
  have "st_engine (snd (ns_Apply hk L G s tr t key oper)) = st_engine s" using None
    by (cases oper) (simp_all only: ns_Apply_snd, simp_all add: ApplyInc_def ApplyDec_def ApplySetRegister_def)
  moreover have "expected (ClientApply oper) absent = absent" by (cases oper) simp_all
  ultimately show ?thesis using None one_write_same [OF assms, of absent key] by (simp add: answer_def)
next
  case (Some entry)
  then show ?thesis using ns_Apply_counter [OF assms Some] ns_Apply_register [OF assms Some]
    by (cases "entObject entry") (simp_all add: answer_def)
qed
lemma serve_write:
  assumes "engine_ok hk (st_engine s)"
  shows "one_write hk (st_engine s) key (st_engine (serve hk L G (tr, t, now, key, oper) s)) (expected oper (answer hk (st_engine s) key))"
proof (cases oper)
  case (ClientSet ty)
  have snd_Set: "snd (ns_Set hk L G s t key ty) = (case toDomainCRDTType ty of Inl err \<Rightarrow> s | Inr d \<Rightarrow> snd (st_Put hk L G s t key d))" for ty
    by (simp add: ns_Set_def split: sum.split prod.split option.split)
  have new: "PNCounter_Value (NewPNCounter nid) = 0" "LWWHLCRegister_Read (NewLWWHLCRegister nid) = []" for nid
    by (simp_all add: NewPNCounter_def PNCounter_Value_def sum_entries_def NewLWWHLCRegister_def LWWHLCRegister_Read_def)
  consider "ty = TYPE_PN_COUNTER" | "ty = TYPE_LWW_REGISTER" "ty \<noteq> TYPE_PN_COUNTER" | "ty \<noteq> TYPE_PN_COUNTER" "ty \<noteq> TYPE_LWW_REGISTER" by blast
  then show ?thesis
  proof cases
    case 1
    with ClientSet st_Put_write [OF assms, of CRDTTypePNCounter "Counter (NewPNCounter (st_nodeID s))" key L G t] show ?thesis
      by (simp add: snd_Set type_mappings fabric_New_def new)
  next
    case 2
    with ClientSet st_Put_write [OF assms, of CRDTTypeLWWHLCRegister "Register (NewLWWHLCRegister (st_nodeID s))" key L G t] type_mappings(4) show ?thesis
      by (simp add: snd_Set type_mappings fabric_New_def new)
  next
    case 3
    with ClientSet show ?thesis by (simp add: snd_Set type_mappings one_write_same [OF assms])
  qed
next
  case ClientDelete
  have "snd (ns_Delete hk L G s t now key) = snd (st_Delete hk L G s t now key)" by (simp add: ns_Delete_def split: prod.split option.split)
  with ClientDelete st_Delete_write [OF assms] show ?thesis by simp
next
  case (ClientApply oper)
  with ns_Apply_write [OF assms] show ?thesis by simp
qed

lemma serve_all:
  "engine_ok hk (st_engine s) \<Longrightarrow> (\<And>k. answer hk (st_engine s) k = m k) \<Longrightarrow>
   answer hk (st_engine (fold (serve hk L G) reqs s)) k = fold (\<lambda>(tr, t, now, key, oper) m. m(key := expected oper (m key))) reqs m k"
proof (induction reqs arbitrary: s m)
  case (Cons req reqs)
  obtain tr t now key oper where req: "req = (tr, t, now, key, oper)" by (cases req)
  note w = serve_write [OF Cons.prems(1), of key L G tr t now oper, unfolded one_write_def]
  have "answer hk (st_engine (serve hk L G req s)) k = (m(key := expected oper (m key))) k" for k
    using w Cons.prems(2) req by auto
  from Cons.IH [OF _ this] w req show ?case by simp
qed simp

text \<open>C5. The server is a map of counters and registers. Take a node with a well-formed engine and any sequence of
  requests: sets, deletes, increments, decrements and writes of registers, each with its readings of the clocks, and
  each successful or not, since the data is changed before the update is buffered and logged. Afterwards
  \<open>Get\<close> answers for every key what the map from keys to answers holds after the same requests: a set starts at
  zero or empty, increments and decrements move a counter modulo \<open>2\<^sup>6\<^sup>4\<close>, a write replaces the value of a register, a
  delete leaves nothing, and an operation of the wrong kind or on an absent key changes nothing.\<close>

theorem server_refines_map:
  assumes "eng_wf (st_engine s)" "\<And>key ent. GetRaw hk (st_engine s) key = Some ent \<Longrightarrow> crdt_ok (entObject ent)"
    and "\<And>key. ns_Get hk s key = Inr (m key)"
  shows "ns_Get hk (fold (serve hk L G) reqs s) key
    = Inr (fold (\<lambda>(tr, t, now, key, oper) m. m(key := expected oper (m key))) reqs m key)"
proof -
  have "engine_ok hk (st_engine s)" using assms(1,2) by (auto simp: engine_ok_def)
  moreover have "answer hk (st_engine s) k = m k" for k using assms(3) [of k] by (simp add: ns_Get_shows answer_def)
  ultimately show ?thesis using serve_all [of hk s m L G reqs key] by (simp add: ns_Get_shows answer_def)
qed

theorem server_refines_map_witness:
  "ns_Get (\<lambda>_. 0) (fold (serve (\<lambda>_. 0) (list_lru 5) list_gowal)
       [(0, 1, 1, ''k'', ClientApply (RegisterOperation [9])), (0, 2, 2, ''c'', ClientSet TYPE_PN_COUNTER), (0, 3, 3, ''c'', ClientApply (CounterOperationInc 5))]
       written_register) ''c'' = Inr \<lparr>respCrdtType = TYPE_PN_COUNTER, respOk = True, respData = Some (CounterData 5)\<rparr>"
proof -
  have look: "GetRaw (\<lambda>_. 0) (st_engine written_register) key
      = (if key = ''k'' then Some \<lparr>entObject = Register (NewLWWHLCRegister ''n''), entTombstone = False, entSetTimeStamp = zero_ts\<rparr> else None)" for key
    by (simp add: written_register_def NewVersionManager_def gc_engine_def GetRaw_def shardFor_def)
  have "eng_wf (st_engine written_register)" by (simp add: written_register_def NewVersionManager_def gc_engine_def eng_wf_def)
  moreover have "crdt_ok (entObject ent)" if "GetRaw (\<lambda>_. 0) (st_engine written_register) key = Some ent" for key ent
    using that look by (auto simp: NewLWWHLCRegister_def split: if_splits)
  moreover have "ns_Get (\<lambda>_. 0) written_register key
      = Inr (if key = ''k'' then \<lparr>respCrdtType = TYPE_LWW_REGISTER, respOk = True, respData = Some (RegisterData [])\<rparr> else absent)" for key
    using look by (simp add: ns_Get_shows eng_Get_def NewLWWHLCRegister_def LWWHLCRegister_Read_def)
  ultimately show ?thesis
    by (subst server_refines_map [where m = "\<lambda>key. if key = ''k'' then \<lparr>respCrdtType = TYPE_LWW_REGISTER, respOk = True, respData = Some (RegisterData [])\<rparr> else absent"])
      (simp_all add: lume_Types)
qed

end
