(* ===== verification/Node_Loops.thy ===== *)
theory Node_Loops
  imports Gossip Node_Server
begin

text \<open>
  The goroutines of a running node: the loop of the storage that hands buffered updates to gossip
  (\<open>startBufferRead\<close>), the loop of gossip that takes them and starts a send for each batch (\<open>readUpdates\<close>), those sends, the
  loop of anti-entropy, the collector of the engine, the requests of clients and peers, and \<open>GracefulStop\<close>. They share the
  channel of updates, the semaphore of the sends, the context, and the state of the components. Each goroutine is a
  function from the event it reacts to and the state to the new state, with no result where it has to wait; a step of the
  node is a step of any of them. A panic that nobody recovers ends the program: \<open>nd_crash\<close> says which
  goroutine panicked. Two goroutines of the program never return: the gRPC server of \<open>listenUpdates\<close>, so that peers
  are served during and after the shutdown, and \<open>backgroundFlush\<close>. A handler of a request is one step; the workers of a large batch
  that lock each other out (the deadlock of \<open>Update_Pool\<close>) are a step too, after which \<open>nd_locked\<close> holds and the
  goroutines that need the locked shard may wait forever; handlers of different requests are not interleaved here (\<open>Engine_Locks\<close> does that).
  Lemmas: what the channel of updates and the semaphore guarantee under every interleaving, that a
  node with a sane configuration does not crash in its own loops, and that these loops can be stopped.
\<close>

section \<open>State\<close>

text \<open>Where each goroutine is. \<open>FeederOffer\<close> waits in the inner \<open>select\<close> of \<open>bufferReadRound\<close>, \<open>ReaderAcquire\<close> for the semaphore.\<close>

datatype feeder = FeederSelect | FeederOffer "bufupd list" | FeederRemove nat | FeederStopped

datatype reader = ReaderSelect | ReaderAcquire "bufupd list" | ReaderStopped

datatype sender = SendStarted "bufupd list" | Sending "bufupd list" "Update list"

datatype goroutine = GoBufferRead | GoReadUpdates | GoSend | GoAntiEntropy | GoPublish

datatype stop_phase = Serving | Cancelled | LogClosed | EngineStopped

text \<open>The channel is \<open>st_chan\<close> of the storage, the semaphore holds one token for each element of \<open>nd_senders\<close>.
  \<open>nd_offered\<close> and \<open>nd_taken\<close> record the batches sent to and received from the channel.\<close>

record ('w, 'c, 'n) lume_node =
  nd_storage :: "('w, 'c) Storage"
  nd_gossip :: DefaultGossip
  nd_net :: 'n
  nd_done :: bool
  nd_closed :: bool
  nd_feeder :: feeder
  nd_reader :: reader
  nd_senders :: "sender list"
  nd_antiEntropy :: bool
  nd_gc :: "expiryHeap option"
  nd_stop :: stop_phase
  nd_crash :: "(goroutine \<times> go_error) option"
  nd_locked :: bool
  nd_offered :: "bufupd list list"
  nd_taken :: "bufupd list list"

definition updatesChannelCap :: nat where "updatesChannelCap = 100"

definition crash :: "goroutine \<Rightarrow> go_error \<Rightarrow> ('w, 'c, 'n) lume_node \<Rightarrow> ('w, 'c, 'n) lume_node" where
  "crash who err nd = nd\<lparr>nd_crash := Some (who, err)\<rparr>"

text \<open>The version manager is shared: a component that changes it changes it for the others.\<close>

definition set_storage :: "('w, 'c, 'n) lume_node \<Rightarrow> ('w, 'c) Storage \<Rightarrow> ('w, 'c, 'n) lume_node" where
  "set_storage nd s = nd\<lparr>nd_storage := s, nd_gossip := (nd_gossip nd)\<lparr>gs_vm := st_vm s\<rparr>\<rparr>"

definition set_gossip :: "('w, 'c, 'n) lume_node \<Rightarrow> DefaultGossip \<Rightarrow> ('w, 'c, 'n) lume_node" where
  "set_gossip nd g = nd\<lparr>nd_gossip := g, nd_storage := (nd_storage nd)\<lparr>st_vm := gs_vm g\<rparr>\<rparr>"

section \<open>The goroutine of the storage\<close>

datatype feeder_event = FeederTick | FeederSend | FeederTimeout | FeederRemoved | FeederDone

definition send_chan :: "bufupd list \<Rightarrow> ('w, 'c, 'n) lume_node \<Rightarrow> ('w, 'c, 'n) lume_node option" where
  "send_chan upds nd =
     (let s = nd_storage nd
      in if nd_closed nd then Some (crash GoBufferRead (Panic (ExplicitPanic ''send on closed channel'')) nd)
         else if length (st_chan s) < updatesChannelCap
         then Some (nd\<lparr>nd_storage := s\<lparr>st_chan := st_chan s @ [upds]\<rparr>, nd_offered := nd_offered nd @ [upds], nd_feeder := FeederRemove (length upds)\<rparr>)
         else None)"

definition close_chan :: "('w, 'c, 'n) lume_node \<Rightarrow> ('w, 'c, 'n) lume_node" where
  "close_chan nd =
     (if nd_closed nd then crash GoBufferRead (Panic (ExplicitPanic ''close of closed channel'')) nd
      else nd\<lparr>nd_closed := True, nd_feeder := FeederStopped\<rparr>)"

text \<open>The removal follows the send, and other goroutines may run in between.\<close>

fun startBufferRead :: "'c lru \<Rightarrow> feeder_event \<Rightarrow> ('w, 'c, 'n) lume_node \<Rightarrow> ('w, 'c, 'n) lume_node option" where
  "startBufferRead L ev nd =
     (let s = nd_storage nd
      in case (nd_feeder nd, ev) of
           (FeederSelect, FeederTick) \<Rightarrow>
             (case rb_PeekN L (st_buffer s) (st_peekBatchSize s) of
                Inl err \<Rightarrow> Some (crash GoBufferRead err nd)
              | Inr upds \<Rightarrow> Some (if length upds = 0 then nd else nd\<lparr>nd_feeder := FeederOffer upds\<rparr>))
         | (FeederOffer upds, FeederSend) \<Rightarrow> send_chan upds nd
         | (FeederOffer upds, FeederTimeout) \<Rightarrow> Some (nd\<lparr>nd_feeder := FeederSelect\<rparr>)
         | (FeederRemove k, FeederRemoved) \<Rightarrow>
             Some (nd\<lparr>nd_storage := s\<lparr>st_buffer := snd (rb_RemoveN L (st_buffer s) (int k))\<rparr>, nd_feeder := FeederSelect\<rparr>)
         | (FeederSelect, FeederDone) \<Rightarrow> if nd_done nd then Some (close_chan nd) else None
         | _ \<Rightarrow> None)"

section \<open>The goroutines of gossip\<close>

datatype reader_event = ReaderDone | ReaderReceive | ReaderTick | ReaderAcquired

fun readUpdates :: "reader_event \<Rightarrow> ('w, 'c, 'n) lume_node \<Rightarrow> ('w, 'c, 'n) lume_node option" where
  "readUpdates ev nd =
     (let s = nd_storage nd
      in case (nd_reader nd, ev) of
           (ReaderSelect, ReaderDone) \<Rightarrow> if nd_done nd then Some (nd\<lparr>nd_reader := ReaderStopped\<rparr>) else None
         | (ReaderSelect, ReaderReceive) \<Rightarrow>
             (case st_chan s of
                [] \<Rightarrow> if nd_closed nd then Some (nd\<lparr>nd_reader := ReaderStopped\<rparr>) else None
              | updates # rest \<Rightarrow>
                  Some (nd\<lparr>nd_storage := s\<lparr>st_chan := rest\<rparr>, nd_taken := nd_taken nd @ [updates], nd_reader := ReaderAcquire updates\<rparr>))
         | (ReaderSelect, ReaderTick) \<Rightarrow> Some (nd\<lparr>nd_reader := ReaderAcquire []\<rparr>)
         | (ReaderAcquire u, ReaderAcquired) \<Rightarrow>
             if int (length (nd_senders nd)) < WorkerPoolSize (gs_config (nd_gossip nd))
             then Some (nd\<lparr>nd_senders := nd_senders nd @ [SendStarted u], nd_reader := ReaderSelect\<rparr>) else None
         | _ \<Rightarrow> None)"

text \<open>A payload is read through its pointer when the batch is encoded.\<close>

definition encoded :: "payload_heap \<Rightarrow> bufupd list \<Rightarrow> Update list \<Rightarrow> Update list" where
  "encoded h bs us = map2 (\<lambda>b u. u\<lparr>Payload := fetch h (bu_payload b)\<rparr>) bs us @ drop (length bs) us"

definition release :: "nat \<Rightarrow> sender list \<Rightarrow> sender list" where
  "release i ws = take i ws @ drop (Suc i) ws"

text \<open>One goroutine started by \<open>processUpdates\<close>: it makes its batch, then it sends it.\<close>

definition processUpdates_step ::
    "(int \<Rightarrow> int \<Rightarrow> u8) \<Rightarrow> 'n transport \<Rightarrow> Node list \<Rightarrow> Node \<Rightarrow> nat list \<Rightarrow> nat \<Rightarrow> ('w, 'c, 'n) lume_node \<Rightarrow> ('w, 'c, 'n) lume_node option" where
  "processUpdates_step hops T members self draws i nd =
     (let g = nd_gossip nd; h = st_heap (nd_storage nd); ws = nd_senders nd
      in if i < length ws then
           (case ws ! i of
              SendStarted u \<Rightarrow>
                (case batch_to_send hops g members (map (deref h) u) of
                   Inl err \<Rightarrow> Some (crash GoSend err nd)
                 | Inr (u', g1) \<Rightarrow>
                     Some (nd\<lparr>nd_gossip := g1, nd_senders := (if length u' = 0 then release i ws else ws[i := Sending u u'])\<rparr>))
            | Sending u u' \<Rightarrow>
                (case gs_Send T g members self draws (encoded h u u') (nd_net nd) of
                   None \<Rightarrow> None
                 | Some (Some (Panic p), sent, n) \<Rightarrow> Some (crash GoSend (Panic p) nd)
                 | Some (err, sent, n) \<Rightarrow> Some (nd\<lparr>nd_net := n, nd_senders := release i ws\<rparr>)))
         else None)"

text \<open>\<open>AsyncSend\<close> runs \<open>Send\<close> in a goroutine of its own and gives a channel with its result, which is then closed.\<close>

definition AsyncSend ::
    "'n transport \<Rightarrow> DefaultGossip \<Rightarrow> Node list \<Rightarrow> Node \<Rightarrow> nat list \<Rightarrow> Update list \<Rightarrow> 'n \<Rightarrow> (go_error option list \<times> bool \<times> 'n) option" where
  "AsyncSend T g members self draws data n =
     map_option (\<lambda>(err, sent, n1). ([err], True, n1)) (gs_Send T g members self draws data n)"

text \<open>The marks that the engine has sent to its collector. \<open>Stop\<close> closes their channel: a goroutine that sends one afterwards panics.\<close>

definition marks :: "VersionManager \<Rightarrow> markItem list" where
  "marks vm = eng_markChan (vm_engine vm) @ eng_fallback (vm_engine vm)"

definition mark_panics :: "('w, 'c, 'n) lume_node \<Rightarrow> VersionManager \<Rightarrow> bool" where
  "mark_panics nd vm \<longleftrightarrow> nd_stop nd = EngineStopped \<and> marks vm \<noteq> marks (st_vm (nd_storage nd))"

abbreviation closed_marks :: go_error where
  "closed_marks \<equiv> Panic (ExplicitPanic ''send on closed channel'')"

datatype ae_event = AeDone | AeTick

fun runAntiEntropy ::
    "(string \<Rightarrow> u64) \<Rightarrow> 'n transport \<Rightarrow> Node list \<Rightarrow> Node \<Rightarrow> nat \<Rightarrow> (nat \<Rightarrow> i64 \<times> i64) \<Rightarrow> ae_event \<Rightarrow> ('w, 'c, 'n) lume_node \<Rightarrow> ('w, 'c, 'n) lume_node option" where
  "runAntiEntropy hk T members self ind readings ev nd =
     (if \<not> nd_antiEntropy nd then None
      else case ev of
             AeDone \<Rightarrow> if nd_done nd then Some (nd\<lparr>nd_antiEntropy := False\<rparr>) else None
           | AeTick \<Rightarrow>
               (case antiEntropyRound hk T (nd_gossip nd) members self ind readings (nd_net nd) of
                  Inl err \<Rightarrow> Some (crash GoAntiEntropy err nd)
                | Inr (g, n) \<Rightarrow>
                    Some (if mark_panics nd (gs_vm g) then crash GoAntiEntropy closed_marks nd else (set_gossip nd g)\<lparr>nd_net := n\<rparr>)))"

section \<open>Requests, the collector and the log\<close>

text \<open>The server that \<open>listenUpdates\<close> registers works on the components of the node; it gives them back changed.\<close>

definition listenUpdates :: "int \<Rightarrow> ('w, 'c, 'n) lume_node \<Rightarrow> ('w, 'c) updatesServer" where
  "listenUpdates mx nd = NewUpdatesServer (st_buffer (nd_storage nd)) (gs_gbuffer (nd_gossip nd)) (st_wal (nd_storage nd)) (st_vm (nd_storage nd)) mx"

definition served :: "('w, 'c, 'n) lume_node \<Rightarrow> ('w, 'c) updatesServer \<Rightarrow> ('w, 'c, 'n) lume_node" where
  "served nd sv = set_storage (nd\<lparr>nd_gossip := (nd_gossip nd)\<lparr>gs_gbuffer := srv_gbuffer sv\<rparr>\<rparr>)
     ((nd_storage nd)\<lparr>st_vm := srv_vm sv, st_wal := srv_wal sv\<rparr>)"

text \<open>A panic in the handler of a small batch is recovered by the interceptor of the server. The updates before it are applied and none is
  logged. The update that panicked is in the history; a delete that panicked because the engine is stopped has set its tombstone,
  but not sent its mark nor stored its digest.\<close>

definition handleUpdate_panics :: "(string \<Rightarrow> u64) \<Rightarrow> bool \<Rightarrow> VersionManager \<Rightarrow> i64 \<Rightarrow> i64 \<Rightarrow> Update \<Rightarrow> VersionManager option" where
  "handleUpdate_panics hk closed vm t now u =
     (case handleUpdate hk vm t now u of
        Inl err \<Rightarrow> Some (vm\<lparr>vm_history := snd (TryAddRange (vm_history vm) (NodeID u) \<lparr>Start = Seq u, End = Seq u\<rparr>)\<rparr>)
      | Inr (applied, vm1) \<Rightarrow>
          if closed \<and> marks vm1 \<noteq> marks vm
          then Some (vm\<lparr>vm_history := vm_history vm1,
            vm_engine := (vm_engine vm1)\<lparr>eng_markChan := eng_markChan (vm_engine vm), eng_fallback := eng_fallback (vm_engine vm)\<rparr>\<rparr>)
          else None)"

fun updateSequential_panics :: "(string \<Rightarrow> u64) \<Rightarrow> bool \<Rightarrow> VersionManager \<Rightarrow> (i64 \<times> i64 \<times> Update) list \<Rightarrow> VersionManager option" where
  "updateSequential_panics hk closed vm [] = None"
| "updateSequential_panics hk closed vm ((t, now, u) # us) =
     (case handleUpdate_panics hk closed vm t now u of
        Some vm' \<Rightarrow> Some vm'
      | None \<Rightarrow> (case handleUpdate hk vm t now u of Inl err \<Rightarrow> None | Inr (applied, vm1) \<Rightarrow> updateSequential_panics hk closed vm1 us))"

text \<open>The workers of a large batch are goroutines of their own, where nobody recovers a panic.\<close>

fun worker_panics :: "('w, 'c, 'n) lume_node \<Rightarrow> go_error + pool \<Rightarrow> go_error option" where
  "worker_panics nd (Inl err) = Some err"
| "worker_panics nd (Inr p) = (if mark_panics nd (pl_vm p) then Some closed_marks else None)"

text \<open>What a handler that does not return normally leaves: the updates are in the gossip buffer, none is logged.\<close>

definition broken_off :: "('w, 'c, 'n) lume_node \<Rightarrow> Update list \<Rightarrow> VersionManager \<Rightarrow> ('w, 'c, 'n) lume_node" where
  "broken_off nd us vm = served nd ((listenUpdates 0 nd)\<lparr>srv_gbuffer := AddAndDec (gs_gbuffer (nd_gossip nd)) us, srv_vm := vm\<rparr>)"

text \<open>\<open>GracefulStop\<close>: both contexts are cancelled, the log is closed, and the engine waits for its collector.\<close>

fun stop_step :: "'w gowal \<Rightarrow> ('w, 'c, 'n) lume_node \<Rightarrow> ('w, 'c, 'n) lume_node option" where
  "stop_step G nd =
     (case nd_stop nd of
        Serving \<Rightarrow> Some (nd\<lparr>nd_done := True, nd_stop := Cancelled\<rparr>)
      | Cancelled \<Rightarrow> Some (nd\<lparr>nd_storage := GracefulStop G (nd_storage nd), nd_stop := LogClosed\<rparr>)
      | LogClosed \<Rightarrow> if nd_gc nd = None then Some (nd\<lparr>nd_stop := EngineStopped\<rparr>) else None
      | EngineStopped \<Rightarrow> None)"

section \<open>Steps of the node\<close>

text \<open>\<open>views\<close> are the lists of members that the membership may report, \<open>self\<close> is the node itself. The random draws are indices
  of peers. Clients are served until the shutdown begins, since the server of the client API is stopped first; peers are always served. \<open>flush\<close> is
  \<open>backgroundFlush\<close>.\<close>

inductive node_step ::
    "(string \<Rightarrow> u64) \<Rightarrow> (int \<Rightarrow> int \<Rightarrow> u8) \<Rightarrow> 'c lru \<Rightarrow> 'w gowal \<Rightarrow> 'n transport \<Rightarrow> Node list set \<Rightarrow> Node \<Rightarrow>
     ('w, 'c, 'n) lume_node \<Rightarrow> ('w, 'c, 'n) lume_node \<Rightarrow> bool"
  for hk hops L G T views self where
  feeder: "nd_crash nd = None \<Longrightarrow> startBufferRead L fev nd = Some nd' \<Longrightarrow> node_step hk hops L G T views self nd nd'"
| reader: "nd_crash nd = None \<Longrightarrow> readUpdates rdev nd = Some nd' \<Longrightarrow> node_step hk hops L G T views self nd nd'"
| sender: "nd_crash nd = None \<Longrightarrow> members \<in> views \<Longrightarrow> set draws \<subseteq> {..<length (filterOutSelf members self)} \<Longrightarrow>
    processUpdates_step hops T members self draws i nd = Some nd' \<Longrightarrow> node_step hk hops L G T views self nd nd'"
| antiEntropy: "nd_crash nd = None \<Longrightarrow> members \<in> views \<Longrightarrow> runAntiEntropy hk T members self ind readings aev nd = Some nd' \<Longrightarrow>
    node_step hk hops L G T views self nd nd'"
| client: "nd_crash nd = None \<Longrightarrow> nd_stop nd = Serving \<Longrightarrow>
    node_step hk hops L G T views self nd (set_storage nd (serve hk L G req (nd_storage nd)))"
| peer: "nd_crash nd = None \<Longrightarrow> Publish hk G cancelled (listenUpdates mx nd) request resp sv \<Longrightarrow> \<not> mark_panics nd (srv_vm sv) \<Longrightarrow>
    node_step hk hops L G T views self nd (served nd sv)"
| peerPanic: "nd_crash nd = None \<Longrightarrow> toDomainUpdates request = Inr (map (\<lambda>x. snd (snd x)) xs) \<Longrightarrow> length xs < parallelThreshold \<Longrightarrow>
    updateSequential_panics hk (nd_stop nd = EngineStopped) (st_vm (nd_storage nd)) xs = Some vm \<Longrightarrow>
    node_step hk hops L G T views self nd (broken_off nd (map (\<lambda>x. snd (snd x)) xs) vm)"
| peerCrash: "nd_crash nd = None \<Longrightarrow> toDomainUpdates request = Inr us \<Longrightarrow> parallelThreshold \<le> length us \<Longrightarrow>
    pool_run hk ss (pool_start (st_vm (nd_storage nd)) us) = Some r \<Longrightarrow> worker_panics nd r = Some err \<Longrightarrow>
    node_step hk hops L G T views self nd (crash GoPublish err nd)"
| peerLocked: "nd_crash nd = None \<Longrightarrow> toDomainUpdates request = Inr us \<Longrightarrow> parallelThreshold \<le> length us \<Longrightarrow>
    pool_run hk ss (pool_start (st_vm (nd_storage nd)) us) = Some (Inr p) \<Longrightarrow> pool_deadlock p \<Longrightarrow> \<not> mark_panics nd (pl_vm p) \<Longrightarrow>
    node_step hk hops L G T views self nd ((broken_off nd us (pl_vm p))\<lparr>nd_locked := True\<rparr>)"
| collector: "nd_crash nd = None \<Longrightarrow> nd_gc nd = Some h \<Longrightarrow> gc_step hk (st_engine (nd_storage nd), h) (e, h') \<Longrightarrow>
    node_step hk hops L G T views self nd ((set_storage nd (set_engine (nd_storage nd) e))\<lparr>nd_gc := Some h'\<rparr>)"
| collectorDone: "nd_crash nd = None \<Longrightarrow> nd_done nd \<Longrightarrow> node_step hk hops L G T views self nd (nd\<lparr>nd_gc := None\<rparr>)"
| flush: "nd_crash nd = None \<Longrightarrow>
    node_step hk hops L G T views self nd (nd\<lparr>nd_storage := (nd_storage nd)\<lparr>st_wal := flush_tick G (st_wal (nd_storage nd))\<rparr>\<rparr>)"
| stop: "nd_crash nd = None \<Longrightarrow> stop_step G nd = Some nd' \<Longrightarrow> node_step hk hops L G T views self nd nd'"

text \<open>\<open>StartUp\<close>: the engine, the recovery, and gossip (which listens first and then starts its goroutines), then the goroutine of the
  storage. A semaphore of negative size and tickers that are not positive panic in the goroutine that makes them.\<close>

definition start_crash :: "int \<Rightarrow> GossipConfig \<Rightarrow> (goroutine \<times> go_error) option" where
  "start_crash readInterval cfg =
     (if WorkerPoolSize cfg < 0 then Some (GoReadUpdates, Panic MakeNegativeLen)
      else if AntiEntropyInterval cfg \<le> 0 then Some (GoAntiEntropy, Panic (ExplicitPanic ''non-positive interval for NewTicker''))
      else if readInterval \<le> 0 then Some (GoBufferRead, Panic (ExplicitPanic ''non-positive interval for NewTicker''))
      else None)"

definition started :: "int \<Rightarrow> ('w, 'c) Storage \<Rightarrow> DefaultGossip \<Rightarrow> 'n \<Rightarrow> ('w, 'c, 'n) lume_node" where
  "started readInterval s g n = \<lparr>nd_storage = s, nd_gossip = g\<lparr>gs_vm := st_vm s\<rparr>, nd_net = n, nd_done = False, nd_closed = False,
     nd_feeder = FeederSelect, nd_reader = ReaderSelect, nd_senders = [], nd_antiEntropy = True, nd_gc = Some newExpiryHeap,
     nd_stop = Serving, nd_crash = start_crash readInterval (gs_config g), nd_locked = False, nd_offered = st_chan s, nd_taken = []\<rparr>"

definition node_StartUp ::
    "(string \<Rightarrow> u64) \<Rightarrow> 'w gowal \<Rightarrow> (nat \<Rightarrow> bool) \<Rightarrow> (nat \<Rightarrow> i64 \<times> i64) \<Rightarrow> go_error option \<Rightarrow> int \<Rightarrow> ('w, 'c) Storage \<Rightarrow> DefaultGossip \<Rightarrow> 'n \<Rightarrow>
     go_error + ('w, 'c, 'n) lume_node" where
  "node_StartUp hk G cancelled readings listenErr readInterval s g n =
     bind_res (StartUp hk G cancelled readings None listenErr s) (\<lambda>(err, s').
       case err of Some e \<Rightarrow> Inl e | None \<Rightarrow> Inr (started readInterval s' g n))"

section \<open>What the steps leave alone\<close>

text \<open>The fields of the storage that only the two ends of the channel and the configuration use.\<close>

definition same_chan :: "('w, 'c) Storage \<Rightarrow> ('w, 'c) Storage \<Rightarrow> bool" where
  "same_chan s s' \<longleftrightarrow> st_chan s' = st_chan s \<and> st_peekBatchSize s' = st_peekBatchSize s"

lemma same_chan_parts:
  "local_update s u = Inr (u', s1) \<Longrightarrow> same_chan s s1"
  "buffer_put L s u d = (err, s2) \<Longrightarrow> same_chan s s2"
  "wal_append G s u = (err, s2) \<Longrightarrow> same_chan s s2"
  "same_chan s (set_engine s e)"
  by (auto simp: same_chan_def local_update_def buffer_put_def wal_append_def set_engine_def Let_def split: sum.splits prod.splits)

lemma same_chan_refl [simp]: "same_chan s s"
  by (simp add: same_chan_def)

lemma same_chan_trans: "same_chan s s1 \<Longrightarrow> same_chan s1 s2 \<Longrightarrow> same_chan s s2"
  by (simp add: same_chan_def)

lemma same_chan_log: "same_chan s (snd (buffer_then_log L G s u d))" "same_chan s (snd (log_then_buffer L G f s u d))"
proof -
  have put: "same_chan s (snd (buffer_put L s u d))" for s u d by (cases "buffer_put L s u d") (auto dest: same_chan_parts(2))
  show "same_chan s (snd (buffer_then_log L G s u d))" "same_chan s (snd (log_then_buffer L G f s u d))"
    unfolding buffer_then_log_def log_then_buffer_def
    by (auto split: sum.splits prod.splits option.splits dest!: same_chan_parts(1-3) intro: same_chan_trans put)
qed

lemma same_chan_update: "same_chan s (snd (publish_delta hk L G f s t key ent obj d))" "same_chan s (snd (st_Put hk L G s t key ty))"
    "same_chan s (snd (st_Delete hk L G s t now key))"
proof -
  have "same_chan s (snd (log_then_buffer L G f (set_engine s e) u d))" "same_chan s (snd (buffer_then_log L G (set_engine s e) u d))" for e u d
    using same_chan_log same_chan_parts(4) same_chan_trans by blast+
  note logs = this
  show "same_chan s (snd (publish_delta hk L G f s t key ent obj d))" "same_chan s (snd (st_Put hk L G s t key ty))"
    "same_chan s (snd (st_Delete hk L G s t now key))"
    unfolding publish_delta_def st_Put_def st_Delete_def Let_def
    by (auto split: sum.splits prod.splits option.splits simp: same_chan_parts(4)) (metis logs snd_conv)+
qed

lemma same_chan_serve: "same_chan s (serve hk L G req s)"
proof -
  have op: "same_chan s (snd (ApplyInc hk L G s t key v))" "same_chan s (snd (ApplyDec hk L G s t key v))"
      "same_chan s (snd (ApplySetRegister hk L G s tr t key b))" for t tr key v b
    unfolding ApplyInc_def ApplyDec_def ApplySetRegister_def
    by (auto split: option.splits crdt.splits sum.splits simp: same_chan_update)
  have "same_chan s (snd (ns_Apply hk L G s tr t key oper))" for tr t key oper
    by (cases oper) (use op in \<open>auto split: prod.splits option.splits\<close>, (metis snd_conv)+)
  moreover have "same_chan s (snd (ns_Set hk L G s t key ty))" "same_chan s (snd (ns_Delete hk L G s t now key))" for t key ty now
    unfolding ns_Set_def ns_Delete_def by (auto split: sum.splits prod.splits option.splits) (metis same_chan_update snd_conv)+
  ultimately show ?thesis by (cases "(hk, L, G, req, s)" rule: serve.cases) auto
qed

lemma batch_to_send_keeps: "batch_to_send hops g members u = Inr (u', g1) \<Longrightarrow> gs_config g1 = gs_config g \<and> gs_vm g1 = gs_vm g"
  by (auto simp: batch_to_send_def Let_def bind_res_Inr_iff)

lemma antiEntropyRound_keeps:
  assumes "antiEntropyRound hk T g members self ind readings n = Inr (g', n')"
  shows "gs_config g' = gs_config g \<and> gs_gbuffer g' = gs_gbuffer g"
proof (cases "getRandomPeer members self ind")
  case (Inr peer)
  with assms obtain addr where a: "GossipAddr peer = Inr addr" by (auto simp: antiEntropyRound_def Let_def bind_res_Inr_iff)
  obtain ds n1 where "t_GetKeyDigests T n addr (antiEntropyBucket g) = (ds, n1)" by fastforce
  with assms Inr a show ?thesis
    by (auto simp: antiEntropyRound_def Let_def bind_res_Inr_iff split: sum.split_asm prod.split_asm if_split_asm)
qed (use assms in \<open>auto simp: antiEntropyRound_def Let_def\<close>)

section \<open>The channel and the semaphore\<close>

definition channel_misused :: "(goroutine \<times> go_error) option \<Rightarrow> bool" where
  "channel_misused cr \<longleftrightarrow> cr = Some (GoBufferRead, Panic (ExplicitPanic ''send on closed channel''))
     \<or> cr = Some (GoBufferRead, Panic (ExplicitPanic ''close of closed channel''))"

lemma channel_misused_simps [simp]:
  "\<not> channel_misused None" "\<not> channel_misused (Some (GoSend, e))" "\<not> channel_misused (Some (GoAntiEntropy, e))"
  "\<not> channel_misused (Some (GoReadUpdates, e))" "\<not> channel_misused (Some (GoPublish, e))" "\<not> channel_misused (Some (GoBufferRead, Panic MakeNegativeLen))"
  by (simp_all add: channel_misused_def)

definition pipe_inv :: "GossipConfig \<Rightarrow> int \<Rightarrow> ('w, 'c, 'n) lume_node \<Rightarrow> bool" where
  "pipe_inv cfg peek nd \<longleftrightarrow> nd_offered nd = nd_taken nd @ st_chan (nd_storage nd) \<and> length (st_chan (nd_storage nd)) \<le> updatesChannelCap
     \<and> length (nd_senders nd) \<le> nat (WorkerPoolSize cfg) \<and> nd_closed nd = (nd_feeder nd = FeederStopped) \<and> (nd_stop nd = Serving \<longrightarrow> \<not> nd_closed nd)
     \<and> nd_done nd = (nd_stop nd \<noteq> Serving) \<and> gs_vm (nd_gossip nd) = st_vm (nd_storage nd)
     \<and> gs_config (nd_gossip nd) = cfg \<and> st_peekBatchSize (nd_storage nd) = peek \<and> \<not> channel_misused (nd_crash nd)"

lemma pipe_started: "st_chan s = [] \<Longrightarrow> pipe_inv (gs_config g) (st_peekBatchSize s) (started ri s g n)"
  by (auto simp: pipe_inv_def started_def start_crash_def channel_misused_def)

lemma rb_PeekN_error: "rb_PeekN L c k = Inl err \<Longrightarrow> err = Panic MakeNegativeLen"
  by (auto simp: rb_PeekN_def split: if_splits)

lemma pipe_feeder: "startBufferRead L ev nd = Some nd' \<Longrightarrow> nd_crash nd = None \<Longrightarrow> pipe_inv cfg peek nd \<Longrightarrow> pipe_inv cfg peek nd'"
  by (cases "nd_feeder nd"; cases ev)
    (auto simp: pipe_inv_def send_chan_def close_chan_def crash_def Let_def dest: rb_PeekN_error split: if_splits sum.splits)

lemma pipe_reader: "readUpdates ev nd = Some nd' \<Longrightarrow> nd_crash nd = None \<Longrightarrow> pipe_inv cfg peek nd \<Longrightarrow> pipe_inv cfg peek nd'"
  by (cases "nd_reader nd"; cases ev) (auto simp: pipe_inv_def Let_def split: if_splits list.splits)

lemma length_release: "i < length ws \<Longrightarrow> length (release i ws) = length ws - 1"
  by (simp add: release_def)

lemma set_release: "set (release i ws) \<subseteq> set ws"
  by (auto simp: release_def dest: in_set_takeD in_set_dropD)

text \<open>What a step of a send can be.\<close>

lemma processUpdates_stepE:
  assumes "processUpdates_step hops T members self draws i nd = Some nd'"
  obtains (no_batch) u err where "i < length (nd_senders nd)" "nd_senders nd ! i = SendStarted u"
      "batch_to_send hops (nd_gossip nd) members (map (deref (st_heap (nd_storage nd))) u) = Inl err" "nd' = crash GoSend err nd"
  | (batch) u u' g1 where "i < length (nd_senders nd)" "nd_senders nd ! i = SendStarted u"
      "batch_to_send hops (nd_gossip nd) members (map (deref (st_heap (nd_storage nd))) u) = Inr (u', g1)"
      "nd' = nd\<lparr>nd_gossip := g1, nd_senders := (if length u' = 0 then release i (nd_senders nd) else (nd_senders nd)[i := Sending u u'])\<rparr>"
  | (panic) data p sent n where "gs_Send T (nd_gossip nd) members self draws data (nd_net nd) = Some (Some (Panic p), sent, n)" "nd' = crash GoSend (Panic p) nd"
  | (sent) u u' n where "i < length (nd_senders nd)" "nd_senders nd ! i = Sending u u'" "nd' = nd\<lparr>nd_net := n, nd_senders := release i (nd_senders nd)\<rparr>"
proof (cases "nd_senders nd ! i")
  case (SendStarted u)
  with assms no_batch batch show ?thesis by (auto simp: processUpdates_step_def Let_def split: if_splits sum.splits)
next
  case (Sending u u')
  then obtain err se n where s: "gs_Send T (nd_gossip nd) members self draws (encoded (st_heap (nd_storage nd)) u u') (nd_net nd) = Some (err, se, n)"
      "i < length (nd_senders nd)"
    using assms by (auto simp: processUpdates_step_def Let_def split: if_splits option.split_asm)
  show ?thesis
  proof (cases "\<exists>p. err = Some (Panic p)")
    case True
    with s Sending assms panic show ?thesis by (auto simp: processUpdates_step_def Let_def)
  next
    case False
    then have "nd' = nd\<lparr>nd_net := n, nd_senders := release i (nd_senders nd)\<rparr>"
      using s Sending assms by (auto simp: processUpdates_step_def Let_def split: option.split_asm go_error.split_asm)
    with s Sending sent show ?thesis by blast
  qed
qed

lemma pipe_sender:
  assumes "processUpdates_step hops T members self draws i nd = Some nd'" "pipe_inv cfg peek nd"
  shows "pipe_inv cfg peek nd'"
  using assms(1) by (cases rule: processUpdates_stepE) (use assms(2) in \<open>auto simp: pipe_inv_def crash_def length_release dest: batch_to_send_keeps\<close>)

lemma pipe_ae: "runAntiEntropy hk T members self ind readings ev nd = Some nd' \<Longrightarrow> nd_crash nd = None \<Longrightarrow> pipe_inv cfg peek nd \<Longrightarrow> pipe_inv cfg peek nd'"
  by (cases ev) (auto simp: pipe_inv_def crash_def set_gossip_def split: if_splits sum.split_asm prod.split_asm dest: antiEntropyRound_keeps)

lemma pipe_stop: "stop_step G nd = Some nd' \<Longrightarrow> pipe_inv cfg peek nd \<Longrightarrow> pipe_inv cfg peek nd'"
  by (auto simp: pipe_inv_def GracefulStop_def split: stop_phase.splits if_splits)

lemma pipe_storage: "same_chan (nd_storage nd) s \<Longrightarrow> pipe_inv cfg peek nd \<Longrightarrow> pipe_inv cfg peek (set_storage nd s)"
  by (auto simp: pipe_inv_def set_storage_def same_chan_def)

lemma pipe_served: "pipe_inv cfg peek nd \<Longrightarrow> pipe_inv cfg peek (served nd sv)"
  unfolding served_def by (rule pipe_storage) (auto simp: same_chan_def pipe_inv_def)

lemma pipe_step: "node_step hk hops L G T views self nd nd' \<Longrightarrow> pipe_inv cfg peek nd \<Longrightarrow> pipe_inv cfg peek nd'"
proof (induction rule: node_step.induct)
  case (peer nd cancelled mx request resp sv)
  then show ?case by (intro pipe_served)
next
  case (peerPanic nd request xs vm)
  then show ?case unfolding broken_off_def by (intro pipe_served)
next
  case (peerCrash nd request us ss r err)
  then show ?case by (auto simp: pipe_inv_def crash_def)
next
  case (peerLocked nd request us ss p)
  then have "pipe_inv cfg peek (broken_off nd us (pl_vm p))" unfolding broken_off_def by (intro pipe_served)
  then show ?case by (auto simp: pipe_inv_def)
next
  case (collector nd h e h')
  have "pipe_inv cfg peek (set_storage nd (set_engine (nd_storage nd) e))" using collector(4) by (intro pipe_storage) (simp_all add: same_chan_parts(4))
  then show ?case by (auto simp: pipe_inv_def)
next
  case (collectorDone nd)
  then show ?case by (auto simp: pipe_inv_def)
next
  case (flush nd)
  then show ?case by (auto simp: pipe_inv_def)
qed (blast intro: pipe_feeder pipe_reader pipe_sender pipe_ae pipe_stop pipe_storage same_chan_serve)+

lemma pipe_reachable:
  assumes "(node_step hk hops L G T views self)\<^sup>*\<^sup>* (started ri s g n) nd" "st_chan s = []"
  shows "pipe_inv (gs_config g) (st_peekBatchSize s) nd"
  using assms(1) by (induction rule: rtranclp_induct) (auto intro: pipe_started assms(2) pipe_step)

section \<open>A sane configuration\<close>

text \<open>The batches that wait in the channel or in a goroutine that has not made its own batch yet.\<close>

fun feeder_batch :: "feeder \<Rightarrow> bufupd list set" where
  "feeder_batch (FeederOffer u) = {u}"
| "feeder_batch _ = {}"

fun reader_batch :: "reader \<Rightarrow> bufupd list set" where
  "reader_batch (ReaderAcquire u) = {u}"
| "reader_batch _ = {}"

fun sender_batch :: "sender \<Rightarrow> bufupd list set" where
  "sender_batch (SendStarted u) = {u}"
| "sender_batch _ = {}"

definition waiting :: "('w, 'c, 'n) lume_node \<Rightarrow> bufupd list set" where
  "waiting nd = set (st_chan (nd_storage nd)) \<union> feeder_batch (nd_feeder nd) \<union> reader_batch (nd_reader nd) \<union> \<Union> (sender_batch ` set (nd_senders nd))"

definition loops_sane :: "int \<Rightarrow> GossipConfig \<Rightarrow> bool" where
  "loops_sane peek cfg \<longleftrightarrow> 0 < peek \<and> peek \<le> MaxBatchSize cfg \<and> 0 \<le> WorkerPoolSize cfg \<and> 0 < AntiEntropyInterval cfg"

definition known_views :: "Node list set \<Rightarrow> bool" where
  "known_views views \<longleftrightarrow> (\<forall>members \<in> views. \<forall>m \<in> set members. 4 \<le> length (mMeta m))"

text \<open>By itself the code that applies an update panics only on a nil pointer or a nil map.\<close>

definition nil_panic :: "go_error \<Rightarrow> bool" where
  "nil_panic err \<longleftrightarrow> err = Panic NilDereference \<or> err = Panic NilMapWrite"

lemma nil_panic_simps [simp]: "nil_panic (Panic NilDereference)" "nil_panic (Panic NilMapWrite)"
  by (simp_all add: nil_panic_def)

definition sane_inv :: "int \<Rightarrow> ('w, 'c, 'n) lume_node \<Rightarrow> bool" where
  "sane_inv peek nd \<longleftrightarrow> cb_wf (gs_gbuffer (nd_gossip nd)) \<and> cb_overwrite (gs_gbuffer (nd_gossip nd))
     \<and> (\<forall>u \<in> waiting nd. int (length u) \<le> peek) \<and> (\<forall>who err. nd_crash nd = Some (who, err) \<longrightarrow> who = GoAntiEntropy \<or>
         who = GoPublish \<and> (nil_panic err \<or> err = closed_marks \<and> nd_stop nd = EngineStopped))"

lemma known_GossipAddr: "known_views views \<Longrightarrow> members \<in> views \<Longrightarrow> m \<in> set members \<Longrightarrow> \<exists>addr. GossipAddr m = Inr addr"
  by (fastforce simp: known_views_def GossipAddr_def metaFromBytes_def not_less [symmetric])

lemma filterOutSelf_subset: "set (filterOutSelf members self) \<subseteq> set members"
proof -
  let ?f = "filterOutSelf members self"
  from filter_self_loop_mset [OF refl refl, of members self 0, folded filterOutSelf_def]
  consider "?f = members" | m where "add_mset m (mset ?f) = mset members" by blast
  then show ?thesis by cases (use set_mset_mset in \<open>auto, metis insertI2 set_mset_add_mset_insert set_mset_mset\<close>)
qed

lemma send_try_addr: "GossipAddr peer = Inr addr \<Longrightarrow> \<exists>r. send_try T peer data k n = Inr r"
  by (induction k arbitrary: n) (auto split: prod.splits option.splits)

lemma send_loop_no_panic:
  assumes "\<And>m. m \<in> set peers \<Longrightarrow> \<exists>addr. GossipAddr m = Inr addr"
  shows "set draws \<subseteq> {..<length peers} \<Longrightarrow> send_loop T peers fanout retries data draws picked k sent n \<noteq> Some (Some (Panic p), s', n')"
proof (induction draws arbitrary: picked k sent n)
  case (Cons ind draws)
  obtain r where "send_try T (peers ! ind) data (nat retries) n = Inr r"
    using assms send_try_addr Cons.prems by (metis insert_subset lessThan_iff list.simps(15) nth_mem)
  with Cons show ?case by (subst send_loop.simps) (auto split: prod.splits)
qed (subst send_loop.simps, simp)

lemma gs_Send_no_panic:
  assumes "known_views views" "members \<in> views" "set draws \<subseteq> {..<length (filterOutSelf members self)}"
  shows "gs_Send T g members self draws data n \<noteq> Some (Some (Panic p), s', n')"
  using send_loop_no_panic [of "filterOutSelf members self"] known_GossipAddr [OF assms(1,2)] filterOutSelf_subset assms(3)
  unfolding gs_Send_def Let_def by (metis in_mono)

lemma sane_feeder:
  assumes "startBufferRead L ev nd = Some nd'" "nd_crash nd = None" "loops_sane peek cfg" "pipe_inv cfg peek nd" "sane_inv peek nd"
  shows "sane_inv peek nd'"
proof -
  have pk: "rb_PeekN L c peek = Inr (take (nat peek) (lru_Values L c))" for c using assms(3) by (simp add: rb_PeekN_def loops_sane_def)
  have len: "int (length (take (nat peek) xs)) \<le> peek" for xs :: "bufupd list" using assms(3) by (auto simp: loops_sane_def)
  have peek: "st_peekBatchSize (nd_storage nd) = peek" using assms(4) by (simp add: pipe_inv_def)
  show ?thesis
  proof (cases "nd_closed nd")
    case True
    then have "nd_feeder nd = FeederStopped" using assms(4) by (simp add: pipe_inv_def)
    with assms(1) show ?thesis by (simp add: Let_def)
  next
    case False
    with assms(1,2,5) len show ?thesis by (cases "nd_feeder nd"; cases ev)
      (simp_all add: sane_inv_def waiting_def send_chan_def close_chan_def Let_def pk peek ball_Un split: if_splits, auto)
  qed
qed

lemma sane_reader:
  "readUpdates ev nd = Some nd' \<Longrightarrow> nd_crash nd = None \<Longrightarrow> loops_sane peek cfg \<Longrightarrow> sane_inv peek nd \<Longrightarrow> sane_inv peek nd'"
  by (cases "nd_reader nd"; cases ev) (auto simp: sane_inv_def waiting_def loops_sane_def Let_def ball_Un split: if_splits list.splits)

lemma sane_sender:
  assumes "processUpdates_step hops T members self draws i nd = Some nd'" "nd_crash nd = None" "loops_sane peek cfg" "pipe_inv cfg peek nd" "sane_inv peek nd"
    and "known_views views" "members \<in> views" "set draws \<subseteq> {..<length (filterOutSelf members self)}"
  shows "sane_inv peek nd'"
proof -
  let ?g = "nd_gossip nd"
  have fits: "\<exists>x g1. batch_to_send hops ?g members (map (deref h) u) = Inr (x, g1) \<and> cb_wf (gs_gbuffer g1) \<and> cb_overwrite (gs_gbuffer g1)"
    if "i < length (nd_senders nd)" "nd_senders nd ! i = SendStarted u" for h u
  proof -
    have "SendStarted u \<in> set (nd_senders nd)" using that by (metis nth_mem)
    then have "u \<in> waiting nd" by (force simp: waiting_def)
    then have "0 \<le> MaxBatchSize (gs_config ?g) - int (length u)"
      using assms(3-5) by (fastforce simp: sane_inv_def pipe_inv_def loops_sane_def)
    moreover have "cb_wf (gs_gbuffer ?g)" "cb_overwrite (gs_gbuffer ?g)" using assms(5) by (simp_all add: sane_inv_def)
    ultimately show ?thesis using PeekN_takes [of "gs_gbuffer ?g" "MaxBatchSize (gs_config ?g) - int (length u)"]
      by (fastforce simp: batch_to_send_def Let_def)
  qed
  have rel: "sender_batch ` set (release i (nd_senders nd)) \<subseteq> sender_batch ` set (nd_senders nd)" using set_release by (rule image_mono)
  have upd: "\<Union> (sender_batch ` set ((nd_senders nd)[i := Sending u u'])) \<subseteq> \<Union> (sender_batch ` set (nd_senders nd))" for u u'
    using set_update_subset_insert [of "nd_senders nd" i "Sending u u'"] by fastforce
  from assms(1) show ?thesis
  proof (cases rule: processUpdates_stepE)
    case no_batch
    then show ?thesis using fits by (metis Inl_Inr_False)
  next
    case (batch u u' g1)
    then have "cb_wf (gs_gbuffer g1)" "cb_overwrite (gs_gbuffer g1)" using fits [OF batch(1,2), of "st_heap (nd_storage nd)"] by auto
    moreover have "\<Union> (sender_batch ` set (nd_senders nd')) \<subseteq> \<Union> (sender_batch ` set (nd_senders nd))"
      using Union_mono [OF rel] upd [of u u'] by (cases "u' = []") (simp_all add: batch(4))
    ultimately show ?thesis using assms(5) unfolding sane_inv_def waiting_def by (cases "u' = []") (simp add: batch(4) ball_Un subset_iff, metis)+
  next
    case panic
    then show ?thesis using gs_Send_no_panic [OF assms(6-8)] by metis
  next
    case (sent u u' n)
    then show ?thesis using assms(5) Union_mono [OF rel] unfolding sane_inv_def waiting_def by (simp add: sent(3) ball_Un subset_iff) metis
  qed
qed

lemma sane_ae:
  "runAntiEntropy hk T members self ind readings ev nd = Some nd' \<Longrightarrow> nd_crash nd = None \<Longrightarrow> sane_inv peek nd \<Longrightarrow> sane_inv peek nd'"
  by (cases ev) (auto simp: sane_inv_def waiting_def crash_def set_gossip_def split: if_splits sum.split_asm prod.split_asm dest: antiEntropyRound_keeps)

lemma sane_storage: "same_chan (nd_storage nd) s \<Longrightarrow> sane_inv peek nd \<Longrightarrow> sane_inv peek (set_storage nd s)"
  by (auto simp: sane_inv_def waiting_def set_storage_def same_chan_def)

lemma AddAndDec_wf: "cb_wf gb \<Longrightarrow> cb_overwrite gb \<Longrightarrow> cb_wf (AddAndDec gb us) \<and> cb_overwrite (AddAndDec gb us)"
  unfolding AddAndDec_filter gb_Add_def using cb.push_all by blast

lemma Publish_gbuffer: "Publish hk G c sv request resp sv' \<Longrightarrow> \<exists>us. srv_gbuffer sv' = AddAndDec (srv_gbuffer sv) us"
  by (erule PublishE) (auto intro: exI [of _ "[]"] simp: AddAndDec_def)

lemma sane_served:
  assumes "sane_inv peek nd" "srv_gbuffer sv = AddAndDec (gs_gbuffer (nd_gossip nd)) us"
  shows "sane_inv peek (served nd sv)"
proof -
  have "sane_inv peek (nd\<lparr>nd_gossip := (nd_gossip nd)\<lparr>gs_gbuffer := srv_gbuffer sv\<rparr>\<rparr>)"
    using assms AddAndDec_wf by (simp add: sane_inv_def waiting_def)
  then show ?thesis unfolding served_def by (rule sane_storage [rotated]) (simp add: same_chan_def)
qed

lemma sane_broken_off: "sane_inv peek nd \<Longrightarrow> sane_inv peek (broken_off nd us vm)"
  unfolding broken_off_def by (rule sane_served [of _ _ _ us]) simp_all

lemma max_into_panic: "max_into es m = Inl (Panic q) \<Longrightarrow> nil_panic (Panic q)"
proof (induction es m rule: max_into.induct)
  case (2 node val es m)
  then show ?case by (cases "gm_set node (max_i64 (fm_get (gm m) node) val) m") (auto elim: gm_set.elims)
qed simp

lemma PNCounter_ApplyDelta_panic: "PNCounter_ApplyDelta c d = Inl (Panic q) \<Longrightarrow> nil_panic (Panic q)"
  by (cases "max_into (gm_entries (dP d)) (pP c)"; cases "max_into (gm_entries (dN d)) (pN c)")
    (auto simp: PNCounter_ApplyDelta_def dest: max_into_panic)

lemma crdt_ApplyDelta_panic: "crdt_ApplyDelta t obj d = Inl (Panic q) \<Longrightarrow> nil_panic (Panic q)"
  by (cases "(t, obj, d)" rule: crdt_ApplyDelta.cases)
    (auto simp: LWWHLCRegister_ApplyDelta_def reg_adopt_def Let_def map_sum_def dest: PNCounter_ApplyDelta_panic split: option.splits sum.splits)

lemma applyDelta_panic: "applyDelta nid t ent u d = Inl (Panic q) \<Longrightarrow> nil_panic (Panic q)"
proof (induction nid t ent u d rule: applyDelta.induct)
  case (1 nid t ent u d)
  have failed: "delta_failed err e = Inl (Panic q) \<Longrightarrow> err = Panic q" for err e by (cases err) auto
  obtain res e where a: "applySet nid ent u d = (res, e)" by fastforce
  from "1.prems" show ?case unfolding applyDelta.simps [of nid t ent u d]
    using "1.IH" [OF _ _ refl a [symmetric]] a
    by (auto simp: Let_def split: if_splits prod.splits sum.splits dest!: failed dest: crdt_ApplyDelta_panic)
qed

lemma ApplyUpdate_panic: "ApplyUpdate nid t ent u = Inl (Panic q) \<Longrightarrow> nil_panic (Panic q)"
  by (auto simp: ApplyUpdate_def dest: applyDelta_panic split: option.splits if_splits)

lemma CreateFromUpdate_panic: "CreateFromUpdate nid t u = Inl (Panic q) \<Longrightarrow> nil_panic (Panic q)"
  by (auto simp: CreateFromUpdate_def dest: crdt_ApplyDelta_panic split: option.splits if_splits sum.splits go_error.splits)

lemma worker_panic: "worker_step hk t now w p = Some (Inl err) \<Longrightarrow> nil_panic err"
  by (cases "(hk, t, now, w, p)" rule: worker_step.cases)
    (auto simp: worker_apply_def Let_def dest: ApplyUpdate_panic CreateFromUpdate_panic split: list.splits prod.splits if_splits option.splits sum.splits go_error.splits)

lemma pool_run_panic: "pool_run hk ss p = Some (Inl err) \<Longrightarrow> nil_panic err"
proof (induction ss arbitrary: p)
  case (Cons s ss)
  obtain i t now where s: "s = (i, t, now)" by (cases s)
  show ?case
  proof (cases "pool_step hk s p")
    case (Some r)
    have "nil_panic e" if "r = Inl e" for e
    proof -
      from Some s that obtain r' where "worker_step hk t now (pl_workers p ! i) p = Some r'" "r = map_sum id (\<lambda>(w, q). q\<lparr>pl_workers := (pl_workers p)[i := w]\<rparr>) r'"
        by (auto simp: pool_step_def split: if_splits)
      with that show ?thesis using worker_panic by (cases r') auto
    qed
    with Cons Some show ?thesis by (cases r) auto
  qed (use Cons in simp)
qed simp

lemma sane_step:
  assumes "node_step hk hops L G T views self nd nd'" "loops_sane peek cfg" "known_views views" "pipe_inv cfg peek nd" "sane_inv peek nd"
  shows "sane_inv peek nd'"
  using assms(1)
proof cases
  case (feeder fev)
  then show ?thesis using sane_feeder assms(2,4,5) by blast
next
  case (reader rdev)
  then show ?thesis using sane_reader assms(2,5) by blast
next
  case (sender members draws i)
  then show ?thesis using sane_sender assms(2-5) by blast
next
  case (antiEntropy members ind readings aev)
  then show ?thesis using sane_ae assms(5) by blast
next
  case (client req)
  then show ?thesis using sane_storage [OF same_chan_serve assms(5)] by simp
next
  case (peer cancelled mx request resp sv)
  obtain us where "srv_gbuffer sv = AddAndDec (gs_gbuffer (nd_gossip nd)) us"
    using Publish_gbuffer [OF peer(3)] by (auto simp: listenUpdates_def NewUpdatesServer_def)
  with peer(1) show ?thesis using sane_served [OF assms(5)] by simp
next
  case (peerPanic request xs vm)
  then show ?thesis using sane_broken_off [OF assms(5)] by simp
next
  case (peerCrash request us ss r err)
  then have "nil_panic err \<or> err = closed_marks \<and> nd_stop nd = EngineStopped"
    using pool_run_panic by (cases r) (auto simp: mark_panics_def split: if_splits)
  with peerCrash(1) show ?thesis using assms(5) by (auto simp: sane_inv_def waiting_def crash_def)
next
  case (peerLocked request us ss p)
  have "sane_inv peek (broken_off nd us (pl_vm p))" by (rule sane_broken_off [OF assms(5)])
  with peerLocked(1) show ?thesis by (simp add: sane_inv_def waiting_def)
next
  case (collector h e h')
  have "sane_inv peek (set_storage nd (set_engine (nd_storage nd) e))" by (rule sane_storage [OF same_chan_parts(4) assms(5)])
  with collector(1) show ?thesis by (simp add: sane_inv_def waiting_def)
qed (use assms(5) in \<open>auto simp: sane_inv_def waiting_def GracefulStop_def split: stop_phase.splits if_splits\<close>)

lemma sane_started:
  assumes "st_chan s = []" "loops_sane peek (gs_config g)" "0 < ri" "cb_wf (gs_gbuffer g)" "cb_overwrite (gs_gbuffer g)"
  shows "sane_inv peek (started ri s g n)"
  using assms by (simp add: sane_inv_def waiting_def started_def start_crash_def loops_sane_def)

lemma sane_reachable:
  assumes "(node_step hk hops L G T views self)\<^sup>*\<^sup>* (started ri s g n) nd" "st_chan s = []" "loops_sane (st_peekBatchSize s) (gs_config g)" "0 < ri"
    and "cb_wf (gs_gbuffer g)" "cb_overwrite (gs_gbuffer g)" "known_views views"
  shows "sane_inv (st_peekBatchSize s) nd"
  using assms(1)
proof (induction rule: rtranclp_induct)
  case base
  show ?case by (rule sane_started [OF assms(2-6)])
next
  case (step nd nd')
  show ?case by (rule sane_step [OF step(2) assms(3,7) pipe_reachable [OF step(1) assms(2)] step.IH])
qed

section \<open>Stopping\<close>

text \<open>Enough draws end every send.\<close>

lemma send_loop_returns:
  assumes "\<And>m. m \<in> set peers \<Longrightarrow> \<exists>addr. GossipAddr m = Inr addr"
  shows "elems picked \<subseteq> {..<length peers} \<Longrightarrow> set draws \<subseteq> {..<length peers} \<Longrightarrow> {..<length peers} - elems picked \<subseteq> set draws \<Longrightarrow>
    \<exists>r. send_loop T peers fanout retries data draws picked k sent n = Some r"
proof (induction draws arbitrary: picked k sent n)
  case Nil
  then have "elems picked = {..<length peers}" by auto
  then show ?case by (subst send_loop.simps) (simp add: go_set.size_of)
next
  case (Cons ind draws)
  obtain ok n1 where t: "send_try T (peers ! ind) data (nat retries) n = Inr (ok, n1)"
    using assms send_try_addr Cons.prems(2) by (metis insert_subset lessThan_iff list.simps(15) nth_mem surj_pair)
  have "\<exists>r. send_loop T peers fanout retries data draws picked k sent n = Some r" if "ind \<in> elems picked"
    by (rule Cons.IH) (use Cons.prems that in auto)
  moreover have "\<exists>r. send_loop T peers fanout retries data draws (set_Add picked ind) k' sent' n1 = Some r" for k' sent'
    by (rule Cons.IH) (use Cons.prems in \<open>auto simp: go_set.add\<close>)
  ultimately show ?case using t by (subst send_loop.simps) (auto simp: go_set.contains)
qed

lemma gs_Send_returns:
  assumes "known_views views" "members \<in> views" "draws = [0..<length (filterOutSelf members self)]"
  shows "\<exists>r. gs_Send T g members self draws data n = Some r"
  unfolding gs_Send_def Let_def
  by (rule send_loop_returns) (use known_GossipAddr [OF assms(1,2)] subsetD [OF filterOutSelf_subset] assms(3) in \<open>auto simp: go_set.empty\<close>)

text \<open>The reachable states of a node with a sane configuration that is being stopped, and the state it ends in.\<close>

definition stopping :: "GossipConfig \<Rightarrow> int \<Rightarrow> ('w, 'c, 'n) lume_node \<Rightarrow> bool" where
  "stopping cfg peek nd \<longleftrightarrow> pipe_inv cfg peek nd \<and> sane_inv peek nd \<and> nd_done nd \<and> nd_crash nd = None \<and> \<not> nd_locked nd"

definition loops_stopped :: "('w, 'c, 'n) lume_node \<Rightarrow> bool" where
  "loops_stopped nd \<longleftrightarrow> nd_senders nd = [] \<and> nd_feeder nd = FeederStopped \<and> nd_reader nd = ReaderStopped \<and> \<not> nd_antiEntropy nd \<and> nd_gc nd = None
     \<and> nd_closed nd \<and> nd_stop nd = EngineStopped"

text \<open>Work left: a number for each goroutine that has not ended.\<close>

fun sender_work :: "sender \<Rightarrow> nat" where
  "sender_work (SendStarted u) = 2"
| "sender_work (Sending u u') = 1"

definition work :: "('w, 'c, 'n) lume_node \<Rightarrow> nat" where
  "work nd = (case nd_feeder nd of FeederStopped \<Rightarrow> 0 | FeederSelect \<Rightarrow> 1 | _ \<Rightarrow> 2) + (case nd_reader nd of ReaderStopped \<Rightarrow> 0 | ReaderSelect \<Rightarrow> 1 | ReaderAcquire u \<Rightarrow> 4)
     + sum_list (map sender_work (nd_senders nd)) + (if nd_antiEntropy nd then 1 else 0) + (if nd_gc nd = None then 0 else 1)
     + (case nd_stop nd of EngineStopped \<Rightarrow> 0 | LogClosed \<Rightarrow> 1 | Cancelled \<Rightarrow> 2 | Serving \<Rightarrow> 3)"

lemma feeder_progress:
  assumes "nd_feeder nd \<noteq> FeederStopped" "nd_done nd" "\<not> nd_closed nd"
  shows "\<exists>ev nd'. startBufferRead L ev nd = Some nd' \<and> nd_crash nd' = nd_crash nd \<and> nd_locked nd' = nd_locked nd \<and> nd_done nd' \<and> work nd' < work nd"
proof (cases "nd_feeder nd")
  case FeederSelect
  with assms show ?thesis by (intro exI [of _ FeederDone]) (simp add: work_def close_chan_def)
next
  case (FeederOffer u)
  with assms show ?thesis by (intro exI [of _ FeederTimeout]) (simp add: work_def)
next
  case (FeederRemove k)
  with assms show ?thesis by (intro exI [of _ FeederRemoved]) (simp add: work_def Let_def)
qed (use assms in simp)

lemma reader_progress:
  assumes "nd_reader nd \<noteq> ReaderStopped" "nd_done nd" "nd_senders nd = []" "0 < WorkerPoolSize (gs_config (nd_gossip nd))"
  shows "\<exists>ev nd'. readUpdates ev nd = Some nd' \<and> nd_crash nd' = nd_crash nd \<and> nd_locked nd' = nd_locked nd \<and> nd_done nd' \<and> work nd' < work nd"
proof (cases "nd_reader nd")
  case ReaderSelect
  with assms show ?thesis by (intro exI [of _ ReaderDone]) (simp add: work_def)
next
  case (ReaderAcquire u)
  with assms show ?thesis by (intro exI [of _ ReaderAcquired]) (simp add: work_def)
qed (use assms in simp)

lemma sender_progress:
  assumes "nd_senders nd \<noteq> []" "stopping cfg peek nd" "loops_sane peek cfg" "known_views views" "members \<in> views"
    and "draws = [0..<length (filterOutSelf members self)]"
  shows "\<exists>nd'. processUpdates_step hops T members self draws 0 nd = Some nd' \<and> nd_crash nd' = None \<and> nd_locked nd' = nd_locked nd \<and> nd_done nd' \<and> work nd' < work nd"
proof -
  let ?ws = "nd_senders nd"
  have ws: "0 < length ?ws" using assms(1) by simp
  obtain nd' where r: "processUpdates_step hops T members self draws 0 nd = Some nd'"
  proof (cases "?ws ! 0")
    case (SendStarted u)
    then show ?thesis using that ws by (cases "batch_to_send hops (nd_gossip nd) members (map (deref (st_heap (nd_storage nd))) u)")
      (auto simp: processUpdates_step_def Let_def)
  next
    case (Sending u u')
    obtain err se n where s: "gs_Send T (nd_gossip nd) members self draws (encoded (st_heap (nd_storage nd)) u u') (nd_net nd) = Some (err, se, n)"
      using gs_Send_returns [OF assms(4-6)] by (metis surj_pair)
    then have "processUpdates_step hops T members self draws 0 nd \<noteq> None"
      using ws Sending by (simp add: processUpdates_step_def Let_def split: option.splits go_error.splits)
    then show ?thesis using that by blast
  qed
  have nd: "nd_crash nd = None" "pipe_inv cfg peek nd" "sane_inv peek nd" "nd_done nd" using assms(2) by (auto simp: stopping_def)
  have "sane_inv peek nd'" by (rule sane_sender [OF r nd(1) assms(3) nd(2,3) assms(4,5)]) (auto simp: assms(6))
  then have c: "nd' \<noteq> crash GoSend e nd" for e by (auto simp: sane_inv_def crash_def)
  from r have "nd_crash nd' = None \<and> nd_locked nd' = nd_locked nd \<and> nd_done nd' \<and> work nd' < work nd"
  proof (cases rule: processUpdates_stepE)
    case (batch u u' g1)
    then show ?thesis using nd(1,4) sum_list_take_out [OF ws, of sender_work] sum_list_change [OF ws, of sender_work "Sending u u'"] by (simp add: work_def release_def)
  next
    case (sent u u' n)
    then show ?thesis using nd(1,4) sum_list_take_out [OF ws, of sender_work] by (simp add: work_def release_def)
  qed (use c in auto)
  with r show ?thesis by blast
qed

lemma stopping_progress:
  assumes nd: "stopping cfg peek nd" and "\<not> loops_stopped nd" and cfg: "loops_sane peek cfg" "0 < WorkerPoolSize cfg" and views: "known_views views" "members \<in> views"
  shows "\<exists>nd'. node_step hk hops L G T views self nd nd' \<and> stopping cfg peek nd' \<and> work nd' < work nd"
proof -
  let ?P = "\<lambda>nd'. node_step hk hops L G T views self nd nd' \<and> nd_crash nd' = None \<and> nd_locked nd' = nd_locked nd \<and> nd_done nd' \<and> work nd' < work nd"
  have i: "nd_crash nd = None" "nd_done nd" "gs_config (nd_gossip nd) = cfg" "nd_closed nd = (nd_feeder nd = FeederStopped)" "nd_stop nd \<noteq> Serving"
    using nd by (auto simp: stopping_def pipe_inv_def)
  consider "nd_feeder nd \<noteq> FeederStopped" | "nd_senders nd \<noteq> []" | "nd_senders nd = []" "nd_reader nd \<noteq> ReaderStopped" | "nd_antiEntropy nd" | "nd_gc nd \<noteq> None"
    | "nd_gc nd = None" "nd_stop nd \<noteq> EngineStopped" using assms(2) i(4) by (auto simp: loops_stopped_def)
  then have "\<exists>nd'. ?P nd'"
  proof cases
    case 1
    then show ?thesis using feeder_progress [of nd L] i node_step.feeder by (metis (no_types))
  next
    case 2
    let ?draws = "[0..<length (filterOutSelf members self)]"
    obtain nd' where p: "processUpdates_step hops T members self ?draws 0 nd = Some nd'" "nd_crash nd' = None \<and> nd_locked nd' = nd_locked nd \<and> nd_done nd' \<and> work nd' < work nd"
      using sender_progress [OF 2 nd cfg(1) views refl] by blast
    have "node_step hk hops L G T views self nd nd'" by (rule node_step.sender [OF i(1) views(2) _ p(1)]) auto
    with p(2) show ?thesis by blast
  next
    case 3
    then show ?thesis using reader_progress [of nd] i cfg(2) node_step.reader by (metis (no_types))
  next
    case 4
    then have "runAntiEntropy hk T members self 0 (\<lambda>_. (0, 0)) AeDone nd = Some (nd\<lparr>nd_antiEntropy := False\<rparr>)" using i by simp
    from node_step.antiEntropy [OF i(1) views(2) this] show ?thesis using i 4 by (intro exI [of _ "nd\<lparr>nd_antiEntropy := False\<rparr>"]) (simp add: work_def)
  next
    case 5
    from node_step.collectorDone [OF i(1,2)] show ?thesis using i 5 by (intro exI [of _ "nd\<lparr>nd_gc := None\<rparr>"]) (auto simp: work_def)
  next
    case 6
    then obtain nd' where "stop_step G nd = Some nd'" "nd_crash nd' = None \<and> nd_locked nd' = nd_locked nd \<and> nd_done nd' \<and> work nd' < work nd"
      using i by (cases "nd_stop nd") (auto simp: work_def)
    with node_step.stop [OF i(1)] show ?thesis by blast
  qed
  moreover have "stopping cfg peek nd'" if "?P nd'" for nd'
    using that nd pipe_step sane_step [OF _ cfg(1) views(1)] unfolding stopping_def by blast
  ultimately show ?thesis by blast
qed

lemma stopping_stops:
  assumes "loops_sane peek cfg" "0 < WorkerPoolSize cfg" "known_views views" "members \<in> views"
  shows "stopping cfg peek nd \<Longrightarrow> \<exists>nd'. (node_step hk hops L G T views self)\<^sup>*\<^sup>* nd nd' \<and> loops_stopped nd' \<and> nd_crash nd' = None \<and> \<not> nd_locked nd'"
proof (induction nd rule: measure_induct_rule [of work])
  case (less nd)
  show ?case
  proof (cases "loops_stopped nd")
    case True
    with less.prems show ?thesis by (auto simp: stopping_def)
  next
    case False
    obtain nd' where "node_step hk hops L G T views self nd nd'" "stopping cfg peek nd'" "work nd' < work nd"
      using stopping_progress [OF less.prems False assms] by blast
    with less.IH show ?thesis by (blast intro: converse_rtranclp_into_rtranclp)
  qed
qed

section \<open>Properties\<close>

text \<open>C12. The channel of updates between storage and gossip. Whatever clients, peers, the loops of the node and its shutdown do in whatever
  order: the batches that gossip has taken from the channel, followed by those in the channel, are the batches
  that the storage has sent, each once and in order; the channel holds at most 100 batches and at most \<open>WorkerPoolSize\<close> sends
  run at a time; the channel is closed only after the context was cancelled and by the one goroutine that sends to it, so no send to this channel
  and no second close of it ever hits it closed (the engine's channel of marks has no such guarantee: peers are served after it is
  closed); and gossip and storage work on the same version manager.\<close>

theorem node_pipeline:
  assumes "(node_step hk hops L G T views self)\<^sup>*\<^sup>* (started ri s g n) nd" "st_chan s = []"
  shows "nd_offered nd = nd_taken nd @ st_chan (nd_storage nd) \<and> length (st_chan (nd_storage nd)) \<le> 100
    \<and> length (nd_senders nd) \<le> nat (WorkerPoolSize (gs_config g)) \<and> (nd_closed nd \<longrightarrow> nd_done nd \<and> nd_feeder nd = FeederStopped)
    \<and> \<not> channel_misused (nd_crash nd) \<and> gs_vm (nd_gossip nd) = st_vm (nd_storage nd)"
  using pipe_reachable [OF assms] by (auto simp: pipe_inv_def updatesChannelCap_def)

text \<open>A node with one update in its buffer.\<close>

definition sample_storage :: "(Record list, (string \<times> bufupd) list) Storage" where
  "sample_storage = NewStorage ''n'' 2 (sample_vm ''n'') [(''k:n'', \<lparr>bu_update = zero_Update, bu_payload = 0\<rparr>)]
     \<lparr>ww_w = [], ww_keyGen = NewKeyGen, ww_batch = [], ww_batchSize = 0, ww_batchCap = 1\<rparr>"

definition sample_node :: "(Record list, (string \<times> bufupd) list, string list) lume_node" where
  "sample_node = started 1 sample_storage sample_gossip []"

lemma sample_parts [simp]: "st_chan sample_storage = []" "st_peekBatchSize sample_storage = 2"
    "st_buffer sample_storage = [(''k:n'', \<lparr>bu_update = zero_Update, bu_payload = 0\<rparr>)]"
  by (simp_all add: sample_storage_def NewStorage_def)

lemma sample_node_simps [simp]: "nd_crash sample_node = None" "nd_feeder sample_node = FeederSelect" "nd_closed sample_node = False"
    "nd_storage sample_node = sample_storage" "nd_offered sample_node = []" "nd_stop sample_node = Serving" "nd_locked sample_node = False"
  by (simp_all add: sample_node_def started_def start_crash_def)

abbreviation sample_views :: "Node list set" where
  "sample_views \<equiv> {[sample_member ''n'' ''h1'', sample_member ''b'' ''h2'']}"

theorem node_pipeline_witness:
  "\<exists>nd. (node_step (\<lambda>_. 0) (\<lambda>c f. 3) (list_lru 5) list_gowal sample_transport sample_views (sample_member ''n'' ''h1''))\<^sup>*\<^sup>* sample_node nd
     \<and> nd_offered nd = [[\<lparr>bu_update = zero_Update, bu_payload = 0\<rparr>]] \<and> nd_offered nd = nd_taken nd @ st_chan (nd_storage nd)"
proof -
  let ?u = "[\<lparr>bu_update = zero_Update, bu_payload = 0\<rparr>]" and ?S = "node_step (\<lambda>_. 0) (\<lambda>c f. 3) (list_lru 5) list_gowal sample_transport sample_views (sample_member ''n'' ''h1'')"
  let ?n1 = "sample_node\<lparr>nd_feeder := FeederOffer ?u\<rparr>"
  let ?n2 = "?n1\<lparr>nd_storage := sample_storage\<lparr>st_chan := [?u]\<rparr>, nd_offered := [?u], nd_feeder := FeederRemove 1\<rparr>"
  have "startBufferRead (list_lru 5) FeederTick sample_node = Some ?n1" by (simp add: Let_def rb_PeekN_def list_lru_def)
  then have 1: "?S sample_node ?n1" by (rule node_step.feeder [rotated]) simp
  have "startBufferRead (list_lru 5) FeederSend ?n1 = Some ?n2" by (simp add: send_chan_def Let_def updatesChannelCap_def)
  then have 2: "?S ?n1 ?n2" by (rule node_step.feeder [rotated]) simp
  from 1 2 have r: "?S\<^sup>*\<^sup>* (started 1 sample_storage sample_gossip []) ?n2" unfolding sample_node_def by simp
  from node_pipeline [OF r] r show ?thesis by (intro exI [of _ ?n2]) (simp add: sample_node_def)
qed



end
