(* ===== verification/Config.thy ===== *)
theory Config
  imports Go_Strconv
begin

text \<open>
  The loading of the configuration, \<open>pkg/configx/v2/config.go\<close>. The source walks over a struct by reflection; here a
  struct is the list of its fields, each with what reflection shows of it: name, tags, kind and value. Reading the file, the
  YAML decoder and the environment are arguments, and so are the parsers of the library that compute with floating-point
  numbers (\<open>time.ParseDuration\<close>, \<open>strconv.ParseFloat\<close>). On an error the struct is left half written by the source, and its
  callers exit; here the error is the result. Lemmas: which of environment, file and default decides each field; that
  required fields are set; that numbers out of the range of a field are silently cut.
\<close>

section \<open>Structs as reflection shows them\<close>

text \<open>The kinds the source distinguishes, with the width in bits of the numbers.\<close>

datatype kind = KString | KInt nat | KDuration | KUint nat | KFloat nat | KBool | KSlice kind | KMap | KOther

text \<open>A float is given by its 64 bits, a map by the number of its entries; nil slices and maps are the empty ones.\<close>

datatype val = VString string | VInt int | VUint int | VFloat u64 | VBool bool | VSlice "val list" | VMap nat | VOther

record field_info =
  Name :: string
  canSet :: bool
  tagDefault :: string
  tagYaml :: string
  tagEnv :: string
  tagRequired :: string

datatype field = Leaf field_info kind val | Struct field_info "field list"

datatype config_error =
    ErrNumber num_error | ErrParse string | ErrUnsupported | ErrSliceElement string config_error
  | ErrDefault string config_error | ErrEnv string config_error | ErrRequired string | ErrReadFile | ErrParseYaml

text \<open>The parsers with floating-point arithmetic: of durations, giving nanoseconds, and of floats, rounded to the width of the field.\<close>

record float_parsers =
  ParseDuration :: "string \<Rightarrow> i64 option"
  ParseFloat :: "nat \<Rightarrow> string \<Rightarrow> u64 option"

section \<open>Values\<close>

fun isZeroValue :: "val \<Rightarrow> bool" where
  "isZeroValue (VString s) = (s = [])"
| "isZeroValue (VInt i) = (i = 0)"
| "isZeroValue (VUint n) = (n = 0)"
| "isZeroValue (VFloat w) = (w = 0 \<or> w = push_bit 63 1)"
| "isZeroValue (VBool b) = (\<not> b)"
| "isZeroValue (VSlice vs) = (vs = [])"
| "isZeroValue (VMap n) = (n = 0)"
| "isZeroValue VOther = False"

text \<open>\<open>SetInt\<close> and \<open>SetUint\<close> keep the low bits. The library's own conversion for a slice appends elements made by the same function.\<close>

fun setFieldValue :: "float_parsers \<Rightarrow> kind \<Rightarrow> string \<Rightarrow> config_error + val"
  and setElements :: "float_parsers \<Rightarrow> kind \<Rightarrow> string list \<Rightarrow> config_error + val list" where
  "setFieldValue P KString value = Inr (VString value)"
| "setFieldValue P KDuration value = (case ParseDuration P value of None \<Rightarrow> Inl (ErrParse value) | Some d \<Rightarrow> Inr (VInt (sint d)))"
| "setFieldValue P (KInt b) value =
     (case ParseInt value of Inl e \<Rightarrow> Inl (ErrNumber e) | Inr intVal \<Rightarrow> Inr (VInt (signed_take_bit (b - 1) intVal)))"
| "setFieldValue P (KUint b) value =
     (case ParseUint value of Inl e \<Rightarrow> Inl (ErrNumber e) | Inr uintVal \<Rightarrow> Inr (VUint (take_bit b uintVal)))"
| "setFieldValue P (KFloat b) value = (case ParseFloat P b value of None \<Rightarrow> Inl (ErrParse value) | Some w \<Rightarrow> Inr (VFloat w))"
| "setFieldValue P KBool value = (case ParseBool value of Inl e \<Rightarrow> Inl (ErrNumber e) | Inr boolVal \<Rightarrow> Inr (VBool boolVal))"
| "setFieldValue P (KSlice elemType) value = map_sum id VSlice (setElements P elemType (Split CHR '','' value))"
| "setFieldValue P KMap value = Inl ErrUnsupported"
| "setFieldValue P KOther value = Inl ErrUnsupported"
| "setElements P k [] = Inr []"
| "setElements P k (part # parts) =
     (let p = TrimSpace part
      in case setFieldValue P k p of
           Inl e \<Rightarrow> Inl (ErrSliceElement p e)
         | Inr elem \<Rightarrow> bind_res (setElements P k parts) (\<lambda>slice. Inr (elem # slice)))"

section \<open>Defaults, environment, required fields\<close>

definition default_leaf :: "float_parsers \<Rightarrow> field_info \<Rightarrow> kind \<Rightarrow> val \<Rightarrow> config_error + val" where
  "default_leaf P t k v =
     (if tagDefault t \<noteq> [] \<and> isZeroValue v
      then (case setFieldValue P k (tagDefault t) of Inl e \<Rightarrow> Inl (ErrDefault (Name t) e) | Inr v' \<Rightarrow> Inr v')
      else Inr v)"

fun applyDefaults :: "float_parsers \<Rightarrow> field list \<Rightarrow> config_error + field list" where
  "applyDefaults P [] = Inr []"
| "applyDefaults P (f # fs) =
     bind_res
       (case f of
          Leaf t k v \<Rightarrow> if \<not> canSet t then Inr f else map_sum id (Leaf t k) (default_leaf P t k v)
        | Struct t gs \<Rightarrow> if \<not> canSet t then Inr f else map_sum id (Struct t) (applyDefaults P gs))
       (\<lambda>f'. bind_res (applyDefaults P fs) (\<lambda>fs'. Inr (f' # fs')))"

text \<open>\<open>env\<close> is \<open>os.Getenv\<close>, which gives the empty string for a variable that is not set.\<close>

definition env_leaf :: "float_parsers \<Rightarrow> (string \<Rightarrow> string) \<Rightarrow> field_info \<Rightarrow> kind \<Rightarrow> val \<Rightarrow> config_error + val" where
  "env_leaf P env t k v =
     bind_res
       (if tagEnv t \<noteq> [] \<and> env (tagEnv t) \<noteq> []
        then (case setFieldValue P k (env (tagEnv t)) of Inl e \<Rightarrow> Inl (ErrEnv (Name t) e) | Inr v' \<Rightarrow> Inr v')
        else Inr v)
       (\<lambda>v'. if tagRequired t = ''true'' \<and> isZeroValue v'
             then Inl (ErrRequired (if tagEnv t \<noteq> [] then tagEnv t else Name t)) else Inr v')"

text \<open>The prefix that the source hands down for nested structs is never read, and left out.\<close>

fun applyEnvAndValidate :: "float_parsers \<Rightarrow> (string \<Rightarrow> string) \<Rightarrow> field list \<Rightarrow> config_error + field list" where
  "applyEnvAndValidate P env [] = Inr []"
| "applyEnvAndValidate P env (f # fs) =
     bind_res
       (case f of
          Leaf t k v \<Rightarrow> if \<not> canSet t then Inr f else map_sum id (Leaf t k) (env_leaf P env t k v)
        | Struct t gs \<Rightarrow> if \<not> canSet t then Inr f else map_sum id (Struct t) (applyEnvAndValidate P env gs))
       (\<lambda>f'. bind_res (applyEnvAndValidate P env fs) (\<lambda>fs'. Inr (f' # fs')))"

definition Load ::
    "float_parsers \<Rightarrow> bytes option \<Rightarrow> (bytes \<Rightarrow> field list \<Rightarrow> field list option) \<Rightarrow> (string \<Rightarrow> string) \<Rightarrow> field list \<Rightarrow> config_error + field list" where
  "Load P file yaml env cfg =
     bind_res (applyDefaults P cfg) (\<lambda>cfg1.
       case file of
         None \<Rightarrow> Inl ErrReadFile
       | Some data \<Rightarrow>
           (case yaml data cfg1 of None \<Rightarrow> Inl ErrParseYaml | Some cfg2 \<Rightarrow> applyEnvAndValidate P env cfg2))"

section \<open>The configuration of a node\<close>

text \<open>\<open>storage.Config\<close> and the structs in it, as the zero value that the program hands to \<open>Load\<close>.\<close>

definition tagged :: "string \<Rightarrow> string \<Rightarrow> string \<Rightarrow> string \<Rightarrow> string \<Rightarrow> field_info" where
  "tagged nm yaml env dflt req = \<lparr>Name = nm, canSet = True, tagDefault = dflt, tagYaml = yaml, tagEnv = env, tagRequired = req\<rparr>"

definition NodeConfig :: "field list" where
  "NodeConfig =
     [Leaf (tagged ''ID'' ''id'' ''NODE_ID'' '''' ''true'') KString (VString []),
      Leaf (tagged ''BindAddress'' ''bind_address'' ''NODE_BIND_ADDRESS'' ''0.0.0.0'' ''true'') KString (VString []),
      Leaf (tagged ''Port'' ''port'' ''NODE_PORT'' ''8080'' ''true'') (KUint 16) (VUint 0),
      Leaf (tagged ''MaxConcurrentStreams'' ''max_concurrent_streams'' ''NODE_MAX_CONCURRENT_STREAMS'' ''2048'' '''') (KUint 32) (VUint 0)]"

definition GossipCfg :: "field list" where
  "GossipCfg =
     [Leaf (tagged ''AdvertiseAddress'' ''bind_address'' ''GOSSIP_BIND_ADDRESS'' '''' ''true'') KString (VString []),
      Leaf (tagged ''Port'' ''port'' ''GOSSIP_PORT'' ''8081'' ''true'') (KUint 16) (VUint 0),
      Leaf (tagged ''Protocol'' ''protocol'' ''GOSSIP_PROTOCOL'' ''SWIM'' '''') KString (VString []),
      Leaf (tagged ''AntiEntropyInterval'' ''interval'' ''GOSSIP_ANT_ENTROPY_INTERVAL'' ''5s'' '''') KDuration (VInt 0),
      Leaf (tagged ''Fanout'' ''fanout'' ''GOSSIP_FANOUT'' ''3'' '''') (KInt 64) (VInt 0),
      Leaf (tagged ''Retries'' ''retries'' ''GOSSIP_RETRIES'' ''3'' '''') (KInt 64) (VInt 0),
      Leaf (tagged ''BufferSize'' ''buffer_size'' ''GOSSIP_BUFFER_SIZE'' ''5000'' '''') (KInt 64) (VInt 0),
      Leaf (tagged ''MaxBatchSize'' ''max_batch_size'' ''GOSSIP_MAX_BATCH_SIZE'' ''10000'' '''') (KInt 64) (VInt 0),
      Leaf (tagged ''WorkerPoolSize'' ''worker_pool_size'' ''GOSSIP_WORKER_POOL_SIZE'' ''5'' '''') (KInt 64) (VInt 0),
      Leaf (tagged ''RequestTimeout'' ''-'' ''GOSSIP_REQUEST_TIMEOUT'' ''5s'' '''') KDuration (VInt 0)]"

definition MembershipConfig :: "field list" where
  "MembershipConfig =
     [Leaf (tagged ''AdvertiseAddr'' ''advertise_addr'' ''MEMBERSHIP_ADVERTISE_ADDR'' '''' '''') KString (VString []),
      Leaf (tagged ''Port'' ''port'' ''MEMBERSHIP_PORT'' ''8082'' ''true'') (KUint 16) (VUint 0)]"

definition WalCfg :: "field list" where
  "WalCfg =
     [Leaf (tagged ''Path'' ''path'' ''WAL_PATH'' ''./wal'' '''') KString (VString []),
      Leaf (tagged ''SegmentThreshold'' ''segment_threshold'' ''WAL_SEGMENT_THRESHOLD'' ''1000'' '''') (KInt 64) (VInt 0),
      Leaf (tagged ''MaxSegmentsNum'' ''-'' ''WAL_MAX_SEGMENTS'' ''100000000'' '''') (KInt 64) (VInt 0),
      Leaf (tagged ''BatchSize'' ''batch_size'' ''WAL_BATCH_SIZE'' ''1000'' '''') (KInt 64) (VInt 0),
      Leaf (tagged ''FlushInterval'' ''flush_interval'' ''WAL_FLUSH_INTERVAL'' ''0s'' '''') KDuration (VInt 0),
      Leaf (tagged ''SyncMode'' ''sync_mode'' ''WAL_SYNC_MODE'' ''false'' '''') KBool (VBool False)]"

definition PersistenceConfig :: "field list" where
  "PersistenceConfig =
     [Leaf (tagged ''Enabled'' ''enabled'' '''' ''false'' '''') KBool (VBool False),
      Struct (tagged ''WalConfig'' ''wal'' '''' '''' '''') WalCfg]"

definition SecurityConfig :: "field list" where
  "SecurityConfig =
     [Leaf (tagged ''Mode'' ''mode'' ''SECURITY_MODE'' ''internal'' '''') KString (VString []),
      Leaf (tagged ''CaCert'' ''ca_cert'' ''SECURITY_CA_CERT'' ''/etc/lume/security/ca.crt'' '''') KString (VString []),
      Leaf (tagged ''Cert'' ''cert'' ''SECURITY_CERT'' ''/etc/lume/security/tls.crt'' '''') KString (VString []),
      Leaf (tagged ''Key'' ''key'' ''SECURITY_KEY'' ''/etc/lume/security/tls.key'' '''') KString (VString [])]"

definition TransportConfig :: "field list" where
  "TransportConfig =
     [Leaf (tagged ''MaxMessageSize'' ''max_message_size'' ''TRANSPORT_MAX_MESSAGE_SIZE'' ''1073741824'' '''') (KInt 64) (VInt 0),
      Leaf (tagged ''MaxBatchSize'' ''max_batch_size'' ''TRANSPORT_MAX_BATCH_SIZE'' ''10000'' '''') (KInt 64) (VInt 0)]"

definition TraceConfig :: "field list" where
  "TraceConfig =
     [Leaf (tagged ''Endpoint'' ''endpoint'' ''TRACE_ENDPOINT'' ''localhost:4318'' '''') KString (VString []),
      Leaf (tagged ''Enabled'' ''enabled'' ''TRACE_ENABLED'' ''false'' '''') KBool (VBool False)]"

definition EngineCfg :: "field list" where
  "EngineCfg =
     [Leaf (tagged ''ShardsNum'' ''shards_num'' ''ENGINE_SHARDS_NUM'' ''256'' '''') (KInt 64) (VInt 0),
      Leaf (tagged ''DeleteThreshold'' ''delete_threshold'' ''ENGINE_DELETE_THRESHOLD'' ''1m'' '''') KDuration (VInt 0)]"

definition BufferConfig :: "field list" where
  "BufferConfig =
     [Leaf (tagged ''Size'' ''size'' ''BUFFER_SIZE'' ''1000'' '''') (KInt 64) (VInt 0),
      Leaf (tagged ''ReadInterval'' ''read_interval'' ''BUFFER_READ_INTERVAL'' ''1s'' '''') KDuration (VInt 0),
      Leaf (tagged ''PeekBatchSize'' ''peek_batch_size'' ''BUFFER_PEEK_BATCH_SIZE'' ''1000'' '''') (KInt 64) (VInt 0)]"

definition NodeSettings :: "field list" where
  "NodeSettings =
     [Struct (tagged ''Node'' ''node'' '''' '''' '''') NodeConfig,
      Struct (tagged ''Gossip'' ''gossip'' '''' '''' '''') GossipCfg,
      Struct (tagged ''Membership'' ''membership'' '''' '''' '''') MembershipConfig,
      Leaf (tagged ''Seeds'' ''seeds'' ''SEEDS'' '''' '''') (KSlice KString) (VSlice []),
      Struct (tagged ''Persistence'' ''persistence'' '''' '''' '''') PersistenceConfig,
      Struct (tagged ''Security'' ''security'' '''' '''' '''') SecurityConfig,
      Struct (tagged ''Transport'' ''transport'' '''' '''' '''') TransportConfig,
      Struct (tagged ''TraceConfig'' ''trace'' '''' '''' '''') TraceConfig,
      Struct (tagged ''Engine'' ''engine'' '''' '''' '''') EngineCfg,
      Struct (tagged ''Buffer'' ''buffer'' '''' '''' '''') BufferConfig]"

lemmas config_structs = NodeConfig_def GossipCfg_def MembershipConfig_def WalCfg_def PersistenceConfig_def SecurityConfig_def
  TransportConfig_def TraceConfig_def EngineCfg_def BufferConfig_def NodeSettings_def tagged_def

section \<open>What decides a field\<close>

text \<open>Both passes are one walk over the fields; a field is addressed by the positions on the way to it.\<close>

fun walk :: "(field_info \<Rightarrow> kind \<Rightarrow> val \<Rightarrow> config_error + val) \<Rightarrow> field list \<Rightarrow> config_error + field list" where
  "walk g [] = Inr []"
| "walk g (f # fs) =
     bind_res
       (case f of
          Leaf t k v \<Rightarrow> if \<not> canSet t then Inr f else map_sum id (Leaf t k) (g t k v)
        | Struct t gs \<Rightarrow> if \<not> canSet t then Inr f else map_sum id (Struct t) (walk g gs))
       (\<lambda>f'. bind_res (walk g fs) (\<lambda>fs'. Inr (f' # fs')))"

lemma passes_walk: "applyDefaults P fs = walk (default_leaf P) fs" "applyEnvAndValidate P env fs = walk (env_leaf P env) fs"
proof -
  show "applyDefaults P fs = walk (default_leaf P) fs"
    by (induction "default_leaf P" fs rule: walk.induct) (auto split: field.splits cong: field.case_cong)
  show "applyEnvAndValidate P env fs = walk (env_leaf P env) fs"
    by (induction "env_leaf P env" fs rule: walk.induct) (auto split: field.splits cong: field.case_cong)
qed

fun leaf_at :: "nat list \<Rightarrow> field list \<Rightarrow> (field_info \<times> kind \<times> val) option" where
  "leaf_at p [] = None"
| "leaf_at [] (f # fs) = None"
| "leaf_at (Suc i # p) (f # fs) = leaf_at (i # p) fs"
| "leaf_at (0 # p) (f # fs) =
     (case f of
        Leaf t k v \<Rightarrow> if canSet t \<and> p = [] then Some (t, k, v) else None
      | Struct t gs \<Rightarrow> if canSet t then leaf_at p gs else None)"

lemma walk_leaf:
  "walk g fs = Inr fs' \<Longrightarrow>
   (case leaf_at p fs of None \<Rightarrow> leaf_at p fs' = None | Some (t, k, v) \<Rightarrow> \<exists>v'. g t k v = Inr v' \<and> leaf_at p fs' = Some (t, k, v'))"
proof (induction p fs arbitrary: fs' rule: leaf_at.induct)
  case (1 p)
  then show ?case by simp
next
  case (2 f fs)
  then show ?case by (auto simp: bind_res_Inr_iff)
next
  case (3 i p f fs)
  from 3(2) obtain f' fs'' where "walk g fs = Inr fs''" "fs' = f' # fs''" by (auto simp: bind_res_Inr_iff)
  with 3(1) [of fs''] show ?case by (auto split: option.splits)
next
  case (4 p f fs)
  from 4(2) obtain f' fs'' where w: "fs' = f' # fs''" "(case f of
          Leaf t k v \<Rightarrow> if \<not> canSet t then Inr f else map_sum id (Leaf t k) (g t k v)
        | Struct t gs \<Rightarrow> if \<not> canSet t then Inr f else map_sum id (Struct t) (walk g gs)) = Inr f'"
    by (auto simp: bind_res_Inr_iff)
  show ?case
  proof (cases f)
    case (Leaf t k v)
    with w show ?thesis by (cases "g t k v") (auto split: if_splits)
  next
    case (Struct t gs)
    with w 4(1) [OF Struct] show ?thesis by (cases "walk g gs") (auto split: if_splits option.splits)
  qed
qed

lemma walk_returns:
  "(\<And>p t k v. leaf_at p fs = Some (t, k, v) \<Longrightarrow> \<exists>v'. g t k v = Inr v') \<Longrightarrow> \<exists>fs'. walk g fs = Inr fs'"
proof (induction g fs rule: walk.induct)
  case (2 g f fs)
  have "\<exists>fs'. walk g fs = Inr fs'"
  proof -
    have "\<exists>v'. g t k v = Inr v'" if "leaf_at p fs = Some (t, k, v)" for p t k v
      using that 2(3) [of "case p of [] \<Rightarrow> [] | i # q \<Rightarrow> Suc i # q" t k v] by (cases p; cases fs) auto
    then show ?thesis using 2(2) by (cases f) blast+
  qed
  moreover have "\<exists>f'. (case f of
          Leaf t k v \<Rightarrow> if \<not> canSet t then Inr f else map_sum id (Leaf t k) (g t k v)
        | Struct t gs \<Rightarrow> if \<not> canSet t then Inr f else map_sum id (Struct t) (walk g gs)) = Inr f'"
  proof (cases f)
    case (Leaf t k v)
    then show ?thesis using 2(3) [of "[0]" t k v] by auto
  next
    case (Struct t gs)
    have "\<exists>v'. g t' k v = Inr v'" if "canSet t" "leaf_at p gs = Some (t', k, v)" for p t' k v
      using that 2(3) [of "0 # p" t' k v] Struct by auto
    then have "canSet t \<Longrightarrow> \<exists>gs'. walk g gs = Inr gs'" using 2(1) [OF Struct] by blast
    then show ?thesis using Struct by auto
  qed
  ultimately show ?case by auto
qed simp

text \<open>The value that a text gives a field, if that text is there.\<close>

definition env_value :: "float_parsers \<Rightarrow> (string \<Rightarrow> string) \<Rightarrow> field_info \<Rightarrow> kind \<Rightarrow> (config_error + val) option" where
  "env_value P env t k = (if tagEnv t \<noteq> [] \<and> env (tagEnv t) \<noteq> [] then Some (setFieldValue P k (env (tagEnv t))) else None)"

definition default_value :: "float_parsers \<Rightarrow> field_info \<Rightarrow> kind \<Rightarrow> val \<Rightarrow> (config_error + val) option" where
  "default_value P t k v = (if tagDefault t \<noteq> [] \<and> isZeroValue v then Some (setFieldValue P k (tagDefault t)) else None)"

text \<open>What the YAML decoder does to a field that can be set: the document gives it a value or leaves it alone.\<close>

definition yaml_sets :: "(bytes \<Rightarrow> field list \<Rightarrow> field list option) \<Rightarrow> bytes \<Rightarrow> (nat list \<Rightarrow> val option) \<Rightarrow> bool" where
  "yaml_sets yaml data doc \<longleftrightarrow> (\<forall>c c' p. yaml data c = Some c' \<longrightarrow>
     leaf_at p c' = map_option (\<lambda>(t, k, v). (t, k, case doc p of None \<Rightarrow> v | Some w \<Rightarrow> w)) (leaf_at p c))"

lemma default_leaf_Inr: "default_leaf P t k v = Inr d \<longleftrightarrow> (case default_value P t k v of Some r \<Rightarrow> r = Inr d | None \<Rightarrow> d = v)"
  by (auto simp: default_leaf_def default_value_def split: sum.splits)

lemma env_leaf_Inr:
  "env_leaf P env t k v = Inr v' \<longleftrightarrow>
     (case env_value P env t k of Some r \<Rightarrow> r = Inr v' | None \<Rightarrow> v' = v) \<and> \<not> (tagRequired t = ''true'' \<and> isZeroValue v')"
  by (auto simp: env_leaf_def env_value_def split: sum.splits if_splits)

lemma Load_Inr:
  "Load P (Some data) yaml env cfg = Inr cfg' \<longleftrightarrow>
     (\<exists>c1 c2. walk (default_leaf P) cfg = Inr c1 \<and> yaml data c1 = Some c2 \<and> walk (env_leaf P env) c2 = Inr cfg')"
  by (auto simp: Load_def passes_walk bind_res_Inr_iff split: option.splits)

text \<open>C32. The environment wins over the file, and the file over the default. Let the YAML decoder give some fields a value and leave
  the others alone. If \<open>Load\<close> returns a configuration, each field that can be set, at any depth, has the value parsed from its environment
  variable if that is set and not empty; otherwise the value from the file, if it has one; otherwise the value parsed from its default, if it
  was zero before and has one; otherwise the value it had. A required field is not zero. If the document can be decoded, none of these
  texts fails to parse and no required field ends up zero, \<open>Load\<close> does return a configuration.\<close>

theorem config_precedence:
  assumes "yaml_sets yaml data doc"
  shows "(\<forall>cfg' p t k v. Load P (Some data) yaml env cfg = Inr cfg' \<longrightarrow> leaf_at p cfg = Some (t, k, v) \<longrightarrow>
      (\<exists>v'. leaf_at p cfg' = Some (t, k, v') \<and> \<not> (tagRequired t = ''true'' \<and> isZeroValue v')
        \<and> (case env_value P env t k of Some r \<Rightarrow> r = Inr v'
           | None \<Rightarrow> (case doc p of Some w \<Rightarrow> v' = w
               | None \<Rightarrow> (case default_value P t k v of Some r \<Rightarrow> r = Inr v' | None \<Rightarrow> v' = v)))))
    \<and> ((\<forall>c. yaml data c \<noteq> None) \<longrightarrow>
       (\<forall>p t k v. leaf_at p cfg = Some (t, k, v) \<longrightarrow> (\<exists>d v'. (case default_value P t k v of Some r \<Rightarrow> r = Inr d | None \<Rightarrow> d = v)
          \<and> (case env_value P env t k of Some r \<Rightarrow> r = Inr v' | None \<Rightarrow> v' = (case doc p of None \<Rightarrow> d | Some w \<Rightarrow> w))
          \<and> \<not> (tagRequired t = ''true'' \<and> isZeroValue v'))) \<longrightarrow>
       (\<exists>cfg'. Load P (Some data) yaml env cfg = Inr cfg'))"
proof (intro conjI allI impI)
  fix cfg' p t k v
  assume "Load P (Some data) yaml env cfg = Inr cfg'" and at: "leaf_at p cfg = Some (t, k, v)"
  then obtain c1 c2 where c: "walk (default_leaf P) cfg = Inr c1" "yaml data c1 = Some c2" "walk (env_leaf P env) c2 = Inr cfg'"
    unfolding Load_Inr by blast
  obtain d where d: "default_leaf P t k v = Inr d" "leaf_at p c1 = Some (t, k, d)" using walk_leaf [OF c(1), of p] at by auto
  let ?w = "case doc p of None \<Rightarrow> d | Some w \<Rightarrow> w"
  have "leaf_at p c2 = Some (t, k, ?w)" using assms c(2) d(2) by (simp add: yaml_sets_def)
  then obtain v' where v': "env_leaf P env t k ?w = Inr v'" "leaf_at p cfg' = Some (t, k, v')" using walk_leaf [OF c(3), of p] by auto
  show "\<exists>v'. leaf_at p cfg' = Some (t, k, v') \<and> \<not> (tagRequired t = ''true'' \<and> isZeroValue v')
        \<and> (case env_value P env t k of Some r \<Rightarrow> r = Inr v'
           | None \<Rightarrow> (case doc p of Some w \<Rightarrow> v' = w
               | None \<Rightarrow> (case default_value P t k v of Some r \<Rightarrow> r = Inr v' | None \<Rightarrow> v' = v)))"
    using v' d(1) unfolding env_leaf_Inr default_leaf_Inr by (intro exI [of _ v']) (auto split: option.splits)
next
  assume total: "\<forall>c. yaml data c \<noteq> None" and ok: "\<forall>p t k v. leaf_at p cfg = Some (t, k, v) \<longrightarrow>
      (\<exists>d v'. (case default_value P t k v of Some r \<Rightarrow> r = Inr d | None \<Rightarrow> d = v)
          \<and> (case env_value P env t k of Some r \<Rightarrow> r = Inr v' | None \<Rightarrow> v' = (case doc p of None \<Rightarrow> d | Some w \<Rightarrow> w))
          \<and> \<not> (tagRequired t = ''true'' \<and> isZeroValue v'))"
  obtain c1 where c1: "walk (default_leaf P) cfg = Inr c1" using walk_returns [of cfg "default_leaf P"] ok unfolding default_leaf_Inr by blast
  obtain c2 where c2: "yaml data c1 = Some c2" using total by blast
  have "\<exists>v'. env_leaf P env t k w = Inr v'" if at: "leaf_at p c2 = Some (t, k, w)" for p t k w
  proof -
    have "leaf_at p c2 = map_option (\<lambda>(t, k, v). (t, k, case doc p of None \<Rightarrow> v | Some w \<Rightarrow> w)) (leaf_at p c1)"
      using assms c2 by (simp add: yaml_sets_def)
    then obtain d where d: "leaf_at p c1 = Some (t, k, d)" "w = (case doc p of None \<Rightarrow> d | Some w \<Rightarrow> w)" using at by (cases "leaf_at p c1") auto
    then obtain v where "leaf_at p cfg = Some (t, k, v)" "default_leaf P t k v = Inr d"
      using walk_leaf [OF c1, of p] by (auto split: option.splits)
    with ok d(2) show ?thesis unfolding env_leaf_Inr default_leaf_Inr by (fastforce split: option.splits)
  qed
  then obtain cfg' where "walk (env_leaf P env) c2 = Inr cfg'" using walk_returns [of c2 "env_leaf P env"] by blast
  with c1 c2 show "\<exists>cfg'. Load P (Some data) yaml env cfg = Inr cfg'" unfolding Load_Inr by blast
qed

text \<open>A number that does not fit a field is accepted and cut to the low bits.\<close>

lemma number_cut:
  "n < 2 ^ 64 \<Longrightarrow> setFieldValue P (KUint b) (show_nat n) = Inr (VUint (int n mod 2 ^ b))"
  by (simp add: ParseUint_show take_bit_eq_mod)

text \<open>A table of the durations that the defaults name.\<close>

definition sample_parsers :: float_parsers where
  "sample_parsers = \<lparr>ParseDuration = map_of [(''0s'', 0), (''1s'', 1000000000), (''5s'', 5000000000), (''1m'', 60000000000)], ParseFloat = \<lambda>b s. None\<rparr>"

definition sample_env :: "string \<Rightarrow> string" where
  "sample_env x = (case map_of [(''NODE_ID'', ''a''), (''GOSSIP_BIND_ADDRESS'', ''10.0.0.1''), (''NODE_PORT'', ''70000'')] x of None \<Rightarrow> '''' | Some y \<Rightarrow> y)"

theorem config_precedence_witness:
  "\<exists>cfg'. Load sample_parsers (Some []) (\<lambda>_ c. Some c) sample_env NodeSettings = Inr cfg'
     \<and> leaf_at [0, 2] cfg' = Some (tagged ''Port'' ''port'' ''NODE_PORT'' ''8080'' ''true'', KUint 16, VUint 4464)"
proof -
  have "\<not> isl (Load sample_parsers (Some []) (\<lambda>_ c. Some c) sample_env NodeSettings)" by code_simp
  then obtain cfg' where l: "Load sample_parsers (Some []) (\<lambda>_ c. Some c) sample_env NodeSettings = Inr cfg'"
    by (cases "Load sample_parsers (Some []) (\<lambda>_ c. Some c) sample_env NodeSettings") auto
  have y: "yaml_sets (\<lambda>_ c. Some c) [] (\<lambda>_. None)" by (simp add: yaml_sets_def option.map_id id_def [symmetric])
  let ?t = "tagged ''Port'' ''port'' ''NODE_PORT'' ''8080'' ''true''"
  have at: "leaf_at [0, 2] NodeSettings = Some (?t, KUint 16, VUint 0)" by (simp add: NodeSettings_def NodeConfig_def tagged_def eval_nat_numeral)
  have "env_value sample_parsers sample_env ?t (KUint 16) = Some (Inr (VUint 4464))" by code_simp
  with config_precedence [OF y, of sample_parsers sample_env NodeSettings, THEN conjunct1, rule_format, OF l at] l show ?thesis by auto
qed

end
