(* ===== verification/Tlsx.thy ===== *)
theory Tlsx
  imports Lume_Prelude
begin

text \<open>
  Mutual TLS between nodes, \<open>pkg/tlsx/tls.go\<close>: the credentials of a server and of a client and the check of a peer's certificate. The
  cryptography of the library (\<open>crypto/x509\<close>, \<open>crypto/tls\<close>, \<open>encoding/pem\<close>) is a record of operations on abstract keys, DER documents
  and PEM files; \<open>x509_laws\<close> states what is documented of them. Files are a map from paths to contents with their mode. Lemmas: when
  a certificate is accepted by each side.
\<close>

section \<open>The library\<close>

datatype keyUsage = KeyUsageDigitalSignature | KeyUsageKeyEncipherment | KeyUsageCertSign | KeyUsageCRLSign

datatype extKeyUsage = ExtKeyUsageServerAuth | ExtKeyUsageClientAuth

text \<open>The fields of \<open>x509.Certificate\<close> that the program reads or writes; a template has no public key and no signature. A
  signature is given by the public key that it can be checked with.\<close>

record 'p Certificate =
  SerialNumber :: int
  Subject :: "string \<times> string list"
  Issuer :: "string \<times> string list"
  NotBefore :: int
  NotAfter :: int
  IsCA :: bool
  BasicConstraintsValid :: bool
  KeyUsages :: "keyUsage list"
  ExtKeyUsages :: "extKeyUsage list"
  IPAddresses :: "string list"
  DNSNames :: "string list"
  PublicKey :: "'p option"
  Signature :: "'p option"

text \<open>\<open>x_Verify\<close> takes the certificate, the
  roots, the intermediates, the usage asked for and the time. Times are seconds since 1970; \<open>x_lastTime\<close> is the last one that a certificate can
  hold, the end of the year 9999.\<close>

record ('k, 'p, 'd, 'f) x509 =
  x_Public :: "'k \<Rightarrow> 'p"
  x_CreateCertificate :: "'p Certificate \<Rightarrow> 'p Certificate \<Rightarrow> 'p \<Rightarrow> 'k \<Rightarrow> go_error + 'd"
  x_ParseCertificate :: "'d \<Rightarrow> go_error + 'p Certificate"
  x_MarshalECPrivateKey :: "'k \<Rightarrow> go_error + 'd"
  x_ParseECPrivateKey :: "'d \<Rightarrow> go_error + 'k"
  x_Verify :: "'p Certificate \<Rightarrow> 'p Certificate list \<Rightarrow> 'p Certificate list \<Rightarrow> extKeyUsage \<Rightarrow> int \<Rightarrow> go_error option"
  x_pemEncode :: "string \<Rightarrow> 'd \<Rightarrow> 'f"
  x_pemDecode :: "'f \<Rightarrow> (string \<times> 'd) option"
  x_AppendCertsFromPEM :: "'f \<Rightarrow> 'p Certificate list"
  x_X509KeyPair :: "'f \<Rightarrow> 'f \<Rightarrow> go_error + 'd list \<times> 'k"
  x_lastTime :: int

text \<open>A signed certificate has the fields of the template, the issuer of the parent, the public key given, and a signature of the
  private key. A certificate below a root is valid if the root may sign, is named as its issuer and has signed it, both are
  valid at the time, and the usage asked for is among its own. The library refuses to create a certificate whose names of hosts are not in ASCII (they are encoded
  as IA5 strings), whose serial number is negative or whose times cannot be represented; \<open>encodable\<close> excludes these, and also
  subjects outside ASCII, of which only valid UTF-8 would be accepted.\<close>

definition ascii :: "string \<Rightarrow> bool" where
  "ascii s \<longleftrightarrow> list_all (\<lambda>c. of_char c < (128 :: nat)) s"

definition encodable :: "int \<Rightarrow> 'p Certificate \<Rightarrow> bool" where
  "encodable lastTime c \<longleftrightarrow> 0 \<le> SerialNumber c \<and> list_all (\<lambda>t. 0 \<le> t \<and> t \<le> lastTime) [NotBefore c, NotAfter c]
     \<and> list_all ascii (fst (Subject c) # snd (Subject c) @ DNSNames c)"

definition issued_as :: "'p Certificate \<Rightarrow> 'p Certificate \<Rightarrow> 'p \<Rightarrow> 'p \<Rightarrow> 'p Certificate" where
  "issued_as tmpl parent p signer = tmpl\<lparr>Issuer := Subject parent, PublicKey := Some p, Signature := Some signer\<rparr>"

definition valid_below :: "'p Certificate \<Rightarrow> 'p Certificate \<Rightarrow> extKeyUsage \<Rightarrow> int \<Rightarrow> bool" where
  "valid_below root c usage now \<longleftrightarrow> IsCA root \<and> BasicConstraintsValid root \<and> KeyUsageCertSign \<in> set (KeyUsages root) \<and> Issuer c = Subject root
     \<and> PublicKey root \<noteq> None \<and> Signature c = PublicKey root \<and> NotBefore root \<le> now \<and> now \<le> NotAfter root \<and> NotBefore c \<le> now \<and> now \<le> NotAfter c
     \<and> usage \<in> set (ExtKeyUsages c) \<and> ExtKeyUsages root = []"

definition x509_laws :: "('k, 'p, 'd, 'f) x509 \<Rightarrow> bool" where
  "x509_laws X \<longleftrightarrow>
     (\<forall>tmpl parent p k. encodable (x_lastTime X) tmpl \<longrightarrow> PublicKey parent \<in> {None, Some (x_Public X k)} \<longrightarrow> (\<exists>der. x_CreateCertificate X tmpl parent p k = Inr der
        \<and> x_ParseCertificate X der = Inr (issued_as tmpl parent p (x_Public X k))))
     \<and> (\<forall>k. \<exists>der. x_MarshalECPrivateKey X k = Inr der \<and> x_ParseECPrivateKey X der = Inr k)
     \<and> (\<forall>ty der. x_pemDecode X (x_pemEncode X ty der) = Some (ty, der))
     \<and> (\<forall>der c. x_ParseCertificate X der = Inr c \<longrightarrow> x_AppendCertsFromPEM X (x_pemEncode X ''CERTIFICATE'' der) = [c])
     \<and> (\<forall>der c kder k. x_ParseCertificate X der = Inr c \<longrightarrow> x_ParseECPrivateKey X kder = Inr k \<longrightarrow> PublicKey c = Some (x_Public X k) \<longrightarrow>
          x_X509KeyPair X (x_pemEncode X ''CERTIFICATE'' der) (x_pemEncode X ''EC PRIVATE KEY'' kder) = Inr ([der], k))
     \<and> (\<forall>c root roots mids usage now. root \<in> set roots \<longrightarrow> valid_below root c usage now \<longrightarrow> x_Verify X c roots mids usage now = None)"

lemma x509_lawsD:
  assumes "x509_laws X"
  shows "encodable (x_lastTime X) tmpl \<Longrightarrow> PublicKey parent \<in> {None, Some (x_Public X k)} \<Longrightarrow> \<exists>der. x_CreateCertificate X tmpl parent p k = Inr der
        \<and> x_ParseCertificate X der = Inr (issued_as tmpl parent p (x_Public X k))"
    and "\<exists>der. x_MarshalECPrivateKey X k = Inr der \<and> x_ParseECPrivateKey X der = Inr k"
    and "x_pemDecode X (x_pemEncode X ty der) = Some (ty, der)"
    and "x_ParseCertificate X der = Inr c \<Longrightarrow> x_AppendCertsFromPEM X (x_pemEncode X ''CERTIFICATE'' der) = [c]"
    and "x_ParseCertificate X der = Inr c \<Longrightarrow> x_ParseECPrivateKey X kder = Inr k \<Longrightarrow> PublicKey c = Some (x_Public X k) \<Longrightarrow>
      x_X509KeyPair X (x_pemEncode X ''CERTIFICATE'' der) (x_pemEncode X ''EC PRIVATE KEY'' kder) = Inr ([der], k)"
    and "root \<in> set roots \<Longrightarrow> valid_below root c usage now \<Longrightarrow> x_Verify X c roots mids usage now = None"
  using assms unfolding x509_laws_def by blast+

section \<open>Files\<close>

type_synonym 'f files = "string \<Rightarrow> ('f \<times> int) option"

text \<open>\<open>os.OpenFile\<close> with \<open>O_CREATE\<close> and \<open>O_TRUNC\<close>, and the write: the mode is only used for a file that does not exist yet.\<close>

definition write_file :: "string \<Rightarrow> int \<Rightarrow> 'f \<Rightarrow> 'f files \<Rightarrow> 'f files" where
  "write_file path perm data fs = fs(path \<mapsto> (data, case fs path of None \<Rightarrow> perm | Some (_, m) \<Rightarrow> m))"

definition ReadFile :: "'f files \<Rightarrow> string \<Rightarrow> 'f option" where
  "ReadFile fs path = map_option fst (fs path)"

lemma ReadFile_write: "ReadFile (write_file path perm data fs) q = (if q = path then Some data else ReadFile fs q)"
  by (simp add: ReadFile_def write_file_def)

section \<open>Credentials\<close>

datatype tls_error = ErrNoPeerCertificate | ErrParsePeer go_error | ErrParseIntermediate go_error | ErrVerification go_error
  | ErrReadKeyPair | ErrLoadKeyPair go_error | ErrReadCA | ErrParseCA string

definition Disabled :: string where "Disabled = ''disabled''"
definition Internal :: string where "Internal = ''internal''"
definition Full :: string where "Full = ''full''"

fun parse_all :: "('k, 'p, 'd, 'f) x509 \<Rightarrow> 'd list \<Rightarrow> go_error + 'p Certificate list" where
  "parse_all X [] = Inr []"
| "parse_all X (raw # raws) = bind_res (x_ParseCertificate X raw) (\<lambda>c. bind_res (parse_all X raws) (\<lambda>cs. Inr (c # cs)))"

text \<open>Options without usages ask for server authentication.\<close>

definition verifyCAOnly :: "('k, 'p, 'd, 'f) x509 \<Rightarrow> 'p Certificate list \<Rightarrow> int \<Rightarrow> 'd list \<Rightarrow> tls_error option" where
  "verifyCAOnly X caPool now rawCerts =
     (case rawCerts of
        [] \<Rightarrow> Some ErrNoPeerCertificate
      | raw # rest \<Rightarrow>
          (case x_ParseCertificate X raw of
             Inl err \<Rightarrow> Some (ErrParsePeer err)
           | Inr cert \<Rightarrow>
               (case parse_all X rest of
                  Inl err \<Rightarrow> Some (ErrParseIntermediate err)
                | Inr intermediates \<Rightarrow> map_option ErrVerification (x_Verify X cert caPool intermediates ExtKeyUsageServerAuth now))))"

text \<open>The configurations handed to gRPC. Both ask for TLS 1.3; the server verifies clients with the library's own check against \<open>ClientCAs\<close>, the
  client switches that check off and sets \<open>VerifyPeerCertificate\<close> to \<open>verifyCAOnly\<close>.\<close>

record ('p, 'd, 'k) credentials =
  Certificates :: "'d list \<times> 'k"
  RequireClientCert :: bool
  ClientCAs :: "'p Certificate list"
  InsecureSkipVerify :: bool
  VerifyPool :: "'p Certificate list option"

definition load_pool :: "('k, 'p, 'd, 'f) x509 \<Rightarrow> 'f files \<Rightarrow> string \<Rightarrow> string \<Rightarrow> string \<Rightarrow> tls_error + ('d list \<times> 'k) \<times> 'p Certificate list" where
  "load_pool X fs caCertFile certFile keyFile =
     (case (ReadFile fs certFile, ReadFile fs keyFile) of
        (Some certPEM, Some keyPEM) \<Rightarrow>
          (case x_X509KeyPair X certPEM keyPEM of
             Inl err \<Rightarrow> Inl (ErrLoadKeyPair err)
           | Inr cert \<Rightarrow>
               (case ReadFile fs caCertFile of
                  None \<Rightarrow> Inl ErrReadCA
                | Some caPEM \<Rightarrow>
                    let caPool = x_AppendCertsFromPEM X caPEM in if caPool = [] then Inl (ErrParseCA caCertFile) else Inr (cert, caPool)))
      | _ \<Rightarrow> Inl ErrReadKeyPair)"

definition LoadServerCredentials ::
    "('k, 'p, 'd, 'f) x509 \<Rightarrow> 'f files \<Rightarrow> string \<Rightarrow> string \<Rightarrow> string \<Rightarrow> tls_error + ('p, 'd, 'k) credentials" where
  "LoadServerCredentials X fs caCertFile certFile keyFile =
     bind_res (load_pool X fs caCertFile certFile keyFile) (\<lambda>(cert, caPool).
       Inr \<lparr>Certificates = cert, RequireClientCert = True, ClientCAs = caPool, InsecureSkipVerify = False, VerifyPool = None\<rparr>)"

definition LoadClientCredentials ::
    "('k, 'p, 'd, 'f) x509 \<Rightarrow> 'f files \<Rightarrow> string \<Rightarrow> string \<Rightarrow> string \<Rightarrow> tls_error + ('p, 'd, 'k) credentials" where
  "LoadClientCredentials X fs caCertFile certFile keyFile =
     bind_res (load_pool X fs caCertFile certFile keyFile) (\<lambda>(cert, caPool).
       Inr \<lparr>Certificates = cert, RequireClientCert = False, ClientCAs = [], InsecureSkipVerify = True, VerifyPool = Some caPool\<rparr>)"

text \<open>What the library does with these configurations in a handshake: the certificates that the other side presents are accepted.\<close>

definition server_accepts :: "('k, 'p, 'd, 'f) x509 \<Rightarrow> ('p, 'd, 'k) credentials \<Rightarrow> int \<Rightarrow> 'd list \<Rightarrow> bool" where
  "server_accepts X cred now rawCerts \<longleftrightarrow> \<not> RequireClientCert cred \<or> (case parse_all X rawCerts of
     Inr (cert # intermediates) \<Rightarrow> x_Verify X cert (ClientCAs cred) intermediates ExtKeyUsageClientAuth now = None | _ \<Rightarrow> False)"

definition client_accepts :: "('k, 'p, 'd, 'f) x509 \<Rightarrow> ('p, 'd, 'k) credentials \<Rightarrow> int \<Rightarrow> 'd list \<Rightarrow> bool" where
  "client_accepts X cred now rawCerts \<longleftrightarrow> InsecureSkipVerify cred \<and> (case VerifyPool cred of None \<Rightarrow> True | Some pool \<Rightarrow> verifyCAOnly X pool now rawCerts = None)"

text \<open>A node whose files hold a certificate, the key that belongs to it and the certificate of the authority.\<close>

definition node_files :: "('k, 'p, 'd, 'f) x509 \<Rightarrow> 'f files \<Rightarrow> string \<Rightarrow> string \<Rightarrow> string \<Rightarrow> 'p Certificate \<Rightarrow> 'p Certificate \<Rightarrow> 'd \<Rightarrow> 'k \<Rightarrow> bool" where
  "node_files X fs ca crt key root c der k \<longleftrightarrow> (\<exists>caDer kder. ReadFile fs ca = Some (x_pemEncode X ''CERTIFICATE'' caDer) \<and> x_ParseCertificate X caDer = Inr root
     \<and> ReadFile fs crt = Some (x_pemEncode X ''CERTIFICATE'' der) \<and> x_ParseCertificate X der = Inr c
     \<and> ReadFile fs key = Some (x_pemEncode X ''EC PRIVATE KEY'' kder) \<and> x_ParseECPrivateKey X kder = Inr k \<and> PublicKey c = Some (x_Public X k))"

lemma load_pool_node:
  assumes "x509_laws X" "node_files X fs ca crt key root c der k"
  shows "load_pool X fs ca crt key = Inr (([der], k), [root])"
proof -
  note laws = x509_lawsD [OF assms(1)]
  from assms(2) obtain caDer kder where f: "ReadFile fs ca = Some (x_pemEncode X ''CERTIFICATE'' caDer)" "x_ParseCertificate X caDer = Inr root"
      "ReadFile fs crt = Some (x_pemEncode X ''CERTIFICATE'' der)" "x_ParseCertificate X der = Inr c"
      "ReadFile fs key = Some (x_pemEncode X ''EC PRIVATE KEY'' kder)" "x_ParseECPrivateKey X kder = Inr k" "PublicKey c = Some (x_Public X k)"
    by (auto simp: node_files_def)
  with laws(4) [OF f(2)] laws(5) [OF f(4,6,7)] show ?thesis by (simp add: load_pool_def)
qed

lemma handshake_accepts:
  assumes "x509_laws X" "x_ParseCertificate X der = Inr c"
  shows "valid_below root c ExtKeyUsageServerAuth now \<Longrightarrow>
      client_accepts X \<lparr>Certificates = own, RequireClientCert = False, ClientCAs = [], InsecureSkipVerify = True, VerifyPool = Some [root]\<rparr> now [der]"
    and "valid_below root c ExtKeyUsageClientAuth now \<Longrightarrow>
      server_accepts X \<lparr>Certificates = own, RequireClientCert = True, ClientCAs = [root], InsecureSkipVerify = False, VerifyPool = None\<rparr> now [der]"
  using x509_lawsD(6) [OF assms(1), of root "[root]" c] assms(2)
  by (simp_all add: client_accepts_def server_accepts_def verifyCAOnly_def)

text \<open>A library that keeps certificates and keys as they are and refuses what cannot be encoded.\<close>

datatype sample_der = DerCert "nat Certificate" | DerKey nat

definition sample_x509 :: "(nat, nat, sample_der, string \<times> sample_der) x509" where
  "sample_x509 = \<lparr>x_Public = Suc, x_CreateCertificate = (\<lambda>tmpl parent p k. if encodable 253402300799 tmpl then Inr (DerCert (issued_as tmpl parent p (Suc k))) else Inl ErrUnsupportedType),
     x_ParseCertificate = (\<lambda>d. case d of DerCert c \<Rightarrow> Inr c | _ \<Rightarrow> Inl ErrCannotUnmarshal), x_MarshalECPrivateKey = (\<lambda>k. Inr (DerKey k)),
     x_ParseECPrivateKey = (\<lambda>d. case d of DerKey k \<Rightarrow> Inr k | _ \<Rightarrow> Inl ErrCannotUnmarshal),
     x_Verify = (\<lambda>c roots mids usage now. if list_ex (\<lambda>root. valid_below root c usage now) roots then None else Some ErrNotFound),
     x_pemEncode = (\<lambda>ty d. (ty, d)), x_pemDecode = Some, x_AppendCertsFromPEM = (\<lambda>(ty, d). case d of DerCert c \<Rightarrow> [c] | _ \<Rightarrow> []),
     x_X509KeyPair = (\<lambda>(ty, d) (ty', d'). case (d, d') of (DerCert c, DerKey k) \<Rightarrow> if PublicKey c = Some (Suc k) then Inr ([d], k) else Inl ErrTypeMismatch | _ \<Rightarrow> Inl ErrCannotUnmarshal), x_lastTime = 253402300799\<rparr>"

lemma sample_x509_laws: "x509_laws sample_x509"
  by (auto simp: x509_laws_def sample_x509_def list_ex_iff split: sample_der.splits)

end
