(* ===== verification/Lume_Cli.thy ===== *)
theory Lume_Cli
  imports Go_Strconv Node_Server Recovery
begin

text \<open>
  The command line client, \<open>cmd/lume-cli/main.go\<close>: what each command asks of the server and what it prints. The commands get
  their arguments and the flag \<open>--type\<close> from cobra, which checks how many there are. The client stub is a record of the four
  calls, each giving the answer and the state of the server after it; the printed lines are the values of a datatype with one constructor
  for each format. Lemmas: the calls that reach a node behave as its handlers; a \<open>set\<close> with a value is read back by \<open>get\<close>.
\<close>

section \<open>Client and output\<close>

record 's LumeClient =
  cl_Set :: "'s \<Rightarrow> string \<Rightarrow> lume_Type \<Rightarrow> (go_error + unit) \<times> 's"
  cl_Get :: "'s \<Rightarrow> string \<Rightarrow> (go_error + GetResponse) \<times> 's"
  cl_Delete :: "'s \<Rightarrow> string \<Rightarrow> (go_error + bool) \<times> 's"
  cl_Apply :: "'s \<Rightarrow> string \<Rightarrow> operation \<Rightarrow> (go_error + unit) \<times> 's"

datatype cli_line =
    CreatedEmpty string string | CreatedCounter string i64 | CreatedRegister string string | NoSuchKey string
  | ShowKey string | ShowType string | ShowNumber i64 | ShowText bytes | ShowUnknown | Deleted string
  | SetRegister string string | Incremented string i64 | Decremented string i64

datatype cli_error =
    ErrArgs | ErrNoValueNoType | ErrUnknownType string | ErrNumberButType string | ErrTextButType string
  | ErrSet go_error | ErrCreateCounter go_error | ErrIncrement go_error | ErrCreateRegister go_error | ErrSetValue go_error
  | ErrGet go_error | ErrDelete go_error | ErrInvalidIncrement num_error | ErrInvalidDecrement num_error | ErrApply go_error

type_synonym 's command = "'s \<Rightarrow> (cli_error + cli_line list) \<times> 's"

section \<open>Commands\<close>

text \<open>The first mode of \<open>set\<close>: only a key, with the flag.\<close>

definition set_empty :: "'s LumeClient \<Rightarrow> string \<Rightarrow> string \<Rightarrow> 's command" where
  "set_empty cl typeFlag key s =
     (if typeFlag = '''' then (Inl ErrNoValueNoType, s)
      else if typeFlag \<noteq> ''counter'' \<and> typeFlag \<noteq> ''register'' then (Inl (ErrUnknownType typeFlag), s)
      else case cl_Set cl s key (if typeFlag = ''counter'' then TYPE_PN_COUNTER else TYPE_LWW_REGISTER) of
             (Inl err, s1) \<Rightarrow> (Inl (ErrSet err), s1)
           | (Inr _, s1) \<Rightarrow> (Inr [CreatedEmpty typeFlag key], s1))"

text \<open>The second mode: a value that is a number.\<close>

definition set_number :: "'s LumeClient \<Rightarrow> string \<Rightarrow> string \<Rightarrow> i64 \<Rightarrow> 's command" where
  "set_number cl typeFlag key numVal s =
     (if typeFlag \<noteq> '''' \<and> typeFlag \<noteq> ''counter'' then (Inl (ErrNumberButType typeFlag), s)
      else case cl_Set cl s key TYPE_PN_COUNTER of
             (Inl err, s1) \<Rightarrow> (Inl (ErrCreateCounter err), s1)
           | (Inr _, s1) \<Rightarrow>
               (case cl_Apply cl s1 key (CounterOperationInc numVal) of
                  (Inl err, s2) \<Rightarrow> (Inl (ErrIncrement err), s2)
                | (Inr _, s2) \<Rightarrow> (Inr [CreatedCounter key numVal], s2)))"

text \<open>And one that is not.\<close>

definition set_text :: "'s LumeClient \<Rightarrow> string \<Rightarrow> string \<Rightarrow> string \<Rightarrow> 's command" where
  "set_text cl typeFlag key value s =
     (if typeFlag \<noteq> '''' \<and> typeFlag \<noteq> ''register'' then (Inl (ErrTextButType typeFlag), s)
      else case cl_Set cl s key TYPE_LWW_REGISTER of
             (Inl err, s1) \<Rightarrow> (Inl (ErrCreateRegister err), s1)
           | (Inr _, s1) \<Rightarrow>
               (case cl_Apply cl s1 key (RegisterOperation (string_bytes value)) of
                  (Inl err, s2) \<Rightarrow> (Inl (ErrSetValue err), s2)
                | (Inr _, s2) \<Rightarrow> (Inr [CreatedRegister key value], s2)))"

definition setCmd :: "'s LumeClient \<Rightarrow> string \<Rightarrow> string list \<Rightarrow> 's command" where
  "setCmd cl typeFlag args s =
     (case args of
        [key] \<Rightarrow> set_empty cl typeFlag key s
      | [key, value] \<Rightarrow>
          (case ParseInt value of
             Inr numVal \<Rightarrow> set_number cl typeFlag key (word_of_int numVal) s
           | Inl _ \<Rightarrow> set_text cl typeFlag key value s)
      | _ \<Rightarrow> (Inl ErrArgs, s))"

definition formatType :: "lume_Type \<Rightarrow> string" where
  "formatType t = (if t = TYPE_PN_COUNTER then ''PN_COUNTER'' else if t = TYPE_LWW_REGISTER then ''LWW_REGISTER'' else ''NOT_SPECIFIED'')"

definition getCmd :: "'s LumeClient \<Rightarrow> string list \<Rightarrow> 's command" where
  "getCmd cl args s =
     (case args of
        [key] \<Rightarrow>
          (case cl_Get cl s key of
             (Inl err, s1) \<Rightarrow> (Inl (ErrGet err), s1)
           | (Inr resp, s1) \<Rightarrow>
               if \<not> respOk resp then (Inr [NoSuchKey key], s1)
               else (Inr [ShowKey key, ShowType (formatType (respCrdtType resp)),
                       case respData resp of Some (CounterData v) \<Rightarrow> ShowNumber v | Some (RegisterData b) \<Rightarrow> ShowText b | None \<Rightarrow> ShowUnknown], s1))
      | _ \<Rightarrow> (Inl ErrArgs, s))"

definition deleteCmd :: "'s LumeClient \<Rightarrow> string list \<Rightarrow> 's command" where
  "deleteCmd cl args s =
     (case args of
        [key] \<Rightarrow>
          (case cl_Delete cl s key of
             (Inl err, s1) \<Rightarrow> (Inl (ErrDelete err), s1)
           | (Inr ok, s1) \<Rightarrow> (Inr [if ok then Deleted key else NoSuchKey key], s1))
      | _ \<Rightarrow> (Inl ErrArgs, s))"

definition applyRegisterCmd :: "'s LumeClient \<Rightarrow> string list \<Rightarrow> 's command" where
  "applyRegisterCmd cl args s =
     (case args of
        [key, value] \<Rightarrow>
          (case cl_Apply cl s key (RegisterOperation (string_bytes value)) of
             (Inl err, s1) \<Rightarrow> (Inl (ErrApply err), s1)
           | (Inr _, s1) \<Rightarrow> (Inr [SetRegister key value], s1))
      | _ \<Rightarrow> (Inl ErrArgs, s))"

definition applyIncCmd :: "'s LumeClient \<Rightarrow> string list \<Rightarrow> 's command" where
  "applyIncCmd cl args s =
     (case args of
        [key, arg] \<Rightarrow>
          (case ParseInt arg of
             Inl err \<Rightarrow> (Inl (ErrInvalidIncrement err), s)
           | Inr value \<Rightarrow>
               (case cl_Apply cl s key (CounterOperationInc (word_of_int value)) of
                  (Inl err, s1) \<Rightarrow> (Inl (ErrApply err), s1)
                | (Inr _, s1) \<Rightarrow> (Inr [Incremented key (word_of_int value)], s1)))
      | _ \<Rightarrow> (Inl ErrArgs, s))"

definition applyDecCmd :: "'s LumeClient \<Rightarrow> string list \<Rightarrow> 's command" where
  "applyDecCmd cl args s =
     (case args of
        [key, arg] \<Rightarrow>
          (case ParseInt arg of
             Inl err \<Rightarrow> (Inl (ErrInvalidDecrement err), s)
           | Inr value \<Rightarrow>
               (case cl_Apply cl s key (CounterOperationDec (word_of_int value)) of
                  (Inl err, s1) \<Rightarrow> (Inl (ErrApply err), s1)
                | (Inr _, s1) \<Rightarrow> (Inr [Decremented key (word_of_int value)], s1)))
      | _ \<Rightarrow> (Inl ErrArgs, s))"

section \<open>A client connected to a node\<close>

text \<open>The calls of a client that reaches a node: the handlers behind the interceptor, each with the next readings of the clocks.\<close>

definition node_client ::
    "(string \<Rightarrow> u64) \<Rightarrow> 'c lru \<Rightarrow> 'w gowal \<Rightarrow> (nat \<Rightarrow> i64 \<times> i64 \<times> i64) \<Rightarrow> (('w, 'c) Storage \<times> nat) LumeClient" where
  "node_client hk L G clocks =
     \<lparr>cl_Set = (\<lambda>(s, i) key ty. case clocks i of (tr, t, now) \<Rightarrow> (case ns_Set hk L G s t key ty of (r, s') \<Rightarrow> (UnaryPanicRecovery r, s', i + 1))),
      cl_Get = (\<lambda>(s, i) key. (UnaryPanicRecovery (ns_Get hk s key), s, i)),
      cl_Delete = (\<lambda>(s, i) key. case clocks i of (tr, t, now) \<Rightarrow> (case ns_Delete hk L G s t now key of (r, s') \<Rightarrow> (UnaryPanicRecovery r, s', i + 1))),
      cl_Apply = (\<lambda>(s, i) key oper. case clocks i of (tr, t, now) \<Rightarrow> (case ns_Apply hk L G s tr t key oper of (r, s') \<Rightarrow> (UnaryPanicRecovery r, s', i + 1)))\<rparr>"
section \<open>A write after a set is not refused by the buffer\<close>

text \<open>What the buffer holds for a key of the node can take a delta of type \<open>ty\<close> without panic: nothing, an update that a merge replaces,
  or one with which a merge is refused.\<close>

definition merge_safe :: "('c \<Rightarrow> (string \<times> bufupd) list) \<Rightarrow> string \<Rightarrow> string \<Rightarrow> CRDTType \<Rightarrow> ('w, 'c) Storage \<Rightarrow> bool" where
  "merge_safe entries nid key ty s \<longleftrightarrow> (\<forall>b. map_of (entries (st_buffer s)) (key @ '':'' @ nid) = Some b \<longrightarrow>
     UType (bu_update b) \<in> {UpdateTypeSet, UpdateTypeDelete} \<or> Key (bu_update b) \<noteq> key \<or> NodeID (bu_update b) \<noteq> nid
     \<or> delta_Type (st_heap s ! bu_payload b) \<noteq> ty)"

lemma map_of_added: "map_of (evict cap (without k xs @ [(k, v)])) k \<in> {None, Some v}"
proof (cases cap)
  case (Suc m)
  then obtain ys where "evict cap (without k xs @ [(k, v)]) = ys @ [(k, v)]" "set ys \<subseteq> set (without k xs)"
    using evict_last [of cap "without k xs" "(k, v)"] by auto
  moreover from this have "map_of ys k = None" by (auto simp: map_of_eq_None_iff without_def)
  ultimately show ?thesis by (simp add: map_add_def)
qed (simp add: evict_def)

lemma delta_Merge_types:
  "delta_Type d \<noteq> delta_Type e \<Longrightarrow> \<exists>err. delta_Merge d e = Inl err \<and> (\<forall>p. err \<noteq> Panic p)"
  "nil_payload e \<Longrightarrow> delta_Merge d e = Inl err \<Longrightarrow> delta_Type d \<noteq> delta_Type e"
  by (cases d; cases e; auto simp: PNCounterDelta_Merge_def CRDTTypePNCounter_def CRDTTypeLWWHLCRegister_def)+

lemma heap_entry: "heap_ok entries s \<Longrightarrow> map_of (entries (st_buffer s)) k = Some b \<Longrightarrow> bu_payload b < length (st_heap s)"
  by (auto simp: heap_ok_def list_all_iff dest!: map_of_SomeD)

lemma set_leaves_safe:
  assumes laws: "lru_laws L entries cap" and h: "heap_ok entries s" and d: "nil_payload d" "UType u = UpdateTypeSet"
    and put: "buffer_put L s u d = (None, s')"
  shows "merge_safe entries (NodeID u) (Key u) (delta_Type d) s'"
proof -
  let ?k = "cacheKey u" and ?b = "\<lparr>bu_update = u, bu_payload = length (st_heap s)\<rparr>" and ?h = "st_heap s @ [d]"
  note law = lru_lawsD [OF laws]
  obtain hit c1 where g: "lru_Get L (st_buffer s) ?k = (hit, c1)" by fastforce
  have hit: "hit = map_of (entries (st_buffer s)) ?k" using law(1) [of "st_buffer s" ?k] g by simp
  have new: "merge_safe entries (NodeID u) (Key u) ty (s\<lparr>st_buffer := lru_Add L c ?k ?b, st_heap := h'\<rparr>)" for c h' ty
    using map_of_added [of cap ?k "entries c" ?b] d(2) by (auto simp: merge_safe_def law(3) cacheKey_def)
  show ?thesis
  proof (cases hit)
    case None
    then have "s' = s\<lparr>st_buffer := lru_Add L c1 ?k ?b, st_heap := ?h\<rparr>" using put g by (simp add: buffer_put_def alloc_def)
    with new show ?thesis by simp
  next
    case (Some b)
    show ?thesis
    proof (cases "ref_Merge ?h b ?b")
      case (Inr r)
      obtain m h' where r: "r = (m, h')" by fastforce
      then have "s' = s\<lparr>st_buffer := lru_Add L (lru_Add L c1 ?k m) ?k ?b, st_heap := h'\<rparr>"
        using put g Some Inr by (simp add: buffer_put_def alloc_def Let_def)
      with new show ?thesis by simp
    next
      case (Inl e)
      then have s': "s' = s\<lparr>st_buffer := c1, st_heap := ?h\<rparr>" using put g Some by (cases e) (simp_all add: buffer_put_def alloc_def)
      have c1: "map_of (entries c1) ?k = Some b" using law(2) [of "st_buffer s" ?k] g hit [symmetric] Some by (simp add: map_add_def map_of_without)
      have b: "bu_payload b < length (st_heap s)" using heap_entry [OF h] hit Some by simp
      have "UType (bu_update b) \<in> {UpdateTypeSet, UpdateTypeDelete} \<or> Key (bu_update b) \<noteq> Key u \<or> NodeID (bu_update b) \<noteq> NodeID u
          \<or> delta_Type (?h ! bu_payload b) \<noteq> delta_Type d"
        using Inl b delta_Merge_types(2) [OF d(1), of "?h ! bu_payload b"]
        by (auto simp: ref_Merge_def Let_def fetch_def nth_append map_sum_Inl_iff split: if_splits sum.splits option.splits)
      with c1 s' show ?thesis by (simp add: merge_safe_def cacheKey_def)
    qed
  qed
qed

lemma safe_put:
  assumes laws: "lru_laws L entries cap" and h: "heap_ok entries s" and safe: "merge_safe entries (NodeID u) (Key u) (delta_Type d) s"
  shows "fst (buffer_put L s u d) = None"
proof -
  let ?k = "cacheKey u" and ?b = "\<lparr>bu_update = u, bu_payload = length (st_heap s)\<rparr>" and ?h = "st_heap s @ [d]"
  obtain hit c1 where g: "lru_Get L (st_buffer s) ?k = (hit, c1)" by fastforce
  have hit: "hit = map_of (entries (st_buffer s)) ?k" using lru_lawsD(1) [OF laws, of "st_buffer s" ?k] g by simp
  have "ref_Merge ?h b ?b \<noteq> Inl (Panic p)" if "hit = Some b" for b p
  proof -
    have b: "bu_payload b < length (st_heap s)" using heap_entry [OF h] hit that by simp
    have "UType (bu_update b) \<in> {UpdateTypeSet, UpdateTypeDelete} \<or> Key (bu_update b) \<noteq> Key u \<or> NodeID (bu_update b) \<noteq> NodeID u
        \<or> delta_Type (?h ! bu_payload b) \<noteq> delta_Type d"
      using safe hit that b by (auto simp: merge_safe_def cacheKey_def nth_append)
    then show ?thesis using b delta_Merge_types(1) [of "?h ! bu_payload b" d]
      by (auto simp: ref_Merge_def Let_def fetch_def nth_append map_sum_Inl_iff cannot_merge_Panic split: if_splits sum.splits option.splits)
  qed
  then show ?thesis using g by (cases hit) (auto simp: buffer_put_def alloc_def Let_def split: sum.splits go_error.splits prod.splits)
qed
lemma merge_safe_cong:
  "st_buffer s' = st_buffer s \<Longrightarrow> st_heap s' = st_heap s \<Longrightarrow> merge_safe entries nid key ty s' = merge_safe entries nid key ty s"
  by (simp add: merge_safe_def)

lemma st_Put_safe:
  assumes "lru_laws L entries cap" "heap_ok entries s" "st_Put hk L G s t key ty = (None, s')"
  shows "merge_safe entries (st_nodeID s) key ty s'"
proof -
  obtain val d where d: "fabric_New ty (st_nodeID s) = Inr val" "NilDelta ty = Inr d"
    using assms(3) by (auto simp: st_Put_def split: sum.splits)
  obtain ts e where e: "eng_Put hk (st_engine s) t key val = (ts, e)" by fastforce
  let ?u = "\<lparr>Seq = 0, TimeStamp = ts, SetTimeStamp = ts, Payload = Some d, UType = UpdateTypeSet, TTL = 0, Key = key, NodeID = st_nodeID s\<rparr>"
    and ?s = "set_engine s e"
  have nil: "nil_payload d" "delta_Type d = ty" using d(2) by (auto simp: NilDelta_def zero_PNCounterDelta_def split: if_splits)
  obtain vm where vm: "local_update ?s ?u = Inr (numbered ?s ?u, ?s\<lparr>st_vm := vm\<rparr>)" using local_update_ok [of ?u d ?s] by auto
  let ?s1 = "?s\<lparr>st_vm := vm\<rparr>"
  have "buffer_then_log L G ?s ?u d = (None, s')" using assms(3) d e by (simp add: st_Put_def Let_def)
  then obtain s2 where s2: "buffer_put L ?s1 (numbered ?s ?u) d = (None, s2)" "wal_append G s2 (numbered ?s ?u) = (None, s')"
    using vm by (auto simp: buffer_then_log_def split: prod.splits option.splits)
  have "heap_ok entries ?s1" using assms(2) by (simp add: heap_ok_def set_engine_def)
  from set_leaves_safe [OF assms(1) this nil(1) _ s2(1)] nil(2) have "merge_safe entries (st_nodeID s) key ty s2" by (simp add: numbered_def)
  moreover have "st_buffer s' = st_buffer s2" "st_heap s' = st_heap s2" using s2(2) by (auto simp: wal_append_def split: prod.splits)
  ultimately show ?thesis using merge_safe_cong by metis
qed

section \<open>A set with a value is read back\<close>

text \<open>A node that can serve clients: its engine is well-formed, its id is valid text, and the updates in its buffer have their payloads. Operations of
  clients, of any amount, updates of peers and the collector leave such a node.\<close>

definition serving :: "(string \<Rightarrow> u64) \<Rightarrow> ('c \<Rightarrow> (string \<times> bufupd) list) \<Rightarrow> ('w, 'c) Storage \<Rightarrow> bool" where
  "serving hk entries s \<longleftrightarrow> engine_ok hk (st_engine s) \<and> plain (st_nodeID s) \<and> plain (nodeID (eng_clock (st_engine s))) \<and> heap_ok entries s"

lemma hlc_Now_id: "hlc_Now h t = (ts, h') \<Longrightarrow> TsID ts = nodeID h \<and> nodeID h' = nodeID h"
  by (auto simp: hlc_Now_def Let_def)

lemma Append_succeeds:
  assumes "gowal_laws G log room" "plain_update u"
  shows "\<exists>ww'. Append G ww u = (None, ww')"
proof -
  obtain doc where "Update_MarshalJSON u = Inr doc" using Update_Unmarshal_enc [OF assms(2)] by blast
  then show ?thesis
    by (cases "keygen_Key (ww_keyGen ww) (NodeID u) (Seq u)") (simp add: Append_def takeBatch_def writeBatch_ok [OF assms(1)] Let_def)
qed

lemma plain_numbered: "plain_update u \<Longrightarrow> plain_update (numbered s u)"
  by (simp add: plain_update_def numbered_def)

text \<open>A set succeeds, the key has the fresh object, and the next operation of that type is not refused by the buffer.\<close>

lemma st_Put_fresh:
  assumes laws: "lru_laws L entries cap" "gowal_laws G log room" and inv: "serving hk entries s" and key: "plain key"
    and val: "fabric_New ty (st_nodeID s) = Inr val"
  shows "\<exists>s1 ent. st_Put hk L G s t key ty = (None, s1) \<and> serving hk entries s1 \<and> st_nodeID s1 = st_nodeID s \<and> GetRaw hk (st_engine s1) key = Some ent
    \<and> \<not> entTombstone ent \<and> entObject ent = val \<and> plain (TsID (entSetTimeStamp ent)) \<and> merge_safe entries (st_nodeID s1) key ty s1"
proof -
  have i: "engine_ok hk (st_engine s)" "plain (st_nodeID s)" "plain (nodeID (eng_clock (st_engine s)))" "heap_ok entries s"
    using inv by (simp_all add: serving_def)
  obtain d where d: "NilDelta ty = Inr d" using val by (auto simp: fabric_New_def NilDelta_def split: if_splits)
  note f = fabric_New_ok [OF i(2) val d order_refl]
  obtain ts clk where now: "hlc_Now (eng_clock (st_engine s)) t = (ts, clk)" by fastforce
  note id = hlc_Now_id [OF now]
  let ?e = "snd (PutWithTimeStamp hk ((st_engine s)\<lparr>eng_clock := clk\<rparr>) ts key val)"
  let ?u = "\<lparr>Seq = 0, TimeStamp = ts, SetTimeStamp = ts, Payload = Some d, UType = UpdateTypeSet, TTL = 0, Key = key, NodeID = st_nodeID s\<rparr>"
    and ?s = "set_engine s ?e" and ?ent = "\<lparr>entObject = val, entTombstone = False, entSetTimeStamp = ts\<rparr>"
  have pl: "plain_update ?u" by (rule plain_updateI) (use key i(2,3) id f in auto)
  obtain vm where vm: "local_update ?s ?u = Inr (numbered ?s ?u, ?s\<lparr>st_vm := vm\<rparr>)" "vm_engine vm = ?e"
    using local_update_ok [of ?u d ?s] by (auto simp: set_engine_def)
  let ?s1 = "?s\<lparr>st_vm := vm\<rparr>"
  have h: "heap_ok entries ?s1" using i(4) by (simp add: heap_ok_def set_engine_def)
  obtain s2 where s2: "buffer_put L ?s1 (numbered ?s ?u) d = (None, s2)"
    using buffer_put_ok(2) [OF laws(1) h] f by (cases "buffer_put L ?s1 (numbered ?s ?u) d") auto
  note b = buffer_put_ok(1) [OF laws(1) h s2]
  obtain ww where ww: "Append G (st_wal s2) (numbered ?s ?u) = (None, ww)" using Append_succeeds [OF laws(2) plain_numbered [OF pl]] by blast
  let ?s3 = "s2\<lparr>st_wal := ww\<rparr>"
  have put: "st_Put hk L G s t key ty = (None, ?s3)"
    using val d now vm(1) s2 ww by (simp add: st_Put_def eng_Put_def Let_def PutWithTimeStamp_def buffer_then_log_def wal_append_def)
  have eng: "st_engine ?s3 = ?e" "st_nodeID ?s3 = st_nodeID s" using b vm(2) by (simp_all add: set_engine_def)
  have "eng_clock ?e = clk" by (simp add: PutWithTimeStamp_def eng_store_def Let_def)
  moreover have "engine_ok hk ?e" using st_Put_write [OF i(1) val, of key L G t] eng put by (simp add: one_write_def)
  ultimately have "serving hk entries ?s3" using eng b i(2,3) id by (simp add: serving_def heap_ok_def)
  moreover have "GetRaw hk ?e key = Some ?ent" using i(1) by (simp add: eng_simps engine_ok_def)
  moreover have "merge_safe entries (st_nodeID ?s3) key ty ?s3" using st_Put_safe [OF laws(1) i(4) put] eng(2) by simp
  ultimately show ?thesis using put eng i(3) id by (intro exI [of _ ?s3] exI [of _ ?ent]) simp
qed

lemma publish_delta_succeeds:
  assumes laws: "lru_laws L entries cap" "gowal_laws G log room" and inv: "serving hk entries s" and key: "plain key"
    and old: "eng_Get hk (st_engine s) key = Some old" "plain (TsID (entSetTimeStamp old))" and d: "plain_delta d" and obj: "crdt_ok obj"
    and safe: "merge_safe entries (st_nodeID s) key (delta_Type d) s"
  shows "\<exists>s'. publish_delta hk L G walErr s t key old obj d = ((True, None), s') \<and> serving hk entries s'"
proof -
  have i: "engine_ok hk (st_engine s)" "plain (st_nodeID s)" "plain (nodeID (eng_clock (st_engine s)))" "heap_ok entries s"
    using inv by (simp_all add: serving_def)
  let ?e = "eng_store hk (st_engine s) key (old\<lparr>entObject := obj\<rparr>)"
  obtain ts clk where now: "hlc_Now (eng_clock (st_engine s)) t = (ts, clk)" by fastforce
  note id = hlc_Now_id [OF now]
  have clk: "eng_clock ?e = eng_clock (st_engine s)" by (simp add: eng_store_def Let_def)
  let ?u = "\<lparr>Seq = 0, TimeStamp = ts, SetTimeStamp = entSetTimeStamp old, Payload = Some d, UType = UpdateTypeDelta, TTL = 0, Key = key, NodeID = st_nodeID s\<rparr>"
    and ?s = "set_engine s (?e\<lparr>eng_clock := clk\<rparr>)"
  have pl: "plain_update ?u" by (rule plain_updateI) (use key i(2,3) id old(2) d in auto)
  obtain vm where vm: "local_update ?s ?u = Inr (numbered ?s ?u, ?s\<lparr>st_vm := vm\<rparr>)" "vm_engine vm = ?e\<lparr>eng_clock := clk\<rparr>"
    using local_update_ok [of ?u d ?s] by (auto simp: set_engine_def)
  obtain ww where ww: "Append G (st_wal ?s) (numbered ?s ?u) = (None, ww)" using Append_succeeds [OF laws(2) plain_numbered [OF pl]] by blast
  let ?s2 = "?s\<lparr>st_vm := vm, st_wal := ww\<rparr>"
  have h: "heap_ok entries ?s2" using i(4) by (simp add: heap_ok_def set_engine_def)
  have "merge_safe entries (NodeID (numbered ?s ?u)) (Key (numbered ?s ?u)) (delta_Type d) ?s2"
    using safe merge_safe_cong [of ?s2 s] by (simp add: numbered_def set_engine_def)
  from safe_put [OF laws(1) h this] obtain s3 where s3: "buffer_put L ?s2 (numbered ?s ?u) d = (None, s3)"
    by (cases "buffer_put L ?s2 (numbered ?s ?u) d") simp
  note b = buffer_put_ok(1) [OF laws(1) h s3]
  have "log_then_buffer L G walErr ?s ?u d = (None, s3)" using vm ww s3 by (simp add: log_then_buffer_def wal_append_def)
  then have p: "publish_delta hk L G walErr s t key old obj d = ((True, None), s3)" using now clk by (simp add: publish_delta_def Let_def)
  have "engine_ok hk (st_engine s3)" using publish_delta_write [OF i(1) old(1) obj refl, of L G walErr t d] p by (simp add: one_write_def)
  moreover have "st_engine s3 = ?e\<lparr>eng_clock := clk\<rparr>" "st_nodeID s3 = st_nodeID s" using b vm(2) by (simp_all add: set_engine_def)
  ultimately have "serving hk entries s3" using b i(2,3) id by (simp add: serving_def)
  with p show ?thesis by blast
qed

text \<open>The first operation on a fresh object.\<close>

lemma apply_succeeds:
  assumes laws: "lru_laws L entries cap" "gowal_laws G log room" and inv: "serving hk entries s" and key: "plain key"
    and ent: "GetRaw hk (st_engine s) key = Some ent" "\<not> entTombstone ent" "plain (TsID (entSetTimeStamp ent))"
  shows "entObject ent = Counter (NewPNCounter (st_nodeID s)) \<Longrightarrow> merge_safe entries (st_nodeID s) key CRDTTypePNCounter s \<Longrightarrow>
      \<exists>s'. ns_Apply hk L G s tr t key (CounterOperationInc x) = (Inr (), s') \<and> serving hk entries s'"
    and "entObject ent = Register (NewLWWHLCRegister (st_nodeID s)) \<Longrightarrow> merge_safe entries (st_nodeID s) key CRDTTypeLWWHLCRegister s \<Longrightarrow>
      \<exists>s'. ns_Apply hk L G s tr t key (RegisterOperation b) = (Inr (), s') \<and> serving hk entries s'"
proof -
  have get: "eng_Get hk (st_engine s) key = Some ent" using ent eng_Get_Some by blast
  have nid: "plain (st_nodeID s)" using inv by (simp add: serving_def)
  note pub = publish_delta_succeeds [OF laws inv key get ent(3)]
  show "\<exists>s'. ns_Apply hk L G s tr t key (CounterOperationInc x) = (Inr (), s') \<and> serving hk entries s'"
    if k: "entObject ent = Counter (NewPNCounter (st_nodeID s))" and safe: "merge_safe entries (st_nodeID s) key CRDTTypePNCounter s"
  proof -
    obtain d k' where w: "Increment (NewPNCounter (st_nodeID s)) x = Inr (d, k')" "plain_delta (CounterDelta d)" "crdt_ok (Counter k')"
      using nid by (auto simp: Increment_def Let_def NewPNCounter_def pn_wf_def plain_map_def)
    obtain s' where "publish_delta hk L G id s t key ent (Counter k') (CounterDelta d) = ((True, None), s')" "serving hk entries s'"
      using pub [OF w(2,3), of id t] safe by auto
    with k get ent(2) w(1) show ?thesis by (simp add: ApplyInc_def)
  qed
  show "\<exists>s'. ns_Apply hk L G s tr t key (RegisterOperation b) = (Inr (), s') \<and> serving hk entries s'"
    if k: "entObject ent = Register (NewLWWHLCRegister (st_nodeID s))" and safe: "merge_safe entries (st_nodeID s) key CRDTTypeLWWHLCRegister s"
  proof -
    obtain ts h' where now: "hlc_Now (NewHLC (st_nodeID s)) tr = (ts, h')" by fastforce
    have "plain (TsID ts)" using hlc_Now_id [OF now] nid by (simp add: NewHLC_def)
    with now obtain d k' where w: "LWWHLCRegister_Write (NewLWWHLCRegister (st_nodeID s)) tr b = Inr (d, k')" "plain_delta (RegisterDelta d)" "crdt_ok (Register k')"
      by (auto simp: LWWHLCRegister_Write_def NewLWWHLCRegister_def)
    obtain s' where "publish_delta hk L G (\<lambda>_. ErrInternal) s t key ent (Register k') (RegisterDelta d) = ((True, None), s')" "serving hk entries s'"
      using pub [OF w(2,3), of "\<lambda>_. ErrInternal" t] safe by auto
    with k get ent(2) w(1) show ?thesis by (simp add: ApplySetRegister_def)
  qed
qed

lemma getCmd_answer:
  "getCmd (node_client hk L G clocks) [key] (s, i) =
     (let resp = answer hk (st_engine s) key in
      Inr (if \<not> respOk resp then [NoSuchKey key]
           else [ShowKey key, ShowType (formatType (respCrdtType resp)),
             case respData resp of Some (CounterData v) \<Rightarrow> ShowNumber v | Some (RegisterData b) \<Rightarrow> ShowText b | None \<Rightarrow> ShowUnknown]), (s, i))"
  by (simp add: getCmd_def node_client_def ns_Get_shows answer_def Let_def)

lemma set_apply_answer:
  assumes laws: "lru_laws L entries cap" "gowal_laws G log room" and inv: "serving hk entries s" and key: "plain key"
    and "(ty, oper, resp) \<in> {(TYPE_PN_COUNTER, CounterOperationInc x, CounterData x), (TYPE_LWW_REGISTER, RegisterOperation b, RegisterData b)}"
  shows "\<exists>s1 s2. cl_Set (node_client hk L G clocks) (s, i) key ty = (Inr (), s1, i + 1)
    \<and> cl_Apply (node_client hk L G clocks) (s1, i + 1) key oper = (Inr (), s2, i + 2)
    \<and> answer hk (st_engine s2) key = \<lparr>respCrdtType = ty, respOk = True, respData = Some resp\<rparr>
    \<and> (\<forall>k. k \<noteq> key \<longrightarrow> answer hk (st_engine s2) k = answer hk (st_engine s) k) \<and> serving hk entries s2"
proof -
  obtain tr t now where c0: "clocks i = (tr, t, now)" by (cases "clocks i")
  obtain tr' t' now' where c1: "clocks (i + 1) = (tr', t', now')" by (cases "clocks (i + 1)")
  define dty where "dty = (if ty = TYPE_PN_COUNTER then CRDTTypePNCounter else CRDTTypeLWWHLCRegister)"
  define val where "val = (if ty = TYPE_PN_COUNTER then Counter (NewPNCounter (st_nodeID s)) else Register (NewLWWHLCRegister (st_nodeID s)))"
  have ty: "toDomainCRDTType ty = Inr dty" "fabric_New dty (st_nodeID s) = Inr val"
    using assms(5) type_mappings(4) by (auto simp: type_mappings dty_def val_def fabric_New_def lume_Types)
  from st_Put_fresh [OF laws inv key ty(2), of t] obtain s1 ent where s1: "st_Put hk L G s t key dty = (None, s1)"
      "serving hk entries s1" "st_nodeID s1 = st_nodeID s" "GetRaw hk (st_engine s1) key = Some ent" "\<not> entTombstone ent"
      "entObject ent = val" "plain (TsID (entSetTimeStamp ent))" "merge_safe entries (st_nodeID s1) key dty s1" by auto
  have set: "ns_Set hk L G s t key ty = (Inr (), s1)" using ty(1) s1(1) by (simp add: ns_Set_def)
  note a = apply_succeeds [OF laws s1(2) key s1(4,5,7)]
  obtain s2 where s2: "ns_Apply hk L G s1 tr' t' key oper = (Inr (), s2)" "serving hk entries s2"
    using assms(5) s1(3,6,8) a(1) [of tr' t' x] a(2) [of tr' t' b]
    by (auto simp: val_def dty_def lume_Types simp del: ns_Apply.simps)
  have ok: "engine_ok hk (st_engine s)" "engine_ok hk (st_engine s1)" using inv s1(2) by (simp_all add: serving_def)
  have w1: "one_write hk (st_engine s) key (st_engine s1) (expected (ClientSet ty) (answer hk (st_engine s) key))"
    using serve_write [OF ok(1), of key L G tr t now "ClientSet ty"] set by simp
  have w2: "one_write hk (st_engine s1) key (st_engine s2) (expected (ClientApply oper) (answer hk (st_engine s1) key))"
    using ns_Apply_write [OF ok(2), of key L G tr' t' oper] s2(1) by (simp del: ns_Apply.simps)
  have "answer hk (st_engine s2) key = \<lparr>respCrdtType = ty, respOk = True, respData = Some resp\<rparr>"
    using w1 w2 assms(5) by (auto simp: one_write_def lume_Types)
  moreover have "\<forall>k. k \<noteq> key \<longrightarrow> answer hk (st_engine s2) k = answer hk (st_engine s) k" using w1 w2 by (simp add: one_write_def)
  moreover have "cl_Set (node_client hk L G clocks) (s, i) key ty = (Inr (), s1, i + 1)" using c0 set by (simp add: node_client_def)
  moreover have "cl_Apply (node_client hk L G clocks) (s1, i + 1) key oper = (Inr (), s2, i + 2)"
    using c1 s2 by (simp add: node_client_def del: ns_Apply.simps)
  ultimately show ?thesis using s2(2) by blast
qed

text \<open>C31. What \<open>lume-cli set\<close> writes, \<open>lume-cli get\<close> shows. Take a node whose engine is well-formed and whose buffer has its
  payloads, whatever clients and peers did before, and a disk without errors. For every key of valid text and every value, \<open>set key value\<close> without \<open>--type\<close>
  reports success, and then \<open>get\<close> shows a counter with that number if the value is a decimal number that fits 64 bits with its
  sign, and a register with exactly the bytes of the value otherwise. All other keys are shown as before, and the node is again
  in such a state, so that the next command behaves the same.\<close>

theorem cli_set_then_get:
  assumes "lru_laws L entries cap" "gowal_laws G log room" "serving hk entries s" "plain key"
  shows "\<exists>s'. setCmd (node_client hk L G clocks) '''' [key, value] (s, i)
      = (Inr [case ParseInt value of Inr m \<Rightarrow> CreatedCounter key (word_of_int m) | Inl _ \<Rightarrow> CreatedRegister key value], s')
    \<and> fst (getCmd (node_client hk L G clocks) [key] s')
      = Inr (case ParseInt value of Inr m \<Rightarrow> [ShowKey key, ShowType ''PN_COUNTER'', ShowNumber (word_of_int m)]
             | Inl _ \<Rightarrow> [ShowKey key, ShowType ''LWW_REGISTER'', ShowText (string_bytes value)])
    \<and> (\<forall>k. k \<noteq> key \<longrightarrow> fst (getCmd (node_client hk L G clocks) [k] s') = fst (getCmd (node_client hk L G clocks) [k] (s, i)))
    \<and> serving hk entries (fst s')"
proof (cases "ParseInt value")
  case (Inr m)
  let ?x = "word_of_int m :: i64"
  obtain s1 s2 where "cl_Set (node_client hk L G clocks) (s, i) key TYPE_PN_COUNTER = (Inr (), s1, i + 1)"
      "cl_Apply (node_client hk L G clocks) (s1, i + 1) key (CounterOperationInc ?x) = (Inr (), s2, i + 2)"
      "answer hk (st_engine s2) key = \<lparr>respCrdtType = TYPE_PN_COUNTER, respOk = True, respData = Some (CounterData ?x)\<rparr>"
      "\<forall>k. k \<noteq> key \<longrightarrow> answer hk (st_engine s2) k = answer hk (st_engine s) k" "serving hk entries s2"
    using set_apply_answer [OF assms, of TYPE_PN_COUNTER "CounterOperationInc ?x" "CounterData ?x" ?x] by blast
  with Inr show ?thesis
    by (intro exI [of _ "(s2, i + 2)"]) (simp add: setCmd_def set_number_def getCmd_answer formatType_def Let_def)
next
  case (Inl e)
  let ?b = "string_bytes value"
  obtain s1 s2 where "cl_Set (node_client hk L G clocks) (s, i) key TYPE_LWW_REGISTER = (Inr (), s1, i + 1)"
      "cl_Apply (node_client hk L G clocks) (s1, i + 1) key (RegisterOperation ?b) = (Inr (), s2, i + 2)"
      "answer hk (st_engine s2) key = \<lparr>respCrdtType = TYPE_LWW_REGISTER, respOk = True, respData = Some (RegisterData ?b)\<rparr>"
      "\<forall>k. k \<noteq> key \<longrightarrow> answer hk (st_engine s2) k = answer hk (st_engine s) k" "serving hk entries s2"
    using set_apply_answer [OF assms, of TYPE_LWW_REGISTER "RegisterOperation ?b" "RegisterData ?b"] by blast
  with Inl show ?thesis
    by (intro exI [of _ "(s2, i + 2)"]) (simp add: setCmd_def set_text_def getCmd_answer formatType_def Let_def lume_Types)
qed

text \<open>Two commands in a row on a fresh node.\<close>

theorem cli_set_then_get_witness:
  "\<exists>s0 s1 s2. boot ''n'' \<lparr>ShardsNum = 4, CfgDeleteThreshold = 0\<rparr> 10 ([] :: (string \<times> bufupd) list)
       \<lparr>SegmentThreshold = 1000, MaxSegmentsNum = 100000000, BatchSize = 2\<rparr> ([] :: Record list) = Inr s0
     \<and> setCmd (node_client (\<lambda>_. 0) (list_lru 9) list_gowal (\<lambda>i. (0, of_nat i, 0))) '''' [''k'', ''-42''] (s0, 0) = (Inr [CreatedCounter ''k'' (- 42)], s1)
     \<and> fst (getCmd (node_client (\<lambda>_. 0) (list_lru 9) list_gowal (\<lambda>i. (0, of_nat i, 0))) [''k''] s1)
       = Inr [ShowKey ''k'', ShowType ''PN_COUNTER'', ShowNumber (- 42)]
     \<and> setCmd (node_client (\<lambda>_. 0) (list_lru 9) list_gowal (\<lambda>i. (0, of_nat i, 0))) '''' [''k'', ''x''] s1 = (Inr [CreatedRegister ''k'' ''x''], s2)
     \<and> fst (getCmd (node_client (\<lambda>_. 0) (list_lru 9) list_gowal (\<lambda>i. (0, of_nat i, 0))) [''k''] s2)
       = Inr [ShowKey ''k'', ShowType ''LWW_REGISTER'', ShowText (string_bytes ''x'')]"
proof -
  let ?cfg = "\<lparr>ShardsNum = 4, CfgDeleteThreshold = 0\<rparr>" and ?clk = "\<lambda>i. (0, of_nat i, 0) :: i64 \<times> i64 \<times> i64"
  obtain s0 where s0: "boot ''n'' ?cfg 10 ([] :: (string \<times> bufupd) list) \<lparr>SegmentThreshold = 1000, MaxSegmentsNum = 100000000, BatchSize = 2\<rparr> ([] :: Record list) = Inr s0"
    by (simp add: boot_def NewEngineFromConfig_def NewEngine_def populateDefaults_def WithNodeID_def WithInitialShards_def wal_New_def Let_def)
  have pl: "plain ''n''" "plain ''k''" by (auto intro: plain_ascii)
  have inv: "serving (\<lambda>_. 0) (\<lambda>c. c) s0"
    using boot_fresh(1) [OF s0, of "\<lambda>_. 0"] boot_fresh(2) [OF s0, where hk = "\<lambda>_. 0"] boot_fresh(3,4,7) [OF s0] pl(1) by (simp add: serving_def engine_ok_def vm_wf_def NewHLC_def heap_ok_def)
  have p: "ParseInt ''-42'' = Inr (- 42)" "isl (ParseInt ''x'')" by code_simp+
  then obtain e where e: "ParseInt ''x'' = Inl e" by (cases "ParseInt ''x''") auto
  note set = cli_set_then_get [OF list_lru_laws list_gowal_laws _ pl(2), of "\<lambda>_. 0"]
  from set [OF inv, of 9 ?clk "''-42''" 0] obtain s1 where s1:
      "setCmd (node_client (\<lambda>_. 0) (list_lru 9) list_gowal ?clk) '''' [''k'', ''-42''] (s0, 0) = (Inr [CreatedCounter ''k'' (- 42)], s1)"
      "fst (getCmd (node_client (\<lambda>_. 0) (list_lru 9) list_gowal ?clk) [''k''] s1) = Inr [ShowKey ''k'', ShowType ''PN_COUNTER'', ShowNumber (- 42)]"
      "serving (\<lambda>_. 0) (\<lambda>c. c) (fst s1)"
    unfolding p(1) by auto
  have "(fst s1, snd s1) = s1" by simp
  with set [OF s1(3), of 9 ?clk "''x''" "snd s1"] obtain s2 where
      "setCmd (node_client (\<lambda>_. 0) (list_lru 9) list_gowal ?clk) '''' [''k'', ''x''] s1 = (Inr [CreatedRegister ''k'' ''x''], s2)"
      "fst (getCmd (node_client (\<lambda>_. 0) (list_lru 9) list_gowal ?clk) [''k''] s2) = Inr [ShowKey ''k'', ShowType ''LWW_REGISTER'', ShowText (string_bytes ''x'')]"
    unfolding e by auto
  with s0 s1(1,2) show ?thesis by blast
qed

end
