(* ===== verification/Node_App.thy ===== *)
theory Node_App
  imports Node_Loops Config Tlsx Lume_Cli
begin

text \<open>
  The program of a node, \<open>cmd/grpc/app\<close>: from the loaded configuration to the subsystems and the running node. The fields of the
  configuration are looked up by name in the list that \<open>Config\<close> describes. Files, membership library, disk and cache are the parameters of
  the parts that use them. Sockets, signals and the health service are left out. Lemmas: which sides of a node use TLS in each
  mode, and that a sane configuration gives a node that starts.
\<close>

section \<open>Fields by name\<close>

fun field_at :: "string list \<Rightarrow> field list \<Rightarrow> val option" where
  "field_at [] fs = None"
| "field_at (n # p) [] = None"
| "field_at (n # p) (f # fs) =
     (case f of
        Leaf t k v \<Rightarrow> if Name t = n \<and> p = [] then Some v else field_at (n # p) fs
      | Struct t gs \<Rightarrow> if Name t = n then field_at p gs else field_at (n # p) fs)"

definition cfg_string :: "field list \<Rightarrow> string list \<Rightarrow> string" where
  "cfg_string cfg p = (case field_at p cfg of Some (VString s) \<Rightarrow> s | _ \<Rightarrow> '''')"

definition cfg_int :: "field list \<Rightarrow> string list \<Rightarrow> int" where
  "cfg_int cfg p = (case field_at p cfg of Some (VInt i) \<Rightarrow> i | _ \<Rightarrow> 0)"

definition cfg_u16 :: "field list \<Rightarrow> string list \<Rightarrow> u16" where
  "cfg_u16 cfg p = (case field_at p cfg of Some (VUint i) \<Rightarrow> word_of_int i | _ \<Rightarrow> 0)"

definition cfg_bool :: "field list \<Rightarrow> string list \<Rightarrow> bool" where
  "cfg_bool cfg p = (case field_at p cfg of Some (VBool b) \<Rightarrow> b | _ \<Rightarrow> False)"

section \<open>Subsystems\<close>

definition GlobalCfg2Mem :: "field list \<Rightarrow> mem_Config" where
  "GlobalCfg2Mem cfg = \<lparr>mc_NodeName = cfg_string cfg [''Node'', ''ID''], mc_AdvertiseAddr = cfg_string cfg [''Membership'', ''AdvertiseAddr''],
     mc_BindAddr = cfg_string cfg [''Node'', ''BindAddress''], mc_GossipPort = cfg_u16 cfg [''Gossip'', ''Port''],
     mc_MembershipPort = cfg_u16 cfg [''Membership'', ''Port''], mc_ExternalPort = cfg_u16 cfg [''Node'', ''Port'']\<rparr>"

definition gossip_config :: "field list \<Rightarrow> GossipConfig" where
  "gossip_config cfg = \<lparr>Fanout = cfg_int cfg [''Gossip'', ''Fanout''], Retries = cfg_int cfg [''Gossip'', ''Retries''],
     MaxBatchSize = cfg_int cfg [''Gossip'', ''MaxBatchSize''], AntiEntropyInterval = cfg_int cfg [''Gossip'', ''AntiEntropyInterval''],
     WorkerPoolSize = cfg_int cfg [''Gossip'', ''WorkerPoolSize'']\<rparr>"

definition engine_config :: "field list \<Rightarrow> EngineConfig" where
  "engine_config cfg = \<lparr>ShardsNum = cfg_int cfg [''Engine'', ''ShardsNum''], CfgDeleteThreshold = word_of_int (cfg_int cfg [''Engine'', ''DeleteThreshold''])\<rparr>"

definition wal_config :: "field list \<Rightarrow> WalConfig" where
  "wal_config cfg = \<lparr>SegmentThreshold = cfg_int cfg [''Persistence'', ''WalConfig'', ''SegmentThreshold''],
     MaxSegmentsNum = cfg_int cfg [''Persistence'', ''WalConfig'', ''MaxSegmentsNum''],
     BatchSize = cfg_int cfg [''Persistence'', ''WalConfig'', ''BatchSize'']\<rparr>"

datatype build_error = ErrBuild go_error | ErrServerCredentials tls_error | ErrClientCredentials tls_error

text \<open>\<open>None\<close> stands for a connection without TLS.\<close>

definition buildServerOpts :: "('k, 'p, 'd, 'f) x509 \<Rightarrow> 'f files \<Rightarrow> field list \<Rightarrow> build_error + ('p, 'd, 'k) credentials option" where
  "buildServerOpts X fs cfg =
     (if cfg_string cfg [''Security'', ''Mode''] = Disabled then Inr None
      else case LoadServerCredentials X fs (cfg_string cfg [''Security'', ''CaCert'']) (cfg_string cfg [''Security'', ''Cert'']) (cfg_string cfg [''Security'', ''Key'']) of
             Inl err \<Rightarrow> Inl (ErrServerCredentials err)
           | Inr creds \<Rightarrow> Inr (Some creds))"

definition buildDialOpts :: "('k, 'p, 'd, 'f) x509 \<Rightarrow> 'f files \<Rightarrow> field list \<Rightarrow> build_error + ('p, 'd, 'k) credentials option" where
  "buildDialOpts X fs cfg =
     (if cfg_string cfg [''Security'', ''Mode''] = Disabled then Inr None
      else case LoadClientCredentials X fs (cfg_string cfg [''Security'', ''CaCert'']) (cfg_string cfg [''Security'', ''Cert'']) (cfg_string cfg [''Security'', ''Key'']) of
             Inl err \<Rightarrow> Inl (ErrClientCredentials err)
           | Inr creds \<Rightarrow> Inr (Some creds))"

text \<open>The log of the subsystems is \<open>None\<close> for the one that keeps nothing; \<open>ss_dial\<close> and \<open>ss_server\<close> are the credentials of the transport and of the
  gossip server.\<close>

record ('w, 'c, 'm, 'conn, 'p, 'd, 'k) Subsystems =
  ss_vm :: VersionManager
  ss_pool :: "'conn ClientPool"
  ss_members :: 'm
  ss_wal :: "'w walWrapper option"
  ss_buffer :: 'c
  ss_gossip :: DefaultGossip
  ss_dial :: "('p, 'd, 'k) credentials option"
  ss_server :: "('p, 'd, 'k) credentials option"

text \<open>\<open>disk\<close> is what opening the segment files gives, \<open>newLRU\<close> makes a cache, \<open>rnd\<close> is the random number of the first bucket.\<close>

definition build_err :: "go_error + 'a \<Rightarrow> build_error + 'a" where
  "build_err r = map_sum ErrBuild id r"

definition build_log :: "(go_error + 'w) \<Rightarrow> field list \<Rightarrow> go_error + 'w walWrapper option" where
  "build_log disk cfg =
     (if cfg_bool cfg [''Persistence'', ''Enabled''] then bind_res disk (\<lambda>w. map_sum id Some (wal_New (wal_config cfg) w)) else Inr None)"

definition BuildSubsystems ::
    "('k, 'p, 'd, 'f) x509 \<Rightarrow> 'f files \<Rightarrow> 'm memberlist \<Rightarrow> (go_error + 'w) \<Rightarrow> (nat \<Rightarrow> 'c) \<Rightarrow> u32 \<Rightarrow> field list \<Rightarrow>
     build_error + ('w, 'c, 'm, 'conn, 'p, 'd, 'k) Subsystems" where
  "BuildSubsystems X fs Mb disk newLRU rnd cfg =
     bind_res (build_err (NewEngineFromConfig (cfg_string cfg [''Node'', ''ID'']) (engine_config cfg))) (\<lambda>eng.
       let vm = NewVersionManager (cfg_string cfg [''Node'', ''ID'']) eng
       in bind_res (buildDialOpts X fs cfg) (\<lambda>dialOpts.
            bind_res (build_err (mem_New Mb (GlobalCfg2Mem cfg))) (\<lambda>members.
              bind_res (build_err (build_log disk cfg)) (\<lambda>writeLog.
                bind_res (buildServerOpts X fs cfg) (\<lambda>serverOpts.
                  bind_res (build_err (NewUpdatesBuffer newLRU (cfg_int cfg [''Buffer'', ''Size'']))) (\<lambda>buffer.
                    bind_res (build_err (NewDefaultGossip (gossip_config cfg) (cfg_int cfg [''Gossip'', ''BufferSize'']) vm rnd)) (\<lambda>goss.
                      Inr \<lparr>ss_vm = vm, ss_pool = NewClientPool (cfg_int cfg [''Transport'', ''MaxMessageSize'']), ss_members = members, ss_wal = writeLog,
                        ss_buffer = buffer, ss_gossip = goss, ss_dial = dialOpts, ss_server = serverOpts\<rparr>)))))))"

section \<open>Running\<close>

text \<open>The storage of a node that keeps a log.\<close>

definition node_storage :: "field list \<Rightarrow> ('w, 'c, 'm, 'conn, 'p, 'd, 'k) Subsystems \<Rightarrow> ('w, 'c) Storage option" where
  "node_storage cfg ss = map_option (\<lambda>ww. NewStorage (cfg_string cfg [''Node'', ''ID'']) (cfg_int cfg [''Buffer'', ''PeekBatchSize'']) (ss_vm ss) (ss_buffer ss) ww) (ss_wal ss)"

text \<open>\<open>StartUp\<close> joins the cluster when it knows seeds; a failure is only logged and the node goes on alone.\<close>

definition cfg_strings :: "field list \<Rightarrow> string list \<Rightarrow> string list" where
  "cfg_strings cfg p = (case field_at p cfg of Some (VSlice vs) \<Rightarrow> map (\<lambda>v. case v of VString s \<Rightarrow> s | _ \<Rightarrow> '''') vs | _ \<Rightarrow> [])"

definition join_cluster :: "'m memberlist \<Rightarrow> string list \<Rightarrow> 'm \<Rightarrow> 'm" where
  "join_cluster Mb seeds m = (if seeds \<noteq> [] then snd (mem_Join Mb m seeds) else m)"

text \<open>The credentials of the server for clients.\<close>

definition client_api :: "('k, 'p, 'd, 'f) x509 \<Rightarrow> 'f files \<Rightarrow> field list \<Rightarrow> tls_error + ('p, 'd, 'k) credentials option" where
  "client_api X fs cfg =
     (if cfg_string cfg [''Security'', ''Mode''] = Full
      then map_sum id Some (LoadServerCredentials X fs (cfg_string cfg [''Security'', ''CaCert'']) (cfg_string cfg [''Security'', ''Cert'']) (cfg_string cfg [''Security'', ''Key'']))
      else Inr None)"

text \<open>\<open>Run\<close> up to the point where it waits for a signal. Every error makes the program exit with status 1; the constructor says where.
  \<open>NoLog\<close> is not an error of the program but the end of the model: a node whose configuration asks for no log goes on with the log that keeps nothing,
  and the storage of this model has a log. \<open>listen\<close> and \<open>apiListen\<close> are the results of opening the sockets for peers and for clients.\<close>

datatype exit_cause = NoConfigPath | LoadFailed config_error | BuildFailed build_error | NoLog | StartFailed go_error | ListenFailed go_error | ApiCredentials tls_error

definition app_Run ::
    "float_parsers \<Rightarrow> (bytes \<Rightarrow> field list \<Rightarrow> field list option) \<Rightarrow> (string \<Rightarrow> string) \<Rightarrow> (string \<Rightarrow> bytes option) \<Rightarrow> ('k, 'p, 'd, 'f) x509 \<Rightarrow> 'f files \<Rightarrow> 'm memberlist \<Rightarrow>
     (go_error + 'w) \<Rightarrow> (nat \<Rightarrow> 'c) \<Rightarrow> u32 \<Rightarrow> (string \<Rightarrow> u64) \<Rightarrow> 'w gowal \<Rightarrow> (nat \<Rightarrow> i64 \<times> i64) \<Rightarrow> go_error option \<Rightarrow> go_error option \<Rightarrow> 'n \<Rightarrow> string \<Rightarrow>
     exit_cause + ('w, 'c, 'conn ClientPool \<times> 'n) lume_node \<times> 'm \<times> ('p, 'd, 'k) credentials option" where
  "app_Run P yaml env file X fs Mb disk newLRU rnd hk G readings listen apiListen n configPath =
     (if configPath = '''' then Inl NoConfigPath
      else case Load P (file configPath) yaml env NodeSettings of
             Inl err \<Rightarrow> Inl (LoadFailed err)
           | Inr cfg \<Rightarrow>
               (case BuildSubsystems X fs Mb disk newLRU rnd cfg of
                  Inl err \<Rightarrow> Inl (BuildFailed err)
                | Inr ss \<Rightarrow>
                    (case node_storage cfg ss of
                       None \<Rightarrow> Inl NoLog
                     | Some s \<Rightarrow>
                         (case node_StartUp hk G (\<lambda>_. False) readings listen (cfg_int cfg [''Buffer'', ''ReadInterval'']) s (ss_gossip ss) (ss_pool ss, n) of
                            Inl err \<Rightarrow> Inl (StartFailed err)
                          | Inr nd \<Rightarrow>
                              (case apiListen of
                                 Some err \<Rightarrow> Inl (ListenFailed err)
                               | None \<Rightarrow> (case client_api X fs cfg of Inl err \<Rightarrow> Inl (ApiCredentials err) | Inr creds \<Rightarrow> Inr (nd, join_cluster Mb (cfg_strings cfg [''Seeds'']) (ss_members ss), creds)))))))"

text \<open>The server of \<open>cmd/mock\<close> accepts every request and keeps nothing.\<close>

definition MockServer :: "'s LumeClient" where
  "MockServer = \<lparr>cl_Set = (\<lambda>s key ty. (Inr (), s)), cl_Get = (\<lambda>s key. (Inr \<lparr>respCrdtType = TYPE_NOT_SPECIFIED, respOk = False, respData = None\<rparr>, s)),
     cl_Delete = (\<lambda>s key. (Inr False, s)), cl_Apply = (\<lambda>s key oper. (Inr (), s))\<rparr>"

section \<open>What a node needs to start\<close>

definition tls_files_ok :: "('k, 'p, 'd, 'f) x509 \<Rightarrow> 'f files \<Rightarrow> field list \<Rightarrow> bool" where
  "tls_files_ok X fs cfg \<longleftrightarrow> cfg_string cfg [''Security'', ''Mode''] = Disabled
     \<or> \<not> isl (load_pool X fs (cfg_string cfg [''Security'', ''CaCert'']) (cfg_string cfg [''Security'', ''Cert'']) (cfg_string cfg [''Security'', ''Key'']))"

definition cfg_sane :: "field list \<Rightarrow> bool" where
  "cfg_sane cfg \<longleftrightarrow> plain (cfg_string cfg [''Node'', ''ID'']) \<and> cfg_bool cfg [''Persistence'', ''Enabled'']
     \<and> 0 \<le> cfg_int cfg [''Persistence'', ''WalConfig'', ''BatchSize''] \<and> cfg_int cfg [''Engine'', ''ShardsNum''] < 2 ^ 32
     \<and> 0 < cfg_int cfg [''Buffer'', ''Size''] \<and> 0 < cfg_int cfg [''Gossip'', ''BufferSize''] \<and> 0 < cfg_int cfg [''Buffer'', ''ReadInterval'']
     \<and> loops_sane (cfg_int cfg [''Buffer'', ''PeekBatchSize'']) (gossip_config cfg)"

lemma credentials_of_pool:
  assumes "load_pool X fs ca crt key = Inr (own, pool)"
  shows "LoadServerCredentials X fs ca crt key = Inr \<lparr>Certificates = own, RequireClientCert = True, ClientCAs = pool, InsecureSkipVerify = False, VerifyPool = None\<rparr>"
    and "LoadClientCredentials X fs ca crt key = Inr \<lparr>Certificates = own, RequireClientCert = False, ClientCAs = [], InsecureSkipVerify = True, VerifyPool = Some pool\<rparr>"
  using assms by (simp_all add: LoadServerCredentials_def LoadClientCredentials_def)

lemma tls_files_opts:
  assumes "tls_files_ok X fs cfg"
  shows "\<exists>d. buildDialOpts X fs cfg = Inr d" "\<exists>d. buildServerOpts X fs cfg = Inr d" "\<exists>d. client_api X fs cfg = Inr d"
proof -
  consider "cfg_string cfg [''Security'', ''Mode''] = Disabled"
    | own pool where "load_pool X fs (cfg_string cfg [''Security'', ''CaCert'']) (cfg_string cfg [''Security'', ''Cert'']) (cfg_string cfg [''Security'', ''Key'']) = Inr (own, pool)"
    using assms unfolding tls_files_ok_def isl_def by (metis sum.exhaust surj_pair)
  then show "\<exists>d. buildDialOpts X fs cfg = Inr d" "\<exists>d. buildServerOpts X fs cfg = Inr d" "\<exists>d. client_api X fs cfg = Inr d"
    by (cases; simp add: buildDialOpts_def buildServerOpts_def client_api_def credentials_of_pool Disabled_def Full_def)+
qed

lemma NewEngineFromConfig_total: "\<exists>e. NewEngineFromConfig nid cfg = Inr e"
  by (auto simp: NewEngineFromConfig_def NewEngine_def Let_def populateDefaults_def WithNodeID_def WithInitialShards_def WithDeleteThreshold_def)

lemma NewGossipBuffer_sane: "0 < n \<Longrightarrow> \<exists>gb. NewGossipBuffer n = Inr gb \<and> cb_wf gb \<and> cb_overwrite gb"
  by (auto simp: NewGossipBuffer_def NewCircularBuffer_def cb_wf_def)

text \<open>The subsystems of a sane configuration are those of a booted storage, with a gossip service of the same version manager.\<close>

lemma build_sane:
  assumes "cfg_sane cfg" "tls_files_ok X fs cfg" "mem_New Mb (GlobalCfg2Mem cfg) = Inr m"
  obtains ss s where "BuildSubsystems X fs Mb (Inr w) newLRU rnd cfg = Inr ss" "node_storage cfg ss = Some s"
    "boot (cfg_string cfg [''Node'', ''ID'']) (engine_config cfg) (cfg_int cfg [''Buffer'', ''PeekBatchSize'']) (newLRU (nat (cfg_int cfg [''Buffer'', ''Size''])))
       (wal_config cfg) w = Inr s"
    "gs_config (ss_gossip ss) = gossip_config cfg" "cb_wf (gs_gbuffer (ss_gossip ss))" "cb_overwrite (gs_gbuffer (ss_gossip ss))"
    "st_chan s = []" "st_peekBatchSize s = cfg_int cfg [''Buffer'', ''PeekBatchSize'']"
proof -
  obtain e where e: "NewEngineFromConfig (cfg_string cfg [''Node'', ''ID'']) (engine_config cfg) = Inr e" using NewEngineFromConfig_total by blast
  obtain d c where d: "buildDialOpts X fs cfg = Inr d" "buildServerOpts X fs cfg = Inr c" using tls_files_opts [OF assms(2)] by blast
  obtain gb where gb: "NewGossipBuffer (cfg_int cfg [''Gossip'', ''BufferSize'']) = Inr gb" "cb_wf gb" "cb_overwrite gb"
    using NewGossipBuffer_sane assms(1) by (auto simp: cfg_sane_def)
  show thesis
    by (rule that) (use assms(1,3) e d gb in \<open>auto simp: cfg_sane_def BuildSubsystems_def build_err_def build_log_def node_storage_def boot_def NewStorage_def
        wal_New_def wal_config_def NewUpdatesBuffer_def NewDefaultGossip_def Let_def\<close>)
qed

lemma StartUp_empty:
  assumes "boot nid cfg peek c wcfg w = Inr s" "ShardsNum cfg < 2 ^ 32" "gowal_laws G log room" "log w = []"
  shows "StartUp hk G (\<lambda>_. False) readings None None s = Inr (None, s)"
proof -
  note b = boot_fresh [OF assms(1,2)]
  have "wal_updates G (st_wal s) = (None, [])"
    by (simp add: b(8) wal_updates_def ReplayAll_def gowal_lawsD(8) [OF assms(3)] assms(4))
  then show ?thesis using b(6) by (simp add: StartUp_def restoreFromWAL_def RestoreFromWal_def)
qed

text \<open>C14. A node with a sane configuration starts. Assume that the configuration file and the environment load, that the loaded settings ask for
  a log and for positive sizes and intervals, and that one read of the buffer is no larger than a gossip batch; that the disk, the membership list, the
  certificate files and the two sockets open; and that the log is empty; joining the
  cluster may fail. Then the program builds its subsystems and runs: no goroutine has
  panicked, the storage satisfies the invariant from which recovery is proved, and the goroutines those from which the pipeline theorems are proved.\<close>

theorem node_boots:
  fixes X :: "('k, 'p, 'd, 'f) x509" and Mb :: "'m memberlist" and w :: 'w and newLRU :: "nat \<Rightarrow> 'c"
  assumes "configPath \<noteq> ''''" "Load P (file configPath) yaml env NodeSettings = Inr cfg" "cfg_sane cfg" "tls_files_ok X fs cfg"
    and "mem_New Mb (GlobalCfg2Mem cfg) = Inr m" "gowal_laws G log room" "log w = []" "\<And>k. entries (newLRU k) = []"
  shows "\<exists>(nd :: ('w, 'c, 'conn ClientPool \<times> 'n) lume_node) m' creds. app_Run P yaml env file X fs Mb (Inr w) newLRU rnd hk G readings None None n configPath = Inr (nd, m', creds)
    \<and> nd_crash nd = None \<and> nd_stop nd = Serving \<and> run_inv hk entries log 0 0 [] (nd_storage nd)
    \<and> pipe_inv (gossip_config cfg) (cfg_int cfg [''Buffer'', ''PeekBatchSize'']) nd \<and> sane_inv (cfg_int cfg [''Buffer'', ''PeekBatchSize'']) nd"
proof -
  obtain ss :: "('w, 'c, 'm, 'conn, 'p, 'd, 'k) Subsystems" and s where ss: "BuildSubsystems X fs Mb (Inr w) newLRU rnd cfg = Inr ss" "node_storage cfg ss = Some s"
    "boot (cfg_string cfg [''Node'', ''ID'']) (engine_config cfg) (cfg_int cfg [''Buffer'', ''PeekBatchSize'']) (newLRU (nat (cfg_int cfg [''Buffer'', ''Size''])))
       (wal_config cfg) w = Inr s"
    "gs_config (ss_gossip ss) = gossip_config cfg" "cb_wf (gs_gbuffer (ss_gossip ss))" "cb_overwrite (gs_gbuffer (ss_gossip ss))"
    "st_chan s = []" "st_peekBatchSize s = cfg_int cfg [''Buffer'', ''PeekBatchSize'']"
    using build_sane [OF assms(3-5)] by metis
  have shards: "ShardsNum (engine_config cfg) < 2 ^ 32" and id: "plain (cfg_string cfg [''Node'', ''ID''])"
    using assms(3) by (simp_all add: cfg_sane_def engine_config_def)
  let ?nd = "started (cfg_int cfg [''Buffer'', ''ReadInterval'']) s (ss_gossip ss) (ss_pool ss, n)"
  obtain creds where "client_api X fs cfg = Inr creds" using tls_files_opts(3) [OF assms(4)] by blast
  then have "app_Run P yaml env file X fs Mb (Inr w) newLRU rnd hk G readings None None n configPath = Inr (?nd, join_cluster Mb (cfg_strings cfg [''Seeds'']) (ss_members ss), creds)"
    using assms(1,2) ss(1,2) StartUp_empty [OF ss(3) shards assms(6,7)] by (simp add: app_Run_def node_StartUp_def)
  moreover have "nd_crash ?nd = None" using assms(3) ss(4) by (auto simp: started_def start_crash_def cfg_sane_def loops_sane_def)
  moreover have "run_inv hk entries log 0 0 [] (nd_storage ?nd)"
    using boot_run_inv [where entries = entries and log = log, OF ss(3) shards id assms(7) assms(8)] by (simp add: started_def)
  moreover have "pipe_inv (gossip_config cfg) (cfg_int cfg [''Buffer'', ''PeekBatchSize'']) ?nd" using pipe_started [OF ss(7)] ss(4,8) by metis
  moreover from calculation have "sane_inv (cfg_int cfg [''Buffer'', ''PeekBatchSize'']) ?nd"
    using ss(5-7) by (auto simp: sane_inv_def started_def waiting_def)
  moreover have "nd_stop ?nd = Serving" by (simp add: started_def)
  ultimately show ?thesis by blast
qed

text \<open>A document that switches the log on, the loaded settings, and the files of a node in the default places.\<close>

definition enable_log :: "bytes \<Rightarrow> field list \<Rightarrow> field list option" where
  "enable_log data c = Some (map (\<lambda>f. case f of
     Struct t gs \<Rightarrow> if Name t = ''Persistence'' then Struct t (map (\<lambda>g. case g of Leaf u k v \<Rightarrow> if Name u = ''Enabled'' then Leaf u k (VBool True) else g | _ \<Rightarrow> g) gs) else f
   | Leaf t k v \<Rightarrow> f) c)"

definition sample_settings :: "string \<Rightarrow> field list" where
  "sample_settings mode = projr (Load sample_parsers (Some []) enable_log (sample_env(''SECURITY_MODE'' := mode)) NodeSettings)"

definition sample_certificate :: "nat Certificate" where
  "sample_certificate = \<lparr>SerialNumber = 1, Subject = (''n'', [''Lume'']), Issuer = (''n'', [''Lume'']), NotBefore = 0, NotAfter = 100, IsCA = True,
     BasicConstraintsValid = True, KeyUsages = [KeyUsageCertSign], ExtKeyUsages = [], IPAddresses = [], DNSNames = [], PublicKey = Some 1, Signature = Some 1\<rparr>"

definition sample_files :: "(string \<times> sample_der) files" where
  "sample_files = map_of [(''/etc/lume/security/ca.crt'', ((''CERTIFICATE'', DerCert sample_certificate), 420)),
     (''/etc/lume/security/tls.crt'', ((''CERTIFICATE'', DerCert sample_certificate), 420)),
     (''/etc/lume/security/tls.key'', ((''EC PRIVATE KEY'', DerKey 0), 384))]"

definition sample_memberlist :: "unit memberlist" where
  "sample_memberlist = \<lparr>ml_Create = (\<lambda>c. Inr ()), ml_Join = (\<lambda>m seeds. (Inr 0, m)), ml_NumMembers = (\<lambda>m. 1), ml_LocalNode = (\<lambda>m. sample_member ''n'' ''h1''),
     ml_Members = (\<lambda>m. [sample_member ''n'' ''h1'']), ml_Leave = (\<lambda>m t. (None, m))\<rparr>"

lemma sample_loads:
  assumes "mode \<in> {Internal, Full}"
  shows "Load sample_parsers (Some []) enable_log (sample_env(''SECURITY_MODE'' := mode)) NodeSettings = Inr (sample_settings mode)"
    and "cfg_sane (sample_settings mode)" "tls_files_ok sample_x509 sample_files (sample_settings mode)"
    and "cfg_string (sample_settings mode) [''Security'', ''Mode''] = mode"
proof -
  let ?l = "\<lambda>mode. Load sample_parsers (Some []) enable_log (sample_env(''SECURITY_MODE'' := mode)) NodeSettings"
  have "\<not> isl (?l Internal)" "\<not> isl (?l Full)" by code_simp+
  then show "?l mode = Inr (sample_settings mode)" using assms by (auto simp: sample_settings_def isl_def split: sum.splits)
  have "cfg_sane (sample_settings Internal)" "cfg_sane (sample_settings Full)" by code_simp+
  then show "cfg_sane (sample_settings mode)" using assms by auto
  have "tls_files_ok sample_x509 sample_files (sample_settings Internal)" "tls_files_ok sample_x509 sample_files (sample_settings Full)" by code_simp+
  then show "tls_files_ok sample_x509 sample_files (sample_settings mode)" using assms by auto
  have "cfg_string (sample_settings Internal) [''Security'', ''Mode''] = Internal" "cfg_string (sample_settings Full) [''Security'', ''Mode''] = Full" by code_simp+
  then show "cfg_string (sample_settings mode) [''Security'', ''Mode''] = mode" using assms by auto
qed

theorem node_boots_witness:
  "\<exists>nd m creds. app_Run sample_parsers enable_log (sample_env(''SECURITY_MODE'' := Full)) (\<lambda>_. Some []) sample_x509 sample_files sample_memberlist (Inr [])
       (\<lambda>k. []) 7 (\<lambda>_. 0) list_gowal (\<lambda>_. (0, 0)) None None [] ''node.yaml''
     = Inr (nd :: (Record list, (string \<times> bufupd) list, unit ClientPool \<times> nat list) lume_node, m, creds) \<and> nd_crash nd = None \<and> nd_stop nd = Serving"
proof -
  have "mem_New sample_memberlist (GlobalCfg2Mem (sample_settings Full)) = Inr ()" by (simp add: mem_New_def sample_memberlist_def)
  from node_boots [OF _ _ sample_loads(2,3) this list_gowal_laws refl, of "''node.yaml''" sample_parsers "\<lambda>_. Some []" enable_log "sample_env(''SECURITY_MODE'' := Full)"
      "\<lambda>c. c" "\<lambda>_. []"] sample_loads(1) [of Full]
  show ?thesis by fastforce
qed

text \<open>C29. What the security mode protects. Between nodes, both ends use TLS in every mode but \<open>disabled\<close>: the server asks for a certificate and
  checks it against the authority's, and so does the dialing side, never with an empty pool. The server for clients uses TLS in
  the mode \<open>full\<close> only; in any other mode, also one that is misspelt, clients connect without.\<close>

theorem security_modes:
  fixes X :: "('k, 'p, 'd, 'f) x509" and ss :: "('w, 'c, 'm, 'conn, 'p, 'd, 'k) Subsystems"
  assumes "BuildSubsystems X fs Mb disk newLRU rnd cfg = Inr ss" "client_api X fs cfg = Inr api" "mode = cfg_string cfg [''Security'', ''Mode'']"
  shows "(case ss_server ss of None \<Rightarrow> mode = Disabled | Some c \<Rightarrow> mode \<noteq> Disabled \<and> RequireClientCert c \<and> ClientCAs c \<noteq> [])
    \<and> (case ss_dial ss of None \<Rightarrow> mode = Disabled | Some c \<Rightarrow> mode \<noteq> Disabled \<and> (\<exists>pool. VerifyPool c = Some pool \<and> pool \<noteq> []))
    \<and> (case api of None \<Rightarrow> mode \<noteq> Full | Some c \<Rightarrow> mode = Full \<and> RequireClientCert c \<and> ClientCAs c \<noteq> [])"
proof -
  have pool: "pool \<noteq> []" if "load_pool X fs ca crt key = Inr (own, pool)" for ca crt key own pool
    using that by (auto simp: load_pool_def Let_def split: option.splits sum.splits if_splits)
  have some: "\<exists>c. r = Inr c \<and> a = Some c" if "map_sum id Some r = Inr a" for r :: "tls_error + ('p, 'd, 'k) credentials" and a
    using that by (cases r) auto
  have ss: "buildDialOpts X fs cfg = Inr (ss_dial ss)" "buildServerOpts X fs cfg = Inr (ss_server ss)"
    using assms(1) by (auto simp: BuildSubsystems_def bind_res_Inr_iff Let_def)
  have "case ss_server ss of None \<Rightarrow> mode = Disabled | Some c \<Rightarrow> mode \<noteq> Disabled \<and> RequireClientCert c \<and> ClientCAs c \<noteq> []"
    using ss(2) pool assms(3) by (cases "ss_server ss") (auto simp: buildServerOpts_def LoadServerCredentials_def bind_res_Inr_iff split: if_splits sum.splits)
  moreover have "case ss_dial ss of None \<Rightarrow> mode = Disabled | Some c \<Rightarrow> mode \<noteq> Disabled \<and> (\<exists>pool. VerifyPool c = Some pool \<and> pool \<noteq> [])"
    using ss(1) pool assms(3) by (cases "ss_dial ss") (auto simp: buildDialOpts_def LoadClientCredentials_def bind_res_Inr_iff split: if_splits sum.splits)
  moreover have "case api of None \<Rightarrow> mode \<noteq> Full | Some c \<Rightarrow> mode = Full \<and> RequireClientCert c \<and> ClientCAs c \<noteq> []"
    using assms(2,3) pool by (cases api) (auto simp: client_api_def LoadServerCredentials_def bind_res_Inr_iff dest!: some split: if_splits)
  ultimately show ?thesis by blast
qed

theorem security_modes_witness:
  "\<exists>ss api c. BuildSubsystems sample_x509 sample_files sample_memberlist (Inr ([] :: Record list)) (\<lambda>k. [] :: (string \<times> bufupd) list) 7 (sample_settings Internal)
       = Inr (ss :: (_, _, _, unit, _, _, _) Subsystems)
     \<and> client_api sample_x509 sample_files (sample_settings Internal) = Inr api \<and> ss_server ss = Some c \<and> ClientCAs c \<noteq> [] \<and> api = None"
proof -
  have m: "mem_New sample_memberlist (GlobalCfg2Mem (sample_settings Internal)) = Inr ()" by (simp add: mem_New_def sample_memberlist_def)
  note l = sample_loads [of Internal]
  obtain ss where ss: "BuildSubsystems sample_x509 sample_files sample_memberlist (Inr ([] :: Record list)) (\<lambda>k. [] :: (string \<times> bufupd) list) 7 (sample_settings Internal)
      = Inr (ss :: (_, _, _, unit, _, _, _) Subsystems)" using build_sane [OF l(2,3) m] by (metis insertI1)
  obtain api where api: "client_api sample_x509 sample_files (sample_settings Internal) = Inr api" using tls_files_opts(3) [OF l(3)] by auto
  from security_modes [OF ss api refl] l(4) ss api show ?thesis by (auto simp: Internal_def Disabled_def Full_def split: option.splits)
qed

end
