(* ===== verification/Lume_Load.thy ===== *)
theory Lume_Load
  imports Lume_Cli
begin

text \<open>
  The load generator, \<open>cmd/lume-load/main.go\<close>: it inserts a number of random keys and ends. Its workers take the next index
  from a shared atomic counter and insert a key for it, with one \<open>Set\<close> and one \<open>Apply\<close>. A worker is a small state machine whose steps
  are the accesses to what the workers share (the counters and the server); the workers run in any order. The random numbers of
  an insertion are a function from the number of the draw and the bound to the number drawn. Lemmas: every index is
  inserted by exactly one worker, the counts of the report add up, and every schedule ends.
\<close>

section \<open>Options\<close>

record load_opts =
  lo_count :: i64
  lo_keyType :: string
  lo_keyPrefix :: string
  lo_valueSize :: int
  lo_maxInc :: i64
  lo_conns :: int
  lo_workers :: int
  lo_startIdx :: i64

datatype load_error = ErrCount | ErrConn | ErrWorkers | ErrLoadType string | ErrDial nat go_error

definition validate :: "load_opts \<Rightarrow> load_error option" where
  "validate ops =
     (if sint (lo_count ops) \<le> 0 then Some ErrCount
      else if lo_conns ops \<le> 0 then Some ErrConn
      else if lo_workers ops \<le> 0 then Some ErrWorkers
      else if lo_keyType ops \<in> {''register'', ''counter'', ''mixed''} then None
      else Some (ErrLoadType (lo_keyType ops)))"

text \<open>Connections are opened one after the other; \<open>dial i\<close> is the result of the \<open>i\<close>-th. The result names those that are open.\<close>

fun dial_all :: "(nat \<Rightarrow> go_error option) \<Rightarrow> nat \<Rightarrow> nat \<Rightarrow> load_error + nat list" where
  "dial_all dial i 0 = Inr []"
| "dial_all dial i (Suc k) =
     (case dial i of Some err \<Rightarrow> Inl (ErrDial i err) | None \<Rightarrow> bind_res (dial_all dial (i + 1) k) (\<lambda>conns. Inr (i # conns)))"

section \<open>One insertion\<close>

type_synonym rng = "nat \<Rightarrow> int \<Rightarrow> int"

definition pickType :: "string \<Rightarrow> rng \<Rightarrow> string" where
  "pickType t rng = (if t \<noteq> ''mixed'' then t else if rng 0 2 = 0 then ''register'' else ''counter'')"

definition alphabet :: string where
  "alphabet = ''abcdefghijklmnopqrstuvwxyzABCDEFGHIJKLMNOPQRSTUVWXYZ0123456789''"

definition randBytes :: "rng \<Rightarrow> int \<Rightarrow> bytes" where
  "randBytes rng n = (if n \<le> 0 then [] else map (\<lambda>i. of_char (alphabet ! nat (rng (i + 1) (int (length alphabet))))) [0..<nat n])"

text \<open>\<open>rand.Int64N\<close> panics on a bound that is not positive; the bound is computed with 64 bits.\<close>

definition Int64N :: "rng \<Rightarrow> i64 \<Rightarrow> go_error + i64" where
  "Int64N rng n = (if sint n \<le> 0 then Inl (Panic (ExplicitPanic ''invalid argument to Int64N'')) else Inr (word_of_int (rng 1 (sint n))))"

text \<open>What is drawn before the two calls: the type and the operation.\<close>

definition insert_plan :: "load_opts \<Rightarrow> string \<Rightarrow> rng \<Rightarrow> go_error + lume_Type \<times> operation" where
  "insert_plan ops kind rng =
     (if kind = ''register'' then Inr (TYPE_LWW_REGISTER, RegisterOperation (randBytes rng (lo_valueSize ops)))
      else if kind = ''counter'' then bind_res (Int64N rng (lo_maxInc ops + 1)) (\<lambda>inc. Inr (TYPE_PN_COUNTER, CounterOperationInc inc))
      else Inl ErrUnsupportedType)"

definition insertOne :: "'s LumeClient \<Rightarrow> string \<Rightarrow> string \<Rightarrow> load_opts \<Rightarrow> rng \<Rightarrow> 's \<Rightarrow> go_error option \<times> 's" where
  "insertOne cl key kind ops rng s =
     (case insert_plan ops kind rng of
        Inl err \<Rightarrow> (Some err, s)
      | Inr (ty, oper) \<Rightarrow>
          (case cl_Set cl s key ty of
             (Inl err, s1) \<Rightarrow> (Some err, s1)
           | (Inr _, s1) \<Rightarrow>
               (case cl_Apply cl s1 key oper of
                  (Inl err, s2) \<Rightarrow> (Some err, s2)
                | (Inr _, s2) \<Rightarrow> (None, s2))))"

definition load_key :: "load_opts \<Rightarrow> i64 \<Rightarrow> string" where
  "load_key ops idx = lo_keyPrefix ops @ show_int (sint (lo_startIdx ops + idx))"

section \<open>The workers\<close>

datatype load_worker = LoadPick | LoadSet i64 lume_Type operation | LoadApply i64 operation | LoadDone

text \<open>\<open>ld_log\<close> records the insertions that have ended and whether they succeeded.\<close>

record 's load_state =
  ld_next :: i64
  ld_ok :: i64
  ld_failed :: i64
  ld_server :: 's
  ld_workers :: "load_worker list"
  ld_crash :: "go_error option"
  ld_log :: "(i64 \<times> bool) list"

definition finished :: "nat \<Rightarrow> i64 \<Rightarrow> bool \<Rightarrow> 's load_state \<Rightarrow> 's load_state" where
  "finished i idx good st = st\<lparr>ld_ok := (if good then ld_ok st + 1 else ld_ok st), ld_failed := (if good then ld_failed st else ld_failed st + 1),
     ld_workers := (ld_workers st)[i := LoadPick], ld_log := ld_log st @ [(idx, good)]\<rparr>"

text \<open>Taking an index, with the random numbers of the insertion it begins; the last thing a worker does is to take one that is too large.\<close>

definition load_take :: "load_opts \<Rightarrow> rng \<Rightarrow> nat \<Rightarrow> 's load_state \<Rightarrow> 's load_state" where
  "load_take ops rng i st =
     (let idx = ld_next st; st1 = st\<lparr>ld_next := idx + 1\<rparr>
      in if sint (lo_count ops) \<le> sint idx then st1\<lparr>ld_workers := (ld_workers st)[i := LoadDone]\<rparr>
         else case insert_plan ops (pickType (lo_keyType ops) rng) rng of
                Inl (Panic p) \<Rightarrow> st1\<lparr>ld_crash := Some (Panic p)\<rparr>
              | Inl err \<Rightarrow> finished i idx False st1
              | Inr (ty, oper) \<Rightarrow> st1\<lparr>ld_workers := (ld_workers st)[i := LoadSet idx ty oper]\<rparr>)"

definition load_work :: "'s LumeClient \<Rightarrow> load_opts \<Rightarrow> rng \<Rightarrow> nat \<Rightarrow> 's load_state \<Rightarrow> 's load_state option" where
  "load_work cl ops rng i st =
     (if i < length (ld_workers st) \<and> ld_crash st = None then
        (case ld_workers st ! i of
           LoadPick \<Rightarrow> Some (load_take ops rng i st)
         | LoadSet idx ty oper \<Rightarrow>
             (case cl_Set cl (ld_server st) (load_key ops idx) ty of
                (Inl err, s1) \<Rightarrow> Some (finished i idx False (st\<lparr>ld_server := s1\<rparr>))
              | (Inr _, s1) \<Rightarrow> Some (st\<lparr>ld_server := s1, ld_workers := (ld_workers st)[i := LoadApply idx oper]\<rparr>))
         | LoadApply idx oper \<Rightarrow>
             (case cl_Apply cl (ld_server st) (load_key ops idx) oper of
                (Inl err, s1) \<Rightarrow> Some (finished i idx False (st\<lparr>ld_server := s1\<rparr>))
              | (Inr _, s1) \<Rightarrow> Some (finished i idx True (st\<lparr>ld_server := s1\<rparr>)))
         | LoadDone \<Rightarrow> None)
      else None)"

text \<open>A schedule names the worker that moves next and its random numbers.\<close>

inductive load_step :: "'s LumeClient \<Rightarrow> load_opts \<Rightarrow> 's load_state \<Rightarrow> 's load_state \<Rightarrow> bool" for cl ops where
  "load_work cl ops rng i st = Some st' \<Longrightarrow> load_step cl ops st st'"

inductive_simps load_step_iff: "load_step cl ops st st'"

definition load_run :: "load_opts \<Rightarrow> (nat \<Rightarrow> go_error option) \<Rightarrow> 's \<Rightarrow> load_error + 's load_state" where
  "load_run ops dial s =
     (case validate ops of
        Some err \<Rightarrow> Inl err
      | None \<Rightarrow> bind_res (dial_all dial 0 (nat (lo_conns ops))) (\<lambda>conns.
          Inr \<lparr>ld_next = 0, ld_ok = 0, ld_failed = 0, ld_server = s, ld_workers = replicate (length conns * nat (lo_workers ops)) LoadPick,
            ld_crash = None, ld_log = []\<rparr>))"

text \<open>The exit status, once every worker has ended.\<close>

definition load_exit :: "'s load_state \<Rightarrow> int" where
  "load_exit st = (if sint (ld_failed st) > 0 then 2 else 0)"

section \<open>Every index once\<close>

fun in_flight :: "load_worker \<Rightarrow> int multiset" where
  "in_flight (LoadSet idx ty oper) = {#sint idx#}"
| "in_flight (LoadApply idx oper) = {#sint idx#}"
| "in_flight _ = {#}"

fun is_done :: "load_worker \<Rightarrow> nat" where
  "is_done LoadDone = 1"
| "is_done _ = 0"

definition taken :: "'s load_state \<Rightarrow> int multiset" where
  "taken st = mset (map (sint \<circ> fst) (ld_log st)) + sum_list (map in_flight (ld_workers st))"

definition ended :: "'s load_state \<Rightarrow> nat" where
  "ended st = sum_list (map is_done (ld_workers st))"

definition good :: "(i64 \<times> bool) list \<Rightarrow> nat" where
  "good xs = length (filter snd xs)"

definition indices :: "nat \<Rightarrow> int multiset" where
  "indices k = mset (map int [0..<k])"

lemma indices_simps [simp]: "indices (Suc k) = add_mset (int k) (indices k)" "size (indices k) = k" "indices 0 = {#}"
  by (simp_all add: indices_def atLeast0_lessThan_Suc)

definition load_inv :: "nat \<Rightarrow> nat \<Rightarrow> 's load_state \<Rightarrow> bool" where
  "load_inv goal workers st \<longleftrightarrow> (\<exists>k \<le> goal. taken st = indices k \<and> sint (ld_next st) = int (k + ended st) \<and> (0 < ended st \<longrightarrow> k = goal))
     \<and> length (ld_workers st) = workers \<and> sint (ld_ok st) = int (good (ld_log st)) \<and> sint (ld_failed st) = int (length (ld_log st) - good (ld_log st))"

lemma good_le: "good xs \<le> length xs"
  by (simp add: good_def)

lemma good_snoc: "good (xs @ [(idx, g)]) = good xs + (if g then 1 else 0)"
  by (simp add: good_def)

lemma sint_Suc: "sint (x :: i64) = int n \<Longrightarrow> n + 1 < 2 ^ 63 \<Longrightarrow> sint (x + 1) = int (n + 1)"
  using sint_add_nonneg [of x 1] by simp

lemma ended_le: "ended st \<le> length (ld_workers st)"
proof -
  have "sum_list (map is_done ws) \<le> length ws" for ws
  proof (induction ws)
    case (Cons w ws)
    have "is_done w \<le> 1" by (cases w) auto
    with Cons show ?case by simp
  qed simp
  then show ?thesis by (simp add: ended_def)
qed

lemma log_le: "load_inv goal workers st \<Longrightarrow> length (ld_log st) \<le> goal"
proof -
  assume "load_inv goal workers st"
  then obtain k where "k \<le> goal" "taken st = indices k" by (auto simp: load_inv_def)
  then have "size (taken st) = k" by simp
  with \<open>k \<le> goal\<close> show ?thesis by (simp add: taken_def)
qed

text \<open>The end of an insertion that a worker has in flight.\<close>

lemma finished_inv:
  assumes inv: "load_inv goal workers st" and i: "i < length (ld_workers st)" "in_flight (ld_workers st ! i) = {#sint idx#}" and lim: "goal + workers < 2 ^ 63"
  shows "load_inv goal workers (finished i idx g (st\<lparr>ld_server := s\<rparr>))"
proof -
  let ?st = "finished i idx g (st\<lparr>ld_server := s\<rparr>)"
  have d: "is_done (ld_workers st ! i) = 0" using i(2) by (cases "ld_workers st ! i") auto
  have "taken ?st = taken st" using sum_list_change [OF i(1), of in_flight LoadPick] i(2) by (simp add: taken_def finished_def)
  moreover have "ended ?st = ended st" using sum_list_change [OF i(1), of is_done LoadPick] d by (simp add: ended_def finished_def)
  moreover have "length (ld_log st) < goal"
  proof -
    from inv obtain k where k: "k \<le> goal" "taken st = indices k" by (auto simp: load_inv_def)
    have "sum_list (map in_flight (ld_workers st)) = sum_list (map in_flight ((ld_workers st)[i := LoadPick])) + {#sint idx#}"
      using sum_list_change [OF i(1), of in_flight LoadPick] i(2) by simp
    then have "length (ld_log st) < size (taken st)" by (simp add: taken_def)
    with k show ?thesis by simp
  qed
  moreover have "good (ld_log st) \<le> length (ld_log st)" by (rule good_le)
  ultimately show ?thesis using inv lim sint_Suc [of "ld_ok st" "good (ld_log st)"] sint_Suc [of "ld_failed st" "length (ld_log st) - good (ld_log st)"]
    by (auto simp: load_inv_def finished_def good_snoc Suc_diff_le)
qed

lemma load_take_inv:
  assumes inv: "load_inv goal workers st" and i: "i < length (ld_workers st)" "ld_workers st ! i = LoadPick" and lim: "goal + workers < 2 ^ 63"
    and ops: "sint (lo_count ops) = int goal" and crash: "ld_crash (load_take ops rng i st) = None"
  shows "load_inv goal workers (load_take ops rng i st)"
proof -
  obtain k where k: "k \<le> goal" "taken st = indices k" "sint (ld_next st) = int (k + ended st)" "0 < ended st \<longrightarrow> k = goal"
    using inv by (auto simp: load_inv_def)
  have "ended st < workers"
  proof -
    have "sum_list (map is_done ((ld_workers st)[i := LoadDone])) = ended st + 1" using sum_list_change [OF i(1), of is_done LoadDone] i(2) by (simp add: ended_def)
    moreover have "ended (st\<lparr>ld_workers := (ld_workers st)[i := LoadDone]\<rparr>) \<le> workers" using ended_le [of "st\<lparr>ld_workers := (ld_workers st)[i := LoadDone]\<rparr>"] inv
      by (simp add: load_inv_def)
    ultimately show ?thesis by (simp add: ended_def)
  qed
  then have nxt: "sint (ld_next st + 1) = int (k + ended st + 1)" by (intro sint_Suc) (use k lim in auto)
  let ?st1 = "st\<lparr>ld_next := ld_next st + 1\<rparr>"
  show ?thesis
  proof (cases "goal \<le> k + ended st")
    case True
    then have "k = goal" using k(1,4) by (cases "ended st = 0") auto
    let ?st = "?st1\<lparr>ld_workers := (ld_workers st)[i := LoadDone]\<rparr>"
    have "load_take ops rng i st = ?st" using True ops k(3) by (simp add: load_take_def Let_def)
    moreover have "taken ?st = taken st" using sum_list_change [OF i(1), of in_flight LoadDone] i(2) by (simp add: taken_def)
    moreover have "ended ?st = ended st + 1" using sum_list_change [OF i(1), of is_done LoadDone] i(2) by (simp add: ended_def)
    ultimately show ?thesis using inv k nxt \<open>k = goal\<close> by (auto simp: load_inv_def)
  next
    case False
    then have e: "ended st = 0" "k < goal" using k(4) by auto
    let ?S = "\<lambda>ty oper. ?st1\<lparr>ld_workers := (ld_workers st)[i := LoadSet (ld_next st) ty oper]\<rparr>"
    have S: "load_inv goal workers (?S ty oper)" for ty oper
    proof -
      have "taken (?S ty oper) = taken st + {#int k#}"
        using sum_list_change [OF i(1), of in_flight "LoadSet (ld_next st) ty oper"] i(2) k(3) e(1) by (simp add: taken_def)
      moreover have "ended (?S ty oper) = 0" using sum_list_change [OF i(1), of is_done "LoadSet (ld_next st) ty oper"] i(2) e(1) by (simp add: ended_def)
      ultimately show ?thesis using inv k(2) nxt e by (auto simp: load_inv_def intro!: exI [of _ "Suc k"])
    qed
    have F: "load_inv goal workers (finished i (ld_next st) False ?st1)"
    proof -
      have "finished i (ld_next st) False ?st1 = finished i (ld_next st) False ((?S 0 NoOperation)\<lparr>ld_server := ld_server st\<rparr>)" by (simp add: finished_def)
      then show ?thesis using finished_inv [OF S [of 0 NoOperation], of i "ld_next st" False "ld_server st"] i lim by simp
    qed
    show ?thesis using False ops k(3) S F crash
      by (auto simp: load_take_def Let_def split: if_splits sum.splits go_error.splits)
  qed
qed

lemma load_work_inv:
  assumes "load_work cl ops rng i st = Some st'" "load_inv goal workers st" "goal + workers < 2 ^ 63" "sint (lo_count ops) = int goal" "ld_crash st' = None"
  shows "load_inv goal workers st'"
proof (cases "ld_workers st ! i")
  case LoadPick
  then show ?thesis using assms load_take_inv [OF assms(2) _ LoadPick assms(3,4)] by (auto simp: load_work_def split: if_splits)
next
  case (LoadSet idx ty oper)
  have i: "i < length (ld_workers st)" using assms(1) by (auto simp: load_work_def split: if_splits)
  obtain r s1 where r: "cl_Set cl (ld_server st) (load_key ops idx) ty = (r, s1)" by fastforce
  show ?thesis
  proof (cases r)
    case (Inl err)
    with assms(1) i LoadSet r finished_inv [OF assms(2) i _ assms(3), of idx] show ?thesis by (auto simp: load_work_def split: if_splits)
  next
    case (Inr u)
    then have st: "st' = st\<lparr>ld_server := s1, ld_workers := (ld_workers st)[i := LoadApply idx oper]\<rparr>" using assms(1) i LoadSet r by (auto simp: load_work_def split: if_splits)
    have "taken st' = taken st" using sum_list_change [OF i, of in_flight "LoadApply idx oper"] LoadSet st by (simp add: taken_def)
    moreover have "ended st' = ended st" using sum_list_change [OF i, of is_done "LoadApply idx oper"] LoadSet st by (simp add: ended_def)
    ultimately show ?thesis using assms(2) st by (simp add: load_inv_def)
  qed
next
  case (LoadApply idx oper)
  have i: "i < length (ld_workers st)" using assms(1) by (auto simp: load_work_def split: if_splits)
  from assms(1) i LoadApply finished_inv [OF assms(2) i _ assms(3), of idx] show ?thesis by (auto simp: load_work_def split: if_splits prod.splits sum.splits)
next
  case LoadDone
  then show ?thesis using assms(1) by (simp add: load_work_def split: if_splits)
qed

section \<open>Every schedule ends\<close>

text \<open>The random draws of a valid configuration never panic.\<close>

definition draws_ok :: "load_opts \<Rightarrow> bool" where
  "draws_ok ops \<longleftrightarrow> lo_keyType ops = ''register'' \<or> (0 \<le> sint (lo_maxInc ops) \<and> sint (lo_maxInc ops) + 1 < 2 ^ 63)"

lemma insert_plan_no_panic: "draws_ok ops \<Longrightarrow> insert_plan ops (pickType (lo_keyType ops) rng) rng \<noteq> Inl (Panic p)"
  using sint_add_nonneg [of "lo_maxInc ops" 1] by (auto simp: draws_ok_def insert_plan_def pickType_def Int64N_def)

lemma load_work_crash: "load_work cl ops rng i st = Some st' \<Longrightarrow> draws_ok ops \<Longrightarrow> ld_crash st' = None"
  using insert_plan_no_panic [of ops rng]
  by (auto simp: load_work_def load_take_def finished_def Let_def split: if_splits load_worker.splits sum.splits go_error.splits prod.splits)

fun steps_left :: "load_worker \<Rightarrow> nat" where
  "steps_left LoadPick = 1"
| "steps_left (LoadSet idx ty oper) = 3"
| "steps_left (LoadApply idx oper) = 2"
| "steps_left LoadDone = 0"

definition load_work_left :: "nat \<Rightarrow> 's load_state \<Rightarrow> nat" where
  "load_work_left goal st = 3 * (goal - size (taken st)) + sum_list (map steps_left (ld_workers st))"

lemma finished_left:
  assumes "i < length (ld_workers st)" "steps_left (ld_workers st ! i) = n" "1 < n" "in_flight (ld_workers st ! i) = {#sint idx#}"
  shows "load_work_left goal (finished i idx g (st\<lparr>ld_server := s\<rparr>)) < load_work_left goal st"
proof -
  have "taken (finished i idx g (st\<lparr>ld_server := s\<rparr>)) = taken st"
    using sum_list_change [OF assms(1), of in_flight LoadPick] assms(4) by (simp add: taken_def finished_def)
  then show ?thesis using sum_list_change [OF assms(1), of steps_left LoadPick] assms(2,3) by (simp add: load_work_left_def finished_def)
qed

lemma load_work_decreases:
  assumes r: "load_work cl ops rng i st = Some st'" and ops: "sint (lo_count ops) = int goal" "draws_ok ops" and inv: "load_inv goal workers st"
  shows "load_work_left goal st' < load_work_left goal st"
proof -
  have i: "i < length (ld_workers st)" using r by (auto simp: load_work_def split: if_splits)
  show ?thesis
  proof (cases "ld_workers st ! i")
    case LoadPick
    have k: "size (taken st) < goal" if "sint (ld_next st) < int goal"
      using that inv by (auto simp: load_inv_def)
    have st': "st' = load_take ops rng i st" using r i LoadPick by (auto simp: load_work_def split: if_splits)
    have plan: "insert_plan ops (pickType (lo_keyType ops) rng) rng \<noteq> Inl (Panic p)" for p using insert_plan_no_panic [OF ops(2)] .
    show ?thesis
    proof (cases "int goal \<le> sint (ld_next st)")
      case True
      then show ?thesis using st' ops(1) sum_list_change [OF i, of in_flight LoadDone] sum_list_change [OF i, of steps_left LoadDone] LoadPick
        by (simp add: load_take_def load_work_left_def taken_def Let_def)
    next
      case False
      have n: "(ld_workers st)[i := LoadPick] = ld_workers st" using LoadPick by (metis list_update_id)
      show ?thesis using False st' ops(1) k plan n LoadPick sum_list_change [OF i, of steps_left "LoadSet (ld_next st) (fst (projr (insert_plan ops (pickType (lo_keyType ops) rng) rng))) (snd (projr (insert_plan ops (pickType (lo_keyType ops) rng) rng)))"]
          sum_list_change [OF i, of in_flight "LoadSet (ld_next st) (fst (projr (insert_plan ops (pickType (lo_keyType ops) rng) rng))) (snd (projr (insert_plan ops (pickType (lo_keyType ops) rng) rng)))"]
        by (auto simp: load_take_def load_work_left_def taken_def finished_def Let_def split: sum.splits go_error.splits)
    qed
  next
    case (LoadSet idx ty oper)
    obtain q s1 where q: "cl_Set cl (ld_server st) (load_key ops idx) ty = (q, s1)" by fastforce
    show ?thesis using r i LoadSet q finished_left [OF i, of 3 idx goal False s1] sum_list_change [OF i, of in_flight "LoadApply idx oper"]
        sum_list_change [OF i, of steps_left "LoadApply idx oper"]
      by (cases q) (auto simp: load_work_def load_work_left_def taken_def split: if_splits)
  next
    case (LoadApply idx oper)
    then show ?thesis using r i finished_left [OF i, of 2 idx goal] by (auto simp: load_work_def split: if_splits sum.splits prod.splits)
  qed (use r in \<open>simp add: load_work_def split: if_splits\<close>)
qed

lemma load_steps:
  assumes "(load_step cl ops ^^ n) st0 st" "sint (lo_count ops) = int goal" "draws_ok ops" "load_inv goal workers st0" "goal + workers < 2 ^ 63" "ld_crash st0 = None"
  shows "load_inv goal workers st \<and> ld_crash st = None \<and> n + load_work_left goal st \<le> load_work_left goal st0"
  using assms(1)
proof (induction n arbitrary: st)
  case 0
  then show ?case using assms(4,6) by simp
next
  case (Suc n)
  then obtain st1 where s: "(load_step cl ops ^^ n) st0 st1" "load_step cl ops st1 st" by auto
  then obtain rng i where w: "load_work cl ops rng i st1 = Some st" by (auto simp: load_step_iff)
  note ih = Suc.IH [OF s(1)]
  show ?case using load_work_inv [OF w _ assms(5,2) load_work_crash [OF w assms(3)]] load_work_decreases [OF w assms(2,3)] load_work_crash [OF w assms(3)] ih by fastforce
qed

lemma load_stuck:
  assumes "\<And>st'. \<not> load_step cl ops st st'" "ld_crash st = None" "load_inv goal workers st" "0 < workers"
  shows "mset (map (sint \<circ> fst) (ld_log st)) = indices goal"
proof -
  have d: "ld_workers st ! i = LoadDone" if i: "i < length (ld_workers st)" for i
  proof (rule ccontr)
    assume "ld_workers st ! i \<noteq> LoadDone"
    then have "load_work cl ops (\<lambda>_ _. 0) i st \<noteq> None"
      using i assms(2) by (auto simp: load_work_def split: load_worker.splits sum.splits prod.splits)
    then show False using assms(1) by (auto simp: load_step_iff)
  qed
  then have ws: "ld_workers st = replicate workers LoadDone" using assms(3) by (auto simp: load_inv_def list_eq_iff_nth_eq)
  have "sum_list (replicate n {#}) = ({#} :: int multiset)" for n by (induction n) simp_all
  with ws have "ended st = workers" "taken st = mset (map (sint \<circ> fst) (ld_log st))" by (simp_all add: ended_def taken_def sum_list_replicate)
  then show ?thesis using assms(3,4) by (auto simp: load_inv_def)
qed

lemma dial_all_length: "dial_all dial i k = Inr conns \<Longrightarrow> length conns = k"
  by (induction k arbitrary: i conns) (auto simp: bind_res_Inr_iff split: option.splits)

lemma load_run_start:
  assumes "load_run ops dial s = Inr st" "goal = nat (sint (lo_count ops))" "workers = nat (lo_conns ops) * nat (lo_workers ops)"
  shows "load_inv goal workers st" "ld_crash st = None" "sint (lo_count ops) = int goal" "0 < workers" "load_work_left goal st = 3 * goal + workers"
proof -
  have v: "validate ops = None" using assms(1) by (cases "validate ops") (auto simp: load_run_def)
  obtain conns where d: "dial_all dial 0 (nat (lo_conns ops)) = Inr conns" "st = \<lparr>ld_next = 0, ld_ok = 0, ld_failed = 0, ld_server = s,
      ld_workers = replicate (length conns * nat (lo_workers ops)) LoadPick, ld_crash = None, ld_log = []\<rparr>"
    using assms(1) v by (auto simp: load_run_def bind_res_Inr_iff)
  have st: "ld_workers st = replicate workers LoadPick" "ld_log st = []" "ld_next st = 0" "ld_ok st = 0" "ld_failed st = 0" "ld_crash st = None"
    using d dial_all_length [OF d(1)] assms(3) by simp_all
  have z: "sum_list (replicate n {#}) = ({#} :: int multiset)" "sum_list (replicate n (0::nat)) = 0" for n by (induction n) simp_all
  have "taken st = {#}" "ended st = 0" using st z by (simp_all add: taken_def ended_def)
  then show "load_inv goal workers st" "ld_crash st = None" "load_work_left goal st = 3 * goal + workers"
    using st by (simp_all add: load_inv_def good_def load_work_left_def sum_list_replicate)
  show "sint (lo_count ops) = int goal" "0 < workers" using v assms(2,3) by (auto simp: validate_def split: if_splits)
qed

lemma load_key_inj: "load_key ops a = load_key ops b \<longleftrightarrow> a = b"
proof
  assume "load_key ops a = load_key ops b"
  then have e: "show_int (sint (lo_startIdx ops + a)) = show_int (sint (lo_startIdx ops + b))" by (simp add: load_key_def)
  have "ParseInt (show_int (sint (lo_startIdx ops + x))) = Inr (sint (lo_startIdx ops + x))" for x
    by (rule ParseInt_show) (use sint_ge [of "lo_startIdx ops + x"] sint_lt [of "lo_startIdx ops + x"] in simp_all)
  with e have "sint (lo_startIdx ops + a) = sint (lo_startIdx ops + b)" by (metis sum.inject(2))
  then show "a = b" by (metis add_left_cancel sint_eqI)
qed simp

text \<open>C30. A run of \<open>lume-load\<close> with options that are accepted, with an increment bound from 0 to \<open>2\<^sup>6\<^sup>3 - 2\<close> if counters are inserted, and with
  fewer than \<open>2\<^sup>6\<^sup>3\<close> keys and workers together:
  whatever the order in which the workers move, whatever the server answers, the run never panics, takes at most three
  steps per key and one per worker, and cannot stop before it is done. When it stops, every index from 0 to the count was inserted by
  exactly one worker, all the keys are different, and the two numbers of the report are the insertions that
  succeeded and those that failed. The exit status is 0 if and only if none failed.\<close>

theorem load_exactly_once:
  assumes "load_run ops dial s = Inr st0" "(load_step cl ops ^^ n) st0 st" "draws_ok ops"
    and "goal = nat (sint (lo_count ops))" "workers = nat (lo_conns ops) * nat (lo_workers ops)" "goal + workers < 2 ^ 63"
  shows "ld_crash st = None \<and> n \<le> 3 * goal + workers
    \<and> ((\<exists>st'. load_step cl ops st st') \<or>
       mset (map (sint \<circ> fst) (ld_log st)) = mset (map int [0..<goal]) \<and> distinct (map (load_key ops \<circ> fst) (ld_log st))
       \<and> sint (ld_ok st) = int (length (filter snd (ld_log st))) \<and> sint (ld_ok st) + sint (ld_failed st) = int goal
       \<and> (load_exit st = 0 \<longleftrightarrow> list_all snd (ld_log st)))"
proof -
  note start = load_run_start [OF assms(1,4,5)]
  note inv = load_steps [OF assms(2) start(3) assms(3) start(1) assms(6) start(2)]
  have le: "n \<le> 3 * goal + workers" using inv start(5) by simp
  show ?thesis
  proof (cases "\<exists>st'. load_step cl ops st st'")
    case False
    then have ix: "mset (map (sint \<circ> fst) (ld_log st)) = indices goal" using load_stuck inv start(4) by metis
    then have "length (ld_log st) = goal" by (metis indices_simps(2) length_map size_mset)
    moreover have "distinct (map (sint \<circ> fst) (ld_log st))"
      using mset_eq_imp_distinct_iff [OF ix [unfolded indices_def]] by (simp add: distinct_map)
    then have "distinct (map (load_key ops \<circ> fst) (ld_log st))"
      unfolding distinct_map by (auto simp: inj_on_def load_key_inj)
    moreover have "good (ld_log st) = length (ld_log st) \<longleftrightarrow> list_all snd (ld_log st)"
      unfolding good_def list_all_iff by (metis filter_True length_filter_less less_irrefl)
    ultimately show ?thesis using inv le ix good_le [of "ld_log st"] by (auto simp: load_inv_def indices_def load_exit_def good_def)
  qed (use inv le in auto)
qed

definition sample_load :: load_opts where
  "sample_load = \<lparr>lo_count = 2, lo_keyType = ''counter'', lo_keyPrefix = ''key_'', lo_valueSize = 1, lo_maxInc = 9, lo_conns = 1, lo_workers = 1, lo_startIdx = 5\<rparr>"

definition sample_stub :: "string list LumeClient" where
  "sample_stub = \<lparr>cl_Set = (\<lambda>s key ty. (Inr (), s @ [key])), cl_Get = (\<lambda>s key. (Inl ErrTransport, s)),
     cl_Delete = (\<lambda>s key. (Inl ErrTransport, s)), cl_Apply = (\<lambda>s key oper. (if key = ''key_6'' then Inl ErrTransport else Inr (), s))\<rparr>"

primrec load_times :: "nat \<Rightarrow> string list load_state \<Rightarrow> string list load_state option" where
  "load_times 0 st = Some st"
| "load_times (Suc k) st = (case load_work sample_stub sample_load (\<lambda>_ _. 4) 0 st of None \<Rightarrow> None | Some st1 \<Rightarrow> load_times k st1)"

lemma load_times_steps: "load_times k st = Some st' \<Longrightarrow> (load_step sample_stub sample_load ^^ k) st st'"
proof (induction k arbitrary: st)
  case (Suc k)
  then obtain st1 where w: "load_work sample_stub sample_load (\<lambda>_ _. 4) 0 st = Some st1" "load_times k st1 = Some st'" by (auto split: option.splits)
  then have "load_step sample_stub sample_load st st1" by (auto simp: load_step_iff)
  with Suc.IH [OF w(2)] show ?case by (meson relpowp_Suc_I2)
qed simp

theorem load_exactly_once_witness:
  "\<exists>st0 st. load_run sample_load (\<lambda>_. None) [] = Inr st0 \<and> (load_step sample_stub sample_load ^^ 7) st0 st
     \<and> ld_server st = [''key_5'', ''key_6''] \<and> mset (map (sint \<circ> fst) (ld_log st)) = {#0, 1#} \<and> sint (ld_ok st) + sint (ld_failed st) = 2"
proof -
  let ?a = "\<lparr>ld_next = 0, ld_ok = 0, ld_failed = 0, ld_server = [], ld_workers = [LoadPick], ld_crash = None, ld_log = []\<rparr> :: string list load_state"
  let ?z = "\<lparr>ld_next = 3, ld_ok = 1, ld_failed = 1, ld_server = [''key_5'', ''key_6''], ld_workers = [LoadDone], ld_crash = None, ld_log = [(0, True), (1, False)]\<rparr> :: string list load_state"
  have r: "load_run sample_load (\<lambda>_. None) [] = Inr ?a" by code_simp
  have "load_times 7 ?a = Some ?z" by code_simp
  from load_times_steps [OF this] have n: "(load_step sample_stub sample_load ^^ 7) ?a ?z" .
  have d: "draws_ok sample_load" by (simp add: draws_ok_def sample_load_def)
  have c: "2 = nat (sint (lo_count sample_load))" "1 = nat (lo_conns sample_load) * nat (lo_workers sample_load)" "(2::nat) + 1 < 2 ^ 63" by (simp_all add: sample_load_def)
  have "\<not> load_step sample_stub sample_load ?z st'" for st' by (simp add: load_step_iff load_work_def)
  with load_exactly_once [OF r n d c] have "mset (map (sint \<circ> fst) (ld_log ?z)) = mset (map int [0..<2])" "sint (ld_ok ?z) + sint (ld_failed ?z) = 2" by simp_all
  with r n show ?thesis by (intro exI [of _ ?a] exI [of _ ?z]) (simp add: numeral_2_eq_2)
qed

end
