(* ===== verification/Lume_Bench.thy ===== *)
theory Lume_Bench
  imports Lume_Cli
begin

text \<open>
  The benchmark client, \<open>cmd/lume-bench/main.go\<close>: connections, the pool of keys, the population of the nodes before the run, the
  requests and the loop of a worker. A connection is given by its number and its port; \<open>cl\<close> gives the stub of a connection. Profiles, terminal
  output and the statistics with floating-point numbers are left out. The readings of the clock, the random numbers and the waits for the
  rate limiter of one iteration of a worker are an argument, so a run of a worker is driven by the list of its iterations. Lemmas: what
  a worker counts and measures, and which calls the population of the nodes makes.
\<close>

section \<open>Configuration\<close>

record bench_config =
  bc_ports :: "string list"
  bc_numRPC :: int
  bc_numConn :: int
  bc_reqSize :: int
  bc_reqType :: string
  bc_poolSize :: int

type_synonym bench_conn = "nat \<times> string"

datatype bench_error = ErrReqType string | ErrBenchDial string go_error | ErrBench go_error

section \<open>Connections and keys\<close>

text \<open>The loop of \<open>connect\<close> over the remaining targets; when a dial fails, all connections made so far are closed.\<close>

fun connect_loop :: "(nat \<Rightarrow> string \<Rightarrow> go_error option) \<Rightarrow> string list \<Rightarrow> bench_conn list \<Rightarrow> (bench_error + bench_conn list) \<times> bench_conn list" where
  "connect_loop dial [] ccs = (Inr ccs, [])"
| "connect_loop dial (port # ports) ccs =
     (case dial (length ccs) port of
        Some err \<Rightarrow> (Inl (ErrBenchDial port err), ccs)
      | None \<Rightarrow> connect_loop dial ports (ccs @ [(length ccs, port)]))"

definition bench_connect :: "bench_config \<Rightarrow> (nat \<Rightarrow> string \<Rightarrow> go_error option) \<Rightarrow> (bench_error + bench_conn list) \<times> bench_conn list" where
  "bench_connect cfg dial =
     (if bc_numConn cfg * int (length (bc_ports cfg)) < 0 then (Inl (ErrBench (Panic MakeNegativeLen)), [])
      else connect_loop dial (concat (map (replicate (nat (bc_numConn cfg))) (bc_ports cfg))) [])"

definition newKeyPool :: "int \<Rightarrow> go_error + string list" where
  "newKeyPool sz = (if sz < 0 then Inl (Panic MakeNegativeLen) else Inr (map (\<lambda>i. ''key_'' @ show_nat i) [0..<nat sz]))"

definition randomKey :: "string list \<Rightarrow> nat \<Rightarrow> go_error + string" where
  "randomKey keys draw = (if length keys = 0 then Inl (Panic (ExplicitPanic ''invalid argument to IntN'')) else Inr (keys ! draw))"

section \<open>Population\<close>

fun populate_keys :: "'s LumeClient \<Rightarrow> int \<Rightarrow> string list \<Rightarrow> 's \<Rightarrow> go_error option \<times> 's" where
  "populate_keys cl reqSize [] s = (None, s)"
| "populate_keys cl reqSize (key # keys) s =
     (case cl_Set cl s key TYPE_LWW_REGISTER of
        (Inl err, s1) \<Rightarrow> (Some err, s1)
      | (Inr _, s1) \<Rightarrow>
          if reqSize < 0 then (Some (Panic MakeNegativeLen), s1)
          else (case cl_Apply cl s1 key (RegisterOperation (replicate (nat reqSize) 0)) of
                  (Inl err, s2) \<Rightarrow> (Some err, s2)
                | (Inr _, s2) \<Rightarrow> populate_keys cl reqSize keys s2))"

fun prepopulate_loop :: "(bench_conn \<Rightarrow> 's LumeClient) \<Rightarrow> bench_conn list \<Rightarrow> int \<Rightarrow> string list \<Rightarrow> nat list \<Rightarrow> 's \<Rightarrow> go_error option \<times> 's" where
  "prepopulate_loop cl ccs reqSize keys [] s = (None, s)"
| "prepopulate_loop cl ccs reqSize keys (i # is) s =
     (if length ccs \<le> i then (Some (Panic IndexOutOfRange), s)
      else case populate_keys (cl (ccs ! i)) reqSize keys s of
             (Some err, s1) \<Rightarrow> (Some err, s1)
           | (None, s1) \<Rightarrow> prepopulate_loop cl ccs reqSize keys is s1)"

definition prepopulate :: "bench_config \<Rightarrow> (bench_conn \<Rightarrow> 's LumeClient) \<Rightarrow> bench_conn list \<Rightarrow> string list \<Rightarrow> 's \<Rightarrow> go_error option \<times> 's" where
  "prepopulate cfg cl ccs keys s = prepopulate_loop cl ccs (bc_reqSize cfg) keys [0..<length (bc_ports cfg)] s"

section \<open>Requests\<close>

text \<open>The two random numbers: the index of the key and, for a mixed load, a number below 100.\<close>

definition doRequest :: "bench_config \<Rightarrow> 's LumeClient \<Rightarrow> string list \<Rightarrow> nat \<Rightarrow> nat \<Rightarrow> 's \<Rightarrow> go_error option \<times> 's" where
  "doRequest cfg cl keys draw percent s =
     (case randomKey keys draw of
        Inl err \<Rightarrow> (Some err, s)
      | Inr key \<Rightarrow>
          (let oper = (if bc_reqType cfg = ''mixed'' then (if percent < 70 then ''get'' else ''set'') else bc_reqType cfg)
           in if oper = ''get''
              then (case cl_Get cl s key of (Inl err, s1) \<Rightarrow> (Some err, s1) | (Inr _, s1) \<Rightarrow> (None, s1))
              else (case cl_Set cl s key TYPE_LWW_REGISTER of (Inl err, s1) \<Rightarrow> (Some err, s1) | (Inr _, s1) \<Rightarrow> (None, s1))))"

text \<open>One iteration of a worker: the reading of the clock at its begin, the result of the limiter, the reading before and the
  one after the request, and the random numbers.\<close>

record iteration =
  it_begin :: int
  it_wait :: "go_error option"
  it_start :: int
  it_end :: int
  it_draw :: nat
  it_percent :: nat

record bench_counts =
  bn_ops :: nat
  bn_errs :: nat
  bn_hist :: "int list"

text \<open>The worker returns when the benchmark is over or the limiter fails; it has no result when the iterations run out before. A panic
  of a request ends the program and is the error of the result.\<close>

fun runWorker ::
    "bench_config \<Rightarrow> 's LumeClient \<Rightarrow> string list \<Rightarrow> int \<Rightarrow> int \<Rightarrow> bool \<Rightarrow> iteration list \<Rightarrow> bench_counts \<Rightarrow> 's \<Rightarrow> ((go_error option \<times> bench_counts) \<times> 's) option" where
  "runWorker cfg cl keys warmEnd benchEnd limited [] cnt s = None"
| "runWorker cfg cl keys warmEnd benchEnd limited (it # its) cnt s =
     (if benchEnd < it_begin it then Some ((None, cnt), s)
      else if limited \<and> it_wait it \<noteq> None then Some ((None, cnt), s)
      else case doRequest cfg cl keys (it_draw it) (it_percent it) s of
             (Some (Panic p), s1) \<Rightarrow> Some ((Some (Panic p), cnt), s1)
           | (Some err, s1) \<Rightarrow> runWorker cfg cl keys warmEnd benchEnd limited its (cnt\<lparr>bn_errs := bn_errs cnt + 1\<rparr>) s1
           | (None, s1) \<Rightarrow> runWorker cfg cl keys warmEnd benchEnd limited its
               (cnt\<lparr>bn_ops := bn_ops cnt + 1, bn_hist := (if warmEnd < it_start it then bn_hist cnt @ [it_end it - it_start it] else bn_hist cnt)\<rparr>) s1)"

text \<open>The checks at the begin of \<open>run\<close> up to the start of the workers.\<close>

definition bench_prepare ::
    "bench_config \<Rightarrow> (nat \<Rightarrow> string \<Rightarrow> go_error option) \<Rightarrow> (bench_conn \<Rightarrow> 's LumeClient) \<Rightarrow> 's \<Rightarrow> (bench_error + bench_conn list \<times> string list) \<times> 's" where
  "bench_prepare cfg dial cl s =
     (if bc_reqType cfg \<notin> {''get'', ''set'', ''mixed''} then (Inl (ErrReqType (bc_reqType cfg)), s)
      else case fst (bench_connect cfg dial) of
             Inl err \<Rightarrow> (Inl err, s)
           | Inr ccs \<Rightarrow>
               (case newKeyPool (bc_poolSize cfg) of
                  Inl err \<Rightarrow> (Inl (ErrBench err), s)
                | Inr keys \<Rightarrow>
                    if bc_reqType cfg \<in> {''get'', ''mixed''}
                    then (case prepopulate cfg cl ccs keys s of
                            (Some err, s1) \<Rightarrow> (Inl (ErrBench err), s1)
                          | (None, s1) \<Rightarrow> (Inr (ccs, keys), s1))
                    else (Inr (ccs, keys), s)))"

section \<open>Which nodes are populated\<close>

lemma connect_loop_ok: "fst (connect_loop dial targets ccs) = Inr ccs' \<Longrightarrow> map snd ccs' = map snd ccs @ targets"
  by (induction dial targets ccs rule: connect_loop.induct) (auto split: option.splits)

lemma nth_concat_replicate: "0 < n \<Longrightarrow> i < n * length xs \<Longrightarrow> concat (map (replicate n) xs) ! i = xs ! (i div n)"
proof (induction xs arbitrary: i)
  case (Cons x xs)
  show ?case
  proof (cases "i < n")
    case False
    then have "(i - n) div n = i div n - 1" "0 < i div n" using Cons.prems(1) by (auto simp: div_if)
    with False Cons show ?thesis by (auto simp: nth_append nth_Cons' algebra_simps)
  qed (use Cons in \<open>simp add: nth_append\<close>)
qed simp

lemma length_concat_replicate: "length (concat (map (replicate n) xs)) = n * length xs"
  by (induction xs) simp_all

text \<open>The connection that the \<open>i\<close>-th round of \<open>prepopulate\<close> uses.\<close>

lemma round_port:
  assumes "fst (bench_connect cfg dial) = Inr ccs" "0 < bc_numConn cfg" "i < length (bc_ports cfg)"
  shows "i < length ccs \<and> snd (ccs ! i) = bc_ports cfg ! (i div nat (bc_numConn cfg))"
proof -
  let ?n = "nat (bc_numConn cfg)" and ?t = "concat (map (replicate (nat (bc_numConn cfg))) (bc_ports cfg))"
  have m: "map snd ccs = ?t" using assms(1,2) connect_loop_ok [of dial ?t "[]" ccs] by (auto simp: bench_connect_def split: if_splits)
  have n: "0 < ?n" using assms(2) by simp
  then have le: "i < ?n * length (bc_ports cfg)" using assms(3) by (metis less_le_trans mult_le_mono1 nat_mult_1 Suc_leI One_nat_def)
  then have i: "i < length ccs" using m length_concat_replicate [of ?n "bc_ports cfg"] by (metis length_map)
  have "snd (ccs ! i) = ?t ! i" using m i by (metis nth_map)
  with i nth_concat_replicate [OF n le] show ?thesis by simp
qed

section \<open>Which calls are made\<close>

text \<open>The stub of a connection that also records the port and the contents of each call that changes a node, whatever the nodes do with it.\<close>

datatype bench_call = CallSet string lume_Type | CallApply string operation

definition recorded :: "(bench_conn \<Rightarrow> 's LumeClient) \<Rightarrow> bench_conn \<Rightarrow> ('s \<times> (string \<times> bench_call) list) LumeClient" where
  "recorded cl conn =
     \<lparr>cl_Set = (\<lambda>(s, calls) key ty. let (r, s1) = cl_Set (cl conn) s key ty in (r, (s1, calls @ [(snd conn, CallSet key ty)]))),
      cl_Get = (\<lambda>(s, calls) key. let (r, s1) = cl_Get (cl conn) s key in (r, (s1, calls))),
      cl_Delete = (\<lambda>(s, calls) key. let (r, s1) = cl_Delete (cl conn) s key in (r, (s1, calls))),
      cl_Apply = (\<lambda>(s, calls) key oper. let (r, s1) = cl_Apply (cl conn) s key oper in (r, (s1, calls @ [(snd conn, CallApply key oper)])))\<rparr>"

definition answers :: "(bench_conn \<Rightarrow> 's LumeClient) \<Rightarrow> bool" where
  "answers cl \<longleftrightarrow> (\<forall>conn s key ty oper. \<not> isl (fst (cl_Set (cl conn) s key ty)) \<and> \<not> isl (fst (cl_Apply (cl conn) s key oper)))"

text \<open>The calls that fill one node with the keys.\<close>

definition fill_calls :: "int \<Rightarrow> string list \<Rightarrow> string \<Rightarrow> (string \<times> bench_call) list" where
  "fill_calls reqSize keys port =
     concat (map (\<lambda>key. [(port, CallSet key TYPE_LWW_REGISTER), (port, CallApply key (RegisterOperation (replicate (nat reqSize) 0)))]) keys)"

lemma populate_keys_calls:
  assumes "populate_keys (recorded cl conn) reqSize keys (s, calls) = (r, (s', calls'))"
  shows "\<exists>more. calls' = calls @ more \<and> fst ` set more \<subseteq> {snd conn} \<and> (answers cl \<and> 0 \<le> reqSize \<longrightarrow> r = None \<and> more = fill_calls reqSize keys (snd conn))"
  using assms
proof (induction keys arbitrary: s calls)
  case (Cons key keys)
  let ?oper = "RegisterOperation (replicate (nat reqSize) 0)"
  obtain a s1 where a: "cl_Set (cl conn) s key TYPE_LWW_REGISTER = (a, s1)" by fastforce
  obtain b s2 where b: "cl_Apply (cl conn) s1 key ?oper = (b, s2)" by fastforce
  have ok: "\<not> isl a" "\<not> isl b" if "answers cl" using that a b unfolding answers_def by (metis fst_conv)+
  note IH = Cons.IH [of s2 "calls @ [(snd conn, CallSet key TYPE_LWW_REGISTER), (snd conn, CallApply key ?oper)]"]
  consider e where "a = Inl e" | x where "a = Inr x" "reqSize < 0" | x e where "a = Inr x" "0 \<le> reqSize" "b = Inl e" | x y where "a = Inr x" "0 \<le> reqSize" "b = Inr y"
    by (cases a; cases b) fastforce+
  then show ?case
  proof cases
    case 4
    with Cons.prems a b IH show ?thesis by (fastforce simp: recorded_def fill_calls_def)
  qed (use Cons.prems a b ok in \<open>auto simp: recorded_def\<close>)
qed (simp add: fill_calls_def)

lemma prepopulate_loop_calls:
  assumes "prepopulate_loop (recorded cl) ccs reqSize keys is (s, calls) = (r, (s', calls'))" "\<forall>i \<in> set is. i < length ccs"
  shows "\<exists>more. calls' = calls @ more \<and> fst ` set more \<subseteq> (\<lambda>i. snd (ccs ! i)) ` set is
    \<and> (answers cl \<and> 0 \<le> reqSize \<longrightarrow> r = None \<and> more = concat (map (\<lambda>i. fill_calls reqSize keys (snd (ccs ! i))) is))"
  using assms
proof (induction "is" arbitrary: s calls)
  case (Cons i "is")
  obtain a s1 calls1 where p: "populate_keys (recorded cl (ccs ! i)) reqSize keys (s, calls) = (a, (s1, calls1))" by (metis prod.exhaust)
  obtain more where m: "calls1 = calls @ more" "fst ` set more \<subseteq> {snd (ccs ! i)}"
      "answers cl \<and> 0 \<le> reqSize \<longrightarrow> a = None \<and> more = fill_calls reqSize keys (snd (ccs ! i))"
    using populate_keys_calls [OF p] by blast
  show ?case
  proof (cases a)
    case None
    then have "prepopulate_loop (recorded cl) ccs reqSize keys is (s1, calls1) = (r, (s', calls'))" using Cons.prems p by simp
    then obtain rest where "calls' = calls1 @ rest" "fst ` set rest \<subseteq> (\<lambda>i. snd (ccs ! i)) ` set is"
        "answers cl \<and> 0 \<le> reqSize \<longrightarrow> r = None \<and> rest = concat (map (\<lambda>i. fill_calls reqSize keys (snd (ccs ! i))) is)"
      using Cons.IH Cons.prems(2) by (metis list.set_intros(2))
    with m show ?thesis by (intro exI [of _ "more @ rest"]) auto
  next
    case (Some err)
    with Cons.prems p m show ?thesis by auto
  qed
qed simp

text \<open>C39. Before a run with reads, every port should be filled with the pool of keys. But the round for port number \<open>i\<close>
  uses connection number \<open>i\<close>, and the connections are grouped by port: with \<open>numConn\<close> connections per port it fills port number
  \<open>i div numConn\<close>. If all calls succeed, the calls made are exactly these rounds, each with a set and a register write for every key of the pool. Hence, with one
  connection per port, every port is sent every key; with more, whatever the nodes answer, no call is made to a port \<open>j\<close> with \<open>numConn * j\<close> at
  least the number of ports.\<close>

theorem prepopulate_misses_ports:
  assumes "fst (bench_connect cfg dial) = Inr ccs" "newKeyPool (bc_poolSize cfg) = Inr keys" "bc_reqType cfg \<in> {''get'', ''mixed''}"
    and "0 < bc_numConn cfg" "distinct (bc_ports cfg)" "0 \<le> bc_reqSize cfg" "n = nat (bc_numConn cfg)"
    and "bench_prepare cfg dial (recorded cl) (s, []) = (r, (s', calls))"
  shows "(answers cl \<longrightarrow> calls = concat (map (\<lambda>i. fill_calls (bc_reqSize cfg) keys (bc_ports cfg ! (i div n))) [0..<length (bc_ports cfg)]))
    \<and> (answers cl \<and> n = 1 \<longrightarrow> (\<forall>port \<in> set (bc_ports cfg). set (fill_calls (bc_reqSize cfg) keys port) \<subseteq> set calls))
    \<and> (\<forall>j < length (bc_ports cfg). length (bc_ports cfg) \<le> n * j \<longrightarrow> bc_ports cfg ! j \<notin> fst ` set calls)"
proof -
  let ?ports = "bc_ports cfg" and ?is = "[0..<length (bc_ports cfg)]"
  have port: "i < length ccs \<and> snd (ccs ! i) = ?ports ! (i div n)" if "i < length ?ports" for i
    using round_port [OF assms(1,4) that] assms(7) by simp
  obtain q where "prepopulate_loop (recorded cl) ccs (bc_reqSize cfg) keys ?is (s, []) = (q, (s', calls))"
    using assms(1-3,8) by (auto simp: bench_prepare_def prepopulate_def split: sum.splits prod.splits option.splits)
  from prepopulate_loop_calls [OF this] port have c: "fst ` set calls \<subseteq> (\<lambda>i. snd (ccs ! i)) ` set ?is"
      "answers cl \<Longrightarrow> calls = concat (map (\<lambda>i. fill_calls (bc_reqSize cfg) keys (snd (ccs ! i))) ?is)"
    using assms(6) by auto
  have eq: "answers cl \<Longrightarrow> calls = concat (map (\<lambda>i. fill_calls (bc_reqSize cfg) keys (?ports ! (i div n))) ?is)"
    using c(2) port by (auto intro!: arg_cong [of _ _ concat])
  moreover have "set (fill_calls (bc_reqSize cfg) keys p) \<subseteq> set calls" if "answers cl" "n = 1" "p \<in> set ?ports" for p
    using eq [OF that(1)] that(2,3) by (force simp: in_set_conv_nth)
  moreover have "?ports ! j \<notin> fst ` set calls" if j: "j < length ?ports" "length ?ports \<le> n * j" for j
  proof
    assume "?ports ! j \<in> fst ` set calls"
    then obtain i where "i \<in> set ?is" "?ports ! j = snd (ccs ! i)" using c(1) by blast
    then have i: "i < length ?ports" "?ports ! j = ?ports ! (i div n)" using port by auto
    have "i div n < j" using i(1) j assms(4,7) by (metis div_less_iff_less_mult less_le_trans mult.commute zero_less_nat_eq)
    with i(2) j(1) assms(5) show False by (simp add: nth_eq_iff_index_eq)
  qed
  ultimately show ?thesis by blast
qed

definition port_stub :: "bench_conn \<Rightarrow> unit LumeClient" where
  "port_stub conn = \<lparr>cl_Set = (\<lambda>s key ty. (Inr (), s)), cl_Get = (\<lambda>s key. (Inl ErrTransport, s)),
     cl_Delete = (\<lambda>s key. (Inl ErrTransport, s)), cl_Apply = (\<lambda>s key oper. (Inr (), s))\<rparr>"

definition sample_bench :: bench_config where
  "sample_bench = \<lparr>bc_ports = [''8080'', ''8081''], bc_numRPC = 1, bc_numConn = 2, bc_reqSize = 1, bc_reqType = ''mixed'', bc_poolSize = 1\<rparr>"

theorem prepopulate_misses_ports_witness:
  "\<exists>ccs calls. bench_prepare sample_bench (\<lambda>_ _. None) (recorded port_stub) ((), []) = (Inr (ccs, [''key_0'']), ((), calls))
     \<and> calls = fill_calls 1 [''key_0''] ''8080'' @ fill_calls 1 [''key_0''] ''8080'' \<and> ''8081'' \<notin> fst ` set calls"
proof -
  let ?ccs = "[(0, ''8080''), (1, ''8080''), (2, ''8081''), (3, ''8081'')] :: bench_conn list"
  let ?p = "bench_prepare sample_bench (\<lambda>_ _. None) (recorded port_stub) ((), [])"
  have c: "fst (bench_connect sample_bench (\<lambda>_ _. None)) = Inr ?ccs" by (simp add: bench_connect_def sample_bench_def numeral_2_eq_2)
  have k: "newKeyPool (bc_poolSize sample_bench) = Inr [''key_0'']" "bc_reqType sample_bench \<in> {''get'', ''mixed''}" by code_simp+
  have h: "0 < bc_numConn sample_bench" "distinct (bc_ports sample_bench)" "0 \<le> bc_reqSize sample_bench" "2 = nat (bc_numConn sample_bench)"
    by (simp_all add: sample_bench_def)
  have a: "answers port_stub" by (simp add: answers_def port_stub_def)
  have r: "fst ?p = Inr (?ccs, [''key_0''])" by code_simp
  obtain calls where p: "?p = (Inr (?ccs, [''key_0'']), ((), calls))" using r by (cases ?p) (auto simp: prod_eq_iff)
  note t = prepopulate_misses_ports [OF c k h p]
  have "calls = fill_calls 1 [''key_0''] ''8080'' @ fill_calls 1 [''key_0''] ''8080''" using t a by (simp add: sample_bench_def upt_rec)
  moreover have "''8081'' \<notin> fst ` set calls" using t [THEN conjunct2, THEN conjunct2, rule_format, of 1] by (simp add: sample_bench_def)
  ultimately show ?thesis using p by blast
qed

section \<open>What a worker counts\<close>

text \<open>A worker that has a key to ask for returns as soon as an iteration begins after the end; until then each of its iterations is
  counted once, as an operation or as an error, and its histogram holds one measurement for each operation that began after the warm-up.\<close>

lemma runWorker_counts:
  assumes "\<And>s key ty e. fst (cl_Get cl s key) = Inl e \<or> fst (cl_Set cl s key ty) = Inl e \<Longrightarrow> \<not> is_panic (Inl e :: go_error + unit)" "keys \<noteq> []"
    and "list_all (\<lambda>it. it_begin it \<le> benchEnd) its" "benchEnd < it_begin it0"
  shows "\<exists>cnt' s'. runWorker cfg cl keys warmEnd benchEnd False (its @ it0 # rest) cnt s = Some ((None, cnt'), s')
    \<and> bn_ops cnt' + bn_errs cnt' = bn_ops cnt + bn_errs cnt + length its
    \<and> length (bn_hist cnt') \<le> length (bn_hist cnt) + length (filter (\<lambda>it. warmEnd < it_start it) its)
    \<and> (bn_errs cnt' = bn_errs cnt \<longrightarrow> length (bn_hist cnt') = length (bn_hist cnt) + length (filter (\<lambda>it. warmEnd < it_start it) its))
    \<and> bn_errs cnt \<le> bn_errs cnt'"
  using assms(3)
proof (induction its arbitrary: cnt s)
  case Nil
  with assms(4) show ?case by simp
next
  case (Cons it its)
  obtain err s1 where d: "doRequest cfg cl keys (it_draw it) (it_percent it) s = (err, s1)" by fastforce
  have "err \<noteq> Some (Panic p)" for p
    using d assms(2) assms(1) [of s "keys ! it_draw it" "Panic p" TYPE_LWW_REGISTER]
    by (cases "cl_Get cl s (keys ! it_draw it)"; cases "cl_Set cl s (keys ! it_draw it) TYPE_LWW_REGISTER")
      (auto simp: doRequest_def randomKey_def Let_def split: if_splits sum.splits)
  then consider "err = None" | e where "err = Some e" "\<And>p. e \<noteq> Panic p" by (cases err) auto
  then show ?case
  proof cases
    case 1
    with d Cons.prems Cons.IH [of "cnt\<lparr>bn_ops := bn_ops cnt + 1, bn_hist := (if warmEnd < it_start it then bn_hist cnt @ [it_end it - it_start it] else bn_hist cnt)\<rparr>" s1]
    show ?thesis by auto
  next
    case 2
    then have "runWorker cfg cl keys warmEnd benchEnd False ((it # its) @ it0 # rest) cnt s
        = runWorker cfg cl keys warmEnd benchEnd False (its @ it0 # rest) (cnt\<lparr>bn_errs := bn_errs cnt + 1\<rparr>) s1"
      using d Cons.prems by (cases e) auto
    with Cons.prems Cons.IH [of "cnt\<lparr>bn_errs := bn_errs cnt + 1\<rparr>" s1] show ?thesis by auto
  qed
qed

end
