(* ===== verification/Lume_Ca.thy ===== *)
theory Lume_Ca
  imports Tlsx
begin

text \<open>
  The certificate tool, \<open>cmd/lume-ca/main.go\<close>: \<open>init-ca\<close> makes a key and a self-signed certificate of an authority, \<open>issue\<close> makes a key and
  a certificate of a node. New keys, serial numbers, the time, calendar arithmetic (\<open>addYears\<close>), the joining of paths and the errors of
  the file system are arguments. A command gives its error and the files it leaves. Lemmas: what the two commands write,
  and that nodes with certificates issued by one authority accept each other.
\<close>

section \<open>Files and keys\<close>

datatype ca_error =
    ErrCreateDir go_error | ErrGenerateKey go_error | ErrSerial go_error | ErrCreateCert go_error | ErrMarshalKey go_error
  | ErrOpenFile string go_error | ErrReadCaFile string | ErrNoPem string | ErrParseCaCert go_error | ErrParseCaKey

text \<open>\<open>openErr path\<close> is the error of opening the file for writing. The modes are 0600 and 0644.\<close>

definition writeECKey :: "('k, 'p, 'd, 'f) x509 \<Rightarrow> (string \<Rightarrow> go_error option) \<Rightarrow> string \<Rightarrow> 'k \<Rightarrow> 'f files \<Rightarrow> ca_error option \<times> 'f files" where
  "writeECKey X openErr path key fs =
     (case x_MarshalECPrivateKey X key of
        Inl err \<Rightarrow> (Some (ErrMarshalKey err), fs)
      | Inr keyDER \<Rightarrow>
          (case openErr path of
             Some err \<Rightarrow> (Some (ErrOpenFile path err), fs)
           | None \<Rightarrow> (None, write_file path 384 (x_pemEncode X ''EC PRIVATE KEY'' keyDER) fs)))"

definition writeCert :: "('k, 'p, 'd, 'f) x509 \<Rightarrow> (string \<Rightarrow> go_error option) \<Rightarrow> string \<Rightarrow> 'd \<Rightarrow> 'f files \<Rightarrow> ca_error option \<times> 'f files" where
  "writeCert X openErr path certDER fs =
     (case openErr path of
        Some err \<Rightarrow> (Some (ErrOpenFile path err), fs)
      | None \<Rightarrow> (None, write_file path 420 (x_pemEncode X ''CERTIFICATE'' certDER) fs))"

text \<open>The type of the PEM block is not looked at.\<close>

definition parseECKey :: "('k, 'p, 'd, 'f) x509 \<Rightarrow> 'f \<Rightarrow> ca_error + 'k" where
  "parseECKey X pemData =
     (case x_pemDecode X pemData of
        None \<Rightarrow> Inl ErrParseCaKey
      | Some (ty, der) \<Rightarrow> (case x_ParseECPrivateKey X der of Inl err \<Rightarrow> Inl ErrParseCaKey | Inr key \<Rightarrow> Inr key))"

text \<open>\<open>randInt n\<close> is \<open>rand.Int\<close> with the bound \<open>n\<close>.\<close>

definition randomSerial :: "(int \<Rightarrow> go_error + int) \<Rightarrow> go_error + int" where
  "randomSerial randInt = randInt (push_bit 128 1)"

definition write_pair ::
    "('k, 'p, 'd, 'f) x509 \<Rightarrow> (string \<Rightarrow> go_error option) \<Rightarrow> string \<Rightarrow> string \<Rightarrow> 'k \<Rightarrow> 'd \<Rightarrow> 'f files \<Rightarrow> ca_error option \<times> 'f files" where
  "write_pair X openErr keyPath certPath key certDER fs =
     (case writeECKey X openErr keyPath key fs of
        (Some err, fs1) \<Rightarrow> (Some err, fs1)
      | (None, fs1) \<Rightarrow> writeCert X openErr certPath certDER fs1)"

section \<open>Commands\<close>

text \<open>What the commands take from outside.\<close>

record 'k ca_env =
  ev_mkdirErr :: "string \<Rightarrow> go_error option"
  ev_openErr :: "string \<Rightarrow> go_error option"
  ev_genKey :: "go_error + 'k"
  ev_randInt :: "int \<Rightarrow> go_error + int"
  ev_now :: int
  ev_addYears :: "int \<Rightarrow> int \<Rightarrow> int"
  ev_join :: "string \<Rightarrow> string \<Rightarrow> string"
  ev_isIP :: "string \<Rightarrow> bool"

definition ca_template :: "int \<Rightarrow> int \<Rightarrow> int \<Rightarrow> 'p Certificate" where
  "ca_template serial now until = \<lparr>SerialNumber = serial, Subject = (''Lume CA'', [''Lume'']), Issuer = ('''', []), NotBefore = now, NotAfter = until,
     IsCA = True, BasicConstraintsValid = True, KeyUsages = [KeyUsageCertSign, KeyUsageCRLSign], ExtKeyUsages = [], IPAddresses = [], DNSNames = [], PublicKey = None, Signature = None\<rparr>"

definition runInitCA :: "('k, 'p, 'd, 'f) x509 \<Rightarrow> 'k ca_env \<Rightarrow> string \<Rightarrow> int \<Rightarrow> 'f files \<Rightarrow> ca_error option \<times> 'f files" where
  "runInitCA X env outDir validityYears fs =
     (case ev_mkdirErr env outDir of
        Some err \<Rightarrow> (Some (ErrCreateDir err), fs)
      | None \<Rightarrow>
          (case ev_genKey env of
             Inl err \<Rightarrow> (Some (ErrGenerateKey err), fs)
           | Inr key \<Rightarrow>
               (case randomSerial (ev_randInt env) of
                  Inl err \<Rightarrow> (Some (ErrSerial err), fs)
                | Inr serial \<Rightarrow>
                    (let tmpl = ca_template serial (ev_now env) (ev_addYears env (ev_now env) validityYears)
                     in case x_CreateCertificate X tmpl tmpl (x_Public X key) key of
                          Inl err \<Rightarrow> (Some (ErrCreateCert err), fs)
                        | Inr certDER \<Rightarrow> write_pair X (ev_openErr env) (ev_join env outDir ''ca.key'') (ev_join env outDir ''ca.crt'') key certDER fs))))"

text \<open>The loop over the additional hosts.\<close>

fun add_hosts :: "(string \<Rightarrow> bool) \<Rightarrow> string list \<Rightarrow> 'p Certificate \<Rightarrow> 'p Certificate" where
  "add_hosts isIP [] tmpl = tmpl"
| "add_hosts isIP (h # hs) tmpl =
     add_hosts isIP hs (if isIP h then tmpl\<lparr>IPAddresses := IPAddresses tmpl @ [h]\<rparr> else tmpl\<lparr>DNSNames := DNSNames tmpl @ [h]\<rparr>)"

definition node_template :: "string \<Rightarrow> int \<Rightarrow> int \<Rightarrow> int \<Rightarrow> 'p Certificate" where
  "node_template nodeName serial now until = \<lparr>SerialNumber = serial, Subject = (nodeName, [''Lume'']), Issuer = ('''', []), NotBefore = now, NotAfter = until,
     IsCA = False, BasicConstraintsValid = False, KeyUsages = [KeyUsageDigitalSignature, KeyUsageKeyEncipherment],
     ExtKeyUsages = [ExtKeyUsageServerAuth, ExtKeyUsageClientAuth], IPAddresses = [], DNSNames = [], PublicKey = None, Signature = None\<rparr>"

text \<open>Reading the authority: its certificate and its key.\<close>

definition read_ca :: "('k, 'p, 'd, 'f) x509 \<Rightarrow> string \<Rightarrow> string \<Rightarrow> 'f files \<Rightarrow> ca_error + 'p Certificate \<times> 'k" where
  "read_ca X caCertFile caKeyFile fs =
     (case ReadFile fs caCertFile of
        None \<Rightarrow> Inl (ErrReadCaFile caCertFile)
      | Some caCertPEM \<Rightarrow>
          (case x_pemDecode X caCertPEM of
             None \<Rightarrow> Inl (ErrNoPem caCertFile)
           | Some (ty, der) \<Rightarrow>
               (case x_ParseCertificate X der of
                  Inl err \<Rightarrow> Inl (ErrParseCaCert err)
                | Inr caCert \<Rightarrow>
                    (case ReadFile fs caKeyFile of
                       None \<Rightarrow> Inl (ErrReadCaFile caKeyFile)
                     | Some caKeyPEM \<Rightarrow> bind_res (parseECKey X caKeyPEM) (\<lambda>caKey. Inr (caCert, caKey))))))"

definition runIssue ::
    "('k, 'p, 'd, 'f) x509 \<Rightarrow> 'k ca_env \<Rightarrow> string \<Rightarrow> string \<Rightarrow> string \<Rightarrow> string \<Rightarrow> int \<Rightarrow> string list \<Rightarrow> 'f files \<Rightarrow> ca_error option \<times> 'f files" where
  "runIssue X env nodeName caCertFile caKeyFile outDir validityYears hosts fs =
     (case read_ca X caCertFile caKeyFile fs of
        Inl err \<Rightarrow> (Some err, fs)
      | Inr (caCert, caKey) \<Rightarrow>
          (case ev_genKey env of
             Inl err \<Rightarrow> (Some (ErrGenerateKey err), fs)
           | Inr nodeKey \<Rightarrow>
               (case randomSerial (ev_randInt env) of
                  Inl err \<Rightarrow> (Some (ErrSerial err), fs)
                | Inr serial \<Rightarrow>
                    (let tmpl = add_hosts (ev_isIP env) hosts (node_template nodeName serial (ev_now env) (ev_addYears env (ev_now env) validityYears))
                     in case x_CreateCertificate X tmpl caCert (x_Public X nodeKey) caKey of
                          Inl err \<Rightarrow> (Some (ErrCreateCert err), fs)
                        | Inr certDER \<Rightarrow>
                            (case ev_mkdirErr env outDir of
                               Some err \<Rightarrow> (Some (ErrCreateDir err), fs)
                             | None \<Rightarrow> write_pair X (ev_openErr env) (ev_join env outDir (nodeName @ ''.key'')) (ev_join env outDir (nodeName @ ''.crt''))
                                 nodeKey certDER fs)))))"

section \<open>What the commands write\<close>

text \<open>The documentation promises mode 0600 for a private key; a file that exists keeps its mode.\<close>

lemma key_mode:
  assumes "writeECKey X openErr path key fs = (None, fs')"
  shows "map_option snd (fs' path) = Some (case fs path of None \<Rightarrow> 384 | Some (_, m) \<Rightarrow> m)"
  using assms by (auto simp: writeECKey_def write_file_def split: sum.splits option.splits)

definition env_ok :: "'k ca_env \<Rightarrow> 'k \<Rightarrow> bool" where
  "env_ok env k \<longleftrightarrow> (\<forall>p. ev_mkdirErr env p = None) \<and> (\<forall>p. ev_openErr env p = None) \<and> ev_genKey env = Inr k \<and> (\<exists>serial. randomSerial (ev_randInt env) = Inr serial \<and> 0 \<le> serial)"

abbreviation key_path :: "'k ca_env \<Rightarrow> string \<Rightarrow> string \<Rightarrow> string" where
  "key_path env outDir nm \<equiv> ev_join env outDir (nm @ ''.key'')"

abbreviation crt_path :: "'k ca_env \<Rightarrow> string \<Rightarrow> string \<Rightarrow> string" where
  "crt_path env outDir nm \<equiv> ev_join env outDir (nm @ ''.crt'')"

lemma write_pair_files:
  assumes "x509_laws X" "\<forall>p. openErr p = None" "keyPath \<noteq> certPath" "x_ParseCertificate X der = Inr c" "PublicKey c = Some (x_Public X k)"
  shows "\<exists>fs'. write_pair X openErr keyPath certPath k der fs = (None, fs') \<and> (\<forall>q. q \<notin> {keyPath, certPath} \<longrightarrow> ReadFile fs' q = ReadFile fs q)
    \<and> node_files X fs' certPath certPath keyPath c c der k"
proof -
  obtain kder where "x_MarshalECPrivateKey X k = Inr kder" "x_ParseECPrivateKey X kder = Inr k" using x509_lawsD(2) [OF assms(1)] by blast
  with assms show ?thesis by (auto simp: write_pair_def writeECKey_def writeCert_def node_files_def ReadFile_write)
qed

text \<open>An authority: the certificate may sign others.\<close>

definition authority :: "'p Certificate \<Rightarrow> bool" where
  "authority root \<longleftrightarrow> IsCA root \<and> BasicConstraintsValid root \<and> KeyUsageCertSign \<in> set (KeyUsages root) \<and> ExtKeyUsages root = []"

text \<open>The validity of a new certificate, of which the times can be encoded.\<close>

definition period_ok :: "('k, 'p, 'd, 'f) x509 \<Rightarrow> 'k ca_env \<Rightarrow> int \<Rightarrow> bool" where
  "period_ok X env years \<longleftrightarrow> list_all (\<lambda>t. 0 \<le> t \<and> t \<le> x_lastTime X) [ev_now env, ev_addYears env (ev_now env) years]"

lemma runInitCA_files:
  assumes "x509_laws X" "env_ok env k" "key_path env outDir ''ca'' \<noteq> crt_path env outDir ''ca''" "period_ok X env years"
  shows "\<exists>fs' root der. runInitCA X env outDir years fs = (None, fs') \<and> node_files X fs' (crt_path env outDir ''ca'') (crt_path env outDir ''ca'') (key_path env outDir ''ca'') root root der k
    \<and> authority root \<and> NotBefore root = ev_now env \<and> NotAfter root = ev_addYears env (ev_now env) years"
proof -
  obtain serial where s: "randomSerial (ev_randInt env) = Inr serial" "0 \<le> serial" using assms(2) by (auto simp: env_ok_def)
  let ?t = "ca_template serial (ev_now env) (ev_addYears env (ev_now env) years)" and ?p = "x_Public X k"
  have "encodable (x_lastTime X) ?t" using assms(4) s(2) by (simp add: encodable_def ca_template_def ascii_def period_ok_def)
  moreover have "PublicKey ?t \<in> {None, Some ?p}" by (simp add: ca_template_def)
  ultimately obtain der where d: "x_CreateCertificate X ?t ?t ?p k = Inr der" "x_ParseCertificate X der = Inr (issued_as ?t ?t ?p ?p)"
    using x509_lawsD(1) [OF assms(1)] by metis
  have "PublicKey (issued_as ?t ?t ?p ?p) = Some ?p" by (simp add: issued_as_def)
  from write_pair_files [OF assms(1) _ assms(3) d(2) this, of "ev_openErr env" fs] assms(2) d(1) s(1)
  show ?thesis by (fastforce simp: runInitCA_def env_ok_def Let_def authority_def issued_as_def ca_template_def)
qed

lemma add_hosts_keeps:
  "Subject (add_hosts f hs t) = Subject t" "NotBefore (add_hosts f hs t) = NotBefore t" "NotAfter (add_hosts f hs t) = NotAfter t"
  "ExtKeyUsages (add_hosts f hs t) = ExtKeyUsages t" "SerialNumber (add_hosts f hs t) = SerialNumber t"
  "set (DNSNames (add_hosts f hs t)) \<subseteq> set (DNSNames t) \<union> set hs"
  by (induction f hs t rule: add_hosts.induct) auto

text \<open>What a certificate of a node looks like below the authority.\<close>

definition node_cert :: "'p Certificate \<Rightarrow> 'p Certificate \<Rightarrow> int \<Rightarrow> int \<Rightarrow> bool" where
  "node_cert root c from_time until \<longleftrightarrow> Issuer c = Subject root \<and> PublicKey root \<noteq> None \<and> Signature c = PublicKey root
     \<and> set (ExtKeyUsages c) = {ExtKeyUsageServerAuth, ExtKeyUsageClientAuth} \<and> NotBefore c = from_time \<and> NotAfter c = until"

lemma runIssue_files:
  assumes "x509_laws X" "env_ok env k" "distinct [caKey, caCrt, key_path env outDir nm, crt_path env outDir nm]"
    and "node_files X fs caCrt caCrt caKey root root caDer caK" "period_ok X env years" "list_all ascii (nm # hosts)"
  shows "\<exists>fs' c der. runIssue X env nm caCrt caKey outDir years hosts fs = (None, fs')
    \<and> node_files X fs' caCrt (crt_path env outDir nm) (key_path env outDir nm) root c der k
    \<and> node_cert root c (ev_now env) (ev_addYears env (ev_now env) years)
    \<and> (\<forall>q. q \<notin> {key_path env outDir nm, crt_path env outDir nm} \<longrightarrow> ReadFile fs' q = ReadFile fs q)"
proof -
  obtain serial where s: "randomSerial (ev_randInt env) = Inr serial" "0 \<le> serial" using assms(2) by (auto simp: env_ok_def)
  have ca: "read_ca X caCrt caKey fs = Inr (root, caK)" "PublicKey root = Some (x_Public X caK)"
    using assms(4) x509_lawsD(3) [OF assms(1)] by (auto simp: node_files_def read_ca_def parseECKey_def)
  let ?t = "add_hosts (ev_isIP env) hosts (node_template nm serial (ev_now env) (ev_addYears env (ev_now env) years))" and ?p = "x_Public X k"
  let ?c = "issued_as ?t root ?p (x_Public X caK)"
  have "set (DNSNames ?t) \<subseteq> set hosts" using add_hosts_keeps(6) [of "ev_isIP env" hosts] by (fastforce simp: node_template_def)
  then have "encodable (x_lastTime X) ?t" using assms(5,6) s(2)
    by (simp add: encodable_def add_hosts_keeps(1-5) period_ok_def list_all_iff subset_iff) (auto simp: node_template_def ascii_def)
  then obtain der where d: "x_CreateCertificate X ?t root ?p caK = Inr der" "x_ParseCertificate X der = Inr ?c"
    using x509_lawsD(1) [OF assms(1), of ?t root caK ?p] ca(2) by auto
  have pk: "PublicKey ?c = Some ?p" by (simp add: issued_as_def)
  have paths: "key_path env outDir nm \<noteq> crt_path env outDir nm" using assms(3) by simp
  have open_ok: "\<forall>p. ev_openErr env p = None" using assms(2) by (simp add: env_ok_def)
  obtain fs' where w: "write_pair X (ev_openErr env) (key_path env outDir nm) (crt_path env outDir nm) k der fs = (None, fs')"
      "\<forall>q. q \<notin> {key_path env outDir nm, crt_path env outDir nm} \<longrightarrow> ReadFile fs' q = ReadFile fs q"
      "node_files X fs' (crt_path env outDir nm) (crt_path env outDir nm) (key_path env outDir nm) ?c ?c der k"
    using write_pair_files [OF assms(1) open_ok paths d(2) pk, of fs] by blast
  have "ReadFile fs' caCrt = ReadFile fs caCrt" using w(2) assms(3) by auto
  then have "node_files X fs' caCrt (crt_path env outDir nm) (key_path env outDir nm) root ?c der k"
    using w(3) assms(4) unfolding node_files_def by auto
  moreover have "node_cert root ?c (ev_now env) (ev_addYears env (ev_now env) years)"
    using ca(2) by (simp add: node_cert_def issued_as_def add_hosts_keeps) (auto simp: node_template_def)
  moreover have "runIssue X env nm caCrt caKey outDir years hosts fs = (None, fs')"
    using ca(1) assms(2) s(1) d(1) w(1) by (simp add: runIssue_def env_ok_def Let_def)
  ultimately show ?thesis using w(2) by blast
qed

section \<open>Nodes of one authority accept each other\<close>

lemma node_cert_valid:
  assumes "authority root" "node_cert root c from_time until" "NotBefore root \<le> now" "now \<le> NotAfter root" "from_time \<le> now" "now \<le> until"
  shows "valid_below root c ExtKeyUsageServerAuth now" "valid_below root c ExtKeyUsageClientAuth now"
  using assms by (auto simp: valid_below_def authority_def node_cert_def)

text \<open>What the loaded credentials of one node say to another.\<close>

definition talks_to :: "('k, 'p, 'd, 'f) x509 \<Rightarrow> 'f files \<Rightarrow> int \<Rightarrow> string \<Rightarrow> string \<times> string \<Rightarrow> string \<times> string \<Rightarrow> bool" where
  "talks_to X fs now ca a b \<longleftrightarrow> (\<exists>cl sv. LoadClientCredentials X fs ca (fst a) (snd a) = Inr cl \<and> LoadServerCredentials X fs ca (fst b) (snd b) = Inr sv
     \<and> client_accepts X cl now (fst (Certificates sv)) \<and> server_accepts X sv now (fst (Certificates cl)))"

lemma talks_toI:
  assumes "x509_laws X" "authority root" "NotBefore root \<le> now" "now \<le> NotAfter root"
    and "node_files X fs ca c1 k1 root d1 der1 key1" "node_cert root d1 f1 u1" "f1 \<le> now" "now \<le> u1"
    and "node_files X fs ca c2 k2 root d2 der2 key2" "node_cert root d2 f2 u2" "f2 \<le> now" "now \<le> u2"
  shows "talks_to X fs now ca (c1, k1) (c2, k2)"
proof -
  have der: "x_ParseCertificate X der1 = Inr d1" "x_ParseCertificate X der2 = Inr d2" using assms(5,9) by (auto simp: node_files_def)
  have "client_accepts X \<lparr>Certificates = ([der1], key1), RequireClientCert = False, ClientCAs = [], InsecureSkipVerify = True, VerifyPool = Some [root]\<rparr> now [der2]"
    by (rule handshake_accepts(1) [OF assms(1) der(2) node_cert_valid(1) [OF assms(2,10,3,4,11,12)]])
  moreover have "server_accepts X \<lparr>Certificates = ([der2], key2), RequireClientCert = True, ClientCAs = [root], InsecureSkipVerify = False, VerifyPool = None\<rparr> now [der1]"
    by (rule handshake_accepts(2) [OF assms(1) der(1) node_cert_valid(2) [OF assms(2,6,3,4,7,8)]])
  ultimately show ?thesis using load_pool_node [OF assms(1,5)] load_pool_node [OF assms(1,9)]
    by (simp add: talks_to_def LoadClientCredentials_def LoadServerCredentials_def)
qed

lemma node_files_frame:
  assumes "node_files X fs ca crt key root c der k" "\<And>q. q \<in> {ca, crt, key} \<Longrightarrow> ReadFile fs' q = ReadFile fs q"
  shows "node_files X fs' ca crt key root c der k"
  using assms by (auto simp: node_files_def)

text \<open>C28. The workflow in the help of \<open>lume-ca\<close> gives a working cluster: after \<open>init-ca\<close> and an \<open>issue\<close> for each of two nodes, with names and hosts in ASCII,
  six different paths for the files, periods that a certificate can hold and no errors of the file system, all three commands succeed, each node loads its server and its client credentials from the files written,
  and at any time at which the certificates are valid each node, as a client, accepts the certificate of the other, and the other, as a
  server, accepts its certificate.\<close>

theorem issued_nodes_handshake:
  assumes "x509_laws X" "env_ok e0 k0" "env_ok e1 k1" "env_ok e2 k2"
    and "caKey = key_path e0 dir0 ''ca''" "caCrt = crt_path e0 dir0 ''ca''"
    and "distinct [caKey, caCrt, key_path e1 dir1 n1, crt_path e1 dir1 n1, key_path e2 dir2 n2, crt_path e2 dir2 n2]"
    and "\<And>e y. (e, y) \<in> {(e0, y0), (e1, y1), (e2, y2)} \<Longrightarrow> ev_now e \<le> now \<and> now \<le> ev_addYears e (ev_now e) y \<and> period_ok X e y"
    and "list_all ascii (n1 # n2 # hostsA @ hostsB)"
  shows "\<exists>fs1 fs2 fs3. runInitCA X e0 dir0 y0 fs = (None, fs1) \<and> runIssue X e1 n1 caCrt caKey dir1 y1 hostsA fs1 = (None, fs2)
    \<and> runIssue X e2 n2 caCrt caKey dir2 y2 hostsB fs2 = (None, fs3)
    \<and> talks_to X fs3 now caCrt (crt_path e1 dir1 n1, key_path e1 dir1 n1) (crt_path e2 dir2 n2, key_path e2 dir2 n2)
    \<and> talks_to X fs3 now caCrt (crt_path e2 dir2 n2, key_path e2 dir2 n2) (crt_path e1 dir1 n1, key_path e1 dir1 n1)"
proof -
  have ca: "key_path e0 dir0 ''ca'' \<noteq> crt_path e0 dir0 ''ca''" using assms(5-7) by simp
  have p1: "distinct [caKey, caCrt, key_path e1 dir1 n1, crt_path e1 dir1 n1]" and p2: "distinct [caKey, caCrt, key_path e2 dir2 n2, crt_path e2 dir2 n2]"
    using assms(7) by simp_all
  have per: "period_ok X e0 y0" "period_ok X e1 y1" "period_ok X e2 y2" using assms(8) by blast+
  have nm: "list_all ascii (n1 # hostsA)" "list_all ascii (n2 # hostsB)" using assms(9) by simp_all
  from runInitCA_files [OF assms(1,2) ca per(1), of fs] obtain fs1 root der0 where i: "runInitCA X e0 dir0 y0 fs = (None, fs1)"
      "node_files X fs1 caCrt caCrt caKey root root der0 k0" "authority root" "NotBefore root = ev_now e0" "NotAfter root = ev_addYears e0 (ev_now e0) y0"
    unfolding assms(5,6) by blast
  from runIssue_files [OF assms(1,3) p1 i(2) per(2) nm(1)] obtain fs2 c1 der1 where s1: "runIssue X e1 n1 caCrt caKey dir1 y1 hostsA fs1 = (None, fs2)"
      "node_files X fs2 caCrt (crt_path e1 dir1 n1) (key_path e1 dir1 n1) root c1 der1 k1" "node_cert root c1 (ev_now e1) (ev_addYears e1 (ev_now e1) y1)"
      "\<forall>q. q \<notin> {key_path e1 dir1 n1, crt_path e1 dir1 n1} \<longrightarrow> ReadFile fs2 q = ReadFile fs1 q" by blast
  have "node_files X fs2 caCrt caCrt caKey root root der0 k0" by (rule node_files_frame [OF i(2)]) (use s1(4) p1 in auto)
  from runIssue_files [OF assms(1,4) p2 this per(3) nm(2)] obtain fs3 c2 der2 where s2: "runIssue X e2 n2 caCrt caKey dir2 y2 hostsB fs2 = (None, fs3)"
      "node_files X fs3 caCrt (crt_path e2 dir2 n2) (key_path e2 dir2 n2) root c2 der2 k2" "node_cert root c2 (ev_now e2) (ev_addYears e2 (ev_now e2) y2)"
      "\<forall>q. q \<notin> {key_path e2 dir2 n2, crt_path e2 dir2 n2} \<longrightarrow> ReadFile fs3 q = ReadFile fs2 q" by blast
  have f1: "node_files X fs3 caCrt (crt_path e1 dir1 n1) (key_path e1 dir1 n1) root c1 der1 k1"
    by (rule node_files_frame [OF s1(2)]) (use s2(4) assms(7) in auto)
  have t: "NotBefore root \<le> now" "now \<le> NotAfter root" using assms(8) [of e0 y0] i(4,5) by simp_all
  have t1: "ev_now e1 \<le> now" "now \<le> ev_addYears e1 (ev_now e1) y1" using assms(8) [of e1 y1] by simp_all
  have t2: "ev_now e2 \<le> now" "now \<le> ev_addYears e2 (ev_now e2) y2" using assms(8) [of e2 y2] by simp_all
  note talks = talks_toI [OF assms(1) i(3) t]
  show ?thesis using i(1) s1(1) s2(1) talks [OF f1 s1(3) t1 s2(2,3) t2] talks [OF s2(2,3) t2 f1 s1(3) t1] by blast
qed

definition sample_ca_env :: "nat \<Rightarrow> nat ca_env" where
  "sample_ca_env k = \<lparr>ev_mkdirErr = (\<lambda>_. None), ev_openErr = (\<lambda>_. None), ev_genKey = Inr k, ev_randInt = (\<lambda>n. Inr (n - 1)), ev_now = int k,
     ev_addYears = (\<lambda>t y. t + 365 * y), ev_join = (\<lambda>dir name. dir @ ''/'' @ name), ev_isIP = (\<lambda>h. False)\<rparr>"

theorem issued_nodes_handshake_witness:
  "\<exists>fs1 fs2 fs3. runInitCA sample_x509 (sample_ca_env 0) ''certs'' 10 (\<lambda>_. None) = (None, fs1)
     \<and> runIssue sample_x509 (sample_ca_env 1) ''node1'' ''certs/ca.crt'' ''certs/ca.key'' ''certs'' 1 [] fs1 = (None, fs2)
     \<and> runIssue sample_x509 (sample_ca_env 2) ''node2'' ''certs/ca.crt'' ''certs/ca.key'' ''certs'' 1 [''host''] fs2 = (None, fs3)
     \<and> talks_to sample_x509 fs3 100 ''certs/ca.crt'' (''certs/node1.crt'', ''certs/node1.key'') (''certs/node2.crt'', ''certs/node2.key'')"
proof -
  have e: "env_ok (sample_ca_env k) k" for k by (simp add: env_ok_def sample_ca_env_def randomSerial_def)
  have p: "ev_join (sample_ca_env k) dir nm = dir @ ''/'' @ nm" for k dir nm by (simp add: sample_ca_env_def)
  have d: "distinct [''certs/ca.key'', ''certs/ca.crt'', key_path (sample_ca_env 1) ''certs'' ''node1'', crt_path (sample_ca_env 1) ''certs'' ''node1'',
      key_path (sample_ca_env 2) ''certs'' ''node2'', crt_path (sample_ca_env 2) ''certs'' ''node2'']" by (simp add: p)
  have v: "ev_now en \<le> 100 \<and> 100 \<le> ev_addYears en (ev_now en) y \<and> period_ok sample_x509 en y" if "(en, y) \<in> {(sample_ca_env 0, 10), (sample_ca_env 1, 1), (sample_ca_env 2, 1)}" for en y
    using that by (auto simp: sample_ca_env_def period_ok_def sample_x509_def)
  have a: "list_all ascii (''node1'' # ''node2'' # [] @ [''host''])" by (simp add: ascii_def)
  have c: "''certs/ca.key'' = key_path (sample_ca_env 0) ''certs'' ''ca''" "''certs/ca.crt'' = crt_path (sample_ca_env 0) ''certs'' ''ca''" by (simp_all add: p)
  from issued_nodes_handshake [where fs = "\<lambda>_. None", OF sample_x509_laws e e e c d v a]
  show ?thesis by (simp add: p) blast
qed

text \<open>A node of the name \<open>ca\<close>, with its files in the directory of the authority, which is the default: its key and its certificate
  replace those of the authority.\<close>

lemma issue_named_ca_overwrites:
  assumes "runIssue X env ''ca'' caCrt caKey outDir years hosts fs = (None, fs')" "caCrt = crt_path env outDir ''ca''" "caKey = key_path env outDir ''ca''" "caKey \<noteq> caCrt"
    and "x509_laws X" "ev_genKey env = Inr nodeKey"
  shows "\<exists>kder. ReadFile fs' caKey = Some (x_pemEncode X ''EC PRIVATE KEY'' kder) \<and> x_ParseECPrivateKey X kder = Inr nodeKey"
proof -
  obtain kder where k: "x_MarshalECPrivateKey X nodeKey = Inr kder" "x_ParseECPrivateKey X kder = Inr nodeKey" using x509_lawsD(2) [OF assms(5)] by blast
  have "\<exists>der. write_pair X (ev_openErr env) caKey caCrt nodeKey der fs = (None, fs')"
    using assms(1,6) unfolding runIssue_def assms(2,3) by (auto simp: Let_def split: sum.split_asm option.split_asm prod.split_asm)
  with k assms(4) show ?thesis by (auto simp: write_pair_def writeECKey_def writeCert_def ReadFile_write split: option.split_asm)
qed

end
